(* ===== verification/Prelude.thy ===== *)
theory Prelude
  imports Main "HOL-Library.Word" "HOL-Library.AList"
begin

unbundle bit_operations_syntax

text \<open>
  Shared vocabulary of the development: the names of the machine types of the C++ code, the
  collections of rewrite rules the component theories fill, and the facts about lists, words and
  association lists that more than one component uses.
\<close>

section \<open>Machine types\<close>

type_synonym byte = "8 word"
type_synonym u16 = "16 word"
type_synonym u32 = "32 word"
type_synonym u64 = "64 word"
type_synonym conn_id = "64 word"

text \<open>
  A \<^verbatim>\<open>std::string\<close> or \<^verbatim>\<open>std::string_view\<close> is the list of its bytes; a string literal of the code
  is written as an Isabelle string and converted by \<open>lit\<close>.
\<close>

type_synonym bytes = "byte list"

definition lit :: "string \<Rightarrow> bytes" where
  "lit s = map of_char s"

lemma length_lit [simp]: "length (lit s) = length s"
  by (simp add: lit_def)

section \<open>Collections of rewrite rules\<close>

named_theorems codec_simps \<open>decoding what was encoded\<close>
named_theorems width_simps \<open>lengths of encodings\<close>
named_theorems frame_simps \<open>fields an operation leaves alone\<close>
named_theorems inv_intros \<open>operations that keep an invariant\<close>

section \<open>Lists\<close>

lemma take_drop_fill:
  assumes "r \<le> w" "w \<le> length m"
  shows "take (w - r + length d) (drop r (take w m @ d @ rest)) = take (w - r) (drop r m) @ d"
proof -
  have "drop r (take w m @ d @ rest) = take (w - r) (drop r m) @ d @ rest"
    using assms by (simp add: drop_take)
  moreover have "length (take (w - r) (drop r m)) = w - r"
    using assms by simp
  ultimately show ?thesis by simp
qed

lemma concat_map_snoc:
  "concat (map f (xs @ [x])) = concat (map f xs) @ f x"
  by simp

section \<open>Association lists: the model of \<^verbatim>\<open>std::unordered_map\<close>\<close>

text \<open>
  An \<^verbatim>\<open>unordered_map\<close> is a list of key and value pairs with distinct keys; the order of the list is
  the (unspecified) iteration order.
\<close>

abbreviation keys :: "('k \<times> 'v) list \<Rightarrow> 'k list" where
  "keys m \<equiv> map fst m"

lemma map_of_update [simp]: "map_of (AList.update k v m) = (map_of m)(k \<mapsto> v)"
  by (rule update_conv')

lemma map_of_delete [simp]: "map_of (AList.delete k m) = (map_of m)(k := None)"
  by (rule delete_conv')

lemma distinct_keys_update [intro]: "distinct (keys m) \<Longrightarrow> distinct (keys (AList.update k v m))"
  by (rule distinct_update)

lemma distinct_keys_delete [intro]: "distinct (keys m) \<Longrightarrow> distinct (keys (AList.delete k m))"
  by (rule distinct_delete)

lemma length_update:
  "length (AList.update k v m) = (if k \<in> set (keys m) then length m else Suc (length m))"
  by (induction m) auto

lemma length_delete:
  "distinct (keys m) \<Longrightarrow>
     length (AList.delete k m) = (if k \<in> set (keys m) then length m - 1 else length m)"
proof (induction m)
  case (Cons p m)
  then show ?case
    by (cases p) (auto simp: AList.delete_eq dest: length_pos_if_in_set)
qed simp

text \<open>Sums over the entries.\<close>

lemma sum_update:
  fixes f :: "'k \<times> 'v \<Rightarrow> nat"
  shows "distinct (keys m) \<Longrightarrow> sum_list (map f (AList.update k v m)) + (case map_of m k of None \<Rightarrow> 0 | Some w \<Rightarrow> f (k, w)) =
    sum_list (map f m) + f (k, v)"
  by (induction m) (auto split: option.splits)

lemma sum_delete:
  fixes f :: "'k \<times> 'v \<Rightarrow> nat"
  shows "distinct (keys m) \<Longrightarrow> sum_list (map f (AList.delete k m)) + (case map_of m k of None \<Rightarrow> 0 | Some w \<Rightarrow> f (k, w)) =
    sum_list (map f m)"
proof (induction m)
  case (Cons p m)
  have "AList.delete (fst p) m = m" if "fst p \<notin> set (keys m)" using that by (simp add: delete_idem)
  with Cons show ?case by (cases p) (auto simp: AList.delete_eq split: option.splits)
qed simp

end
