(* ===== verification/Text_Format.thy ===== *)
theory Text_Format
  imports Prelude
begin

text \<open>
  The conversions of \<^verbatim>\<open>printf\<close> and of \<^verbatim>\<open>std::to_string\<close> the code uses, on byte lists, the search for a byte in a
  \<^verbatim>\<open>std::string\<close>, and \<^verbatim>\<open>std::getline\<close>. The logger, the admin port and the metrics page share them.
\<close>

section \<open>Numbers\<close>

definition digit :: "nat \<Rightarrow> byte" where
  "digit d = (if d < 10 then word_of_nat (48 + d) else word_of_nat (87 + d))"

fun dec :: "nat \<Rightarrow> bytes" where
  "dec n = (if n < 10 then [digit n] else dec (n div 10) @ [digit (n mod 10)])"

fun hex :: "nat \<Rightarrow> bytes" where
  "hex n = (if n < 16 then [digit n] else hex (n div 16) @ [digit (n mod 16)])"

declare dec.simps [simp del] hex.simps [simp del]

definition dec_int :: "int \<Rightarrow> bytes" where
  "dec_int i = (if i < 0 then lit ''-'' @ dec (nat (- i)) else dec (nat i))"

text \<open>Zeros on the left, as in \<^verbatim>\<open>%04d\<close>.\<close>

definition pad0 :: "nat \<Rightarrow> bytes \<Rightarrow> bytes" where
  "pad0 w s = replicate (w - length s) 48 @ s"

lemma length_dec_pos: "1 \<le> length (dec n)"
  by (subst dec.simps) simp

lemma length_dec: "n < 10 ^ k \<Longrightarrow> 1 \<le> k \<Longrightarrow> length (dec n) \<le> k"
proof (induction n arbitrary: k rule: dec.induct)
  case (1 n)
  show ?case
  proof (cases "n < 10")
    case True
    then show ?thesis using 1(3) by (subst dec.simps) simp
  next
    case False
    then have "k \<noteq> 1" using 1(2) by (cases "k = 1") simp_all
    then obtain k' where k: "k = Suc k'" "1 \<le> k'" using 1(3) by (cases k) auto
    have "n div 10 < 10 ^ k'" using 1(2) k by (simp add: less_mult_imp_div_less mult.commute)
    from 1(1)[OF False this k(2)] False k show ?thesis by (subst dec.simps) simp
  qed
qed

lemma length_dec_u64: "length (dec (unat (x :: u64))) \<le> 20"
  using unsigned_less[of x, where 'a = nat] by (intro length_dec) simp_all

section \<open>Buffers\<close>

text \<open>\<^verbatim>\<open>snprintf\<close> returns the length of the whole text and stores what fits in front of the terminating zero.\<close>

definition snprintf :: "nat \<Rightarrow> bytes \<Rightarrow> int \<times> bytes" where
  "snprintf cap s = (int (length s), take (cap - 1) s)"

section \<open>Searching\<close>

text \<open>\<^verbatim>\<open>find(c, from)\<close>; \<^verbatim>\<open>npos\<close> is \<open>None\<close>.\<close>

definition find_from :: "byte \<Rightarrow> nat \<Rightarrow> bytes \<Rightarrow> nat option" where
  "find_from b from s = find (\<lambda>i. s ! i = b) [from..<length s]"

lemma find_upt_Some: "find P [m..<n] = Some i \<longleftrightarrow> m \<le> i \<and> i < n \<and> P i \<and> (\<forall>j. m \<le> j \<and> j < i \<longrightarrow> \<not> P j)"
proof
  assume "find P [m..<n] = Some i"
  then obtain k where "k < n - m" "P (m + k)" "i = m + k" "\<forall>j<k. \<not> P (m + j)" by (auto simp: find_Some_iff)
  then show "m \<le> i \<and> i < n \<and> P i \<and> (\<forall>j. m \<le> j \<and> j < i \<longrightarrow> \<not> P j)" by (metis add_diff_inverse_nat le_add1 less_diff_conv add.commute
        linorder_not_less nat_add_left_cancel_less)
next
  assume "m \<le> i \<and> i < n \<and> P i \<and> (\<forall>j. m \<le> j \<and> j < i \<longrightarrow> \<not> P j)"
  then show "find P [m..<n] = Some i" by (auto simp: find_Some_iff intro!: exI[of _ "i - m"])
qed

lemma find_from_Some:
  "find_from b m s = Some i \<longleftrightarrow> m \<le> i \<and> i < length s \<and> s ! i = b \<and> (\<forall>j. m \<le> j \<and> j < i \<longrightarrow> s ! j \<noteq> b)"
  by (simp add: find_from_def find_upt_Some)

lemma find_from_None: "find_from b m s = None \<longleftrightarrow> (\<forall>j. m \<le> j \<and> j < length s \<longrightarrow> s ! j \<noteq> b)"
  by (auto simp: find_from_def find_None_iff)

text \<open>What has been found stays where it is when more arrives.\<close>

lemma find_from_append: "find_from b m s = Some i \<Longrightarrow> find_from b m (s @ t) = Some i"
  by (auto simp: find_from_Some nth_append)

section \<open>Lines\<close>

text \<open>The lines \<^verbatim>\<open>std::getline\<close> gives one after the other; \<open>cur\<close> is what it has read of the current one.\<close>

fun lines_from :: "bytes \<Rightarrow> bytes \<Rightarrow> bytes list" where
  "lines_from cur [] = (if cur = [] then [] else [cur])"
| "lines_from cur (c # s) = (if c = 10 then cur # lines_from [] s else lines_from (cur @ [c]) s)"

lemma lines_from_line: "10 \<notin> set l \<Longrightarrow> lines_from cur (l @ 10 # rest) = (cur @ l) # lines_from [] rest"
  by (induction l arbitrary: cur) auto

end
