(* ===== verification/Ini_Reader.thy ===== *)
theory Ini_Reader
  imports Text_Format
begin

text \<open>
  \<^verbatim>\<open>src/src/core/ini_reader.h\<close> and \<^verbatim>\<open>ini_reader.cpp\<close>: sections and key = value lines. The file is its bytes; \<open>None\<close> stands for a
  file that cannot be opened.
\<close>

section \<open>Reading\<close>

definition is_blank :: "byte \<Rightarrow> bool" where
  "is_blank c \<longleftrightarrow> c = 32 \<or> c = 9 \<or> c = 13 \<or> c = 10"

definition trim :: "bytes \<Rightarrow> bytes" where
  "trim s = rev (dropWhile is_blank (rev (dropWhile is_blank s)))"

record ini_reader =
  ini_values :: "(bytes \<times> bytes) list"
  ini_error :: bytes

definition ini_new :: ini_reader where
  "ini_new = \<lparr>ini_values = [], ini_error = []\<rparr>"

definition ini_key :: "bytes \<Rightarrow> bytes \<Rightarrow> bytes" where
  "ini_key section key = section @ lit ''.'' @ key"

definition strip_bom :: "bytes \<Rightarrow> bytes" where
  "strip_bom line = (if length line \<ge> 3 \<and> take 3 line = [0xEF, 0xBB, 0xBF] then drop 3 line else line)"

definition ini_line :: "bytes \<Rightarrow> bytes \<times> (bytes \<times> bytes) list \<Rightarrow> bytes \<times> (bytes \<times> bytes) list" where
  "ini_line raw = (\<lambda>(sect, vals).
     let line = trim raw in
     if line = [] \<or> hd line = of_char CHR ''#'' \<or> hd line = of_char CHR '';'' then (sect, vals)
     else if hd line = of_char CHR ''['' \<and> last line = of_char CHR '']'' then (trim (take (length line - 2) (drop 1 line)), vals)
     else case find_from (of_char CHR ''='') 0 line of
       None \<Rightarrow> (sect, vals)
     | Some eq \<Rightarrow>
         let key = trim (take eq line); val = trim (drop (eq + 1) line)
         in if key = [] then (sect, vals) else (sect, AList.update (ini_key sect key) val vals))"

definition ini_lines :: "bytes list \<Rightarrow> bytes list" where
  "ini_lines ls = (case ls of [] \<Rightarrow> [] | l # rest \<Rightarrow> strip_bom l # rest)"

text \<open>The message in \<^verbatim>\<open>error_\<close> is Korean text in UTF-8.\<close>

definition cannot_open :: bytes where
  "cannot_open = [0xEC, 0x84, 0xA4, 0xEC, 0xA0, 0x95, 32, 0xED, 0x8C, 0x8C, 0xEC, 0x9D, 0xBC, 0xEC, 0x9D, 0x84, 32, 0xEC, 0x97, 0xB4,
     32, 0xEC, 0x88, 0x98, 32, 0xEC, 0x97, 0x86, 0xEB, 0x8B, 0xA4, 0x3A, 32]"

definition ini_load :: "bytes \<Rightarrow> bytes option \<Rightarrow> ini_reader \<Rightarrow> bool \<times> ini_reader" where
  "ini_load path file r =
     (case file of
        None \<Rightarrow> (False, r\<lparr>ini_error := cannot_open @ path\<rparr>)
      | Some text \<Rightarrow> (True, r\<lparr>ini_values := snd (fold ini_line (ini_lines (lines_from [] text)) ([], ini_values r))\<rparr>))"

definition ini_has :: "bytes \<Rightarrow> bytes \<Rightarrow> ini_reader \<Rightarrow> bool" where
  "ini_has sect key r \<longleftrightarrow> map_of (ini_values r) (ini_key sect key) \<noteq> None"

definition ini_get :: "bytes \<Rightarrow> bytes \<Rightarrow> bytes \<Rightarrow> ini_reader \<Rightarrow> bytes" where
  "ini_get sect key fallback r = (case map_of (ini_values r) (ini_key sect key) of None \<Rightarrow> fallback | Some v \<Rightarrow> v)"

section \<open>Numbers\<close>

text \<open>\<^verbatim>\<open>std::stoi\<close>: blanks, a sign and decimal digits, whatever follows; \<open>None\<close> is an exception.\<close>

definition is_digit :: "byte \<Rightarrow> bool" where
  "is_digit c \<longleftrightarrow> 48 \<le> c \<and> c \<le> 57"

definition digits_value :: "bytes \<Rightarrow> int" where
  "digits_value ds = foldl (\<lambda>v d. v * 10 + (uint d - 48)) 0 ds"

definition stoi :: "bytes \<Rightarrow> int option" where
  "stoi s =
     (let s = dropWhile (\<lambda>c. c = 32 \<or> 9 \<le> c \<and> c \<le> 13) s;
          minus = (s \<noteq> [] \<and> hd s = 45);
          s = (if s \<noteq> [] \<and> (hd s = 45 \<or> hd s = 43) then tl s else s);
          ds = takeWhile is_digit s;
          v = (if minus then - digits_value ds else digits_value ds)
      in if ds = [] \<or> v < - (2 ^ 31) \<or> 2 ^ 31 \<le> v then None else Some v)"

definition ini_get_int :: "bytes \<Rightarrow> bytes \<Rightarrow> int \<Rightarrow> ini_reader \<Rightarrow> int" where
  "ini_get_int sect key fallback r =
     (case map_of (ini_values r) (ini_key sect key) of
        None \<Rightarrow> fallback
      | Some v \<Rightarrow> (case stoi v of None \<Rightarrow> fallback | Some i \<Rightarrow> i))"

section \<open>Configuration files\<close>

text \<open>A file with its sections and their lines, with either ending of lines.\<close>

type_synonym ini_file = "(bytes \<times> (bytes \<times> bytes) list) list"

definition line_end :: "bool \<Rightarrow> bytes" where
  "line_end crlf = (if crlf then [13, 10] else [10])"

definition section_line :: "bytes \<Rightarrow> bytes" where
  "section_line sect = lit ''['' @ sect @ lit '']''"

definition value_line :: "bytes \<times> bytes \<Rightarrow> bytes" where
  "value_line kv = fst kv @ lit '' = '' @ snd kv"

definition file_lines :: "ini_file \<Rightarrow> bytes list" where
  "file_lines cfg = concat (map (\<lambda>(sect, kvs). section_line sect # map value_line kvs) cfg)"

definition print_ini :: "bool \<Rightarrow> ini_file \<Rightarrow> bytes" where
  "print_ini crlf cfg = concat (map (\<lambda>l. l @ line_end crlf) (file_lines cfg))"

definition settings :: "ini_file \<Rightarrow> (bytes \<times> bytes) list" where
  "settings cfg = concat (map (\<lambda>(sect, kvs). map (\<lambda>(k, v). (ini_key sect k, v)) kvs) cfg)"

text \<open>What can be written down so that it is read back: nothing to trim, no line feeds, and a key that looks like one.\<close>

definition plain :: "bytes \<Rightarrow> bool" where
  "plain s \<longleftrightarrow> trim s = s \<and> 10 \<notin> set s"

definition plain_key :: "bytes \<Rightarrow> bool" where
  "plain_key k \<longleftrightarrow> plain k \<and> k \<noteq> [] \<and> of_char CHR ''='' \<notin> set k \<and>
     hd k \<notin> {of_char CHR ''#'', of_char CHR '';'', of_char CHR ''[''}"

definition plain_file :: "ini_file \<Rightarrow> bool" where
  "plain_file cfg \<longleftrightarrow> (\<forall>(sect, kvs)\<in>set cfg. plain sect \<and> (\<forall>(k, v)\<in>set kvs. plain_key k \<and> plain v))"

section \<open>Trimming and cutting into lines\<close>

lemma trim_left: "\<forall>c\<in>set ws. is_blank c \<Longrightarrow> trim (ws @ s) = trim s"
  by (simp add: trim_def dropWhile_append2)

lemma trim_right:
  assumes "\<forall>c\<in>set ws. is_blank c"
  shows "trim (s @ ws) = trim s"
proof (cases "\<forall>c\<in>set s. is_blank c")
  case True
  with assms have "dropWhile is_blank (s @ ws) = []" "dropWhile is_blank s = []"
    by (auto simp: dropWhile_eq_Nil_conv simp del: dropWhile_append)
  then show ?thesis by (simp only: trim_def)
next
  case False
  then have "dropWhile is_blank (s @ ws) = dropWhile is_blank s @ ws" by (auto simp: dropWhile_append1)
  moreover have "dropWhile is_blank (rev ws @ t) = dropWhile is_blank t" for t
    using assms by (intro dropWhile_append2) simp
  ultimately show ?thesis by (simp only: trim_def rev_append)
qed

lemma dropWhile_none: "s \<noteq> [] \<Longrightarrow> \<not> P (hd s) \<Longrightarrow> dropWhile P s = s"
  by (cases s) simp_all

lemma trim_tight:
  assumes "s \<noteq> []" "\<not> is_blank (hd s)" "\<not> is_blank (last s)"
  shows "trim s = s"
  using dropWhile_none[of s is_blank] dropWhile_none[of "rev s" is_blank] assms by (simp add: trim_def hd_rev)

lemma trimmed_ends:
  assumes "trim s = s" "s \<noteq> []"
  shows "\<not> is_blank (hd s)" "\<not> is_blank (last s)"
proof -
  let ?t = "dropWhile is_blank (rev (dropWhile is_blank s))"
  have t: "rev s = ?t" using assms(1) by (metis rev_rev_ident trim_def)
  then have "hd (rev s) = hd ?t" "?t \<noteq> []" using assms(2) by (metis rev_is_Nil_conv)+
  with hd_dropWhile[of is_blank "rev (dropWhile is_blank s)"] show "\<not> is_blank (last s)" by (simp add: hd_rev)
  have "length s \<le> length (dropWhile is_blank s)"
    using t length_dropWhile_le[of is_blank "rev (dropWhile is_blank s)"] by (metis length_rev)
  moreover have "s = takeWhile is_blank s @ dropWhile is_blank s" by simp
  then have "length s = length (takeWhile is_blank s) + length (dropWhile is_blank s)" by (metis length_append)
  ultimately have "takeWhile is_blank s = []" by simp
  then show "\<not> is_blank (hd s)" using assms(2) by (cases s) (simp_all split: if_splits)
qed

lemma lines_from_print:
  assumes "\<forall>l\<in>set ls. 10 \<notin> set l"
  shows "lines_from [] (concat (map (\<lambda>l. l @ line_end crlf) ls)) = map (\<lambda>l. l @ (if crlf then [13] else [])) ls"
  using assms
proof (induction ls)
  case (Cons l ls)
  have "lines_from [] ((l @ (if crlf then [13] else [])) @ 10 # concat (map (\<lambda>l. l @ line_end crlf) ls)) =
      ([] @ l @ (if crlf then [13] else [])) # lines_from [] (concat (map (\<lambda>l. l @ line_end crlf) ls))"
    using Cons.prems by (intro lines_from_line) simp
  with Cons show ?case by (cases crlf) (simp_all add: line_end_def)
qed simp

section \<open>Reading a line back\<close>

abbreviation cr :: "bool \<Rightarrow> bytes" where
  "cr crlf \<equiv> (if crlf then [13] else [])"

lemma trim_cr: "trim (l @ cr crlf) = trim l"
  by (rule trim_right) (simp add: is_blank_def)

lemma read_section:
  assumes "plain sect"
  shows "ini_line (section_line sect @ cr crlf) (old, vals) = (sect, vals)"
proof -
  have line: "trim (section_line sect @ cr crlf) = section_line sect" unfolding trim_cr
    by (rule trim_tight) (simp_all add: section_line_def lit_def is_blank_def)
  show ?thesis
    using assms unfolding ini_line_def Let_def line by (simp add: section_line_def lit_def plain_def)
qed

lemma read_value:
  assumes "plain_key k" "plain v"
  shows "ini_line (value_line (k, v) @ cr crlf) (sect, vals) = (sect, AList.update (ini_key sect k) v vals)"
proof -
  have k: "k \<noteq> []" "\<not> is_blank (hd k)" "trim k = k" "61 \<notin> set k" "hd k \<noteq> 35" "hd k \<noteq> 59" "hd k \<noteq> 91"
    using assms(1) trimmed_ends[of k] by (simp_all add: plain_key_def plain_def)
  have line: "trim (value_line (k, v) @ cr crlf) = k @ [32, 61] @ (if v = [] then [] else 32 # v)"
  proof (cases "v = []")
    case True
    have "trim (k @ [32, 61, 32]) = trim ((k @ [32, 61]) @ [32])" by simp
    also have "\<dots> = trim (k @ [32, 61])" by (rule trim_right) (simp add: is_blank_def)
    also have "\<dots> = k @ [32, 61]" using k by (intro trim_tight) (simp_all add: is_blank_def)
    finally show ?thesis unfolding trim_cr using True by (simp add: value_line_def lit_def)
  next
    case False
    have "\<not> is_blank (last v)" using trimmed_ends[of v] assms(2) False by (simp add: plain_def)
    then have "trim (k @ [32, 61, 32] @ v) = k @ [32, 61, 32] @ v"
      using k False by (intro trim_tight) simp_all
    then show ?thesis unfolding trim_cr using False by (simp add: value_line_def lit_def)
  qed
  let ?l = "k @ [32, 61] @ (if v = [] then [] else 32 # v)"
  have eq: "find_from 61 0 ?l = Some (length k + 1)"
    using k(4) by (auto simp: find_from_Some nth_append nth_Cons' dest: nth_mem)
  have "trim (k @ [32]) = k" using trim_right[of "[32]" k] k(3) by (simp add: is_blank_def)
  moreover have "trim (drop (length k + 1 + 1) ?l) = v"
    using trim_left[of "[32]" v] assms(2) by (cases "v = []") (simp_all add: is_blank_def plain_def trim_def[of "[]"])
  ultimately show ?thesis
    using k eq unfolding ini_line_def Let_def line by simp
qed

lemma read_section_lines:
  assumes "\<forall>(k, v)\<in>set kvs. plain_key k \<and> plain v"
  shows "fold ini_line (map (\<lambda>l. l @ cr crlf) (map value_line kvs)) (sect, vals) =
    (sect, fold (\<lambda>(k, v). AList.update k v) (map (\<lambda>(k, v). (ini_key sect k, v)) kvs) vals)"
  using assms
proof (induction kvs arbitrary: vals)
  case (Cons kv kvs)
  then show ?case by (cases kv) (simp add: read_value)
qed simp

lemma read_file:
  assumes "plain_file cfg"
  shows "snd (fold ini_line (map (\<lambda>l. l @ cr crlf) (file_lines cfg)) (old, vals)) =
    fold (\<lambda>(k, v). AList.update k v) (settings cfg) vals"
  using assms
proof (induction cfg arbitrary: old vals)
  case (Cons p cfg)
  obtain sect kvs where p: "p = (sect, kvs)" by fastforce
  have pl: "plain sect" "\<forall>(k, v)\<in>set kvs. plain_key k \<and> plain v" "plain_file cfg"
    using Cons.prems by (auto simp: plain_file_def p)
  note sl = read_section_lines[OF pl(2), of crlf sect vals, unfolded map_map]
  show ?case
    using Cons.IH[OF pl(3), of sect] pl(1) sl by (simp add: file_lines_def settings_def p read_section comp_def)
qed (simp add: file_lines_def settings_def)

lemma map_of_updates: "map_of (fold (\<lambda>(k, v). AList.update k v) xs m) = map_of (rev xs @ m)"
  by (induction xs arbitrary: m) (auto simp: map_add_def fun_eq_iff split: option.split)

lemma first_line_plain:
  assumes "plain_file cfg"
  shows "\<forall>l\<in>set (file_lines cfg). 10 \<notin> set l" "file_lines cfg \<noteq> [] \<Longrightarrow> hd (file_lines cfg) \<noteq> [] \<and> hd (hd (file_lines cfg)) = 91"
proof -
  show "\<forall>l\<in>set (file_lines cfg). 10 \<notin> set l"
    using assms by (fastforce simp: file_lines_def plain_file_def plain_key_def plain_def section_line_def value_line_def lit_def)
  show "hd (file_lines cfg) \<noteq> [] \<and> hd (hd (file_lines cfg)) = 91" if "file_lines cfg \<noteq> []"
    using that by (cases cfg) (auto simp: file_lines_def section_line_def lit_def)
qed

text \<open>The three bytes some editors put in front.\<close>

abbreviation bom :: "bool \<Rightarrow> bytes" where
  "bom b \<equiv> (if b then [0xEF, 0xBB, 0xBF] else [])"

lemma ini_lines_print:
  assumes "plain_file cfg"
  shows "snd (fold ini_line (ini_lines (lines_from [] (bom b @ print_ini crlf cfg))) ([], vals)) =
    fold (\<lambda>(k, v). AList.update k v) (settings cfg) vals"
proof (cases "file_lines cfg")
  case Nil
  then have "cfg = []" by (cases cfg) (auto simp: file_lines_def)
  then show ?thesis by (simp add: print_ini_def file_lines_def ini_lines_def strip_bom_def ini_line_def trim_def settings_def)
next
  case (Cons l ls)
  note fl = first_line_plain[OF assms]
  have hd91: "l \<noteq> []" "hd l = 91" "10 \<notin> set l" using fl Cons by simp_all
  have "10 \<notin> set (bom b @ l)" using hd91 by simp
  then have "lines_from [] (concat (map (\<lambda>l. l @ line_end crlf) ((bom b @ l) # ls))) = map (\<lambda>l. l @ cr crlf) ((bom b @ l) # ls)"
    using fl(1) Cons by (intro lines_from_print) simp
  then have ll: "lines_from [] (bom b @ print_ini crlf cfg) = (bom b @ l @ cr crlf) # map (\<lambda>l. l @ cr crlf) ls"
    by (simp add: print_ini_def Cons)
  have "strip_bom (bom b @ l @ cr crlf) = l @ cr crlf"
    using hd91 by (cases l) (auto simp: strip_bom_def)
  then have "ini_lines (lines_from [] (bom b @ print_ini crlf cfg)) = map (\<lambda>l. l @ cr crlf) (file_lines cfg)"
    by (simp add: ll ini_lines_def Cons)
  then show ?thesis by (simp only: read_file[OF assms])
qed

section \<open>Properties\<close>

text \<open>
  C38: a configuration that is written down is read back. Whatever sections, keys and values a file has, with either line ending
  and with or without a byte order mark in front, every setting of it is found with its value, the last one if it is given
  twice, and anything that is not in the file has its default.
\<close>

theorem configuration_is_read_back:
  assumes "plain_file cfg" "ini_load path (Some (bom b @ print_ini crlf cfg)) ini_new = (ok, r)"
  shows "ok \<and> ini_get sect key fallback r = (case map_of (rev (settings cfg)) (ini_key sect key) of None \<Rightarrow> fallback | Some v \<Rightarrow> v) \<and>
    (ini_has sect key r \<longleftrightarrow> ini_key sect key \<in> fst ` set (settings cfg)) \<and>
    ini_get_int sect key n r =
      (case map_of (rev (settings cfg)) (ini_key sect key) of None \<Rightarrow> n | Some v \<Rightarrow> (case stoi v of None \<Rightarrow> n | Some i \<Rightarrow> i))"
proof -
  have v: "ok" "ini_values r = fold (\<lambda>(k, v). AList.update k v) (settings cfg) []"
    using assms(2) ini_lines_print[OF assms(1), of b crlf "[]"] by (auto simp: ini_load_def ini_new_def)
  have m: "map_of (ini_values r) = map_of (rev (settings cfg))" using map_of_updates[of "settings cfg" "[]"] v(2) by simp
  then show ?thesis using v(1) by (simp add: ini_get_def ini_has_def ini_get_int_def map_of_eq_None_iff)
qed

theorem configuration_is_read_back_witness:
  "let cfg = [(lit ''server'', [(lit ''listen_port'', lit ''9000''), (lit ''admin_port'', lit ''9100s'')])];
       r = snd (ini_load [] (Some (bom True @ print_ini True cfg)) ini_new)
   in ini_get_int (lit ''server'') (lit ''listen_port'') 1 r = 9000 \<and> ini_get_int (lit ''server'') (lit ''admin_port'') 1 r = 9100"
proof -
  let ?cfg = "[(lit ''server'', [(lit ''listen_port'', lit ''9000''), (lit ''admin_port'', lit ''9100s'')])]"
  have p: "plain_file ?cfg" by (simp add: plain_file_def plain_key_def plain_def trim_def is_blank_def lit_def)
  obtain ok r where r: "ini_load [] (Some (bom True @ print_ini True ?cfg)) ini_new = (ok, r)"
    by (cases "ini_load [] (Some (bom True @ print_ini True ?cfg)) ini_new")
  note rb = configuration_is_read_back[OF p r, where sect = "lit ''server''" and n = 1]
  have "stoi (lit ''9000'') = Some 9000" "stoi (lit ''9100s'') = Some 9100"
    by (simp_all add: stoi_def lit_def is_digit_def digits_value_def Let_def word_le_nat_alt)
  with rb[of "lit ''listen_port''"] rb[of "lit ''admin_port''"] r show ?thesis
    by (simp add: settings_def ini_key_def lit_def)
qed

end
