(* ===== verification/Byte_Order.thy ===== *)
theory Byte_Order
  imports Prelude
begin

text \<open>
  \<^verbatim>\<open>src/src/proto/byte_order.h\<close>: big-endian loads and stores. A pointer argument is the list of the
  bytes it points to; a store returns the bytes it writes.
\<close>

section \<open>Loads and stores\<close>

definition load_be16 :: "bytes \<Rightarrow> u16" where
  "load_be16 b = push_bit 8 (ucast (b ! 0)) OR ucast (b ! 1)"

definition load_be32 :: "bytes \<Rightarrow> u32" where
  "load_be32 b = push_bit 24 (ucast (b ! 0)) OR push_bit 16 (ucast (b ! 1))
     OR push_bit 8 (ucast (b ! 2)) OR ucast (b ! 3)"

definition load_be64 :: "bytes \<Rightarrow> u64" where
  "load_be64 b = fold (\<lambda>i v. push_bit 8 v OR ucast (b ! i)) [0..<8] 0"

definition store_be16 :: "u16 \<Rightarrow> bytes" where
  "store_be16 v = [ucast (drop_bit 8 v), ucast v]"

definition store_be32 :: "u32 \<Rightarrow> bytes" where
  "store_be32 v = [ucast (drop_bit 24 v), ucast (drop_bit 16 v), ucast (drop_bit 8 v), ucast v]"

definition store_be64 :: "u64 \<Rightarrow> bytes" where
  "store_be64 v =
     fst (fold (\<lambda>i (b, v). (b[i := ucast v], drop_bit 8 v)) (rev [0..<8]) (replicate 8 0, v))"

section \<open>Loads undo stores\<close>

lemma length_store_be [width_simps, simp]:
  "length (store_be16 h) = 2" "length (store_be32 w) = 4" "length (store_be64 d) = 8"
  by (simp_all add: store_be16_def store_be32_def store_be64_def upt_rec)

lemma bit_of_byte:
  fixes v :: "'a::len word"
  shows "bit (ucast (drop_bit k v) :: byte) n \<longleftrightarrow> n < 8 \<and> bit v (k + n)"
  by (simp add: bit_simps)

lemma load_store_be16 [codec_simps]: "load_be16 (store_be16 v @ rest) = v"
  unfolding load_be16_def store_be16_def
  by (rule bit_word_eqI) (auto simp: bit_simps)

lemma load_store_be32 [codec_simps]: "load_be32 (store_be32 v @ rest) = v"
proof (rule bit_word_eqI)
  fix n assume "n < LENGTH(32)"
  then consider "n < 8" | "8 \<le> n" "n < 16" | "16 \<le> n" "n < 24" | "24 \<le> n" "n < 32"
    by (simp, linarith)
  then show "bit (load_be32 (store_be32 v @ rest)) n = bit v n"
    by cases (simp_all add: load_be32_def store_be32_def bit_simps less_diff_conv2)
qed

lemma store_be64_list:
  "store_be64 v = [ucast (drop_bit 56 v), ucast (drop_bit 48 v), ucast (drop_bit 40 v),
     ucast (drop_bit 32 v), ucast (drop_bit 24 v), ucast (drop_bit 16 v), ucast (drop_bit 8 v),
     ucast v]"
  by (simp add: store_be64_def upt_rec numeral_eq_Suc)

lemma load_store_be64 [codec_simps]: "load_be64 (store_be64 v @ rest) = v"
proof (rule bit_word_eqI)
  fix n assume "n < LENGTH(64)"
  then consider "n < 8" | "8 \<le> n" "n < 16" | "16 \<le> n" "n < 24" | "24 \<le> n" "n < 32"
    | "32 \<le> n" "n < 40" | "40 \<le> n" "n < 48" | "48 \<le> n" "n < 56" | "56 \<le> n" "n < 64"
    by (simp, linarith)
  then show "bit (load_be64 (store_be64 v @ rest)) n = bit v n"
    by cases (simp_all add: load_be64_def store_be64_list bit_simps upt_rec less_diff_conv2)
qed

section \<open>Stores undo loads\<close>

lemma upt_numerals:
  "[0..<2] = [0, 1 :: nat]" "[0..<4] = [0, 1, 2, 3 :: nat]"
  "[0..<8] = [0, 1, 2, 3, 4, 5, 6, 7 :: nat]"
  by code_simp+

lemma take_nths: "n \<le> length b \<Longrightarrow> take n b = map ((!) b) [0..<n]"
  by (simp add: list_eq_iff_nth_eq)

lemma store_load_be16: "2 \<le> length b \<Longrightarrow> store_be16 (load_be16 b) = take 2 b"
  by (auto simp: take_nths upt_numerals store_be16_def load_be16_def bit_eq_iff bit_simps
      dest: bit_imp_le_length)

lemma store_load_be32: "4 \<le> length b \<Longrightarrow> store_be32 (load_be32 b) = take 4 b"
  by (auto simp: take_nths upt_numerals store_be32_def load_be32_def bit_eq_iff bit_simps
      dest: bit_imp_le_length)

lemma store_load_be64: "8 \<le> length b \<Longrightarrow> store_be64 (load_be64 b) = take 8 b"
  by (auto simp: take_nths upt_numerals store_be64_list load_be64_def bit_eq_iff bit_simps
      dest: bit_imp_le_length)

end
