(* ===== verification/Byte_Codec.thy ===== *)
theory Byte_Codec
  imports Byte_Order
begin

text \<open>
  \<^verbatim>\<open>src/src/proto/byte_reader.h\<close> and \<^verbatim>\<open>src/src/proto/byte_writer.h\<close>. A reader is the record of its
  four members; every read returns the value and the reader after it. A writer is the contents of
  its buffer. The locale \<open>field_codec\<close> is the contract between a \<^verbatim>\<open>ByteWriter\<close> method and the
  \<^verbatim>\<open>ByteReader\<close> method of the same name; every field type of the protocol is an interpretation of it.
\<close>

section \<open>\<^verbatim>\<open>ByteReader\<close>\<close>

record byte_reader =
  rd_data :: bytes
  rd_size :: u32
  rd_pos :: u32
  rd_ok :: bool

definition mk_reader :: "bytes \<Rightarrow> u32 \<Rightarrow> byte_reader" where
  "mk_reader data sz = \<lparr>rd_data = data, rd_size = sz, rd_pos = 0, rd_ok = True\<rparr>"

definition rd_need :: "byte_reader \<Rightarrow> u32 \<Rightarrow> bool \<times> byte_reader" where
  "rd_need r n =
     (if \<not> rd_ok r then (False, r)
      else if rd_size r - rd_pos r < n then (False, r\<lparr>rd_ok := False\<rparr>)
      else (True, r))"

definition rd_u8 :: "byte_reader \<Rightarrow> byte \<times> byte_reader" where
  "rd_u8 r = (case rd_need r 1 of
       (False, r') \<Rightarrow> (0, r')
     | (True, r') \<Rightarrow> (rd_data r' ! unat (rd_pos r'), r'\<lparr>rd_pos := rd_pos r' + 1\<rparr>))"

definition rd_u16 :: "byte_reader \<Rightarrow> u16 \<times> byte_reader" where
  "rd_u16 r = (case rd_need r 2 of
       (False, r') \<Rightarrow> (0, r')
     | (True, r') \<Rightarrow> (load_be16 (drop (unat (rd_pos r')) (rd_data r')),
                      r'\<lparr>rd_pos := rd_pos r' + 2\<rparr>))"

definition rd_u32 :: "byte_reader \<Rightarrow> u32 \<times> byte_reader" where
  "rd_u32 r = (case rd_need r 4 of
       (False, r') \<Rightarrow> (0, r')
     | (True, r') \<Rightarrow> (load_be32 (drop (unat (rd_pos r')) (rd_data r')),
                      r'\<lparr>rd_pos := rd_pos r' + 4\<rparr>))"

definition rd_u64 :: "byte_reader \<Rightarrow> u64 \<times> byte_reader" where
  "rd_u64 r = (case rd_need r 8 of
       (False, r') \<Rightarrow> (0, r')
     | (True, r') \<Rightarrow> (load_be64 (drop (unat (rd_pos r')) (rd_data r')),
                      r'\<lparr>rd_pos := rd_pos r' + 8\<rparr>))"

definition rd_i64 :: "byte_reader \<Rightarrow> int \<times> byte_reader" where
  "rd_i64 r = (case rd_u64 r of (v, r') \<Rightarrow> (sint v, r'))"

definition rd_str :: "byte_reader \<Rightarrow> bytes \<times> byte_reader" where
  "rd_str r = (case rd_u16 r of (h, r1) \<Rightarrow>
     (let n = (ucast h :: u32) in
      if \<not> rd_ok r1 then ([], r1)
      else (case rd_need r1 n of
          (False, r2) \<Rightarrow> ([], r2)
        | (True, r2) \<Rightarrow> (take (unat n) (drop (unat (rd_pos r2)) (rd_data r2)),
                         r2\<lparr>rd_pos := rd_pos r2 + n\<rparr>))))"

definition consumed_all :: "byte_reader \<Rightarrow> bool" where
  "consumed_all r \<longleftrightarrow> rd_ok r \<and> rd_pos r = rd_size r"

definition rd_remaining :: "byte_reader \<Rightarrow> u32" where
  "rd_remaining r = (if rd_ok r then rd_size r - rd_pos r else 0)"

section \<open>\<^verbatim>\<open>ByteWriter\<close>\<close>

definition bw_u8 :: "byte \<Rightarrow> bytes \<Rightarrow> bytes" where
  "bw_u8 v buf = buf @ [v]"

definition bw_u16 :: "u16 \<Rightarrow> bytes \<Rightarrow> bytes" where
  "bw_u16 v buf = buf @ store_be16 v"

definition bw_u32 :: "u32 \<Rightarrow> bytes \<Rightarrow> bytes" where
  "bw_u32 v buf = buf @ store_be32 v"

definition bw_u64 :: "u64 \<Rightarrow> bytes \<Rightarrow> bytes" where
  "bw_u64 v buf = buf @ store_be64 v"

definition bw_i64 :: "int \<Rightarrow> bytes \<Rightarrow> bytes" where
  "bw_i64 v buf = bw_u64 (word_of_int v) buf"

definition bw_str :: "bytes \<Rightarrow> bytes \<Rightarrow> bytes" where
  "bw_str s buf =
     (let n = (if length s > 0xFFFF then 0xFFFF else word_of_nat (length s)) :: u16
      in bw_u16 n buf @ take (unat n) s)"

definition bw_size :: "bytes \<Rightarrow> u32" where
  "bw_size buf = word_of_nat (length buf)"

section \<open>What a reader still has to read\<close>

definition reader_wf :: "byte_reader \<Rightarrow> bool" where
  "reader_wf r \<longleftrightarrow> unat (rd_size r) \<le> length (rd_data r) \<and> rd_pos r \<le> rd_size r"

definition unread :: "byte_reader \<Rightarrow> bytes" where
  "unread r = take (unat (rd_size r) - unat (rd_pos r)) (drop (unat (rd_pos r)) (rd_data r))"

text \<open>The reader after a successful read of \<open>n\<close> bytes.\<close>

definition advance :: "nat \<Rightarrow> byte_reader \<Rightarrow> byte_reader" where
  "advance n r = r\<lparr>rd_pos := rd_pos r + word_of_nat n\<rparr>"

lemma reader_wf_mk: "unat sz \<le> length data \<Longrightarrow> reader_wf (mk_reader data sz)"
  by (simp add: reader_wf_def mk_reader_def)

lemma unread_mk: "unread (mk_reader data sz) = take (unat sz) data"
  by (simp add: unread_def mk_reader_def)

lemma rd_ok_mk [simp]: "rd_ok (mk_reader data sz)"
  by (simp add: mk_reader_def)

lemma length_unread: "reader_wf r \<Longrightarrow> length (unread r) = unat (rd_size r) - unat (rd_pos r)"
  by (auto simp: unread_def reader_wf_def min_def)

lemma unat_size_minus_pos:
  "reader_wf r \<Longrightarrow> unat (rd_size r - rd_pos r) = unat (rd_size r) - unat (rd_pos r)"
  by (simp add: reader_wf_def unat_sub)

lemma reader_fail [simp]:
  "reader_wf (r\<lparr>rd_ok := b\<rparr>) = reader_wf r" "unread (r\<lparr>rd_ok := b\<rparr>) = unread r"
  by (simp_all add: reader_wf_def unread_def)

lemma rd_ok_advance [simp]: "rd_ok (advance n r) = rd_ok r"
  by (simp add: advance_def)

lemma rd_need_eq:
  assumes "reader_wf r"
  shows "rd_need r n =
    (if \<not> rd_ok r then (False, r)
     else if length (unread r) < unat n then (False, r\<lparr>rd_ok := False\<rparr>)
     else (True, r))"
  using assms by (simp add: rd_need_def length_unread unat_size_minus_pos word_less_nat_alt)

lemma unat_pos_advance:
  assumes "reader_wf r" and "n \<le> length (unread r)"
  shows "unat (rd_pos r + word_of_nat n) = unat (rd_pos r) + n"
proof -
  have le: "unat (rd_pos r) \<le> unat (rd_size r)"
    using assms(1) by (simp add: reader_wf_def word_le_nat_alt)
  have "unat (rd_pos r) + n \<le> unat (rd_size r)"
    using assms le by (simp add: length_unread)
  moreover have "unat (rd_size r) < 2 ^ 32"
    using unsigned_less[of "rd_size r"] by simp
  ultimately show ?thesis
    by (simp add: unat_word_ariths unat_of_nat take_bit_nat_eq_self_iff mod_add_right_eq)
qed

lemma unread_advance:
  assumes "reader_wf r" and "n \<le> length (unread r)"
  shows "unread (advance n r) = drop n (unread r)"
  using unat_pos_advance[OF assms]
  by (simp add: unread_def advance_def drop_take add.commute)

lemma reader_wf_advance [inv_intros]:
  assumes "reader_wf r" and "n \<le> length (unread r)"
  shows "reader_wf (advance n r)"
  using unat_pos_advance[OF assms] assms
  by (auto simp: reader_wf_def advance_def word_le_nat_alt length_unread)

lemma consumed_all_iff:
  assumes "reader_wf r"
  shows "consumed_all r \<longleftrightarrow> rd_ok r \<and> unread r = []"
proof -
  have "unread r = [] \<longleftrightarrow> unat (rd_size r) - unat (rd_pos r) = 0"
    using length_unread[OF assms] by (metis length_0_conv)
  also have "\<dots> \<longleftrightarrow> rd_pos r = rd_size r"
    using assms by (auto simp: reader_wf_def word_le_nat_alt word_unat_eq_iff)
  finally show ?thesis by (auto simp: consumed_all_def)
qed

section \<open>Reads in terms of the unread bytes\<close>

lemma load_take_drop:
  "2 \<le> n \<Longrightarrow> load_be16 (take n d) = load_be16 d"
  "4 \<le> n \<Longrightarrow> load_be32 (take n d) = load_be32 d"
  "8 \<le> n \<Longrightarrow> load_be64 (take n d) = load_be64 d"
  by (simp_all add: load_be16_def load_be32_def load_be64_def upt_rec)

lemma read_eqs:
  assumes wf: "reader_wf r"
  shows rd_u8_eq: "rd_u8 r = (if \<not> rd_ok r then (0, r)
      else if length (unread r) < 1 then (0, r\<lparr>rd_ok := False\<rparr>)
      else (unread r ! 0, advance 1 r))"
    and rd_u16_eq: "rd_u16 r = (if \<not> rd_ok r then (0, r)
      else if length (unread r) < 2 then (0, r\<lparr>rd_ok := False\<rparr>)
      else (load_be16 (unread r), advance 2 r))"
    and rd_u32_eq: "rd_u32 r = (if \<not> rd_ok r then (0, r)
      else if length (unread r) < 4 then (0, r\<lparr>rd_ok := False\<rparr>)
      else (load_be32 (unread r), advance 4 r))"
    and rd_u64_eq: "rd_u64 r = (if \<not> rd_ok r then (0, r)
      else if length (unread r) < 8 then (0, r\<lparr>rd_ok := False\<rparr>)
      else (load_be64 (unread r), advance 8 r))"
  using length_unread[OF wf]
  by (auto simp: rd_u8_def rd_u16_def rd_u32_def rd_u64_def rd_need_eq[OF wf] unread_def
      load_take_drop advance_def)

lemma unat_ucast_u16 [simp]: "unat (ucast (h :: u16) :: u32) = unat h"
  by (simp add: unsigned_ucast_eq take_bit_nat_eq_self_iff)
    (rule less_trans[OF unsigned_less], simp)

lemma advance_word: "r\<lparr>rd_pos := rd_pos r + w\<rparr> = advance (unat w) r"
  by (simp add: advance_def)

lemma rd_str_eq:
  assumes wf: "reader_wf r"
  shows "rd_str r =
    (let n = unat (load_be16 (unread r)) in
     if \<not> rd_ok r then ([], r)
     else if length (unread r) < 2 then ([], r\<lparr>rd_ok := False\<rparr>)
     else if length (unread r) < 2 + n then ([], (advance 2 r)\<lparr>rd_ok := False\<rparr>)
     else (take n (drop 2 (unread r)), advance n (advance 2 r)))"
proof (cases "rd_ok r \<and> 2 \<le> length (unread r)")
  case True
  then have wf2: "reader_wf (advance 2 r)" and un2: "unread (advance 2 r) = drop 2 (unread r)"
    using wf by (simp_all add: reader_wf_advance unread_advance)
  have slice: "take n (drop (unat (rd_pos (advance 2 r))) (rd_data (advance 2 r))) =
      take n (drop 2 (unread r))" if "n \<le> length (unread (advance 2 r))" for n
    using that by (subst un2[symmetric]) (simp add: unread_def)
  show ?thesis
    using True slice[of "unat (load_be16 (unread r))"]
    by (auto simp: rd_str_def rd_u16_eq[OF wf] rd_need_eq[OF wf2] Let_def un2 advance_word)
next
  case False
  then show ?thesis by (auto simp: rd_str_def rd_u16_eq[OF wf] Let_def)
qed

section \<open>The contract of a field type\<close>

locale field_codec =
  fixes enc :: "'a \<Rightarrow> bytes"
    and dec :: "byte_reader \<Rightarrow> 'a \<times> byte_reader"
    and valid :: "'a \<Rightarrow> bool"
  assumes dec_enc: "reader_wf r \<Longrightarrow> rd_ok r \<Longrightarrow> valid x \<Longrightarrow> unread r = enc x @ rest \<Longrightarrow>
      fst (dec r) = x \<and> rd_ok (snd (dec r)) \<and> unread (snd (dec r)) = rest"
    and dec_wf: "reader_wf r \<Longrightarrow> reader_wf (snd (dec r))"
    and dec_sound: "reader_wf r \<Longrightarrow> rd_ok (snd (dec r)) \<Longrightarrow>
      rd_ok r \<and> valid (fst (dec r)) \<and> unread r = enc (fst (dec r)) @ unread (snd (dec r))"
begin

lemma consumed_all_dec:
  assumes "reader_wf r"
  shows "consumed_all (snd (dec r)) \<longleftrightarrow> rd_ok r \<and> (\<exists>x. valid x \<and> unread r = enc x)"
proof
  assume "consumed_all (snd (dec r))"
  then have "rd_ok (snd (dec r))" "unread (snd (dec r)) = []"
    using assms by (simp_all add: consumed_all_iff dec_wf)
  with dec_sound[OF assms] show "rd_ok r \<and> (\<exists>x. valid x \<and> unread r = enc x)"
    by auto
next
  assume "rd_ok r \<and> (\<exists>x. valid x \<and> unread r = enc x)"
  then obtain x where "rd_ok r" "valid x" "unread r = enc x @ []" by auto
  from dec_enc[OF assms this] show "consumed_all (snd (dec r))"
    using assms by (simp add: consumed_all_iff dec_wf)
qed

lemma dec_value:
  assumes "reader_wf r" "rd_ok r" "valid x" "unread r = enc x"
  shows "fst (dec r) = x"
  using dec_enc[OF assms(1-3), of "[]"] assms(4) by simp

lemma enc_inj:
  assumes "valid x" "valid y" "enc x = enc y" "length (enc x) < 2 ^ 32"
  shows "x = y"
proof -
  let ?r = "mk_reader (enc x) (word_of_nat (length (enc x)))"
  have sz: "unat (word_of_nat (length (enc x)) :: u32) = length (enc x)"
    using assms(4) by (simp add: unat_of_nat take_bit_nat_eq_self_iff)
  have "reader_wf ?r" "unread ?r = enc x"
    by (simp_all add: reader_wf_mk unread_mk sz)
  with assms show ?thesis
    by (metis dec_value rd_ok_mk)
qed

end

text \<open>Two fields one after the other are again a field.\<close>

definition seq_enc :: "('a \<Rightarrow> bytes) \<Rightarrow> ('b \<Rightarrow> bytes) \<Rightarrow> 'a \<times> 'b \<Rightarrow> bytes" where
  "seq_enc f g p = f (fst p) @ g (snd p)"

definition seq_dec ::
  "(byte_reader \<Rightarrow> 'a \<times> byte_reader) \<Rightarrow> (byte_reader \<Rightarrow> 'b \<times> byte_reader)
     \<Rightarrow> byte_reader \<Rightarrow> ('a \<times> 'b) \<times> byte_reader" where
  "seq_dec f g r = (case f r of (x, r1) \<Rightarrow> case g r1 of (y, r2) \<Rightarrow> ((x, y), r2))"

definition seq_valid :: "('a \<Rightarrow> bool) \<Rightarrow> ('b \<Rightarrow> bool) \<Rightarrow> 'a \<times> 'b \<Rightarrow> bool" where
  "seq_valid p q v \<longleftrightarrow> p (fst v) \<and> q (snd v)"

lemma seq_dec_sel:
  "fst (seq_dec f g r) = (fst (f r), fst (g (snd (f r))))"
  "snd (seq_dec f g r) = snd (g (snd (f r)))"
  by (simp_all add: seq_dec_def split: prod.split)

locale field_pair =
  a: field_codec enca deca valida + b: field_codec encb decb validb
  for enca :: "'a \<Rightarrow> bytes" and deca valida
    and encb :: "'b \<Rightarrow> bytes" and decb validb

sublocale field_pair \<subseteq> pair: field_codec
  "seq_enc enca encb" "seq_dec deca decb" "seq_valid valida validb"
proof (unfold_locales, goal_cases)
  case (1 r x rest)
  then have "unread r = enca (fst x) @ (encb (snd x) @ rest)" "valida (fst x)" "validb (snd x)"
    by (simp_all add: seq_enc_def seq_valid_def)
  from a.dec_enc[OF 1(1,2) this(2,1)] b.dec_enc[OF a.dec_wf[OF 1(1)] _ this(3)]
  show ?case by (simp add: seq_dec_sel)
next
  case (2 r)
  then show ?case by (simp add: seq_dec_sel a.dec_wf b.dec_wf)
next
  case (3 r)
  from b.dec_sound[OF a.dec_wf[OF 3(1)]] 3(2) a.dec_sound[OF 3(1)]
  show ?case by (simp add: seq_dec_sel seq_enc_def seq_valid_def)
qed

section \<open>Every field type keeps the contract\<close>

definition enc_u8 :: "byte \<Rightarrow> bytes" where "enc_u8 v = bw_u8 v []"
definition enc_u16 :: "u16 \<Rightarrow> bytes" where "enc_u16 v = bw_u16 v []"
definition enc_u32 :: "u32 \<Rightarrow> bytes" where "enc_u32 v = bw_u32 v []"
definition enc_u64 :: "u64 \<Rightarrow> bytes" where "enc_u64 v = bw_u64 v []"
definition enc_i64 :: "int \<Rightarrow> bytes" where "enc_i64 v = bw_i64 v []"
definition enc_str :: "bytes \<Rightarrow> bytes" where "enc_str s = bw_str s []"

definition any :: "'a \<Rightarrow> bool" where "any x \<longleftrightarrow> True"
definition int64_range :: "int \<Rightarrow> bool" where "int64_range v \<longleftrightarrow> - (2 ^ 63) \<le> v \<and> v < 2 ^ 63"
definition str_fits :: "bytes \<Rightarrow> bool" where "str_fits s \<longleftrightarrow> length s \<le> 0xFFFF"

lemmas enc_defs = enc_u8_def enc_u16_def enc_u32_def enc_u64_def enc_i64_def enc_str_def
lemmas bw_defs = bw_u8_def bw_u16_def bw_u32_def bw_u64_def bw_i64_def

text \<open>Writing appends the encoding of the field to the buffer.\<close>

lemma bw_append [codec_simps]:
  "bw_u8 b buf = buf @ enc_u8 b" "bw_u16 h buf = buf @ enc_u16 h" "bw_u32 w buf = buf @ enc_u32 w"
  "bw_u64 d buf = buf @ enc_u64 d" "bw_i64 i buf = buf @ enc_i64 i" "bw_str s buf = buf @ enc_str s"
  by (simp_all add: bw_defs enc_defs bw_str_def Let_def)

lemma length_enc [width_simps]:
  "length (enc_u8 b) = 1" "length (enc_u16 h) = 2" "length (enc_u32 w) = 4" "length (enc_u64 d) = 8"
  "length (enc_i64 i) = 8"
  by (simp_all add: enc_defs bw_defs)

lemma enc_str_fits: "str_fits s \<Longrightarrow> enc_str s = store_be16 (word_of_nat (length s)) @ s"
  by (simp add: enc_str_def bw_str_def bw_u16_def str_fits_def Let_def unat_of_nat
      take_bit_nat_eq_self_iff)

lemma length_enc_str [width_simps]: "length (enc_str s) = 2 + min (length s) 0xFFFF"
  by (auto simp: enc_str_def bw_str_def bw_u16_def Let_def unat_of_nat take_bit_nat_eq_self_iff
      min_def)

lemma enc_str_cons: "str_fits s \<Longrightarrow> enc_str s @ rest = store_be16 (word_of_nat (length s)) @ s @ rest"
  by (simp add: enc_str_fits)

interpretation u8: field_codec enc_u8 rd_u8 any
proof (unfold_locales, goal_cases)
  case (3 r)
  then show ?case
    by (cases "unread r")
      (auto simp: rd_u8_eq unread_advance enc_defs bw_defs any_def split: if_splits)
qed (auto simp: rd_u8_eq unread_advance enc_defs bw_defs Suc_le_eq
    intro!: reader_wf_advance split: if_splits)

interpretation u16: field_codec enc_u16 rd_u16 any
  by unfold_locales
    (auto simp: rd_u16_eq unread_advance reader_wf_advance enc_defs bw_defs any_def codec_simps
      store_load_be16 split: if_splits)

interpretation u32: field_codec enc_u32 rd_u32 any
  by unfold_locales
    (auto simp: rd_u32_eq unread_advance reader_wf_advance enc_defs bw_defs any_def codec_simps
      store_load_be32 split: if_splits)

interpretation u64: field_codec enc_u64 rd_u64 any
  by unfold_locales
    (auto simp: rd_u64_eq unread_advance reader_wf_advance enc_defs bw_defs any_def codec_simps
      store_load_be64 split: if_splits)


lemma rd_i64_sel: "fst (rd_i64 r) = sint (fst (rd_u64 r))" "snd (rd_i64 r) = snd (rd_u64 r)"
  by (simp_all add: rd_i64_def split: prod.split)

lemma sint_of_int64: "int64_range v \<Longrightarrow> sint (word_of_int v :: u64) = v"
  by (simp add: int64_range_def signed_of_int signed_take_bit_int_eq_self)

lemma int64_range_sint: "int64_range (sint (w :: u64))"
  using sint_range_size[of w] by (simp add: int64_range_def word_size)

interpretation i64: field_codec enc_i64 rd_i64 int64_range
proof (unfold_locales, goal_cases)
  case (1 r v rest)
  then have "unread r = enc_u64 (word_of_int v) @ rest" by (simp add: enc_defs bw_i64_def)
  from u64.dec_enc[OF 1(1,2) _ this] 1(3) show ?case
    by (simp add: rd_i64_sel any_def sint_of_int64)
next
  case (2 r)
  then show ?case by (simp add: rd_i64_sel u64.dec_wf)
next
  case (3 r)
  with u64.dec_sound[of r] show ?case
    by (simp add: rd_i64_sel int64_range_sint enc_defs bw_i64_def)
qed

lemma str_prefix:
  assumes "str_fits s"
  shows "load_be16 (enc_str s @ rest) = word_of_nat (length s)"
    and "unat (word_of_nat (length s) :: u16) = length s"
  using assms
  by (simp_all add: enc_str_fits codec_simps unat_of_nat take_bit_nat_eq_self_iff str_fits_def)

lemma str_split:
  assumes "2 + unat (load_be16 b) \<le> length b"
  shows "b = enc_str (take (unat (load_be16 b)) (drop 2 b)) @ drop (2 + unat (load_be16 b)) b"
proof -
  let ?n = "unat (load_be16 b)" and ?s = "take (unat (load_be16 b)) (drop 2 b)"
  have n: "?n < 2 ^ 16" using unsigned_less[of "load_be16 b"] by simp
  have len: "length ?s = ?n" using assms by simp
  then have "str_fits ?s" using n by (simp add: str_fits_def)
  then have "enc_str ?s = take 2 b @ ?s"
    using assms by (simp add: enc_str_fits len store_load_be16)
  then show ?thesis by (metis append_assoc append_take_drop_id drop_drop add.commute)
qed

interpretation str: field_codec enc_str rd_str str_fits
proof (unfold_locales, goal_cases)
  case (1 r s rest)
  note p = str_prefix(1)[OF 1(3), of rest] str_prefix(2)[OF 1(3)]
  have "length (unread r) = 2 + length s + length rest"
    using 1 by (simp add: enc_str_fits)
  moreover have "drop 2 (unread r) = s @ rest"
    using 1 by (simp add: enc_str_fits)
  ultimately show ?case
    using 1(1,2) p
    by (simp add: rd_str_eq 1(4) Let_def unread_advance reader_wf_advance)
next
  case (2 r)
  then show ?case
    by (auto simp: rd_str_eq Let_def intro!: reader_wf_advance simp: unread_advance)
next
  case (3 r)
  then have ok: "rd_ok r" and len: "2 + unat (load_be16 (unread r)) \<le> length (unread r)"
    by (auto simp: rd_str_eq Let_def split: if_splits)
  have "unat (load_be16 (unread r)) < 2 ^ 16" using unsigned_less[of "load_be16 (unread r)"] by simp
  with ok len str_split[OF len] 3(1) show ?case
    by (simp add: rd_str_eq Let_def unread_advance reader_wf_advance str_fits_def add.commute)
qed

end
