(* ===== verification/Frame.thy ===== *)
theory Frame
  imports Byte_Codec
begin

text \<open>
  \<^verbatim>\<open>src/src/proto/frame.h\<close> and \<^verbatim>\<open>src/src/proto/messages.h\<close>: the length-prefixed frame, the message
  identifiers and the error codes. \<open>parse_stream\<close> is the reference the receive path is compared with:
  it cuts a whole byte stream into frames without buffers or machine integers.
\<close>

section \<open>Message identifiers and error codes\<close>

definition kAckOffset :: u16 where "kAckOffset = 100"

definition kEchoReq :: u16 where "kEchoReq = 1"
definition kSaveReq :: u16 where "kSaveReq = 2"
definition kHistoryReq :: u16 where "kHistoryReq = 3"
definition kCounterReq :: u16 where "kCounterReq = 4"
definition kPingReq :: u16 where "kPingReq = 5"
definition kChatReq :: u16 where "kChatReq = 6"

definition kSessionAck :: u16 where "kSessionAck = 100"
definition kEchoAck :: u16 where "kEchoAck = kEchoReq + kAckOffset"
definition kSaveAck :: u16 where "kSaveAck = kSaveReq + kAckOffset"
definition kHistoryAck :: u16 where "kHistoryAck = kHistoryReq + kAckOffset"
definition kCounterAck :: u16 where "kCounterAck = kCounterReq + kAckOffset"
definition kPongAck :: u16 where "kPongAck = kPingReq + kAckOffset"
definition kChatPush :: u16 where "kChatPush = kChatReq + kAckOffset"
definition kErrorAck :: u16 where "kErrorAck = 199"

lemmas msg_ids = kAckOffset_def kEchoReq_def kSaveReq_def kHistoryReq_def kCounterReq_def
  kPingReq_def kChatReq_def kSessionAck_def kEchoAck_def kSaveAck_def kHistoryAck_def
  kCounterAck_def kPongAck_def kChatPush_def kErrorAck_def

definition ack_of :: "u16 \<Rightarrow> u16" where
  "ack_of req = req + kAckOffset"

datatype error_code =
    MalformedFrame | UnknownMessage | InvalidField
  | PayloadTooLong | LimitOutOfRange
  | DbUnavailable | DbTimeout
  | ServerBusy

fun error_num :: "error_code \<Rightarrow> u16" where
  "error_num MalformedFrame = 1"
| "error_num UnknownMessage = 2"
| "error_num InvalidField = 3"
| "error_num PayloadTooLong = 10"
| "error_num LimitOutOfRange = 11"
| "error_num DbUnavailable = 20"
| "error_num DbTimeout = 21"
| "error_num ServerBusy = 30"

definition is_fatal :: "error_code \<Rightarrow> bool" where
  "is_fatal c \<longleftrightarrow> error_num c < 10"

definition kMaxPayloadBytes :: nat where "kMaxPayloadBytes = 512"
definition kMinHistoryLimit :: u16 where "kMinHistoryLimit = 1"
definition kMaxHistoryLimit :: u16 where "kMaxHistoryLimit = 100"

lemma error_num_inj: "error_num c = error_num d \<Longrightarrow> c = d"
  by (cases c; cases d) simp_all

section \<open>Frames\<close>

definition kHeaderSize :: nat where "kHeaderSize = 6"
definition kMaxInboundBody :: u32 where "kMaxInboundBody = 1024"
definition kMaxOutboundBody :: u32 where "kMaxOutboundBody = 64 * 1024"

lemmas frame_consts = kHeaderSize_def kMaxInboundBody_def kMaxOutboundBody_def

record frame_view =
  fv_msg_id :: u16
  fv_body :: bytes
  fv_size :: u32

text \<open>
  \<^verbatim>\<open>FrameResult\<close>; the out parameters \<^verbatim>\<open>out\<close> and \<^verbatim>\<open>consumed\<close>, written on success only, are the
  arguments of \<open>FrameOk\<close>.
\<close>

datatype frame_result = FrameOk frame_view int | Incomplete | TooLarge

definition peek_frame :: "bytes \<Rightarrow> int \<Rightarrow> frame_result" where
  "peek_frame data sz =
     (if sz < int kHeaderSize then Incomplete
      else let body_size = load_be32 data in
        if body_size > kMaxInboundBody then TooLarge
        else let total = word_of_nat kHeaderSize + body_size in
          if (word_of_int sz :: u32) < total then Incomplete
          else FrameOk \<lparr>fv_msg_id = load_be16 (drop 4 data),
                        fv_body = take (unat body_size) (drop kHeaderSize data),
                        fv_size = body_size\<rparr> (uint total))"

definition write_header :: "u16 \<Rightarrow> u32 \<Rightarrow> bytes" where
  "write_header msg_id body_size = store_be32 body_size @ store_be16 msg_id"

text \<open>The bytes of one frame.\<close>

definition frame_bytes :: "u16 \<Rightarrow> bytes \<Rightarrow> bytes" where
  "frame_bytes msg_id body = write_header msg_id (bw_size body) @ body"

lemma length_write_header [simp]: "length (write_header i n) = kHeaderSize"
  by (simp add: write_header_def kHeaderSize_def)

lemma length_frame_bytes: "length (frame_bytes i b) = kHeaderSize + length b"
  by (simp add: frame_bytes_def)

section \<open>What \<^verbatim>\<open>peek_frame\<close> decides\<close>

lemma unat_body_le: "body \<le> kMaxInboundBody \<longleftrightarrow> unat body \<le> 1024"
  by (simp add: kMaxInboundBody_def word_le_nat_alt)

lemma unat_total:
  "body \<le> kMaxInboundBody \<Longrightarrow> unat (word_of_nat kHeaderSize + body :: u32) = kHeaderSize + unat body"
  by (simp add: unat_body_le kHeaderSize_def unat_word_ariths)

lemma peek_frame_eq:
  assumes "length data < 2 ^ 32"
  shows "peek_frame data (int (length data)) =
    (let n = unat (load_be32 data) in
     if length data < kHeaderSize then Incomplete
     else if n > 1024 then TooLarge
     else if length data < kHeaderSize + n then Incomplete
     else FrameOk \<lparr>fv_msg_id = load_be16 (drop 4 data), fv_body = take n (drop kHeaderSize data),
            fv_size = load_be32 data\<rparr> (int (kHeaderSize + n)))"
proof -
  have sz: "unat (word_of_nat (length data) :: u32) = length data"
    using assms by (simp add: unat_of_nat take_bit_nat_eq_self_iff)
  have big: "load_be32 data > kMaxInboundBody \<longleftrightarrow> unat (load_be32 data) > 1024"
    using unat_body_le[of "load_be32 data"] by (simp add: not_le[symmetric])
  show ?thesis
  proof (cases "unat (load_be32 data) \<le> 1024")
    case True
    then have "unat (word_of_nat kHeaderSize + load_be32 data :: u32) =
        kHeaderSize + unat (load_be32 data)"
      by (intro unat_total) (simp add: unat_body_le)
    with True show ?thesis
      by (simp add: peek_frame_def Let_def word_less_nat_alt sz uint_nat kMaxInboundBody_def
          del: of_nat_unat)
  next
    case False
    then show ?thesis by (simp add: peek_frame_def Let_def big)
  qed
qed

lemma peek_frame_ok_bounds:
  assumes "length data < 2 ^ 32" and "peek_frame data (int (length data)) = FrameOk v n"
  shows "int kHeaderSize \<le> n" "n \<le> int (length data)" "n \<le> int kHeaderSize + 1024"
    "length (fv_body v) = unat (fv_size v)" "n = int kHeaderSize + int (unat (fv_size v))"
  using assms by (auto simp: peek_frame_eq Let_def not_less simp del: of_nat_unat split: if_splits)

section \<open>The reference parser\<close>

datatype stream_end = NeedMore | Malformed

definition prepend :: "'a list \<Rightarrow> 'a list \<times> 'b \<Rightarrow> 'a list \<times> 'b" where
  "prepend fs p = (fs @ fst p, snd p)"

lemma prepend_simps [simp]:
  "prepend [] p = p" "prepend fs (prepend gs p) = prepend (fs @ gs) p"
  "fst (prepend fs p) = fs @ fst p" "snd (prepend fs p) = snd p" "prepend fs (gs, q) = (fs @ gs, q)"
  by (simp_all add: prepend_def)

function parse_stream :: "bytes \<Rightarrow> (u16 \<times> bytes) list \<times> bytes \<times> stream_end" where
  "parse_stream b =
     (if length b < 6 then ([], b, NeedMore)
      else if unat (load_be32 b) > 1024 then ([], b, Malformed)
      else if length b < 6 + unat (load_be32 b) then ([], b, NeedMore)
      else prepend [(load_be16 (drop 4 b), take (unat (load_be32 b)) (drop 6 b))]
        (parse_stream (drop (6 + unat (load_be32 b)) b)))"
  by pat_completeness auto
termination
  by (relation "measure length") auto

declare parse_stream.simps [simp del]

text \<open>The same parser, driven by the code's \<^verbatim>\<open>peek_frame\<close>.\<close>

lemma parse_stream_peek:
  assumes "length b < 2 ^ 32"
  shows "parse_stream b =
    (case peek_frame b (int (length b)) of
       Incomplete \<Rightarrow> ([], b, NeedMore)
     | TooLarge \<Rightarrow> ([], b, Malformed)
     | FrameOk v n \<Rightarrow> prepend [(fv_msg_id v, fv_body v)] (parse_stream (drop (nat n) b)))"
  by (subst parse_stream.simps)
    (auto simp: peek_frame_eq[OF assms] Let_def kHeaderSize_def nat_add_distrib)

lemma load_be_append:
  "4 \<le> length b \<Longrightarrow> load_be32 (b @ c) = load_be32 b"
  "6 \<le> length b \<Longrightarrow> load_be16 (drop 4 b @ c) = load_be16 (drop 4 b)"
  by (auto simp: load_be32_def load_be16_def nth_append)

text \<open>
  Bytes that arrive later never change the frames already cut: parsing a stream is parsing its first
  part and going on with what was left over.
\<close>

lemma parse_stream_cases:
  "length b < 6 \<or> unat (load_be32 b) \<le> 1024 \<and> length b < 6 + unat (load_be32 b) \<Longrightarrow>
     parse_stream b = ([], b, NeedMore)"
  "6 \<le> length b \<Longrightarrow> unat (load_be32 b) > 1024 \<Longrightarrow> parse_stream b = ([], b, Malformed)"
  "unat (load_be32 b) \<le> 1024 \<Longrightarrow> 6 + unat (load_be32 b) \<le> length b \<Longrightarrow> parse_stream b =
     prepend [(load_be16 (drop 4 b), take (unat (load_be32 b)) (drop 6 b))]
       (parse_stream (drop (6 + unat (load_be32 b)) b))"
  by (subst parse_stream.simps, force)+

lemma parse_stream_append:
  "parse_stream (b @ c) =
     (case parse_stream b of
        (fs, rest, NeedMore) \<Rightarrow> prepend fs (parse_stream (rest @ c))
      | (fs, rest, Malformed) \<Rightarrow> (fs, rest @ c, Malformed))"
proof (induction b rule: parse_stream.induct)
  case (1 b)
  let ?n = "unat (load_be32 b)"
  consider (more) "length b < 6 \<or> ?n \<le> 1024 \<and> length b < 6 + ?n"
    | (bad) "6 \<le> length b" "?n > 1024" | (frame) "?n \<le> 1024" "6 + ?n \<le> length b"
    by linarith
  then show ?case
  proof cases
    case more
    then show ?thesis by (simp add: parse_stream_cases(1))
  next
    case bad
    then show ?thesis by (simp add: parse_stream_cases(2) load_be_append)
  next
    case frame
    then have IH: "parse_stream (drop (6 + ?n) b @ c) =
        (case parse_stream (drop (6 + ?n) b) of
           (fs, rest, NeedMore) \<Rightarrow> prepend fs (parse_stream (rest @ c))
         | (fs, rest, Malformed) \<Rightarrow> (fs, rest @ c, Malformed))"
      using 1 by simp
    from frame have "parse_stream (b @ c) =
        prepend [(load_be16 (drop 4 b), take ?n (drop 6 b))] (parse_stream (drop (6 + ?n) b @ c))"
      using parse_stream_cases(3)[of "b @ c"] by (simp add: load_be_append)
    then show ?thesis
      using parse_stream_cases(3)[OF frame] IH
      by (auto split: prod.splits stream_end.splits)
  qed
qed

lemma parse_stream_cons:
  assumes "length body \<le> 1024"
  shows "parse_stream (frame_bytes i body @ rest) = prepend [(i, body)] (parse_stream rest)"
proof -
  let ?b = "frame_bytes i body @ rest"
  have n: "unat (bw_size body) = length body"
    using assms by (simp add: bw_size_def unat_of_nat take_bit_nat_eq_self_iff)
  have l32: "load_be32 ?b = bw_size body"
    by (simp add: frame_bytes_def write_header_def codec_simps)
  have l16: "load_be16 (drop 4 ?b) = i"
    by (simp add: frame_bytes_def write_header_def codec_simps)
  have d6: "drop 6 ?b = body @ rest"
    by (simp add: frame_bytes_def write_header_def)
  then have "drop (6 + length body) ?b = rest"
    by (metis append_eq_conv_conj drop_drop add.commute)
  with assms n l32 l16 d6 parse_stream_cases(3)[of ?b] show ?thesis
    by (simp add: length_frame_bytes kHeaderSize_def)
qed

lemma parse_stream_rest:
  "parse_stream b = (fs, rest, e) \<Longrightarrow>
     b = concat (map (\<lambda>(i, body). frame_bytes i body) fs) @ rest"
proof (induction b arbitrary: fs rule: parse_stream.induct)
  case (1 b)
  let ?n = "unat (load_be32 b)"
  consider (none) "fs = []" "rest = b" | (frame) "?n \<le> 1024" "6 + ?n \<le> length b"
    using 1(2) parse_stream_cases(1,2)[of b] by fastforce
  then show ?case
  proof cases
    case frame
    then obtain gs where gs: "parse_stream (drop (6 + ?n) b) = (gs, rest, e)"
      and fs: "fs = (load_be16 (drop 4 b), take ?n (drop 6 b)) # gs"
      using 1(2) parse_stream_cases(3)[OF frame]
      by (cases "parse_stream (drop (6 + ?n) b)") auto
    have tail: "drop (6 + ?n) b = concat (map (\<lambda>(i, body). frame_bytes i body) gs) @ rest"
      using 1(1)[OF _ _ _ gs] frame by simp
    have "frame_bytes (load_be16 (drop 4 b)) (take ?n (drop 6 b)) =
        store_be32 (load_be32 b) @ store_be16 (load_be16 (drop 4 b)) @ take ?n (drop 6 b)"
      using frame by (simp add: frame_bytes_def write_header_def bw_size_def min_absorb2)
    also have "\<dots> = take 4 b @ take 2 (drop 4 b) @ take ?n (drop (4 + 2) b)"
      using frame by (simp add: store_load_be32 store_load_be16)
    also have "\<dots> = take (6 + ?n) b"
      by (simp only: take_add[symmetric] append_assoc[symmetric]) simp
    finally show ?thesis
      unfolding fs by (simp add: tail[symmetric] add.commute)
  qed simp
qed

section \<open>Properties\<close>

lemma frame_header:
  assumes "length body \<le> 1024"
  shows "load_be32 (frame_bytes i body @ rest) = bw_size body" "unat (bw_size body) = length body"
    "load_be16 (drop 4 (frame_bytes i body @ rest)) = i" "drop kHeaderSize (frame_bytes i body @ rest) = body @ rest"
  using assms
  by (simp_all add: frame_bytes_def write_header_def codec_simps kHeaderSize_def bw_size_def unat_of_nat
      take_bit_nat_eq_self_iff)

text \<open>
  C10: \<^verbatim>\<open>peek_frame\<close> reads back the frame that \<^verbatim>\<open>write_header\<close> and the body make up, whatever follows it in the
  buffer, and reports exactly the bytes of that frame as consumed.
\<close>

theorem peek_frame_reads_written_frame:
  assumes "length body \<le> 1024" "length (frame_bytes i body @ rest) < 2 ^ 32"
  shows "peek_frame (frame_bytes i body @ rest) (int (length (frame_bytes i body @ rest))) =
    FrameOk \<lparr>fv_msg_id = i, fv_body = body, fv_size = bw_size body\<rparr> (int (length (frame_bytes i body)))"
  unfolding peek_frame_eq[OF assms(2)] frame_header[OF assms(1)] Let_def
  using assms(1) by (simp add: length_frame_bytes)

theorem peek_frame_reads_written_frame_witness:
  "peek_frame (frame_bytes 5 [1, 2] @ [9]) (int (length (frame_bytes 5 [1, 2] @ [9]))) =
    FrameOk \<lparr>fv_msg_id = 5, fv_body = [1, 2], fv_size = bw_size [1, 2]\<rparr> (int (length (frame_bytes 5 [1, 2])))"
  by (rule peek_frame_reads_written_frame) (simp_all add: length_frame_bytes kHeaderSize_def)

text \<open>
  The reference parser inverts the concatenation of frames: a stream of frames with bodies of at most
  1024 bytes, followed by an incomplete rest, is cut into exactly those frames.
\<close>

theorem parse_stream_inverts_frames:
  assumes "\<forall>p\<in>set fs. length (snd p) \<le> 1024" "length rest < kHeaderSize"
  shows "parse_stream (concat (map (\<lambda>(i, body). frame_bytes i body) fs) @ rest) = (fs, rest, NeedMore)"
  using assms(1)
proof (induction fs)
  case Nil
  then show ?case using assms(2) by (simp add: parse_stream_cases(1) kHeaderSize_def)
next
  case (Cons p fs)
  then show ?case by (cases p) (simp add: parse_stream_cons)
qed

theorem parse_stream_inverts_frames_witness:
  "parse_stream (concat (map (\<lambda>(i, body). frame_bytes i body) [(1, [7]), (5, [])]) @ [0]) =
    ([(1, [7]), (5, [])], [0], NeedMore)"
  by (rule parse_stream_inverts_frames) (simp_all add: kHeaderSize_def)

end
