(* ===== verification/Uuid.thy ===== *)
theory Uuid
  imports Prelude
begin

unbundle bit_operations_syntax

text \<open>
  \<^verbatim>\<open>src/src/core/uuid.h\<close>: the 36 character session key. The two outputs of the random generator are
  arguments.
\<close>

definition kHex :: bytes where
  "kHex = lit ''0123456789abcdef''"

text \<open>\<^verbatim>\<open>write_hex\<close>: digit \<open>i\<close> of \<open>digits\<close> is the nibble at bit \<open>(digits - 1 - i) * 4\<close>.\<close>

definition write_hex :: "nat \<Rightarrow> nat \<Rightarrow> u64 \<Rightarrow> bytes \<Rightarrow> bytes" where
  "write_hex start digits v out =
     fold (\<lambda>i out. out[start + i := kHex ! unat (drop_bit ((digits - 1 - i) * 4) v AND 0xF)])
       [0..<digits] out"

definition make_session_key :: "u64 \<Rightarrow> u64 \<Rightarrow> bytes" where
  "make_session_key hi lo =
     (let out = replicate 36 (of_char CHR ''-'');
          out = write_hex 0 8 (drop_bit 32 hi) out;
          out = write_hex 9 4 (drop_bit 16 hi AND 0xFFFF) out;
          out = write_hex 14 4 (0x4000 OR (hi AND 0x0FFF)) out;
          out = write_hex 19 4 (0x8000 OR (drop_bit 48 lo AND 0x3FFF)) out;
          out = write_hex 24 12 (lo AND 0xFFFFFFFFFFFF) out
      in out)"

lemma length_write_hex [simp]: "length (write_hex s n v out) = length out"
proof -
  have "length (fold (\<lambda>i out. out[f i := g i]) xs out) = length out" for f :: "nat \<Rightarrow> nat" and g xs
    by (induction xs arbitrary: out) simp_all
  then show ?thesis by (simp add: write_hex_def)
qed

lemma write_hex_nth:
  assumes "s + n \<le> length out" "j < length out"
  shows "write_hex s n v out ! j =
    (if s \<le> j \<and> j < s + n then kHex ! unat (drop_bit ((n - 1 - (j - s)) * 4) v AND 0xF) else out ! j)"
proof -
  define g where "g i = kHex ! unat (drop_bit ((n - 1 - i) * 4) v AND 0xF)" for i
  have "k \<le> n \<Longrightarrow> length (fold (\<lambda>i out. out[s + i := g i]) [0..<k] out) = length out \<and>
      fold (\<lambda>i out. out[s + i := g i]) [0..<k] out ! j =
      (if s \<le> j \<and> j < s + k then g (j - s) else out ! j)" for k
    by (induction k) (use assms in \<open>auto simp: nth_list_update\<close>)
  from this[of n] show ?thesis by (simp add: write_hex_def g_def)
qed

lemma nibble_less: "unat (w AND 0xF :: u64) < 16"
proof -
  have "w AND 0xF \<le> (0xF :: u64)" by (rule word_and_le1)
  then show ?thesis by (simp add: word_le_nat_alt)
qed

definition is_hex_digit :: "byte \<Rightarrow> bool" where
  "is_hex_digit b \<longleftrightarrow> b \<in> set kHex"

lemma kHex_nth: "i < 16 \<Longrightarrow> is_hex_digit (kHex ! i)"
  by (auto simp: is_hex_digit_def kHex_def intro!: nth_mem)


definition uuid_dashes :: "nat set" where
  "uuid_dashes = {8, 13, 18, 23}"

lemma length_make_session_key [simp]: "length (make_session_key hi lo) = 36"
  by (simp add: make_session_key_def Let_def)

lemma make_session_key_nth:
  assumes "j < 36"
  shows "make_session_key hi lo ! j =
    (if j < 8 then kHex ! unat (drop_bit ((7 - j) * 4) (drop_bit 32 hi) AND 0xF)
     else if 9 \<le> j \<and> j < 13 then kHex ! unat (drop_bit ((12 - j) * 4) (drop_bit 16 hi AND 0xFFFF) AND 0xF)
     else if 14 \<le> j \<and> j < 18 then kHex ! unat (drop_bit ((17 - j) * 4) (0x4000 OR (hi AND 0x0FFF)) AND 0xF)
     else if 19 \<le> j \<and> j < 23
       then kHex ! unat (drop_bit ((22 - j) * 4) (0x8000 OR (drop_bit 48 lo AND 0x3FFF)) AND 0xF)
     else if 24 \<le> j then kHex ! unat (drop_bit ((35 - j) * 4) (lo AND 0xFFFFFFFFFFFF) AND 0xF)
     else of_char CHR ''-'')"
  using assms by (simp add: make_session_key_def Let_def write_hex_nth)

text \<open>The masks of the code, bit by bit.\<close>

declare bit_numeral_word_iff [simp del]

lemma mask_bits:
  "bit (0xF :: u64) n \<longleftrightarrow> n < 4" "bit (0x0FFF :: u64) n \<longleftrightarrow> n < 12" "bit (0x3FFF :: u64) n \<longleftrightarrow> n < 14"
  "bit (0xFFFF :: u64) n \<longleftrightarrow> n < 16" "bit (0xFFFFFFFFFFFF :: u64) n \<longleftrightarrow> n < 48"
  "bit (0x4000 :: u64) n \<longleftrightarrow> n = 14" "bit (0x8000 :: u64) n \<longleftrightarrow> n = 15"
  "bit (4 :: u64) n \<longleftrightarrow> n = 2" "bit (8 :: u64) n \<longleftrightarrow> n = 3" "bit (3 :: u64) n \<longleftrightarrow> n < 2"
  "bit (0xFFFFFFFFFFFF0FFF :: u64) n \<longleftrightarrow> n < 64 \<and> \<not> (12 \<le> n \<and> n < 16)"
  "bit (0x3FFFFFFFFFFFFFFF :: u64) n \<longleftrightarrow> n < 62"
proof -
  have m: "(0xF :: u64) = mask 4" "(0x0FFF :: u64) = mask 12" "(0x3FFF :: u64) = mask 14"
    "(0xFFFF :: u64) = mask 16" "(0xFFFFFFFFFFFF :: u64) = mask 48" "(3 :: u64) = mask 2"
    "(0x4000 :: u64) = push_bit 14 1" "(0x8000 :: u64) = push_bit 15 1"
    "(4 :: u64) = push_bit 2 1" "(8 :: u64) = push_bit 3 1"
    "(0xFFFFFFFFFFFF0FFF :: u64) = NOT (push_bit 12 (mask 4))" "(0x3FFFFFFFFFFFFFFF :: u64) = mask 62"
    by (simp_all add: mask_eq_exp_minus_1 push_bit_eq_mult)
  show "bit (0xF :: u64) n \<longleftrightarrow> n < 4" "bit (0x0FFF :: u64) n \<longleftrightarrow> n < 12" "bit (0x3FFF :: u64) n \<longleftrightarrow> n < 14"
    "bit (0xFFFF :: u64) n \<longleftrightarrow> n < 16" "bit (0xFFFFFFFFFFFF :: u64) n \<longleftrightarrow> n < 48"
    "bit (0x4000 :: u64) n \<longleftrightarrow> n = 14" "bit (0x8000 :: u64) n \<longleftrightarrow> n = 15"
    "bit (4 :: u64) n \<longleftrightarrow> n = 2" "bit (8 :: u64) n \<longleftrightarrow> n = 3" "bit (3 :: u64) n \<longleftrightarrow> n < 2"
    "bit (0xFFFFFFFFFFFF0FFF :: u64) n \<longleftrightarrow> n < 64 \<and> \<not> (12 \<le> n \<and> n < 16)"
  "bit (0x3FFFFFFFFFFFFFFF :: u64) n \<longleftrightarrow> n < 62"
    unfolding m by (auto simp: bit_not_iff bit_push_bit_iff bit_mask_iff bit_1_iff simp del: push_bit_numeral push_bit_of_1)
qed

lemma version_nibble: "unat (drop_bit 12 (0x4000 OR (hi AND 0x0FFF)) AND 0xF :: u64) = 4"
proof -
  have "drop_bit 12 (0x4000 OR (hi AND 0x0FFF)) AND 0xF = (4 :: u64)"
    by (rule bit_word_eqI) (auto simp: bit_and_iff bit_or_iff bit_drop_bit_eq mask_bits)
  then show ?thesis by simp
qed

lemma variant_nibble:
  "unat (drop_bit 12 (0x8000 OR (x AND 0x3FFF)) AND 0xF :: u64) \<in> {8, 9, 10, 11}"
proof -
  define y where "y = drop_bit 12 x AND (3 :: u64)"
  have eq: "drop_bit 12 (0x8000 OR (x AND 0x3FFF)) AND 0xF = 8 OR y"
    by (rule bit_word_eqI) (auto simp: y_def bit_and_iff bit_or_iff bit_drop_bit_eq mask_bits)
  have "unat y \<le> 3"
    using word_and_le1[of "drop_bit 12 x" 3] by (simp add: y_def word_le_nat_alt)
  then consider "unat y = unat (0 :: u64)" | "unat y = unat (1 :: u64)" | "unat y = unat (2 :: u64)"
    | "unat y = unat (3 :: u64)"
    by (simp, linarith)
  then have "y \<in> {0, 1, 2, 3}" by cases (simp_all add: word_unat_eq_iff)
  then show ?thesis unfolding eq by auto
qed

lemma kHex_inj: "i < 16 \<Longrightarrow> j < 16 \<Longrightarrow> kHex ! i = kHex ! j \<Longrightarrow> i = j"
proof -
  have "distinct kHex" by (simp add: kHex_def lit_def)
  then show "i < 16 \<Longrightarrow> j < 16 \<Longrightarrow> kHex ! i = kHex ! j \<Longrightarrow> i = j"
    by (simp add: nth_eq_iff_index_eq kHex_def)
qed

lemma nibbles_eq_bits:
  fixes v w :: u64
  assumes "\<And>i. i < d \<Longrightarrow> kHex ! unat (drop_bit (i * 4) v AND 0xF) = kHex ! unat (drop_bit (i * 4) w AND 0xF)"
    and "n < d * 4"
  shows "bit v n = bit w n"
proof -
  have "unat (drop_bit (n div 4 * 4) v AND 0xF) = unat (drop_bit (n div 4 * 4) w AND 0xF)"
    using assms by (intro kHex_inj nibble_less) (simp add: less_mult_imp_div_less)
  then have eq: "drop_bit (n div 4 * 4) v AND 0xF = drop_bit (n div 4 * 4) w AND 0xF"
    by (simp only: word_unat_eq_iff)
  have "bit u n = bit (drop_bit (n div 4 * 4) u AND 0xF) (n mod 4)" for u :: u64
    by (simp add: bit_and_iff bit_drop_bit_eq mask_bits)
  then show ?thesis by (simp only: eq)
qed

text \<open>
  The 122 bits of the two generator outputs that reach the key: all but the version nibble of \<open>hi\<close> and
  the two variant bits of \<open>lo\<close>.
\<close>

definition random_bits :: "u64 \<Rightarrow> u64 \<Rightarrow> u64 \<times> u64" where
  "random_bits hi lo = (hi AND 0xFFFFFFFFFFFF0FFF, lo AND 0x3FFFFFFFFFFFFFFF)"

lemma key_segments:
  "j < 8 \<Longrightarrow> make_session_key hi lo ! j = kHex ! unat (drop_bit ((7 - j) * 4) (drop_bit 32 hi) AND 0xF)"
  "9 \<le> j \<Longrightarrow> j < 13 \<Longrightarrow> make_session_key hi lo ! j =
     kHex ! unat (drop_bit ((12 - j) * 4) (drop_bit 16 hi AND 0xFFFF) AND 0xF)"
  "14 \<le> j \<Longrightarrow> j < 18 \<Longrightarrow> make_session_key hi lo ! j =
     kHex ! unat (drop_bit ((17 - j) * 4) (0x4000 OR (hi AND 0x0FFF)) AND 0xF)"
  "19 \<le> j \<Longrightarrow> j < 23 \<Longrightarrow> make_session_key hi lo ! j =
     kHex ! unat (drop_bit ((22 - j) * 4) (0x8000 OR (drop_bit 48 lo AND 0x3FFF)) AND 0xF)"
  "24 \<le> j \<Longrightarrow> j < 36 \<Longrightarrow> make_session_key hi lo ! j =
     kHex ! unat (drop_bit ((35 - j) * 4) (lo AND 0xFFFFFFFFFFFF) AND 0xF)"
  by (simp_all add: make_session_key_nth)

lemma key_bits_hi:
  assumes eq: "make_session_key hi lo = make_session_key hi' lo'"
  shows "n < 32 \<Longrightarrow> bit (drop_bit 32 hi) n = bit (drop_bit 32 hi') n"
    and "n < 16 \<Longrightarrow> bit (drop_bit 16 hi AND 0xFFFF) n = bit (drop_bit 16 hi' AND 0xFFFF) n"
    and "n < 16 \<Longrightarrow> bit (0x4000 OR (hi AND 0x0FFF)) n = bit (0x4000 OR (hi' AND 0x0FFF)) n"
proof -
  have nth: "make_session_key hi lo ! j = make_session_key hi' lo' ! j" for j using eq by simp
  show "bit (drop_bit 32 hi) n = bit (drop_bit 32 hi') n" if "n < 32"
  proof (rule nibbles_eq_bits[where d = 8])
    show "kHex ! unat (drop_bit (i * 4) (drop_bit 32 hi) AND 0xF) =
        kHex ! unat (drop_bit (i * 4) (drop_bit 32 hi') AND 0xF)" if "i < 8" for i
      using nth[of "7 - i"] that key_segments(1)[of "7 - i"] by simp
  qed (use that in simp)
  show "bit (drop_bit 16 hi AND 0xFFFF) n = bit (drop_bit 16 hi' AND 0xFFFF) n" if "n < 16"
  proof (rule nibbles_eq_bits[where d = 4])
    show "kHex ! unat (drop_bit (i * 4) (drop_bit 16 hi AND 0xFFFF) AND 0xF) =
        kHex ! unat (drop_bit (i * 4) (drop_bit 16 hi' AND 0xFFFF) AND 0xF)" if "i < 4" for i
      using nth[of "12 - i"] that key_segments(2)[of "12 - i"] by simp
  qed (use that in simp)
  show "bit (0x4000 OR (hi AND 0x0FFF)) n = bit (0x4000 OR (hi' AND 0x0FFF)) n" if "n < 16"
  proof (rule nibbles_eq_bits[where d = 4])
    show "kHex ! unat (drop_bit (i * 4) (0x4000 OR (hi AND 0x0FFF)) AND 0xF) =
        kHex ! unat (drop_bit (i * 4) (0x4000 OR (hi' AND 0x0FFF)) AND 0xF)" if "i < 4" for i
      using nth[of "17 - i"] that key_segments(3)[of "17 - i"] by simp
  qed (use that in simp)
qed

lemma key_bits_lo:
  assumes eq: "make_session_key hi lo = make_session_key hi' lo'"
  shows "n < 16 \<Longrightarrow> bit (0x8000 OR (drop_bit 48 lo AND 0x3FFF)) n = bit (0x8000 OR (drop_bit 48 lo' AND 0x3FFF)) n"
    and "n < 48 \<Longrightarrow> bit (lo AND 0xFFFFFFFFFFFF) n = bit (lo' AND 0xFFFFFFFFFFFF) n"
proof -
  have nth: "make_session_key hi lo ! j = make_session_key hi' lo' ! j" for j using eq by simp
  show "bit (0x8000 OR (drop_bit 48 lo AND 0x3FFF)) n = bit (0x8000 OR (drop_bit 48 lo' AND 0x3FFF)) n" if "n < 16"
  proof (rule nibbles_eq_bits[where d = 4])
    show "kHex ! unat (drop_bit (i * 4) (0x8000 OR (drop_bit 48 lo AND 0x3FFF)) AND 0xF) =
        kHex ! unat (drop_bit (i * 4) (0x8000 OR (drop_bit 48 lo' AND 0x3FFF)) AND 0xF)" if "i < 4" for i
      using nth[of "22 - i"] that key_segments(4)[of "22 - i"] by simp
  qed (use that in simp)
  show "bit (lo AND 0xFFFFFFFFFFFF) n = bit (lo' AND 0xFFFFFFFFFFFF) n" if "n < 48"
  proof (rule nibbles_eq_bits[where d = 12])
    show "kHex ! unat (drop_bit (i * 4) (lo AND 0xFFFFFFFFFFFF) AND 0xF) =
        kHex ! unat (drop_bit (i * 4) (lo' AND 0xFFFFFFFFFFFF) AND 0xF)" if "i < 12" for i
      using nth[of "35 - i"] that key_segments(5)[of "35 - i"] by simp
  qed (use that in simp)
qed

lemma key_determines_random_bits:
  assumes eq: "make_session_key hi lo = make_session_key hi' lo'"
  shows "random_bits hi lo = random_bits hi' lo'"
proof -
  note simps = bit_and_iff bit_or_iff bit_drop_bit_eq bit_not_iff mask_bits
  have "hi AND 0xFFFFFFFFFFFF0FFF = hi' AND 0xFFFFFFFFFFFF0FFF"
  proof (rule bit_word_eqI)
    fix n assume "n < LENGTH(64)"
    then show "bit (hi AND 0xFFFFFFFFFFFF0FFF) n = bit (hi' AND 0xFFFFFFFFFFFF0FFF) n"
      using key_bits_hi(1)[OF eq, of "n - 32"] key_bits_hi(2)[OF eq, of "n - 16"] key_bits_hi(3)[OF eq, of n]
      by (cases "n < 12"; cases "n < 16"; cases "n < 32") (auto simp: simps)
  qed
  moreover have "lo AND 0x3FFFFFFFFFFFFFFF = lo' AND 0x3FFFFFFFFFFFFFFF"
  proof (rule bit_word_eqI)
    fix n assume "n < LENGTH(64)"
    then show "bit (lo AND 0x3FFFFFFFFFFFFFFF) n = bit (lo' AND 0x3FFFFFFFFFFFFFFF) n"
      using key_bits_lo(1)[OF eq, of "n - 48"] key_bits_lo(2)[OF eq, of n]
      by (cases "n < 48"; cases "n < 62") (auto simp: simps less_diff_conv2)
  qed
  ultimately show ?thesis by (simp add: random_bits_def)
qed

lemma key_of_random_bits:
  "make_session_key hi lo = make_session_key (fst (random_bits hi lo)) (snd (random_bits hi lo))"
proof -
  have "drop_bit 32 (hi AND 0xFFFFFFFFFFFF0FFF) = drop_bit 32 hi"
    by (rule bit_word_eqI, unfold bit_drop_bit_eq bit_and_iff o_def mask_bits) (auto dest: bit_imp_le_length)
  moreover have "drop_bit 16 (hi AND 0xFFFFFFFFFFFF0FFF) AND 0xFFFF = drop_bit 16 hi AND 0xFFFF"
    by (rule bit_word_eqI, unfold bit_drop_bit_eq bit_and_iff o_def mask_bits) (auto dest: bit_imp_le_length)
  moreover have "(hi AND 0xFFFFFFFFFFFF0FFF) AND 0x0FFF = hi AND 0x0FFF"
    by (rule bit_word_eqI, unfold bit_drop_bit_eq bit_and_iff o_def mask_bits) (auto dest: bit_imp_le_length)
  moreover have "drop_bit 48 (lo AND 0x3FFFFFFFFFFFFFFF) AND 0x3FFF = drop_bit 48 lo AND 0x3FFF"
    by (rule bit_word_eqI, unfold bit_drop_bit_eq bit_and_iff o_def mask_bits) (auto dest: bit_imp_le_length)
  moreover have "(lo AND 0x3FFFFFFFFFFFFFFF) AND 0xFFFFFFFFFFFF = lo AND 0xFFFFFFFFFFFF"
    by (rule bit_word_eqI, unfold bit_drop_bit_eq bit_and_iff o_def mask_bits) (auto dest: bit_imp_le_length)
  ultimately show ?thesis by (simp only: make_session_key_def random_bits_def fst_conv snd_conv)
qed

section \<open>Properties\<close>

text \<open>
  Two session keys are equal exactly if the 122 random bits they were made from are equal: formatting
  neither drops nor merges random bits.
\<close>

theorem session_keys_keep_random_bits:
  "make_session_key hi lo = make_session_key hi' lo' \<longleftrightarrow> random_bits hi lo = random_bits hi' lo'"
  using key_determines_random_bits key_of_random_bits by metis

end
