(* ===== verification/Ieee_Double.thy ===== *)
theory Ieee_Double
  imports Complex_Main "HOL-Library.Log_Nat"
begin

text \<open>
  The C++ type \<^verbatim>\<open>double\<close> as the code uses it: finite values are rationals, and the result of every
  arithmetic operation is rounded to the nearest number with a 53 bit significand, ties to even. The
  values of this program (token counts, rates, sample counts) are far from the subnormal and overflow
  ranges, which are left out.
\<close>

section \<open>Rounding\<close>

definition round_even :: "rat \<Rightarrow> int" where
  "round_even x =
     (let f = \<lfloor>x\<rfloor>; d = x - of_int f in
      if d < 1 / 2 then f else if d > 1 / 2 then f + 1 else if even f then f else f + 1)"

text \<open>The binary exponent of a positive rational.\<close>

definition exponent2 :: "rat \<Rightarrow> int" where
  "exponent2 x = (case quotient_of x of (a, b) \<Rightarrow>
     (let k = bitlen a - bitlen b in if 2 powi k \<le> x then k else k - 1))"

definition round_pos :: "rat \<Rightarrow> rat" where
  "round_pos x = (let u = 2 powi (exponent2 x - 52) in of_int (round_even (x / u)) * u)"

definition rnd :: "rat \<Rightarrow> rat" where
  "rnd x = (if x = 0 then 0 else if x > 0 then round_pos x else - round_pos (- x))"

definition dadd :: "rat \<Rightarrow> rat \<Rightarrow> rat" where "dadd x y = rnd (x + y)"
definition dsub :: "rat \<Rightarrow> rat \<Rightarrow> rat" where "dsub x y = rnd (x - y)"
definition dmul :: "rat \<Rightarrow> rat \<Rightarrow> rat" where "dmul x y = rnd (x * y)"
definition ddiv :: "rat \<Rightarrow> rat \<Rightarrow> rat" where "ddiv x y = rnd (x / y)"

text \<open>\<^verbatim>\<open>static_cast<double>\<close> of an integer.\<close>

definition double_of_int :: "int \<Rightarrow> rat" where "double_of_int n = rnd (of_int n)"

section \<open>Rounding is monotone and exact on 53 bit integers\<close>

lemma round_even_of_int [simp]: "round_even (of_int n) = n"
  by (simp add: round_even_def Let_def)

lemma round_even_bounds: "\<lfloor>x\<rfloor> \<le> round_even x" "round_even x \<le> \<lfloor>x\<rfloor> + 1"
  by (simp_all add: round_even_def Let_def)

lemma round_even_mono: "x \<le> y \<Longrightarrow> round_even x \<le> round_even y"
proof -
  assume xy: "x \<le> y"
  then have "\<lfloor>x\<rfloor> \<le> \<lfloor>y\<rfloor>" by (rule floor_mono)
  then consider "\<lfloor>x\<rfloor> = \<lfloor>y\<rfloor>" | "\<lfloor>x\<rfloor> + 1 \<le> \<lfloor>y\<rfloor>" by linarith
  then show ?thesis
  proof cases
    case 1
    with xy show ?thesis by (auto simp: round_even_def Let_def)
  next
    case 2
    with round_even_bounds[of x] round_even_bounds[of y] show ?thesis by linarith
  qed
qed

lemma round_even_ge: "of_int n \<le> x \<Longrightarrow> n \<le> round_even x"
  using round_even_mono[of "of_int n" x] by simp

lemma round_even_le: "x \<le> of_int n \<Longrightarrow> round_even x \<le> n"
  using round_even_mono[of x "of_int n"] by simp

lemma exponent2_bounds:
  assumes "x > 0"
  shows "2 powi exponent2 x \<le> x" "x < 2 powi (exponent2 x + 1)"
proof -
  obtain a b where q: "quotient_of x = (a, b)" by (cases "quotient_of x") auto
  then have b: "b > 0" and x: "x = of_int a / of_int b"
    by (auto simp: quotient_of_denom_pos quotient_of_div)
  with assms have a: "a > 0" by (simp add: zero_less_divide_iff)
  have pow: "(2 :: rat) powi (bitlen n - 1) \<le> of_int n" "of_int n < (2 :: rat) powi bitlen n" if "n > 0" for n
  proof -
    have bl: "bitlen n \<ge> 1" using that bitlen_eq_zero_iff[of n] bitlen_nonneg[of n] by linarith
    have "of_int (2 ^ nat (bitlen n - 1)) \<le> (of_int n :: rat)" "(of_int n :: rat) < of_int (2 ^ nat (bitlen n))"
      using bitlen_bounds[OF that] by (auto simp only: of_int_le_iff of_int_less_iff)
    with bl show "(2 :: rat) powi (bitlen n - 1) \<le> of_int n" "of_int n < (2 :: rat) powi bitlen n"
      by (simp_all add: power_int_nonneg_exp)
  qed
  let ?k = "bitlen a - bitlen b"
  have "x < 2 powi (?k + 1)"
  proof -
    have "x < 2 powi bitlen a / 2 powi (bitlen b - 1)"
      unfolding x using pow[OF a] pow[OF b] a b by (intro frac_less) auto
    also have "\<dots> = 2 powi (?k + 1)" by (simp add: power_int_diff[symmetric] algebra_simps)
    finally show ?thesis .
  qed
  moreover have "2 powi (?k - 1) \<le> x"
  proof -
    have "2 powi (?k - 1) = (2 :: rat) powi (bitlen a - 1) / 2 powi bitlen b"
      by (simp add: power_int_diff[symmetric] algebra_simps)
    also have "\<dots> \<le> x" unfolding x using pow[OF a] pow[OF b] a b by (intro frac_le) auto
    finally show ?thesis .
  qed
  ultimately show "2 powi exponent2 x \<le> x" "x < 2 powi (exponent2 x + 1)"
    by (auto simp: exponent2_def q Let_def)
qed

lemma exponent2_mono: "0 < x \<Longrightarrow> x \<le> y \<Longrightarrow> exponent2 x \<le> exponent2 y"
proof (rule ccontr)
  assume xy: "0 < x" "x \<le> y" "\<not> exponent2 x \<le> exponent2 y"
  then have "(2 :: rat) powi (exponent2 y + 1) \<le> 2 powi exponent2 x"
    by (intro power_int_increasing) auto
  with exponent2_bounds(2)[of y] exponent2_bounds(1)[of x] xy show False by linarith
qed

lemma round_pos_bounds:
  assumes "x > 0"
  shows "2 powi exponent2 x \<le> round_pos x" "round_pos x \<le> 2 powi (exponent2 x + 1)"
proof -
  let ?u = "2 powi (exponent2 x - 52) :: rat"
  have u: "?u > 0" "?u * 2 ^ 52 = 2 powi exponent2 x" "?u * 2 ^ 53 = 2 powi (exponent2 x + 1)"
    by (simp_all add: power_int_diff power_int_add)
  have "of_int (2 ^ 52) \<le> x / ?u" "x / ?u \<le> of_int (2 ^ 53)"
    using exponent2_bounds[OF assms] u by (simp_all add: field_simps)
  then have "2 ^ 52 \<le> round_even (x / ?u)" "round_even (x / ?u) \<le> 2 ^ 53"
    by (simp_all only: round_even_ge round_even_le)
  then have "(of_int (2 ^ 52) :: rat) \<le> of_int (round_even (x / ?u))"
    "of_int (round_even (x / ?u)) \<le> (of_int (2 ^ 53) :: rat)"
    by (simp_all only: of_int_le_iff)
  with u show "2 powi exponent2 x \<le> round_pos x" "round_pos x \<le> 2 powi (exponent2 x + 1)"
    by (simp_all add: round_pos_def Let_def mult.commute[of _ ?u] flip: u(2,3))
qed

lemma round_pos_mono: "0 < x \<Longrightarrow> x \<le> y \<Longrightarrow> round_pos x \<le> round_pos y"
proof -
  assume xy: "0 < x" "x \<le> y"
  consider "exponent2 x = exponent2 y" | "exponent2 x + 1 \<le> exponent2 y"
    using exponent2_mono[OF xy] by linarith
  then show ?thesis
  proof cases
    case 1
    with xy show ?thesis
      by (auto simp: round_pos_def Let_def intro!: mult_right_mono round_even_mono divide_right_mono)
  next
    case 2
    then have "(2 :: rat) powi (exponent2 x + 1) \<le> 2 powi exponent2 y"
      by (intro power_int_increasing) auto
    with round_pos_bounds[of x] round_pos_bounds[of y] xy show ?thesis by linarith
  qed
qed

lemma round_pos_nonneg: "0 < x \<Longrightarrow> 0 < round_pos x"
  using round_pos_bounds(1)[of x] by (meson less_le_trans zero_less_numeral zero_less_power_int)

lemma rnd_mono: "x \<le> y \<Longrightarrow> rnd x \<le> rnd y"
  using round_pos_mono[of x y] round_pos_mono[of "- y" "- x"] round_pos_nonneg[of "- x"]
    round_pos_nonneg[of y]
  by (auto simp: rnd_def)

lemma rnd_0 [simp]: "rnd 0 = 0"
  by (simp add: rnd_def)

lemma round_pos_int:
  assumes "0 < n" "n < 2 ^ 53"
  shows "round_pos (of_int n) = of_int n"
proof -
  let ?x = "of_int n :: rat" and ?e = "exponent2 (of_int n)"
  have "(2 :: rat) powi ?e \<le> of_int n" using exponent2_bounds(1)[of ?x] assms(1) by simp
  also have "\<dots> < of_int (2 ^ 53)" using assms(2) by (simp only: of_int_less_iff)
  also have "\<dots> = (2 :: rat) powi 53" by simp
  finally have "?e < 53"
    by (metis one_less_numeral_iff power_int_strict_increasing semiring_norm(76) not_less_iff_gr_or_eq)
  then obtain k where k: "52 - ?e = int k" by (metis zle_iff_zadd zle_add1_eq_le one_plus_numeral
        add.commute diff_add_cancel diff_ge_0_iff_ge nonneg_int_cases numeral_plus_one semiring_norm(4,5))
  then have "?x / 2 powi (?e - 52) = of_int (n * 2 ^ k)"
    using power_int_minus_divide[of "2 :: rat" "?e - 52"] by (simp add: divide_inverse flip: power_int_minus)
  then show ?thesis
    by (simp only: round_pos_def Let_def round_even_of_int)
      (metis (no_types, lifting) nonzero_divide_eq_eq power_int_not_zero zero_neq_numeral)
qed

lemma rnd_int: "\<bar>n\<bar> < 2 ^ 53 \<Longrightarrow> rnd (of_int n) = of_int n"
  using round_pos_int[of n] round_pos_int[of "- n"] by (auto simp: rnd_def)

lemma double_of_int: "\<bar>n\<bar> < 2 ^ 53 \<Longrightarrow> double_of_int n = of_int n"
  by (simp add: double_of_int_def rnd_int)

lemma rnd_le_int: "\<bar>n\<bar> < 2 ^ 53 \<Longrightarrow> x \<le> of_int n \<Longrightarrow> rnd x \<le> of_int n"
  using rnd_mono[of x "of_int n"] by (simp add: rnd_int)

lemma rnd_ge_int: "\<bar>n\<bar> < 2 ^ 53 \<Longrightarrow> of_int n \<le> x \<Longrightarrow> of_int n \<le> rnd x"
  using rnd_mono[of "of_int n" x] by (simp add: rnd_int)

lemma rnd_nonneg: "0 \<le> x \<Longrightarrow> 0 \<le> rnd x"
  using rnd_mono[of 0 x] by simp

end
