(* ===== verification/Latency.thy ===== *)
theory Latency
  imports Prelude Ieee_Double "HOL-Library.Multiset"
begin

text \<open>
  \<^verbatim>\<open>src/src/core/latency.h\<close> and \<^verbatim>\<open>latency.cpp\<close>: the histogram of latencies with buckets that widen by
  decades. Bucket counters, the sample count and the sum are 64-bit words; the bucket index goes
  through the same narrowing cast to a 32-bit \<^verbatim>\<open>int\<close> as in the code.
\<close>

record range =
  from_us :: int
  step_us :: int
  first_bucket :: int
  slots :: int

definition kRanges :: "range list" where
  "kRanges = [
     \<lparr>from_us = 0, step_us = 1, first_bucket = 0, slots = 100\<rparr>,
     \<lparr>from_us = 100, step_us = 10, first_bucket = 100, slots = 90\<rparr>,
     \<lparr>from_us = 1000, step_us = 100, first_bucket = 190, slots = 90\<rparr>,
     \<lparr>from_us = 10000, step_us = 1000, first_bucket = 280, slots = 90\<rparr>,
     \<lparr>from_us = 100000, step_us = 10000, first_bucket = 370, slots = 90\<rparr>,
     \<lparr>from_us = 1000000, step_us = 100000, first_bucket = 460, slots = 90\<rparr>]"

definition kOverflow :: int where "kOverflow = 550"

definition kBucketCount :: nat where "kBucketCount = 551"

text \<open>\<^verbatim>\<open>static_cast<int>\<close> of a 64-bit value.\<close>

definition to_int32 :: "int \<Rightarrow> int" where
  "to_int32 x = sint (word_of_int x :: 32 word)"

fun bucket_of_from :: "int \<Rightarrow> range list \<Rightarrow> int" where
  "bucket_of_from us [] = 0"
| "bucket_of_from us (r # rs) =
     (if us < from_us r then bucket_of_from us rs
      else
        (let off = to_int32 ((us - from_us r) div step_us r)
         in if off \<ge> slots r then kOverflow else first_bucket r + off))"

definition bucket_of :: "int \<Rightarrow> int" where
  "bucket_of us = (if us \<le> 0 then 0 else bucket_of_from us (rev kRanges))"

fun bucket_upper_from :: "int \<Rightarrow> range list \<Rightarrow> int" where
  "bucket_upper_from i [] = 0"
| "bucket_upper_from i (r # rs) =
     (if i < first_bucket r then bucket_upper_from i rs
      else from_us r + (i - first_bucket r + 1) * step_us r)"

definition bucket_upper :: "int \<Rightarrow> int" where
  "bucket_upper i =
     (if i \<ge> kOverflow
      then from_us (last kRanges) + step_us (last kRanges) * slots (last kRanges)
      else bucket_upper_from i (rev kRanges))"

text \<open>
  \<open>lat_oob\<close> records a write outside \<^verbatim>\<open>buckets_\<close>, after which the behaviour of the code is undefined.
\<close>

record histogram =
  lat_buckets :: "u64 list"
  lat_count :: u64
  lat_sum :: u64
  lat_max :: int
  lat_oob :: bool

definition lat_init :: histogram where
  "lat_init = \<lparr>lat_buckets = replicate kBucketCount 0, lat_count = 0, lat_sum = 0, lat_max = 0,
     lat_oob = False\<rparr>"

definition lat_add :: "int \<Rightarrow> histogram \<Rightarrow> histogram" where
  "lat_add us0 h =
     (let us = (if us0 < 0 then 0 else us0);
          i = bucket_of us
      in h\<lparr>lat_buckets := (if 0 \<le> i \<and> i < int kBucketCount
                          then (lat_buckets h)[nat i := lat_buckets h ! nat i + 1]
                          else lat_buckets h),
          lat_count := lat_count h + 1,
          lat_sum := lat_sum h + word_of_int us,
          lat_max := max (lat_max h) us,
          lat_oob := (lat_oob h \<or> \<not> (0 \<le> i \<and> i < int kBucketCount))\<rparr>)"

definition lat_target :: "rat \<Rightarrow> u64 \<Rightarrow> u64" where
  "lat_target p n =
     (let t = word_of_int \<lfloor>dadd (dmul (double_of_int (uint n)) (max 0 (min p 1))) (1/2)\<rfloor>;
          t' = (if t = 0 then 1 else t)
      in if t' > n then n else t')"

fun pct_scan :: "u64 \<Rightarrow> u64 \<Rightarrow> nat \<Rightarrow> u64 list \<Rightarrow> nat option" where
  "pct_scan target seen i [] = None"
| "pct_scan target seen i (b # bs) =
     (let seen' = seen + b
      in if seen' \<ge> target then Some i else pct_scan target seen' (Suc i) bs)"

definition lat_percentile :: "rat \<Rightarrow> histogram \<Rightarrow> int" where
  "lat_percentile p h =
     (if lat_count h = 0 then 0
      else case pct_scan (lat_target p (lat_count h)) 0 0 (lat_buckets h) of
             Some i \<Rightarrow> min (bucket_upper (int i)) (lat_max h)
           | None \<Rightarrow> lat_max h)"

definition lat_mean :: "histogram \<Rightarrow> rat" where
  "lat_mean h = (if lat_count h \<noteq> 0
     then ddiv (double_of_int (uint (lat_sum h))) (double_of_int (uint (lat_count h))) else 0)"

definition lat_reset :: "histogram \<Rightarrow> histogram" where
  "lat_reset h = h\<lparr>lat_buckets := replicate kBucketCount 0, lat_count := 0, lat_sum := 0, lat_max := 0\<rparr>"

definition lat_merge :: "histogram \<Rightarrow> histogram \<Rightarrow> histogram" where
  "lat_merge h other = h\<lparr>
     lat_buckets := map2 (+) (lat_buckets h) (lat_buckets other),
     lat_count := lat_count h + lat_count other,
     lat_sum := lat_sum h + lat_sum other,
     lat_max := (if lat_max other > lat_max h then lat_max other else lat_max h),
     lat_oob := (lat_oob h \<or> lat_oob other)\<rparr>"

section \<open>Buckets\<close>

text \<open>The largest value whose bucket offset still fits the 32-bit \<^verbatim>\<open>int\<close> of the cast.\<close>

definition us_limit :: int where
  "us_limit = 1000000 + 100000 * 2 ^ 31"

lemma to_int32_id: "- (2 ^ 31) \<le> x \<Longrightarrow> x < 2 ^ 31 \<Longrightarrow> to_int32 x = x"
  unfolding to_int32_def by (simp add: sint_sbintrunc' signed_take_bit_int_eq_self)

lemma int_div_less_iff: "0 < b \<Longrightarrow> x div b < q \<longleftrightarrow> x < q * b" for b :: int
proof -
  assume b: "0 < b"
  note dm = mult_div_mod_eq[of b x] pos_mod_sign[OF b, of x] pos_mod_bound[OF b, of x]
  show "x div b < q \<longleftrightarrow> x < q * b"
  proof
    assume "x div b < q"
    then have "b * (x div b + 1) \<le> b * q" using b by (intro mult_left_mono) auto
    then have "b * (x div b) + b \<le> q * b" by (simp add: algebra_simps)
    then show "x < q * b" using dm by linarith
  next
    assume "x < q * b"
    then have "b * (x div b) < b * q" using dm by (simp only: mult.commute[of b q])
    then show "x div b < q" using b by (simp only: mult_less_cancel_left_pos)
  qed
qed

lemma bucket_of_eq:
  assumes "0 \<le> us" "us < us_limit"
  shows "bucket_of us =
    (if us < 100 then us
     else if us < 1000 then 100 + (us - 100) div 10
     else if us < 10000 then 190 + (us - 1000) div 100
     else if us < 100000 then 280 + (us - 10000) div 1000
     else if us < 1000000 then 370 + (us - 100000) div 10000
     else if us < 10000000 then 460 + (us - 1000000) div 100000
     else 550)"
proof -
  have small: "to_int32 ((us - a) div b) = (us - a) div b"
    if "a \<le> us" "us - a < b * 2 ^ 31" "0 < b" for a b
  proof (rule to_int32_id)
    have "0 \<le> (us - a) div b" using that by (simp add: pos_imp_zdiv_nonneg_iff)
    then show "- (2 ^ 31) \<le> (us - a) div b" by simp
    show "(us - a) div b < 2 ^ 31" using that by (simp add: int_div_less_iff mult.commute)
  qed
  note defs = bucket_of_def kRanges_def kOverflow_def us_limit_def Let_def
  have div1: "(us - 1000000) div 100000 < 90 \<longleftrightarrow> us < 10000000" if "1000000 \<le> us"
    using that by (auto simp: int_div_less_iff)
  consider "us < 100" | "100 \<le> us" "us < 1000" | "1000 \<le> us" "us < 10000"
    | "10000 \<le> us" "us < 100000" | "100000 \<le> us" "us < 1000000" | "1000000 \<le> us"
    by linarith
  then show ?thesis
  proof cases
    case 1 then show ?thesis using assms small[of 0 1] by (simp add: defs)
  next
    case 2 then show ?thesis using small[of 100 10] by (simp add: defs)
  next
    case 3 then show ?thesis using small[of 1000 100] by (simp add: defs)
  next
    case 4 then show ?thesis using small[of 10000 1000] by (simp add: defs)
  next
    case 5 then show ?thesis using small[of 100000 10000] by (simp add: defs)
  next
    case 6
    then have "to_int32 ((us - 1000000) div 100000) = (us - 1000000) div 100000"
      using assms(2) small[of 1000000 100000] by (simp add: us_limit_def)
    with 6 div1 show ?thesis by (simp add: defs not_less[symmetric])
  qed
qed

lemma bucket_upper_eq:
  assumes "0 \<le> i"
  shows "bucket_upper i =
    (if i < 100 then i + 1
     else if i < 190 then 100 + (i - 99) * 10
     else if i < 280 then 1000 + (i - 189) * 100
     else if i < 370 then 10000 + (i - 279) * 1000
     else if i < 460 then 100000 + (i - 369) * 10000
     else if i < 550 then 1000000 + (i - 459) * 100000
     else 10000000)"
  using assms by (auto simp: bucket_upper_def kRanges_def kOverflow_def)

lemma bucket_of_range:
  assumes "us < us_limit"
  shows "0 \<le> bucket_of us" "bucket_of us < int kBucketCount"
proof -
  have "0 \<le> bucket_of us \<and> bucket_of us < int kBucketCount"
  proof (cases "us \<le> 0")
    case True
    then show ?thesis by (simp add: bucket_of_def kBucketCount_def)
  next
    case False
    then show ?thesis using bucket_of_eq[of us] assms by (auto simp: kBucketCount_def)
  qed
  then show "0 \<le> bucket_of us" "bucket_of us < int kBucketCount" by auto
qed

lemma bucket_of_mono:
  assumes "a \<le> b" "b < us_limit"
  shows "bucket_of a \<le> bucket_of b"
proof (cases "a \<le> 0")
  case True
  then show ?thesis using bucket_of_range[OF assms(2)] by (simp add: bucket_of_def)
next
  case False
  with assms show ?thesis
    using bucket_of_eq[of a] bucket_of_eq[of b] by auto
qed

lemma bucket_bounds:
  assumes "0 \<le> us" "us < 10000000"
  shows "us < bucket_upper (bucket_of us) \<and>
    (0 < bucket_of us \<longrightarrow> bucket_upper (bucket_of us - 1) \<le> us)"
proof -
  note eq = bucket_of_eq[of us]
  have lim: "us < us_limit" using assms by (simp add: us_limit_def)
  consider "us < 100" | "100 \<le> us" "us < 1000" | "1000 \<le> us" "us < 10000"
    | "10000 \<le> us" "us < 100000" | "100000 \<le> us" "us < 1000000"
    | "1000000 \<le> us" "us < 10000000" using assms by linarith
  then show ?thesis
    by cases (use assms eq lim in \<open>auto simp: bucket_upper_eq\<close>)
qed

section \<open>The histogram of a list of samples\<close>

definition hist_of :: "int list \<Rightarrow> histogram" where
  "hist_of xs = fold lat_add xs lat_init"

definition bucket_size :: "int list \<Rightarrow> int \<Rightarrow> nat" where
  "bucket_size xs i = length (filter (\<lambda>x. bucket_of x = i) xs)"

lemma hist_of_snoc: "hist_of (xs @ [x]) = lat_add x (hist_of xs)"
  by (simp add: hist_of_def)

lemma bucket_of_clip: "bucket_of (if x < 0 then 0 else x) = bucket_of x"
  by (simp add: bucket_of_def)

lemma hist_of_buckets:
  "lat_buckets (hist_of xs) = map (\<lambda>i. of_nat (bucket_size xs (int i))) [0..<kBucketCount]"
proof (induction xs rule: rev_induct)
  case Nil
  show ?case by (simp add: hist_of_def lat_init_def bucket_size_def map_replicate_const)
next
  case (snoc x xs)
  show ?case
    by (rule nth_equalityI)
       (auto simp: hist_of_snoc lat_add_def Let_def bucket_of_clip snoc bucket_size_def nth_list_update)
qed

lemma hist_of_rest:
  "lat_count (hist_of xs) = of_nat (length xs)"
  "lat_sum (hist_of xs) = word_of_int (sum_list (map (max 0) xs))"
  "lat_max (hist_of xs) = fold max xs 0"
  "lat_oob (hist_of xs) = (\<exists>x\<in>set xs. \<not> (0 \<le> bucket_of x \<and> bucket_of x < int kBucketCount))"
proof (induction xs rule: rev_induct)
  case Nil
  show "lat_count (hist_of []) = of_nat (length [])" "lat_sum (hist_of []) = word_of_int (sum_list (map (max 0) []))"
    "lat_max (hist_of []) = fold max [] 0" "lat_oob (hist_of []) =
      (\<exists>x\<in>set []. \<not> (0 \<le> bucket_of x \<and> bucket_of x < int kBucketCount))"
    by (simp_all add: hist_of_def lat_init_def)
next
  case (snoc x xs)
  have nn: "0 \<le> fold max ys (0 :: int)" for ys
  proof -
    have "m \<le> fold max ys m" for m :: int by (induction ys arbitrary: m) (auto intro: order_trans[OF max.cobounded2])
    then show ?thesis .
  qed
  note [simp] = hist_of_snoc lat_add_def Let_def bucket_of_clip
  show "lat_count (hist_of (xs @ [x])) = of_nat (length (xs @ [x]))" by (simp add: snoc)
  show "lat_sum (hist_of (xs @ [x])) = word_of_int (sum_list (map (max 0) (xs @ [x])))"
    by (simp add: snoc max_def[of 0 x])
  show "lat_max (hist_of (xs @ [x])) = fold max (xs @ [x]) 0"
    using nn[of xs] by (simp add: snoc max.commute)
  show "lat_oob (hist_of (xs @ [x])) =
     (\<exists>y\<in>set (xs @ [x]). \<not> (0 \<le> bucket_of y \<and> bucket_of y < int kBucketCount))"
    by (auto simp: snoc)
qed

lemma fold_max: "fold max xs (m :: int) = Max (insert m (set xs))"
  using Max.set_eq_fold[of m xs] by simp

lemma fold_max_append: "fold max (xs @ ys) (0 :: int) = max (fold max xs 0) (fold max ys 0)"
proof -
  have "insert 0 (set xs \<union> set ys) = insert (0 :: int) (set xs) \<union> insert 0 (set ys)" by auto
  then show ?thesis by (simp only: fold_max set_append) (rule Max_Un, auto)
qed

lemma lat_merge_hist_of: "lat_merge (hist_of xs) (hist_of ys) = hist_of (xs @ ys)"
proof (rule histogram.equality)
  show "lat_buckets (lat_merge (hist_of xs) (hist_of ys)) = lat_buckets (hist_of (xs @ ys))"
    by (rule nth_equalityI) (simp_all add: lat_merge_def hist_of_buckets bucket_size_def)
  show "lat_max (lat_merge (hist_of xs) (hist_of ys)) = lat_max (hist_of (xs @ ys))"
    by (simp add: lat_merge_def hist_of_rest fold_max_append del: fold_append)
qed (auto simp: lat_merge_def hist_of_rest of_int_add)

section \<open>Percentiles\<close>

lemma sorted_filter_nth:
  assumes "sorted ys" "\<forall>a\<in>set ys. \<forall>b\<in>set ys. a \<le> b \<longrightarrow> P b \<longrightarrow> P a" "t < length ys"
  shows "t < length (filter P ys) \<longleftrightarrow> P (ys ! t)"
  using assms
proof (induction ys arbitrary: t)
  case (Cons y ys)
  show ?case
  proof (cases "P y")
    case True
    show ?thesis
    proof (cases t)
      case 0
      with True show ?thesis by simp
    next
      case (Suc t')
      then have "t' < length (filter P ys) \<longleftrightarrow> P (ys ! t')"
        using Cons.prems by (intro Cons.IH) simp_all
      with True Suc show ?thesis by simp
    qed
  next
    case False
    have none: "\<not> P z" if "z \<in> set (y # ys)" for z
    proof
      assume "P z"
      moreover have "y \<le> z" using that Cons.prems(1) by auto
      ultimately show False using False Cons.prems(2) that by (meson list.set_intros(1))
    qed
    then have "filter P (y # ys) = []" by (simp only: filter_empty_conv) blast
    with none[OF nth_mem[OF Cons.prems(3)]] show ?thesis by simp
  qed
qed simp

definition bucket_below :: "int list \<Rightarrow> nat \<Rightarrow> nat" where
  "bucket_below xs i = length (filter (\<lambda>x. bucket_of x < int i) xs)"

lemma bucket_below_Suc: "bucket_below xs (Suc i) = bucket_below xs i + bucket_size xs (int i)"
  unfolding bucket_below_def bucket_size_def by (induction xs) auto

lemma bucket_below_rank:
  assumes "\<forall>x\<in>set xs. x < us_limit" "1 \<le> t" "t \<le> length xs"
  shows "t \<le> bucket_below xs (Suc i) \<longleftrightarrow> bucket_of (sort xs ! (t - 1)) \<le> int i"
proof -
  let ?P = "\<lambda>x. bucket_of x < int (Suc i)"
  have "length (filter ?P (sort xs)) = length (filter ?P xs)"
    by (metis mset_filter mset_sort size_mset)
  moreover have "t - 1 < length (filter ?P (sort xs)) \<longleftrightarrow> ?P (sort xs ! (t - 1))"
  proof (rule sorted_filter_nth)
    show "\<forall>a\<in>set (sort xs). \<forall>b\<in>set (sort xs). a \<le> b \<longrightarrow> ?P b \<longrightarrow> ?P a"
      using assms(1) bucket_of_mono by (metis le_less_trans set_sort)
  qed (use assms in auto)
  ultimately show ?thesis using assms(2) by (auto simp: bucket_below_def)
qed

lemma pct_scan_step:
  assumes "length xs < 2 ^ 64" "t \<le> length xs" "i < kBucketCount"
  shows "pct_scan (of_nat t) (of_nat (bucket_below xs i)) i (drop i (lat_buckets (hist_of xs))) =
    (if t \<le> bucket_below xs (Suc i) then Some i
     else pct_scan (of_nat t) (of_nat (bucket_below xs (Suc i))) (Suc i)
            (drop (Suc i) (lat_buckets (hist_of xs))))"
proof -
  let ?b = "lat_buckets (hist_of xs)"
  have "drop i ?b = of_nat (bucket_size xs (int i)) # drop (Suc i) ?b"
    using assms(3) by (subst Cons_nth_drop_Suc[symmetric]) (simp_all add: hist_of_buckets)
  moreover have "bucket_below xs (Suc i) < 2 ^ 64"
    using assms(1) by (auto simp: bucket_below_def intro: le_less_trans[OF length_filter_le])
  then have "(of_nat t :: u64) \<le> of_nat (bucket_below xs (Suc i)) \<longleftrightarrow> t \<le> bucket_below xs (Suc i)"
    using assms(1,2) by (simp add: word_of_nat_less_eq_iff take_bit_nat_eq_self)
  ultimately show ?thesis
    by (simp add: bucket_below_Suc Let_def)
qed

lemma pct_scan_hist:
  assumes lim: "\<forall>x\<in>set xs. x < us_limit" and t: "1 \<le> t" "t \<le> length xs" and len: "length xs < 2 ^ 64"
  shows "pct_scan (of_nat t) 0 0 (lat_buckets (hist_of xs)) = Some (nat (bucket_of (sort xs ! (t - 1))))"
proof -
  define K where "K = nat (bucket_of (sort xs ! (t - 1)))"
  have "sort xs ! (t - 1) \<in> set (sort xs)" using t by (intro nth_mem) simp
  then have "sort xs ! (t - 1) < us_limit" using lim by simp
  note rng = bucket_of_range[OF this]
  then have K: "K < kBucketCount" "bucket_of (sort xs ! (t - 1)) = int K" by (auto simp: K_def)
  have "pct_scan (of_nat t) (of_nat (bucket_below xs i)) i (drop i (lat_buckets (hist_of xs))) = Some K"
    if "i \<le> K" for i
    using that
  proof (induction rule: inc_induct)
    case base
    show ?case using pct_scan_step[OF len t(2) K(1)] bucket_below_rank[OF lim t, of K] K(2) by simp
  next
    case (step n)
    then show ?case
      using pct_scan_step[OF len t(2), of n] bucket_below_rank[OF lim t, of n] K by simp
  qed
  from this[of 0] show ?thesis using rng
    by (simp add: bucket_below_def K_def filter_False not_less lim bucket_of_range)
qed

lemma lat_target_range:
  assumes "0 < n" "n < 2 ^ 64"
  obtains t where "lat_target p (of_nat n) = of_nat t" "1 \<le> t" "t \<le> n"
proof
  let ?w = "lat_target p (of_nat n)"
  have n0: "(of_nat n :: u64) \<noteq> 0" using assms
    by (simp add: word_of_nat_eq_0_iff nat_dvd_not_less)
  have "(if a > m then m else a) \<le> m" for a m :: u64 by auto
  then have "?w \<le> of_nat n" unfolding lat_target_def Let_def .
  then show "unat ?w \<le> n" using assms
    by (simp add: word_le_nat_alt unat_of_nat)
  have "?w \<noteq> 0" using n0 by (auto simp add: lat_target_def Let_def)
  then show "1 \<le> unat ?w" by (simp add: unat_gt_0 Suc_le_eq)
qed simp

lemma percentile_rank:
  assumes "xs \<noteq> []" "\<forall>x\<in>set xs. 0 \<le> x \<and> x < us_limit" "length xs < 2 ^ 64"
  shows "lat_percentile p (hist_of xs) =
    min (bucket_upper (bucket_of (sort xs ! (unat (lat_target p (of_nat (length xs))) - 1)))) (Max (set xs))"
proof -
  obtain t where t: "lat_target p (of_nat (length xs)) = of_nat t" "1 \<le> t" "t \<le> length xs"
    using assms lat_target_range[of "length xs" p] by auto
  have n0: "(of_nat (length xs) :: u64) \<noteq> 0" using assms
    by (simp add: word_of_nat_eq_0_iff nat_dvd_not_less)
  have lim: "\<forall>x\<in>set xs. x < us_limit" using assms(2) by blast
  have "sort xs ! (t - 1) \<in> set (sort xs)" using t by (intro nth_mem) simp
  then have nn: "0 \<le> bucket_of (sort xs ! (t - 1))" using bucket_of_range lim by simp
  obtain x where "x \<in> set xs" using assms(1) by (cases xs) auto
  then have "0 \<le> Max (set xs)" using assms(2) by (meson List.finite_set Max_ge order_trans)
  then have "fold max xs 0 = Max (set xs)" using assms(1) by (simp add: fold_max)
  moreover have "unat (of_nat t :: u64) = t" using t(3) assms(3) by (simp add: unat_of_nat take_bit_nat_eq_self)
  ultimately show ?thesis
    using n0 nn t pct_scan_hist[OF lim t(2,3) assms(3)]
    by (simp add: lat_percentile_def hist_of_rest)
qed

section \<open>Properties\<close>

text \<open>
  A value below ten seconds lands in the one bucket whose bounds enclose it: it is below the upper
  bound that \<^verbatim>\<open>bucket_upper\<close> reports for its bucket and not below that of the bucket before.
\<close>

theorem bucket_encloses_value:
  assumes "0 \<le> us" "us < 10000000"
  shows "0 \<le> bucket_of us \<and> bucket_of us < kOverflow \<and> us < bucket_upper (bucket_of us) \<and>
    (0 < bucket_of us \<longrightarrow> bucket_upper (bucket_of us - 1) \<le> us)"
proof -
  have "us < us_limit" using assms by (simp add: us_limit_def)
  moreover have "bucket_of us < 550" using bucket_of_eq[of us] assms calculation by auto
  ultimately show ?thesis using bucket_bounds[OF assms] bucket_of_range by (simp add: kOverflow_def)
qed

theorem bucket_encloses_value_witness:
  "12345 < bucket_upper (bucket_of 12345)"
  using bucket_encloses_value[of 12345] by simp

text \<open>
  A percentile is exact up to the width of a bucket. For samples the histogram can hold, it is the upper
  bound of the bucket of the sample with the targeted rank, cut at the largest sample.
\<close>

theorem percentile_is_ranked_sample:
  assumes "xs \<noteq> []" "\<forall>x\<in>set xs. 0 \<le> x \<and> x < us_limit" "length xs < 2 ^ 64"
  shows "lat_percentile p (fold lat_add xs lat_init) =
    min (bucket_upper (bucket_of (sort xs ! (unat (lat_target p (of_nat (length xs))) - 1)))) (Max (set xs))"
  using percentile_rank[OF assms] by (simp add: hist_of_def)

theorem percentile_is_ranked_sample_witness:
  "lat_percentile 1 (fold lat_add [5, 120, 7] lat_init) =
     min (bucket_upper (bucket_of (sort [5, 120, 7] ! (unat (lat_target 1 (of_nat (length [5, 120, 7 :: int]))) - 1))))
       (Max (set [5, 120, 7]))"
  by (rule percentile_is_ranked_sample) (simp_all add: us_limit_def)

text \<open>
  C32: merging the histograms of two sets of samples gives the histogram of all of them, which is what lets the
  lanes of a service report one percentile. It holds in the wrap-around arithmetic of the counters too.
\<close>

theorem merge_is_histogram_of_all_samples:
  "lat_merge (fold lat_add xs lat_init) (fold lat_add ys lat_init) = fold lat_add (xs @ ys) lat_init"
  using lat_merge_hist_of[of xs ys] by (simp add: hist_of_def)

text \<open>
  The narrowing cast of the bucket offset breaks for huge values. A latency of 2,147,484,648 * 10^5
  microseconds and a little more gets a negative offset, and \<^verbatim>\<open>add\<close> writes outside the array.
\<close>

theorem huge_latency_writes_out_of_bounds:
  "bucket_of us_limit < 0 \<and> lat_oob (lat_add us_limit lat_init)"
proof -
  have "to_int32 ((us_limit - 1000000) div 100000) = - (2 ^ 31)"
    by (simp add: to_int32_def us_limit_def)
  then have "bucket_of us_limit < 0"
    by (simp add: bucket_of_def kRanges_def us_limit_def Let_def)
  moreover have "0 < us_limit" by (simp add: us_limit_def)
  ultimately show ?thesis by (simp add: lat_add_def Let_def)
qed

end
