(* ===== verification/App_Types.thy ===== *)
theory App_Types
  imports Frame Uuid Latency
begin

text \<open>
  The values that travel between the threads of the server: \<^verbatim>\<open>src/src/app/inbound_event.h\<close>,
  \<^verbatim>\<open>src/src/db/db_types.h\<close>, the messages between services of \<^verbatim>\<open>src/src/app/service.h\<close>, and the error
  reply of \<^verbatim>\<open>src/src/app/reply.cpp\<close>.

  A service never touches a connection except through its public operations. What it asks of the
  connections, and of the other service, is recorded as a list of effects in the order of the calls;
  a \<^verbatim>\<open>ConnectionPtr\<close> is the identifier of its connection.
\<close>

section \<open>Events\<close>

definition kMaxEventBody :: u32 where "kMaxEventBody = 640"

datatype event_kind = Connected | Disconnected | Message

record inbound_event =
  ev_kind :: event_kind
  ev_conn_id :: conn_id
  ev_msg_id :: u16
  ev_size :: u16
  ev_oversized :: bool
  ev_enqueued_us :: int
  ev_conn :: "conn_id option"
  ev_body :: bytes

datatype service_event = SessionOpened

record service_message =
  sm_kind :: service_event
  sm_conn_id :: conn_id
  sm_text :: bytes
  sm_enqueued_us :: int

section \<open>Database requests and responses\<close>

datatype request_kind = Save | History | Counter

datatype status = Ok | Unavailable | Failed | Expired

record request =
  rq_kind :: request_kind
  rq_conn_id :: conn_id
  rq_session_key :: bytes
  rq_payload :: bytes
  rq_request_key :: bytes
  rq_limit :: u16
  rq_submitted_us :: int
  rq_deadline_us :: int

definition request_init :: request where
  "request_init = \<lparr>rq_kind = Save, rq_conn_id = 0, rq_session_key = [], rq_payload = [], rq_request_key = [],
     rq_limit = 0, rq_submitted_us = 0, rq_deadline_us = 0\<rparr>"

record log_row =
  lr_log_id :: u64
  lr_payload :: bytes
  lr_created_at_ms :: u64

record response =
  rs_kind :: request_kind
  rs_conn_id :: conn_id
  rs_status :: status
  rs_log_id :: u64
  rs_rows :: "log_row list"
  rs_hit_count :: u64
  rs_already_applied :: bool
  rs_db_us :: int
  rs_submitted_us :: int

definition response_init :: response where
  "response_init = \<lparr>rs_kind = Save, rs_conn_id = 0, rs_status = Ok, rs_log_id = 0, rs_rows = [],
     rs_hit_count = 0, rs_already_applied = False, rs_db_us = 0, rs_submitted_us = 0\<rparr>"

section \<open>Effects\<close>

datatype effect =
    Send conn_id u16 bytes u32
  | Close conn_id
  | Pause conn_id
  | Resume conn_id
  | Relay service_message

text \<open>\<^verbatim>\<open>conn->send(id, w.data(), w.size())\<close> with a body built in the scratch writer.\<close>

definition send_body :: "conn_id \<Rightarrow> u16 \<Rightarrow> bytes \<Rightarrow> effect list" where
  "send_body c msg_id w = [Send c msg_id w (bw_size w)]"

definition send_error :: "conn_id \<Rightarrow> u16 \<Rightarrow> error_code \<Rightarrow> string \<Rightarrow> effect list" where
  "send_error c origin code detail =
     (let w = bw_str (lit detail) (bw_u16 (error_num code) (bw_u16 origin []))
      in send_body c kErrorAck w @ (if is_fatal code then [Close c] else []))"

text \<open>What a step reads: the clocks, the random bits, and what \<^verbatim>\<open>closed()\<close> answers for a
  connection, and the difference of the two clock readings around a broadcast.\<close>

record readings =
  now_ns :: int
  now_us :: int
  now_ms :: int
  unix_ms :: int
  rnd_hi :: u64
  rnd_lo :: u64
  conn_closed :: "conn_id \<Rightarrow> bool"
  spent_us :: int

text \<open>Readings for concrete inputs.\<close>

abbreviation demo_readings :: readings where
  "demo_readings \<equiv> \<lparr>now_ns = 0, now_us = 5, now_ms = 0, unix_ms = 0, rnd_hi = 0, rnd_lo = 0, conn_closed = (\<lambda>_. False),
     spent_us = 0\<rparr>"

section \<open>Replies\<close>

text \<open>The connections an effect sends to.\<close>

fun sends_to :: "effect \<Rightarrow> conn_id option" where
  "sends_to (Send c _ _ _) = Some c"
| "sends_to _ = None"

definition sends :: "effect list \<Rightarrow> effect list" where
  "sends fx = filter (\<lambda>f. sends_to f \<noteq> None) fx"

lemma sends_simps [simp]:
  "sends [] = []" "sends (Send c m b s # fx) = Send c m b s # sends fx" "sends (Close c # fx) = sends fx"
  "sends (Pause c # fx) = sends fx" "sends (Resume c # fx) = sends fx" "sends (Relay r # fx) = sends fx"
  "sends (fx @ gx) = sends fx @ sends gx"
  by (simp_all add: sends_def)

definition error_body :: "u16 \<Rightarrow> error_code \<Rightarrow> string \<Rightarrow> bytes" where
  "error_body origin code detail = enc_u16 origin @ enc_u16 (error_num code) @ enc_str (lit detail)"

lemma sends_send_error:
  "sends (send_error c origin code detail) =
     [Send c kErrorAck (error_body origin code detail) (bw_size (error_body origin code detail))]"
  by (simp add: send_error_def send_body_def Let_def error_body_def codec_simps)

lemma send_error_eq:
  "send_error c origin code detail =
     Send c kErrorAck (error_body origin code detail) (bw_size (error_body origin code detail)) #
       (if is_fatal code then [Close c] else [])"
  by (simp add: send_error_def send_body_def Let_def error_body_def codec_simps)

lemma length_send_body [simp]: "sends (send_body c i w) = [Send c i w (bw_size w)]"
  by (simp add: send_body_def)

section \<open>The body of an event\<close>

text \<open>The body of an event as \<^verbatim>\<open>post_message\<close> fills it.\<close>

definition ev_ok :: "inbound_event \<Rightarrow> bool" where
  "ev_ok ev \<longleftrightarrow> length (ev_body ev) = unat (ev_size ev)"

lemma ev_reader:
  assumes "ev_ok ev"
  shows "reader_wf (mk_reader (ev_body ev) (ucast (ev_size ev)))"
    "unread (mk_reader (ev_body ev) (ucast (ev_size ev))) = ev_body ev"
  using assms by (simp_all add: ev_ok_def reader_wf_mk unread_mk)

lemma rd_body:
  assumes "ev_ok ev" "str_fits p" "ev_body ev = enc_str p"
  shows "fst (rd_str (mk_reader (ev_body ev) (ucast (ev_size ev)))) = p"
    "consumed_all (snd (rd_str (mk_reader (ev_body ev) (ucast (ev_size ev)))))"
  using str.dec_value[OF ev_reader(1)[OF assms(1)] rd_ok_mk assms(2)]
    str.consumed_all_dec[OF ev_reader(1)[OF assms(1)]] ev_reader(2)[OF assms(1)] assms(2,3)
  by auto

end
