(* ===== verification/Session_Table.thy ===== *)
theory Session_Table
  imports App_Types
begin

text \<open>
  \<^verbatim>\<open>src/src/app/session_table.h\<close> and \<^verbatim>\<open>session_table.cpp\<close>: the sessions of one lane of the game service.
  \<^verbatim>\<open>unordered_map\<close> is an association list with distinct keys.
\<close>

datatype session_guard = Owner | Mutex

definition parse_guard :: "bytes \<Rightarrow> session_guard" where
  "parse_guard name = (if name = lit ''mutex'' then Mutex else Owner)"

definition guard_name :: "session_guard \<Rightarrow> string" where
  "guard_name g = (if g = Mutex then ''mutex'' else ''owner'')"

text \<open>
  \<^verbatim>\<open>Access\<close>: with the \<^verbatim>\<open>Owner\<close> guard a call from a foreign thread aborts the process, with the \<^verbatim>\<open>Mutex\<close> guard
  it waits for the lock. The result is whether the call goes on.
\<close>

definition st_access :: "session_guard \<Rightarrow> bool \<Rightarrow> bool" where
  "st_access guard on_logic_thread = (if guard = Mutex then True else on_logic_thread)"

record session =
  ss_conn_id :: conn_id
  ss_session_key :: bytes
  ss_conn :: conn_id
  ss_connected_ms :: int
  ss_message_count :: u64

type_synonym session_table = "(conn_id \<times> session) list"

definition st_find :: "conn_id \<Rightarrow> session_table \<Rightarrow> session option" where
  "st_find i t = map_of t i"

definition st_add :: "conn_id option \<Rightarrow> readings \<Rightarrow> session_table \<Rightarrow> session option \<times> session_table" where
  "st_add conn r t =
     (case conn of
        None \<Rightarrow> (None, t)
      | Some c \<Rightarrow>
          (case map_of t c of
             Some s \<Rightarrow> (Some s, t)
           | None \<Rightarrow>
               let s = \<lparr>ss_conn_id = c, ss_session_key = make_session_key (rnd_hi r) (rnd_lo r), ss_conn = c,
                        ss_connected_ms = now_ms r, ss_message_count = 0\<rparr>
               in (Some s, AList.update c s t)))"

definition st_remove :: "conn_id \<Rightarrow> session_table \<Rightarrow> bool \<times> session_table" where
  "st_remove i t = (map_of t i \<noteq> None, AList.delete i t)"

definition st_size :: "session_table \<Rightarrow> nat" where
  "st_size t = length t"

text \<open>The update of a session through the pointer \<^verbatim>\<open>find\<close> returned.\<close>

definition st_put :: "session \<Rightarrow> session_table \<Rightarrow> session_table" where
  "st_put s t = AList.update (ss_conn_id s) s t"

section \<open>Invariant\<close>

definition st_wf :: "session_table \<Rightarrow> bool" where
  "st_wf t \<longleftrightarrow> distinct (keys t) \<and> (\<forall>i s. map_of t i = Some s \<longrightarrow> ss_conn_id s = i \<and> ss_conn s = i)"

lemma st_wf_empty [simp]: "st_wf []"
  by (simp add: st_wf_def)

lemma st_find_ids: "st_wf t \<Longrightarrow> st_find i t = Some s \<Longrightarrow> ss_conn_id s = i \<and> ss_conn s = i"
  by (simp add: st_wf_def st_find_def)

lemma st_wf_add: "st_wf t \<Longrightarrow> st_wf (snd (st_add c r t))"
  by (auto simp: st_add_def st_wf_def Let_def split: option.splits)

lemma st_wf_remove: "st_wf t \<Longrightarrow> st_wf (snd (st_remove i t))"
  by (auto simp: st_remove_def st_wf_def)

lemma st_wf_put: "st_wf t \<Longrightarrow> st_find i t = Some s \<Longrightarrow> ss_conn_id s' = i \<Longrightarrow> ss_conn s' = i \<Longrightarrow> st_wf (st_put s' t)"
  by (auto simp: st_put_def st_wf_def st_find_def)

lemma st_find_put: "st_find i (st_put s t) = (if i = ss_conn_id s then Some s else st_find i t)"
  by (simp add: st_find_def st_put_def)

lemma st_find_add:
  "st_find j (snd (st_add (Some c) r t)) = (if j = c then fst (st_add (Some c) r t) else st_find j t)"
  by (auto simp: st_add_def st_find_def Let_def split: option.splits)

lemma st_find_remove: "st_find j (snd (st_remove i t)) = (if j = i then None else st_find j t)"
  by (simp add: st_find_def st_remove_def)

section \<open>The table as a finite map of sessions\<close>

text \<open>What the message handlers rely on.\<close>

locale keyed_table =
  fixes find :: "'k \<Rightarrow> 't \<Rightarrow> 's option"
    and add :: "'k \<Rightarrow> 't \<Rightarrow> 's \<times> 't"
    and remove :: "'k \<Rightarrow> 't \<Rightarrow> 't"
    and inv :: "'t \<Rightarrow> bool"
  assumes add_inv: "inv t \<Longrightarrow> inv (snd (add k t))"
    and remove_inv: "inv t \<Longrightarrow> inv (remove k t)"
    and find_add: "find j (snd (add k t)) = (if j = k then Some (fst (add k t)) else find j t)"
    and add_old: "find k t = Some s \<Longrightarrow> fst (add k t) = s"
    and find_remove: "find j (remove k t) = (if j = k then None else find j t)"
begin

text \<open>Adding a key that is there changes nothing that \<open>find\<close> can see.\<close>

lemma add_idem: "find k t = Some s \<Longrightarrow> find j (snd (add k t)) = find j t"
  by (auto simp: find_add add_old)

lemma remove_undoes_add: "find k t = None \<Longrightarrow> find j (remove k (snd (add k t))) = find j t"
  by (auto simp: find_add find_remove)

end

interpretation sessions: keyed_table st_find "\<lambda>c t. (the (fst (st_add (Some c) r t)), snd (st_add (Some c) r t))"
  "\<lambda>i t. snd (st_remove i t)" st_wf for r
  by unfold_locales (auto simp: st_wf_add st_wf_remove st_find_add st_find_remove,
      auto simp: st_add_def st_find_def Let_def split: option.splits)

end
