(* ===== verification/Handlers.thy ===== *)
theory Handlers
  imports Session_Table
begin

text \<open>
  \<^verbatim>\<open>src/src/app/handlers.h\<close> and \<^verbatim>\<open>handlers.cpp\<close>: the message handling of the game service. The database
  pool is reached through two of its operations, which are arguments here; \<^verbatim>\<open>ctx.db\<close> may be null.
\<close>

record 'p db_api =
  db_enabled :: "'p \<Rightarrow> bool"
  db_submit :: "request \<Rightarrow> 'p \<Rightarrow> bool \<times> 'p"

record 'p app_context =
  ctx_sessions :: session_table
  ctx_db :: 'p
  ctx_db_deadline_us :: int
  ctx_relay :: bool
  ctx_handled :: u64
  ctx_rejected :: u64
  ctx_db_requests :: u64
  ctx_db_responses :: u64
  ctx_db_total_us :: u64
  ctx_db_failures :: u64
  ctx_db_expired :: u64
  ctx_db_responses_total :: u64
  ctx_query_dist :: histogram
  ctx_round_dist :: histogram

type_synonym 'p db_ref = "'p db_api option"

text \<open>An error reply counts as a rejected message.\<close>

definition reject :: "conn_id \<Rightarrow> u16 \<Rightarrow> error_code \<Rightarrow> string \<Rightarrow> 'p app_context \<Rightarrow> 'p app_context \<times> effect list" where
  "reject c origin code detail ctx = (ctx\<lparr>ctx_rejected := ctx_rejected ctx + 1\<rparr>, send_error c origin code detail)"

definition handle_echo :: "session \<Rightarrow> inbound_event \<Rightarrow> 'p app_context \<Rightarrow> 'p app_context \<times> effect list" where
  "handle_echo s ev ctx =
     (let (payload, r) = rd_str (mk_reader (ev_body ev) (ucast (ev_size ev))) in
      if \<not> consumed_all r then reject (ss_conn s) (ev_msg_id ev) InvalidField ''echo body'' ctx
      else if length payload > kMaxPayloadBytes
      then reject (ss_conn s) (ev_msg_id ev) PayloadTooLong ''512 bytes max'' ctx
      else (ctx, send_body (ss_conn s) kEchoAck (bw_str payload [])))"

definition handle_ping :: "readings \<Rightarrow> session \<Rightarrow> inbound_event \<Rightarrow> 'p app_context \<Rightarrow> 'p app_context \<times> effect list" where
  "handle_ping rd s ev ctx =
     (let (client_ms, r) = rd_u64 (mk_reader (ev_body ev) (ucast (ev_size ev))) in
      if \<not> consumed_all r then reject (ss_conn s) (ev_msg_id ev) InvalidField ''ping body'' ctx
      else (ctx, send_body (ss_conn s) kPongAck (bw_u64 (word_of_int (unix_ms rd)) (bw_u64 client_ms []))))"

definition submit_db ::
  "'p db_ref \<Rightarrow> readings \<Rightarrow> session \<Rightarrow> u16 \<Rightarrow> request \<Rightarrow> 'p app_context \<Rightarrow> 'p app_context \<times> effect list" where
  "submit_db D rd s origin req ctx =
     (case D of
        None \<Rightarrow> reject (ss_conn s) origin DbUnavailable ''db disabled'' ctx
      | Some api \<Rightarrow>
          if \<not> db_enabled api (ctx_db ctx) then reject (ss_conn s) origin DbUnavailable ''db disabled'' ctx
          else
            let req = req\<lparr>rq_conn_id := ss_conn_id s, rq_session_key := ss_session_key s,
                          rq_submitted_us := now_us rd\<rparr>;
                req = (if ctx_db_deadline_us ctx > 0
                       then req\<lparr>rq_deadline_us := rq_submitted_us req + ctx_db_deadline_us ctx\<rparr> else req);
                (ok, pool) = db_submit api req (ctx_db ctx);
                ctx = ctx\<lparr>ctx_db := pool\<rparr>
            in if \<not> ok then reject (ss_conn s) origin ServerBusy ''db queue full'' ctx
               else (ctx\<lparr>ctx_db_requests := ctx_db_requests ctx + 1\<rparr>, []))"

definition handle_save ::
  "'p db_ref \<Rightarrow> readings \<Rightarrow> session \<Rightarrow> inbound_event \<Rightarrow> 'p app_context \<Rightarrow> 'p app_context \<times> effect list" where
  "handle_save D rd s ev ctx =
     (let (payload, r) = rd_str (mk_reader (ev_body ev) (ucast (ev_size ev))) in
      if \<not> consumed_all r then reject (ss_conn s) (ev_msg_id ev) InvalidField ''save body'' ctx
      else if length payload > kMaxPayloadBytes
      then reject (ss_conn s) (ev_msg_id ev) PayloadTooLong ''512 bytes max'' ctx
      else submit_db D rd s (ev_msg_id ev) (request_init\<lparr>rq_kind := Save, rq_payload := payload\<rparr>) ctx)"

definition handle_history ::
  "'p db_ref \<Rightarrow> readings \<Rightarrow> session \<Rightarrow> inbound_event \<Rightarrow> 'p app_context \<Rightarrow> 'p app_context \<times> effect list" where
  "handle_history D rd s ev ctx =
     (let (lim, r) = rd_u16 (mk_reader (ev_body ev) (ucast (ev_size ev))) in
      if \<not> consumed_all r then reject (ss_conn s) (ev_msg_id ev) InvalidField ''history body'' ctx
      else if lim < kMinHistoryLimit \<or> lim > kMaxHistoryLimit
      then reject (ss_conn s) (ev_msg_id ev) LimitOutOfRange ''1..100'' ctx
      else submit_db D rd s (ev_msg_id ev) (request_init\<lparr>rq_kind := History, rq_limit := lim\<rparr>) ctx)"

definition handle_counter ::
  "'p db_ref \<Rightarrow> readings \<Rightarrow> session \<Rightarrow> inbound_event \<Rightarrow> 'p app_context \<Rightarrow> 'p app_context \<times> effect list" where
  "handle_counter D rd s ev ctx =
     (let (request_key, r) = rd_str (mk_reader (ev_body ev) (ucast (ev_size ev))) in
      if \<not> consumed_all r then reject (ss_conn s) (ev_msg_id ev) InvalidField ''counter body'' ctx
      else if length request_key \<noteq> 36
      then reject (ss_conn s) (ev_msg_id ev) InvalidField ''request_key must be 36 chars'' ctx
      else submit_db D rd s (ev_msg_id ev) (request_init\<lparr>rq_kind := Counter, rq_request_key := request_key\<rparr>) ctx)"

definition on_connected :: "readings \<Rightarrow> inbound_event \<Rightarrow> 'p app_context \<Rightarrow> 'p app_context \<times> effect list" where
  "on_connected rd ev ctx =
     (case st_add (ev_conn ev) rd (ctx_sessions ctx) of
        (None, t) \<Rightarrow> (ctx\<lparr>ctx_sessions := t\<rparr>, [])
      | (Some s, t) \<Rightarrow>
          (ctx\<lparr>ctx_sessions := t\<rparr>,
           send_body (ss_conn s) kSessionAck (bw_str (ss_session_key s) []) @
           (if ctx_relay ctx
            then [Relay \<lparr>sm_kind = SessionOpened, sm_conn_id = ss_conn_id s, sm_text = ss_session_key s,
                         sm_enqueued_us = now_us rd\<rparr>]
            else [])))"

definition on_disconnected :: "inbound_event \<Rightarrow> 'p app_context \<Rightarrow> 'p app_context \<times> effect list" where
  "on_disconnected ev ctx =
     (case st_find (ev_conn_id ev) (ctx_sessions ctx) of
        None \<Rightarrow> (ctx, [])
      | Some s \<Rightarrow> (ctx\<lparr>ctx_sessions := snd (st_remove (ev_conn_id ev) (ctx_sessions ctx))\<rparr>, []))"

definition on_message ::
  "'p db_ref \<Rightarrow> readings \<Rightarrow> inbound_event \<Rightarrow> 'p app_context \<Rightarrow> 'p app_context \<times> effect list" where
  "on_message D rd ev ctx =
     (case st_find (ev_conn_id ev) (ctx_sessions ctx) of
        None \<Rightarrow> (ctx, [])
      | Some s0 \<Rightarrow>
          let s = s0\<lparr>ss_message_count := ss_message_count s0 + 1\<rparr>;
              ctx = ctx\<lparr>ctx_sessions := st_put s (ctx_sessions ctx), ctx_handled := ctx_handled ctx + 1\<rparr>
          in if ev_oversized ev then reject (ss_conn s) (ev_msg_id ev) PayloadTooLong ''body too large'' ctx
             else if ev_msg_id ev = kEchoReq then handle_echo s ev ctx
             else if ev_msg_id ev = kPingReq then handle_ping rd s ev ctx
             else if ev_msg_id ev = kSaveReq then handle_save D rd s ev ctx
             else if ev_msg_id ev = kHistoryReq then handle_history D rd s ev ctx
             else if ev_msg_id ev = kCounterReq then handle_counter D rd s ev ctx
             else reject (ss_conn s) (ev_msg_id ev) UnknownMessage ''unknown id'' ctx)"

fun request_msg_id :: "request_kind \<Rightarrow> u16" where
  "request_msg_id Save = kSaveReq"
| "request_msg_id History = kHistoryReq"
| "request_msg_id Counter = kCounterReq"

definition process_event ::
  "'p db_ref \<Rightarrow> readings \<Rightarrow> inbound_event \<Rightarrow> 'p app_context \<Rightarrow> 'p app_context \<times> effect list" where
  "process_event D rd ev ctx =
     (case ev_kind ev of
        Connected \<Rightarrow> on_connected rd ev ctx
      | Disconnected \<Rightarrow> on_disconnected ev ctx
      | Message \<Rightarrow> on_message D rd ev ctx)"

definition write_row :: "log_row \<Rightarrow> bytes \<Rightarrow> bytes" where
  "write_row row w = bw_u64 (lr_created_at_ms row) (bw_str (lr_payload row) (bw_u64 (lr_log_id row) w))"

definition response_body :: "response \<Rightarrow> bytes" where
  "response_body res =
     (case rs_kind res of
        Save \<Rightarrow> bw_u64 (rs_log_id res) []
      | History \<Rightarrow> fold write_row (rs_rows res) (bw_u16 (word_of_nat (length (rs_rows res))) [])
      | Counter \<Rightarrow> bw_u8 (if rs_already_applied res then 1 else 0) (bw_u64 (rs_hit_count res) []))"

fun response_msg_id :: "request_kind \<Rightarrow> u16" where
  "response_msg_id Save = kSaveAck"
| "response_msg_id History = kHistoryAck"
| "response_msg_id Counter = kCounterAck"

definition process_db_response :: "readings \<Rightarrow> response \<Rightarrow> 'p app_context \<Rightarrow> 'p app_context \<times> effect list" where
  "process_db_response rd res ctx =
     (let ctx = ctx\<lparr>ctx_db_responses := ctx_db_responses ctx + 1,
                    ctx_db_responses_total := ctx_db_responses_total ctx + 1,
                    ctx_db_total_us := ctx_db_total_us ctx + word_of_int (rs_db_us res),
                    ctx_query_dist := lat_add (rs_db_us res) (ctx_query_dist ctx)\<rparr>;
          ctx = (if rs_submitted_us res > 0
                 then ctx\<lparr>ctx_round_dist := lat_add (now_us rd - rs_submitted_us res) (ctx_round_dist ctx)\<rparr> else ctx)
      in case st_find (rs_conn_id res) (ctx_sessions ctx) of
           None \<Rightarrow> (ctx, [])
         | Some s \<Rightarrow>
             if rs_status res \<noteq> Ok then
               let ctx = ctx\<lparr>ctx_db_failures := ctx_db_failures ctx + 1\<rparr>;
                   code = (if rs_status res = Unavailable then DbUnavailable else DbTimeout);
                   ctx = (if rs_status res = Expired then ctx\<lparr>ctx_db_expired := ctx_db_expired ctx + 1\<rparr> else ctx);
                   detail = (if rs_status res = Expired then ''db request expired'' else ''db request failed'')
               in (ctx, send_error (ss_conn s) (request_msg_id (rs_kind res)) code detail)
             else (ctx, send_body (ss_conn s) (response_msg_id (rs_kind res)) (response_body res)))"

section \<open>One answer for every request\<close>

text \<open>
  A request is answered at once when exactly one message goes back to its connection, and it is left to the
  database when nothing is sent and the pool has taken exactly one request.
\<close>

definition answered :: "conn_id \<Rightarrow> 'p app_context \<Rightarrow> 'p app_context \<times> effect list \<Rightarrow> bool" where
  "answered i ctx r \<longleftrightarrow> (\<exists>m b. sends (snd r) = [Send i m b (bw_size b)]) \<and>
     ctx_db_requests (fst r) = ctx_db_requests ctx"

definition deferred :: "'p db_ref \<Rightarrow> session \<Rightarrow> 'p app_context \<Rightarrow> 'p app_context \<times> effect list \<Rightarrow> bool" where
  "deferred D s ctx r \<longleftrightarrow> snd r = [] \<and> ctx_db_requests (fst r) = ctx_db_requests ctx + 1 \<and>
     (\<exists>api req. D = Some api \<and> db_submit api req (ctx_db ctx) = (True, ctx_db (fst r)) \<and>
        rq_conn_id req = ss_conn_id s \<and> rq_session_key req = ss_session_key s)"

text \<open>The effects of a message concern its own connection only.\<close>

fun effect_on :: "effect \<Rightarrow> conn_id" where
  "effect_on (Send c _ _ _) = c"
| "effect_on (Close c) = c"
| "effect_on (Pause c) = c"
| "effect_on (Resume c) = c"
| "effect_on (Relay m) = sm_conn_id m"

definition local_to :: "conn_id \<Rightarrow> effect list \<Rightarrow> bool" where
  "local_to i fx \<longleftrightarrow> (\<forall>f\<in>set fx. effect_on f = i)"

definition handled_ok :: "'p db_ref \<Rightarrow> session \<Rightarrow> conn_id \<Rightarrow> 'p app_context \<Rightarrow> 'p app_context \<times> effect list \<Rightarrow> bool" where
  "handled_ok D s i ctx r \<longleftrightarrow> (answered i ctx r \<or> deferred D s ctx r) \<and> local_to i (snd r) \<and>
     ctx_sessions (fst r) = ctx_sessions ctx \<and> ctx_handled (fst r) = ctx_handled ctx"

lemma reject_ok: "handled_ok D s i ctx (reject i m code d (ctx\<lparr>ctx_db := p\<rparr>))" "handled_ok D s i ctx (reject i m code d ctx)"
  by (auto simp: handled_ok_def reject_def answered_def sends_send_error local_to_def send_error_eq)

lemma reply_ok: "handled_ok D s i ctx (ctx, send_body i m w)"
  by (simp add: handled_ok_def answered_def local_to_def send_body_def)

lemma handled_ok_if:
  "handled_ok D s i ctx x \<Longrightarrow> handled_ok D s i ctx y \<Longrightarrow> handled_ok D s i ctx (if b then x else y)"
  by simp

lemma submit_db_cases:
  obtains (rejected) code d pool where "submit_db D rd s m req ctx = reject (ss_conn s) m code d (ctx\<lparr>ctx_db := pool\<rparr>)"
  | (taken) req' api pool where "submit_db D rd s m req ctx =
        (ctx\<lparr>ctx_db := pool, ctx_db_requests := ctx_db_requests ctx + 1\<rparr>, [])"
      "D = Some api" "db_submit api req' (ctx_db ctx) = (True, pool)"
      "rq_conn_id req' = ss_conn_id s" "rq_session_key req' = ss_session_key s"
proof (cases D)
  case None
  have "ctx = ctx\<lparr>ctx_db := ctx_db ctx\<rparr>" by (cases ctx) simp
  then show ?thesis using None by (intro rejected[of DbUnavailable _ "ctx_db ctx"]) (simp add: submit_db_def)
next
  case (Some api)
  show ?thesis
  proof (cases "db_enabled api (ctx_db ctx)")
    case False
    have "ctx = ctx\<lparr>ctx_db := ctx_db ctx\<rparr>" by (cases ctx) simp
    then show ?thesis using Some False by (intro rejected[of DbUnavailable _ "ctx_db ctx"]) (simp add: submit_db_def)
  next
    case True
    define req' where "req' = (let req = req\<lparr>rq_conn_id := ss_conn_id s, rq_session_key := ss_session_key s,
        rq_submitted_us := now_us rd\<rparr> in (if ctx_db_deadline_us ctx > 0
          then req\<lparr>rq_deadline_us := rq_submitted_us req + ctx_db_deadline_us ctx\<rparr> else req))"
    have ids: "rq_conn_id req' = ss_conn_id s" "rq_session_key req' = ss_session_key s"
      by (simp_all add: req'_def Let_def)
    obtain ok pool where sub: "db_submit api req' (ctx_db ctx) = (ok, pool)" by fastforce
    have eq: "submit_db D rd s m req ctx = (if \<not> ok then reject (ss_conn s) m ServerBusy ''db queue full'' (ctx\<lparr>ctx_db := pool\<rparr>)
        else (ctx\<lparr>ctx_db := pool, ctx_db_requests := ctx_db_requests ctx + 1\<rparr>, []))"
      using Some True sub by (simp add: submit_db_def req'_def Let_def)
    show ?thesis
      by (cases ok) (use eq Some sub ids in \<open>auto intro: rejected taken\<close>)
  qed
qed

lemma submit_db_ok:
  assumes "ss_conn s = i"
  shows "handled_ok D s i ctx (submit_db D rd s m req ctx)"
proof (cases rule: submit_db_cases[where D = D and rd = rd and s = s and m = m and req = req and ctx = ctx])
  case (rejected code d pool)
  then show ?thesis by (simp add: assms reject_ok)
next
  case (taken req' api pool)
  then show ?thesis unfolding taken(1) by (auto simp: handled_ok_def deferred_def local_to_def)
qed

lemma handlers_ok:
  assumes "ss_conn s = i"
  shows "handled_ok D s i ctx (handle_echo s ev ctx)" "handled_ok D s i ctx (handle_ping rd s ev ctx)"
    "handled_ok D s i ctx (handle_save D rd s ev ctx)" "handled_ok D s i ctx (handle_history D rd s ev ctx)"
    "handled_ok D s i ctx (handle_counter D rd s ev ctx)"
  by (simp_all add: handle_echo_def handle_ping_def handle_save_def handle_history_def handle_counter_def
      case_prod_beta assms reject_ok reply_ok submit_db_ok[OF assms])

lemma on_message_props:
  assumes wf: "st_wf (ctx_sessions ctx)" and s: "st_find (ev_conn_id ev) (ctx_sessions ctx) = Some s"
  shows "(answered (ev_conn_id ev) ctx (on_message D rd ev ctx) \<or> deferred D s ctx (on_message D rd ev ctx)) \<and>
    local_to (ev_conn_id ev) (snd (on_message D rd ev ctx)) \<and>
    ctx_handled (fst (on_message D rd ev ctx)) = ctx_handled ctx + 1 \<and>
    ctx_sessions (fst (on_message D rd ev ctx)) =
      st_put (s\<lparr>ss_message_count := ss_message_count s + 1\<rparr>) (ctx_sessions ctx)"
proof -
  let ?s = "s\<lparr>ss_message_count := ss_message_count s + 1\<rparr>"
  let ?ctx = "ctx\<lparr>ctx_sessions := st_put ?s (ctx_sessions ctx), ctx_handled := ctx_handled ctx + 1\<rparr>"
  have i: "ss_conn ?s = ev_conn_id ev" using st_find_ids[OF wf s] by simp
  have "handled_ok D ?s (ev_conn_id ev) ?ctx (on_message D rd ev ctx)"
    unfolding on_message_def s option.case Let_def i
    by (intro handled_ok_if handlers_ok[OF i] reject_ok)
  then show ?thesis by (simp add: handled_ok_def answered_def deferred_def)
qed

lemma process_event_wf:
  assumes wf: "st_wf (ctx_sessions ctx)"
  shows "st_wf (ctx_sessions (fst (process_event D rd ev ctx)))"
proof (cases "ev_kind ev")
  case Connected
  then show ?thesis using st_wf_add[OF wf, of "ev_conn ev" rd]
    by (auto simp: process_event_def on_connected_def split: prod.split option.split)
next
  case Disconnected
  then show ?thesis using wf st_wf_remove[OF wf]
    by (auto simp: process_event_def on_disconnected_def split: option.split)
next
  case Message
  show ?thesis
  proof (cases "st_find (ev_conn_id ev) (ctx_sessions ctx)")
    case None
    then show ?thesis using wf Message by (simp add: process_event_def on_message_def)
  next
    case (Some s)
    then show ?thesis
      using Message on_message_props[OF wf Some, of D rd] st_find_ids[OF wf Some] st_wf_put[OF wf Some]
      by (simp add: process_event_def)
  qed
qed

section \<open>The echo handler\<close>

lemma handle_echo_eq:
  assumes "ev_ok ev"
  shows "handle_echo s ev ctx =
    (if \<exists>p. str_fits p \<and> ev_body ev = enc_str p
     then (if \<exists>p. length p \<le> kMaxPayloadBytes \<and> ev_body ev = enc_str p
           then (ctx, send_body (ss_conn s) kEchoAck (ev_body ev))
           else reject (ss_conn s) (ev_msg_id ev) PayloadTooLong ''512 bytes max'' ctx)
     else reject (ss_conn s) (ev_msg_id ev) InvalidField ''echo body'' ctx)"
proof -
  let ?r = "mk_reader (ev_body ev) (ucast (ev_size ev))"
  have all: "consumed_all (snd (rd_str ?r)) \<longleftrightarrow> (\<exists>p. str_fits p \<and> ev_body ev = enc_str p)"
    using str.consumed_all_dec[OF ev_reader(1)[OF assms]] by (simp add: ev_reader(2)[OF assms])
  have eq: "handle_echo s ev ctx =
      (if \<not> consumed_all (snd (rd_str ?r)) then reject (ss_conn s) (ev_msg_id ev) InvalidField ''echo body'' ctx
       else if length (fst (rd_str ?r)) > kMaxPayloadBytes
       then reject (ss_conn s) (ev_msg_id ev) PayloadTooLong ''512 bytes max'' ctx
       else (ctx, send_body (ss_conn s) kEchoAck (bw_str (fst (rd_str ?r)) [])))"
    by (simp only: handle_echo_def Let_def case_prod_beta)
  show ?thesis
  proof (cases "\<exists>p. str_fits p \<and> ev_body ev = enc_str p")
    case True
    then obtain p where p: "str_fits p" "ev_body ev = enc_str p" by blast
    then have val: "fst (rd_str ?r) = p"
      using str.dec_value[OF ev_reader(1)[OF assms] rd_ok_mk p(1)] ev_reader(2)[OF assms] by simp
    have fits: "str_fits q" if "length q \<le> kMaxPayloadBytes" for q :: bytes
      using that by (simp add: str_fits_def kMaxPayloadBytes_def)
    have "(\<exists>q. length q \<le> kMaxPayloadBytes \<and> ev_body ev = enc_str q) \<longleftrightarrow> length p \<le> kMaxPayloadBytes"
    proof
      assume "\<exists>q. length q \<le> kMaxPayloadBytes \<and> ev_body ev = enc_str q"
      then obtain q where q: "length q \<le> kMaxPayloadBytes" "ev_body ev = enc_str q" by blast
      have "length (enc_str p) < 2 ^ 32" by (simp add: length_enc_str)
      from str.enc_inj[OF p(1) fits[OF q(1)] _ this] q(2) p(2) have "p = q" by simp
      with q show "length p \<le> kMaxPayloadBytes" by simp
    qed (use p in blast)
    moreover have "bw_str p [] = ev_body ev" using p(2) by (simp add: codec_simps)
    moreover have "consumed_all (snd (rd_str ?r))" using all True by blast
    ultimately show ?thesis using True unfolding eq val by (simp only: not_less[symmetric] if_True if_False not_True_eq_False split: if_split) simp
  next
    case False
    then show ?thesis using all unfolding eq by (simp only: if_False if_True not_False_eq_True)
  qed
qed

section \<open>The bodies of database replies\<close>

definition enc_row :: "log_row \<Rightarrow> bytes" where
  "enc_row row = enc_u64 (lr_log_id row) @ enc_str (lr_payload row) @ enc_u64 (lr_created_at_ms row)"

lemma fold_write_row: "fold write_row rows w = w @ concat (map enc_row rows)"
  by (induction rows arbitrary: w) (simp_all add: write_row_def enc_row_def codec_simps)

lemma history_body: "rs_kind res = History \<Longrightarrow>
    response_body res = enc_u16 (word_of_nat (length (rs_rows res))) @ concat (map enc_row (rs_rows res))"
  by (simp add: response_body_def fold_write_row codec_simps)

text \<open>How a client reads the rows back.\<close>

fun rd_rows :: "nat \<Rightarrow> byte_reader \<Rightarrow> log_row list \<times> byte_reader" where
  "rd_rows 0 r = ([], r)"
| "rd_rows (Suc n) r =
     (let (i, r1) = rd_u64 r; (p, r2) = rd_str r1; (t, r3) = rd_u64 r2; (rows, r4) = rd_rows n r3
      in (\<lparr>lr_log_id = i, lr_payload = p, lr_created_at_ms = t\<rparr> # rows, r4))"

lemma rd_rows_concat:
  assumes "reader_wf r" "rd_ok r" "\<forall>row\<in>set rows. str_fits (lr_payload row)"
    and "unread r = concat (map enc_row rows) @ rest"
  shows "fst (rd_rows (length rows) r) = rows \<and> reader_wf (snd (rd_rows (length rows) r)) \<and>
    rd_ok (snd (rd_rows (length rows) r)) \<and> unread (snd (rd_rows (length rows) r)) = rest"
  using assms
proof (induction rows arbitrary: r)
  case (Cons row rows)
  let ?r1 = "snd (rd_u64 r)" let ?r2 = "snd (rd_str ?r1)" let ?r3 = "snd (rd_u64 ?r2)"
  have s1: "fst (rd_u64 r) = lr_log_id row \<and> rd_ok ?r1 \<and> unread ?r1 =
      enc_str (lr_payload row) @ enc_u64 (lr_created_at_ms row) @ concat (map enc_row rows) @ rest"
    using Cons.prems by (intro u64.dec_enc) (simp_all add: any_def enc_row_def[of row])
  have w1: "reader_wf ?r1" using Cons.prems(1) by (rule u64.dec_wf)
  have s2: "fst (rd_str ?r1) = lr_payload row \<and> rd_ok ?r2 \<and> unread ?r2 =
      enc_u64 (lr_created_at_ms row) @ concat (map enc_row rows) @ rest"
    using Cons.prems s1 w1 by (intro str.dec_enc) simp_all
  have w2: "reader_wf ?r2" using w1 by (rule str.dec_wf)
  have s3: "fst (rd_u64 ?r2) = lr_created_at_ms row \<and> rd_ok ?r3 \<and> unread ?r3 = concat (map enc_row rows) @ rest"
    using s2 w2 by (intro u64.dec_enc) (simp_all add: any_def)
  have w3: "reader_wf ?r3" using w2 by (rule u64.dec_wf)
  from Cons.IH[of ?r3] w3 s3 Cons.prems(3) show ?case
    by (simp add: case_prod_beta s1 s2 s3)
qed simp

lemma length_rows:
  assumes "\<forall>row\<in>set rows. length (lr_payload row) \<le> 512"
  shows "length (concat (map enc_row rows)) \<le> length rows * 530"
  using assms by (induction rows) (auto simp: enc_row_def width_simps)

section \<open>Properties\<close>

text \<open>
  C3: every message of an open session is dealt with exactly once. Either exactly one reply goes back to its
  own connection, or nothing is sent and the database pool has taken exactly one request, which carries the
  session key the server issued for that connection; no other connection is touched.
\<close>

theorem every_message_is_answered_or_queued:
  assumes "st_wf (ctx_sessions ctx)" "st_find (ev_conn_id ev) (ctx_sessions ctx) = Some s"
    and "ev_kind ev = Message"
  shows "let (ctx', fx) = process_event D rd ev ctx in
    ((\<exists>m b. sends fx = [Send (ev_conn_id ev) m b (bw_size b)]) \<and> ctx_db_requests ctx' = ctx_db_requests ctx \<or>
     fx = [] \<and> ctx_db_requests ctx' = ctx_db_requests ctx + 1 \<and>
       (\<exists>api req. D = Some api \<and> db_submit api req (ctx_db ctx) = (True, ctx_db ctx') \<and>
          rq_conn_id req = ev_conn_id ev \<and> rq_session_key req = ss_session_key s)) \<and>
    local_to (ev_conn_id ev) fx \<and> ctx_handled ctx' = ctx_handled ctx + 1"
  using on_message_props[OF assms(1,2), of D rd] st_find_ids[OF assms(1,2)] assms(3)
  by (auto simp: process_event_def case_prod_beta answered_def deferred_def)

definition ctx_init :: "'p \<Rightarrow> 'p app_context" where
  "ctx_init p = \<lparr>ctx_sessions = [], ctx_db = p, ctx_db_deadline_us = 0, ctx_relay = True, ctx_handled = 0,
     ctx_rejected = 0, ctx_db_requests = 0, ctx_db_responses = 0, ctx_db_total_us = 0, ctx_db_failures = 0,
     ctx_db_expired = 0, ctx_db_responses_total = 0, ctx_query_dist = lat_init, ctx_round_dist = lat_init\<rparr>"

abbreviation demo_session :: session where
  "demo_session \<equiv> \<lparr>ss_conn_id = 7, ss_session_key = [1], ss_conn = 7, ss_connected_ms = 0, ss_message_count = 0\<rparr>"

abbreviation demo_ctx :: "request list app_context" where
  "demo_ctx \<equiv> (ctx_init [])\<lparr>ctx_sessions := [(7, demo_session)]\<rparr>"

abbreviation demo_event :: "u16 \<Rightarrow> bytes \<Rightarrow> inbound_event" where
  "demo_event m b \<equiv> \<lparr>ev_kind = Message, ev_conn_id = 7, ev_msg_id = m, ev_size = word_of_nat (length b),
     ev_oversized = False, ev_enqueued_us = 0, ev_conn = None, ev_body = b\<rparr>"

abbreviation demo_db :: "request list db_ref" where
  "demo_db \<equiv> Some \<lparr>db_enabled = (\<lambda>_. True), db_submit = (\<lambda>r l. (True, l @ [r]))\<rparr>"

lemma demo_wf: "st_wf (ctx_sessions demo_ctx)" "st_find 7 (ctx_sessions demo_ctx) = Some demo_session"
  by (simp_all add: st_wf_def st_find_def)

theorem every_message_is_answered_or_queued_witness:
  "local_to 7 (snd (process_event demo_db demo_readings (demo_event kHistoryReq (enc_u16 5)) demo_ctx)) \<and>
   ctx_handled (fst (process_event demo_db demo_readings (demo_event kHistoryReq (enc_u16 5)) demo_ctx)) = 1"
  using every_message_is_answered_or_queued[of demo_ctx "demo_event kHistoryReq (enc_u16 5)" demo_session demo_db demo_readings]
    demo_wf by (simp add: case_prod_beta ctx_init_def)

text \<open>
  An echo request is answered with its own body if it is one length-prefixed string of at most 512 bytes,
  with \<^verbatim>\<open>kPayloadTooLong\<close> if the string is longer, and with the fatal \<^verbatim>\<open>kInvalidField\<close>, which closes the
  connection, if the body is anything else.
\<close>

theorem echo_returns_the_payload:
  assumes "st_wf (ctx_sessions ctx)" "st_find (ev_conn_id ev) (ctx_sessions ctx) = Some s"
    and "ev_kind ev = Message" "ev_msg_id ev = kEchoReq" "\<not> ev_oversized ev" "ev_ok ev"
  shows "snd (process_event D rd ev ctx) =
    (if \<exists>p. length p \<le> 512 \<and> ev_body ev = enc_str p then send_body (ev_conn_id ev) kEchoAck (ev_body ev)
     else if \<exists>p. str_fits p \<and> ev_body ev = enc_str p
     then send_error (ev_conn_id ev) kEchoReq PayloadTooLong ''512 bytes max''
     else send_error (ev_conn_id ev) kEchoReq InvalidField ''echo body'' )"
proof -
  have "str_fits p" if "length p \<le> 512" for p :: bytes using that by (simp add: str_fits_def)
  then show ?thesis
    using assms st_find_ids[OF assms(1,2)]
    by (auto simp: process_event_def on_message_def handle_echo_eq Let_def reject_def kMaxPayloadBytes_def)
qed

theorem echo_returns_the_payload_witness:
  "snd (process_event demo_db demo_readings (demo_event kEchoReq (enc_str [104, 105])) demo_ctx) =
    send_body 7 kEchoAck (enc_str [104, 105])"
proof -
  have "\<exists>p. length p \<le> 512 \<and> enc_str [104, 105] = enc_str p" by (intro exI[of _ "[104, 105]"]) simp
  then show ?thesis
    using echo_returns_the_payload[of demo_ctx "demo_event kEchoReq (enc_str [104, 105])" demo_session demo_db demo_readings]
      demo_wf by (simp add: ev_ok_def width_simps)
qed

text \<open>
  A history reply of at most 100 rows with payloads of at most 512 bytes stays below the outbound limit, so
  that sending it never closes the connection, and a client that reads it field by field gets the rows back and
  has consumed the whole body.
\<close>

theorem history_reply_round_trip:
  assumes "rs_kind res = History" "length (rs_rows res) \<le> 100"
    and "\<forall>row\<in>set (rs_rows res). length (lr_payload row) \<le> 512"
  defines "body \<equiv> response_body res"
  shows "bw_size body \<le> kMaxOutboundBody \<and>
    (let (n, r) = rd_u16 (mk_reader body (bw_size body)); (rows, r') = rd_rows (unat n) r
     in rows = rs_rows res \<and> consumed_all r')"
proof -
  let ?rows = "rs_rows res" let ?r = "mk_reader body (bw_size body)"
  have len: "length body \<le> 2 + 53000"
    using length_rows[OF assms(3)] assms(2) by (simp add: body_def history_body[OF assms(1)] width_simps)
  then have sz: "unat (bw_size body) = length body"
    by (simp add: bw_size_def unat_of_nat take_bit_nat_eq_self)
  have r: "reader_wf ?r" "unread ?r = enc_u16 (word_of_nat (length ?rows)) @ concat (map enc_row ?rows)"
    by (simp_all add: reader_wf_mk unread_mk sz) (simp add: body_def history_body[OF assms(1)])
  have h: "fst (rd_u16 ?r) = word_of_nat (length ?rows) \<and> rd_ok (snd (rd_u16 ?r)) \<and>
      unread (snd (rd_u16 ?r)) = concat (map enc_row ?rows)"
    using r by (intro u16.dec_enc) (simp_all add: any_def)
  have n: "unat (word_of_nat (length ?rows) :: u16) = length ?rows"
    using assms(2) by (simp add: unat_of_nat take_bit_nat_eq_self)
  have fits: "\<forall>row\<in>set ?rows. str_fits (lr_payload row)" using assms(3) by (auto simp: str_fits_def)
  from rd_rows_concat[OF u16.dec_wf[OF r(1)] _ fits, of "[]"] h
  have "fst (rd_rows (length ?rows) (snd (rd_u16 ?r))) = ?rows"
    "consumed_all (snd (rd_rows (length ?rows) (snd (rd_u16 ?r))))" by (simp_all add: consumed_all_iff)
  moreover have "bw_size body \<le> kMaxOutboundBody"
    using len sz by (simp add: word_le_nat_alt kMaxOutboundBody_def)
  ultimately show ?thesis by (simp add: case_prod_beta h n)
qed

theorem history_reply_round_trip_witness:
  "bw_size (response_body (response_init\<lparr>rs_kind := History, rs_rows := [\<lparr>lr_log_id = 3, lr_payload = [9], lr_created_at_ms = 1\<rparr>]\<rparr>))
     \<le> kMaxOutboundBody"
  using history_reply_round_trip[of "response_init\<lparr>rs_kind := History, rs_rows := [\<lparr>lr_log_id = 3, lr_payload = [9], lr_created_at_ms = 1\<rparr>]\<rparr>"]
  by simp

text \<open>
  C33: a database response reaches exactly the session that asked, if it is still there: one message with the
  acknowledgement of the request's kind, or one error that names the request, to that connection and no other;
  for a session that is gone nothing is sent.
\<close>

theorem db_response_reaches_its_session:
  assumes "st_wf (ctx_sessions ctx)"
  shows "sends (snd (process_db_response rd res ctx)) =
    (case st_find (rs_conn_id res) (ctx_sessions ctx) of
       None \<Rightarrow> []
     | Some s \<Rightarrow>
         if rs_status res = Ok
         then [Send (rs_conn_id res) (ack_of (request_msg_id (rs_kind res))) (response_body res) (bw_size (response_body res))]
         else let b = error_body (request_msg_id (rs_kind res)) (if rs_status res = Unavailable then DbUnavailable else DbTimeout)
                (if rs_status res = Expired then ''db request expired'' else ''db request failed'')
              in [Send (rs_conn_id res) kErrorAck b (bw_size b)]) \<and>
    local_to (rs_conn_id res) (snd (process_db_response rd res ctx))"
proof (cases "st_find (rs_conn_id res) (ctx_sessions ctx)")
  case None
  then show ?thesis by (simp add: process_db_response_def Let_def local_to_def)
next
  case (Some s)
  have ack: "response_msg_id k = ack_of (request_msg_id k)" for k
    by (cases k) (simp_all add: ack_of_def msg_ids)
  show ?thesis using Some st_find_ids[OF assms Some]
    by (simp add: process_db_response_def Let_def sends_send_error ack local_to_def send_body_def send_error_eq)
qed

theorem db_response_reaches_its_session_witness:
  "sends (snd (process_db_response demo_readings (response_init\<lparr>rs_conn_id := 9\<rparr>) demo_ctx)) = []"
  using db_response_reaches_its_session[of demo_ctx demo_readings "response_init\<lparr>rs_conn_id := 9\<rparr>"] demo_wf
  by (simp add: st_find_def response_init_def)

end
