(* ===== verification/Swap_Queue.thy ===== *)
theory Swap_Queue
  imports Prelude
begin

text \<open>
  \<^verbatim>\<open>src/src/core/swap_queue.h\<close>: the double-buffered queue with many producers and one consumer. Every
  method holds the mutex for its whole body, so a run of the queue is a sequence of these operations.
  The locale \<open>batch_queue\<close> states what the services and the database workers rely on.
\<close>

section \<open>\<^verbatim>\<open>SwapQueue\<close>\<close>

record 'a swap_queue =
  sq_buffers :: "'a list list"
  sq_write :: nat

definition sq_empty :: "'a swap_queue" where
  "sq_empty = \<lparr>sq_buffers = [[], []], sq_write = 0\<rparr>"

definition sq_filled :: "'a swap_queue \<Rightarrow> 'a list" where
  "sq_filled q = sq_buffers q ! sq_write q"

definition sq_push :: "'a \<Rightarrow> 'a swap_queue \<Rightarrow> 'a swap_queue" where
  "sq_push x q = q\<lparr>sq_buffers := (sq_buffers q)[sq_write q := sq_buffers q ! sq_write q @ [x]]\<rparr>"

text \<open>\<^verbatim>\<open>emplace\<close> appends the item that \<^verbatim>\<open>fill\<close> produces in place; \<open>x\<close> is that item.\<close>

definition sq_emplace :: "'a \<Rightarrow> 'a swap_queue \<Rightarrow> 'a swap_queue" where
  "sq_emplace x q = q\<lparr>sq_buffers := (sq_buffers q)[sq_write q := sq_buffers q ! sq_write q @ [x]]\<rparr>"

definition sq_try_emplace :: "nat \<Rightarrow> 'a \<Rightarrow> 'a swap_queue \<Rightarrow> bool \<times> 'a swap_queue" where
  "sq_try_emplace cap x q =
     (if length (sq_buffers q ! sq_write q) \<ge> cap then (False, q)
      else (True, q\<lparr>sq_buffers := (sq_buffers q)[sq_write q := sq_buffers q ! sq_write q @ [x]]\<rparr>))"

definition sq_swap :: "'a swap_queue \<Rightarrow> 'a list \<times> 'a swap_queue" where
  "sq_swap q =
     (let filled = sq_buffers q ! sq_write q;
          w = (if sq_write q = 0 then 1 else 0)
      in (filled, q\<lparr>sq_write := w, sq_buffers := (sq_buffers q)[w := []]\<rparr>))"

definition sq_pending :: "'a swap_queue \<Rightarrow> nat" where
  "sq_pending q = length (sq_buffers q ! sq_write q)"

text \<open>The consumer's \<^verbatim>\<open>batch.clear()\<close> on the buffer that \<^verbatim>\<open>swap\<close> returned.\<close>

definition sq_clear_batch :: "'a swap_queue \<Rightarrow> 'a swap_queue" where
  "sq_clear_batch q =
     q\<lparr>sq_buffers := (sq_buffers q)[(if sq_write q = 0 then 1 else 0) := []]\<rparr>"

definition sq_wf :: "'a swap_queue \<Rightarrow> bool" where
  "sq_wf q \<longleftrightarrow> length (sq_buffers q) = 2 \<and> sq_write q < 2"

lemmas sq_defs = sq_empty_def sq_filled_def sq_push_def sq_emplace_def sq_try_emplace_def sq_swap_def
  sq_pending_def sq_clear_batch_def sq_wf_def

section \<open>The contract of a batch queue\<close>

datatype 'a queue_op = Push 'a | Swap

locale batch_queue =
  fixes contents :: "'q \<Rightarrow> 'a list"
    and inv :: "'q \<Rightarrow> bool"
    and push :: "'a \<Rightarrow> 'q \<Rightarrow> 'q"
    and try_push :: "nat \<Rightarrow> 'a \<Rightarrow> 'q \<Rightarrow> bool \<times> 'q"
    and swap :: "'q \<Rightarrow> 'a list \<times> 'q"
  assumes push_contents: "inv q \<Longrightarrow> contents (push x q) = contents q @ [x]"
    and push_inv: "inv q \<Longrightarrow> inv (push x q)"
    and try_push_eq: "inv q \<Longrightarrow> try_push cap x q =
      (if length (contents q) \<ge> cap then (False, q) else (True, push x q))"
    and swap_batch: "inv q \<Longrightarrow> fst (swap q) = contents q"
    and swap_contents: "inv q \<Longrightarrow> contents (snd (swap q)) = []"
    and swap_inv: "inv q \<Longrightarrow> inv (snd (swap q))"
begin

text \<open>The batches handed to the consumer by a run, and the queue after it.\<close>

fun queue_run :: "'a queue_op list \<Rightarrow> 'q \<Rightarrow> 'a list list \<times> 'q" where
  "queue_run [] q = ([], q)"
| "queue_run (Push x # ops) q = queue_run ops (push x q)"
| "queue_run (Swap # ops) q =
     (case swap q of (b, q') \<Rightarrow> case queue_run ops q' of (bs, q'') \<Rightarrow> (b # bs, q''))"

fun pushed :: "'a queue_op list \<Rightarrow> 'a list" where
  "pushed [] = []"
| "pushed (Push x # ops) = x # pushed ops"
| "pushed (Swap # ops) = pushed ops"

lemma run_fifo:
  "inv q \<Longrightarrow> queue_run ops q = (bs, q') \<Longrightarrow>
     inv q' \<and> concat bs @ contents q' = contents q @ pushed ops"
proof (induction ops arbitrary: q bs)
  case (Cons op ops)
  show ?case
  proof (cases op)
    case (Push x)
    with Cons.IH[of "push x q" bs] Cons.prems show ?thesis by (simp add: push_contents push_inv)
  next
    case Swap
    obtain bs' where "queue_run ops (snd (swap q)) = (bs', q')" "bs = fst (swap q) # bs'"
      using Cons.prems Swap by (auto split: prod.splits)
    with Cons.IH[of "snd (swap q)" bs'] Cons.prems(1) Swap show ?thesis
      by (simp add: swap_batch swap_contents swap_inv)
  qed
qed simp

lemma try_push_bound:
  assumes "inv q" "length (contents q) \<le> cap"
  shows "inv (snd (try_push cap x q)) \<and> length (contents (snd (try_push cap x q))) \<le> cap"
  using assms by (simp add: try_push_eq push_contents push_inv)

end

lemma nth_two: "length xs = 2 \<Longrightarrow> i < 2 \<Longrightarrow> j < 2 \<Longrightarrow> i \<noteq> j \<Longrightarrow> xs[i := a] ! j = xs ! j"
  by simp

interpretation sq: batch_queue sq_filled sq_wf sq_push sq_try_emplace sq_swap
  by unfold_locales (auto simp: sq_defs Let_def)

interpretation sqe: batch_queue sq_filled sq_wf sq_emplace sq_try_emplace sq_swap
  by unfold_locales (auto simp: sq_defs Let_def)

lemma sq_wf_empty [simp, inv_intros]: "sq_wf sq_empty" "sq_filled sq_empty = []"
  by (simp_all add: sq_defs)

lemma sq_clear_batch [simp]:
  "sq_filled (sq_clear_batch q) = sq_filled q" "sq_wf (sq_clear_batch q) = sq_wf q"
  by (auto simp: sq_defs nth_list_update)

lemma sq_pending_eq: "sq_pending q = length (sq_filled q)"
  by (simp add: sq_defs)

lemma sq_emplace_push: "sq_emplace = sq_push"
  by (simp add: fun_eq_iff sq_defs)

text \<open>
  Memory safety of the hand-over: until the next \<^verbatim>\<open>swap\<close>, no producer operation touches the buffer
  the consumer was given.
\<close>

lemma sq_producer_keeps_batch:
  assumes "sq_wf q"
  shows "sq_buffers (sq_emplace x q) ! (1 - sq_write q) = sq_buffers q ! (1 - sq_write q)"
    and "sq_write (sq_emplace x q) = sq_write q"
    and "sq_buffers (snd (sq_try_emplace cap x q)) ! (1 - sq_write q) = sq_buffers q ! (1 - sq_write q)"
  using assms less_2_cases[of "sq_write q"] by (auto simp: sq_defs nth_list_update split: if_splits)

section \<open>Properties\<close>

text \<open>
  Whatever the producers push and whenever the consumer swaps, the batches it is handed, followed by
  what still waits, are exactly the pushed items in the order they were pushed.
\<close>

theorem swap_queue_is_fifo:
  assumes "sq.queue_run ops sq_empty = (batches, q)"
  shows "concat batches @ sq_filled q = sq.pushed ops"
  using sq.run_fifo[OF sq_wf_empty(1) assms] by simp

theorem swap_queue_is_fifo_witness:
  "concat (fst (sq.queue_run [Push (1::nat), Push 2, Swap, Push 3] sq_empty)) @
     sq_filled (snd (sq.queue_run [Push (1::nat), Push 2, Swap, Push 3] sq_empty)) = [1, 2, 3]"
  using swap_queue_is_fifo[OF surjective_pairing, of "[Push (1::nat), Push 2, Swap, Push 3]"] by simp

end
