(* ===== verification/Service.thy ===== *)
theory Service
  imports App_Types Swap_Queue
begin

text \<open>
  \<^verbatim>\<open>src/src/app/service.h\<close> and \<^verbatim>\<open>service.cpp\<close>: the skeleton of a service. The virtual functions of the class
  are the fields of a record of operations on the state the derived class keeps per lane. An
  operation that may throw returns whether it did, with the state it left behind.
\<close>

section \<open>State\<close>

datatype overflow_policy = Reject | Backpressure

definition parse_policy :: "bytes \<Rightarrow> overflow_policy" where
  "parse_policy name = (if name = lit ''backpressure'' then Backpressure else Reject)"

definition policy_name :: "overflow_policy \<Rightarrow> string" where
  "policy_name p = (if p = Backpressure then ''backpressure'' else ''reject'')"

record service_stats =
  st_entries :: u64
  st_handled :: u64
  st_rejected :: u64
  st_faults :: u64
  st_overflow :: u64
  st_relay_messages :: u64
  st_db_requests :: u64
  st_db_responses :: u64
  st_db_failures :: u64
  st_db_expired :: u64
  st_broadcasts :: u64
  st_broadcast_sends :: u64
  st_process_dist :: histogram
  st_queue_dist :: histogram
  st_relay_dist :: histogram
  st_db_round_dist :: histogram
  st_broadcast_dist :: histogram

definition stats_init :: service_stats where
  "stats_init = \<lparr>st_entries = 0, st_handled = 0, st_rejected = 0, st_faults = 0, st_overflow = 0,
     st_relay_messages = 0, st_db_requests = 0, st_db_responses = 0, st_db_failures = 0, st_db_expired = 0,
     st_broadcasts = 0, st_broadcast_sends = 0, st_process_dist = lat_init, st_queue_dist = lat_init,
     st_relay_dist = lat_init, st_db_round_dist = lat_init, st_broadcast_dist = lat_init\<rparr>"

record 's lane =
  ln_index :: nat
  ln_inbound :: "inbound_event swap_queue"
  ln_service_inbox :: "service_message swap_queue"
  ln_overflow :: u64
  ln_faults :: u64
  ln_batches :: u64
  ln_batch_messages :: u64
  ln_queue_wait_us :: u64
  ln_process_us :: u64
  ln_relay_messages :: u64
  ln_process_dist :: histogram
  ln_queue_dist :: histogram
  ln_relay_dist :: histogram
  ln_stats :: service_stats
  ln_paused :: "conn_id list"
  ln_signaled :: bool
  ln_state :: 's

definition lane_init :: "nat \<Rightarrow> 's \<Rightarrow> 's lane" where
  "lane_init i s = \<lparr>ln_index = i, ln_inbound = sq_empty, ln_service_inbox = sq_empty, ln_overflow = 0,
     ln_faults = 0, ln_batches = 0, ln_batch_messages = 0, ln_queue_wait_us = 0, ln_process_us = 0,
     ln_relay_messages = 0, ln_process_dist = lat_init, ln_queue_dist = lat_init, ln_relay_dist = lat_init,
     ln_stats = stats_init, ln_paused = [], ln_signaled = False, ln_state = s\<rparr>"

record 's service_ops =
  so_created :: "nat \<Rightarrow> 's list option"
  so_event :: "readings \<Rightarrow> inbound_event \<Rightarrow> 's \<Rightarrow> bool \<times> 's \<times> effect list"
  so_service :: "service_message \<Rightarrow> 's \<Rightarrow> bool \<times> 's \<times> effect list"
  so_fault :: "conn_id \<Rightarrow> 's \<Rightarrow> 's \<times> effect list"
  so_report :: "'s \<Rightarrow> service_stats \<Rightarrow> 's \<times> service_stats"
  so_pending :: "'s \<Rightarrow> nat"
  so_before :: "readings \<Rightarrow> 's \<Rightarrow> 's \<times> effect list"
  so_after :: "'s \<Rightarrow> 's"

record 's service =
  sv_lanes :: "'s lane list"
  sv_cap :: nat
  sv_policy :: overflow_policy

record service_options =
  op_lane_count :: int
  op_stats_interval_ms :: int
  op_inbound_queue_cap :: int
  op_overflow_policy :: overflow_policy

section \<open>Start, stop and statistics\<close>

definition sv_start :: "'s service_ops \<Rightarrow> service_options \<Rightarrow> 's service \<Rightarrow> bool \<times> 's service" where
  "sv_start ops opt sv =
     (if sv_lanes sv \<noteq> [] then (True, sv)
      else
        let count = max 1 (min 64 (if op_lane_count opt \<le> 0 then 1 else op_lane_count opt));
            sv1 = sv\<lparr>sv_cap := nat (max 64 (op_inbound_queue_cap opt)), sv_policy := op_overflow_policy opt\<rparr>
        in case so_created ops (nat count) of
             None \<Rightarrow> (False, sv1)
           | Some states \<Rightarrow> (True, sv1\<lparr>sv_lanes := map2 lane_init [0..<nat count] states\<rparr>))"

definition sv_stop :: "'s service \<Rightarrow> 's service" where
  "sv_stop sv = sv\<lparr>sv_lanes := []\<rparr>"

definition lane_pending :: "'s service_ops \<Rightarrow> 's lane \<Rightarrow> nat" where
  "lane_pending ops la = sq_pending (ln_inbound la) + sq_pending (ln_service_inbox la) + so_pending ops (ln_state la)"

definition sv_pending :: "'s service_ops \<Rightarrow> 's service \<Rightarrow> nat" where
  "sv_pending ops sv = sum_list (map (lane_pending ops) (sv_lanes sv))"

definition wake :: "'s lane \<Rightarrow> 's lane" where
  "wake la = la\<lparr>ln_signaled := True\<rparr>"

definition sv_wake_all :: "'s service \<Rightarrow> 's service" where
  "sv_wake_all sv = sv\<lparr>sv_lanes := map wake (sv_lanes sv)\<rparr>"

definition stats_add :: "service_stats \<Rightarrow> service_stats \<Rightarrow> service_stats" where
  "stats_add t s = t\<lparr>
     st_entries := st_entries t + st_entries s, st_handled := st_handled t + st_handled s,
     st_rejected := st_rejected t + st_rejected s, st_faults := st_faults t + st_faults s,
     st_overflow := st_overflow t + st_overflow s, st_relay_messages := st_relay_messages t + st_relay_messages s,
     st_db_requests := st_db_requests t + st_db_requests s, st_db_responses := st_db_responses t + st_db_responses s,
     st_db_failures := st_db_failures t + st_db_failures s, st_db_expired := st_db_expired t + st_db_expired s,
     st_broadcasts := st_broadcasts t + st_broadcasts s,
     st_broadcast_sends := st_broadcast_sends t + st_broadcast_sends s\<rparr>"

definition stats_merge :: "service_stats \<Rightarrow> service_stats \<Rightarrow> service_stats" where
  "stats_merge t s = (stats_add t s)\<lparr>
     st_process_dist := lat_merge (st_process_dist t) (st_process_dist s),
     st_queue_dist := lat_merge (st_queue_dist t) (st_queue_dist s),
     st_relay_dist := lat_merge (st_relay_dist t) (st_relay_dist s),
     st_db_round_dist := lat_merge (st_db_round_dist t) (st_db_round_dist s),
     st_broadcast_dist := lat_merge (st_broadcast_dist t) (st_broadcast_dist s)\<rparr>"

definition sv_stats :: "'s service \<Rightarrow> service_stats" where
  "sv_stats sv = fold (\<lambda>la t. stats_merge t (ln_stats la)) (sv_lanes sv) stats_init"

section \<open>One round of a lane\<close>

definition note_fault :: "'s service_ops \<Rightarrow> conn_id \<Rightarrow> 's lane \<times> effect list \<Rightarrow> 's lane \<times> effect list" where
  "note_fault ops i = (\<lambda>(la, fx).
     case so_fault ops i (ln_state la) of (s, fx') \<Rightarrow>
       (la\<lparr>ln_faults := ln_faults la + 1, ln_state := s\<rparr>, fx @ fx'))"

definition run_relay :: "'s service_ops \<Rightarrow> readings \<Rightarrow> service_message \<Rightarrow> 's lane \<times> effect list \<Rightarrow> 's lane \<times> effect list" where
  "run_relay ops rd msg = (\<lambda>(la, fx).
     let la = la\<lparr>ln_relay_dist := lat_add (now_us rd - sm_enqueued_us msg) (ln_relay_dist la),
                 ln_relay_messages := ln_relay_messages la + 1\<rparr>
     in case so_service ops msg (ln_state la) of (threw, s, fx') \<Rightarrow>
          (if threw then note_fault ops (sm_conn_id msg) (la\<lparr>ln_state := s\<rparr>, fx @ fx')
           else (la\<lparr>ln_state := s\<rparr>, fx @ fx')))"

text \<open>The third component is \<^verbatim>\<open>last_ns\<close>.\<close>

definition run_event ::
  "'s service_ops \<Rightarrow> int \<Rightarrow> readings \<times> inbound_event \<Rightarrow> 's lane \<times> effect list \<times> int \<Rightarrow> 's lane \<times> effect list \<times> int" where
  "run_event ops begin_us = (\<lambda>(rd, ev) (la, fx, last_ns).
     let wait_us = begin_us - ev_enqueued_us ev;
         la = la\<lparr>ln_queue_wait_us := ln_queue_wait_us la + word_of_int wait_us,
                 ln_queue_dist := lat_add wait_us (ln_queue_dist la)\<rparr>
     in case so_event ops rd ev (ln_state la) of (threw, s, fx') \<Rightarrow>
          case (if threw then note_fault ops (ev_conn_id ev) (la\<lparr>ln_state := s\<rparr>, fx @ fx')
                else (la\<lparr>ln_state := s\<rparr>, fx @ fx')) of (la, fx) \<Rightarrow>
            (la\<lparr>ln_process_dist := lat_add (now_ns rd - last_ns) (ln_process_dist la)\<rparr>, fx, now_ns rd))"

definition resume_paused :: "'s lane \<times> effect list \<Rightarrow> 's lane \<times> effect list" where
  "resume_paused = (\<lambda>(la, fx). (la\<lparr>ln_paused := []\<rparr>, fx @ map Resume (ln_paused la)))"

text \<open>\<open>rds\<close> gives the readings for the items of the batch, \<open>rd\<close> those of the rest of the round.\<close>

definition run_step :: "'s service_ops \<Rightarrow> readings \<Rightarrow> (nat \<Rightarrow> readings) \<Rightarrow> 's lane \<Rightarrow> 's lane \<times> effect list" where
  "run_step ops rd rds la =
     (let (s0, fx0) = so_before ops rd (ln_state la);
          la = la\<lparr>ln_state := s0\<rparr>;
          (relays, inbox) = sq_swap (ln_service_inbox la);
          (la, fx) = fold (run_relay ops rd) relays (la\<lparr>ln_service_inbox := inbox\<rparr>, fx0);
          la = la\<lparr>ln_service_inbox := sq_clear_batch (ln_service_inbox la)\<rparr>;
          (batch, inbound) = sq_swap (ln_inbound la);
          la = la\<lparr>ln_inbound := inbound\<rparr>
      in if batch = [] then resume_paused (la\<lparr>ln_state := so_after ops (ln_state la)\<rparr>, fx)
         else
           let begin_us = now_us rd;
               (la, fx, last_ns) = fold (run_event ops begin_us) (zip (map rds [0..<length batch]) batch) (la, fx, now_ns rd);
               la = la\<lparr>ln_process_us := ln_process_us la + word_of_int (now_us (rds (length batch - 1)) - begin_us),
                       ln_batch_messages := ln_batch_messages la + word_of_nat (length batch),
                       ln_batches := ln_batches la + 1,
                       ln_inbound := sq_clear_batch (ln_inbound la)\<rparr>
           in resume_paused (la\<lparr>ln_state := so_after ops (ln_state la)\<rparr>, fx))"

definition report :: "'s service_ops \<Rightarrow> 's lane \<Rightarrow> 's lane" where
  "report ops la =
     (let snap = stats_init\<lparr>st_faults := ln_faults la, st_overflow := ln_overflow la,
                            st_process_dist := ln_process_dist la, st_queue_dist := ln_queue_dist la,
                            st_relay_dist := ln_relay_dist la, st_relay_messages := ln_relay_messages la\<rparr>;
          (s, snap) = so_report ops (ln_state la) snap
      in la\<lparr>ln_state := s, ln_stats := snap, ln_batches := 0, ln_batch_messages := 0, ln_queue_wait_us := 0,
            ln_process_us := 0, ln_process_dist := lat_reset (ln_process_dist la),
            ln_queue_dist := lat_reset (ln_queue_dist la), ln_relay_dist := lat_reset (ln_relay_dist la)\<rparr>)"

section \<open>Posting\<close>

definition lane_of :: "conn_id \<Rightarrow> 's service \<Rightarrow> nat" where
  "lane_of i sv = unat i mod length (sv_lanes sv)"

definition upd_lane :: "conn_id \<Rightarrow> ('s lane \<Rightarrow> 's lane) \<Rightarrow> 's service \<Rightarrow> 's service" where
  "upd_lane i f sv = sv\<lparr>sv_lanes := (sv_lanes sv)[lane_of i sv := f (sv_lanes sv ! lane_of i sv)]\<rparr>"

definition connected_event :: "int \<Rightarrow> conn_id \<Rightarrow> inbound_event" where
  "connected_event now c = \<lparr>ev_kind = Connected, ev_conn_id = c, ev_msg_id = 0, ev_size = 0, ev_oversized = False,
     ev_enqueued_us = now, ev_conn = Some c, ev_body = []\<rparr>"

definition sv_post_connected :: "int \<Rightarrow> conn_id option \<Rightarrow> 's service \<Rightarrow> 's service" where
  "sv_post_connected now conn sv =
     (case conn of
        None \<Rightarrow> sv
      | Some c \<Rightarrow>
          if sv_lanes sv = [] then sv
          else upd_lane c (\<lambda>la. wake (la\<lparr>ln_inbound := sq_emplace (connected_event now c) (ln_inbound la)\<rparr>)) sv)"

definition disconnected_event :: "int \<Rightarrow> conn_id \<Rightarrow> inbound_event" where
  "disconnected_event now i = \<lparr>ev_kind = Disconnected, ev_conn_id = i, ev_msg_id = 0, ev_size = 0, ev_oversized = False,
     ev_enqueued_us = now, ev_conn = None, ev_body = []\<rparr>"

definition sv_post_disconnected :: "int \<Rightarrow> conn_id \<Rightarrow> 's service \<Rightarrow> 's service" where
  "sv_post_disconnected now i sv =
     (if sv_lanes sv = [] then sv
      else upd_lane i (\<lambda>la. wake (la\<lparr>ln_inbound := sq_emplace (disconnected_event now i) (ln_inbound la)\<rparr>)) sv)"

definition message_event :: "int \<Rightarrow> conn_id \<Rightarrow> frame_view \<Rightarrow> inbound_event" where
  "message_event now c f =
     (let ev = \<lparr>ev_kind = Message, ev_conn_id = c, ev_msg_id = fv_msg_id f, ev_size = 0, ev_oversized = False,
                ev_enqueued_us = now, ev_conn = None, ev_body = []\<rparr>
      in if fv_size f > kMaxEventBody then ev\<lparr>ev_oversized := True\<rparr>
         else ev\<lparr>ev_size := ucast (fv_size f), ev_body := take (unat (fv_size f)) (fv_body f)\<rparr>)"

text \<open>The result is \<^verbatim>\<open>post_message\<close>'s; the effects are those on the connection it was given.\<close>

definition sv_post_message :: "int \<Rightarrow> conn_id \<Rightarrow> frame_view \<Rightarrow> 's service \<Rightarrow> bool \<times> 's service \<times> effect list" where
  "sv_post_message now c f sv =
     (if sv_lanes sv = [] then (True, sv, [])
      else
        case sq_try_emplace (sv_cap sv) (message_event now c f) (ln_inbound (sv_lanes sv ! lane_of c sv)) of
          (queued, q) \<Rightarrow>
            if \<not> queued then
              let sv1 = upd_lane c (\<lambda>la. la\<lparr>ln_overflow := ln_overflow la + 1\<rparr>) sv in
              if sv_policy sv = Backpressure
              then (False, upd_lane c (\<lambda>la. wake (la\<lparr>ln_paused := ln_paused la @ [c]\<rparr>)) sv1, [Pause c])
              else (True, sv1, send_error c (fv_msg_id f) ServerBusy ''inbound queue full'')
            else (True, upd_lane c (\<lambda>la. wake (la\<lparr>ln_inbound := q\<rparr>)) sv, []))"

definition sv_post_service :: "service_message \<Rightarrow> 's service \<Rightarrow> 's service" where
  "sv_post_service msg sv =
     (if sv_lanes sv = [] then sv
      else upd_lane (sm_conn_id msg) (\<lambda>la. wake (la\<lparr>ln_service_inbox := sq_push msg (ln_service_inbox la)\<rparr>)) sv)"

section \<open>What a round does, without the bookkeeping\<close>

text \<open>
  The abstract round: items are processed one by one, in order; a fault of one item cleans up its connection
  and does not keep the following items from being processed.
\<close>

definition abs_relay :: "'s service_ops \<Rightarrow> service_message \<Rightarrow> 's \<times> effect list \<Rightarrow> 's \<times> effect list" where
  "abs_relay ops msg = (\<lambda>(s, fx). case so_service ops msg s of (threw, s', f) \<Rightarrow>
     if threw then (case so_fault ops (sm_conn_id msg) s' of (s'', g) \<Rightarrow> (s'', fx @ f @ g)) else (s', fx @ f))"

definition abs_event :: "'s service_ops \<Rightarrow> readings \<times> inbound_event \<Rightarrow> 's \<times> effect list \<Rightarrow> 's \<times> effect list" where
  "abs_event ops = (\<lambda>(rd, ev) (s, fx). case so_event ops rd ev s of (threw, s', f) \<Rightarrow>
     if threw then (case so_fault ops (ev_conn_id ev) s' of (s'', g) \<Rightarrow> (s'', fx @ f @ g)) else (s', fx @ f))"

definition abs_step :: "'s service_ops \<Rightarrow> readings \<Rightarrow> (nat \<Rightarrow> readings) \<Rightarrow> service_message list \<Rightarrow> inbound_event list \<Rightarrow>
    conn_id list \<Rightarrow> 's \<Rightarrow> 's \<times> effect list" where
  "abs_step ops rd rds relays batch paused s0 =
     (case fold (abs_event ops) (zip (map rds [0..<length batch]) batch)
        (fold (abs_relay ops) relays (so_before ops rd s0)) of
      (s, fx) \<Rightarrow> (so_after ops s, fx @ map Resume paused))"

definition lane_wf :: "'s lane \<Rightarrow> bool" where
  "lane_wf la \<longleftrightarrow> sq_wf (ln_inbound la) \<and> sq_wf (ln_service_inbox la)"

lemma lane_wf_init: "lane_wf (lane_init i s)"
  by (simp add: lane_wf_def lane_init_def)

text \<open>The queues and the list of paused connections, which the items of a round do not touch.\<close>

definition lane_io :: "'s lane \<Rightarrow> inbound_event swap_queue \<times> service_message swap_queue \<times> conn_id list" where
  "lane_io la = (ln_inbound la, ln_service_inbox la, ln_paused la)"

lemma run_relay_props:
  "(ln_state (fst (run_relay ops rd m x)), snd (run_relay ops rd m x)) = abs_relay ops m (ln_state (fst x), snd x)"
  "lane_io (fst (run_relay ops rd m x)) = lane_io (fst x)"
  by (cases x, auto simp: run_relay_def abs_relay_def note_fault_def lane_io_def Let_def split: prod.split)+

lemma run_event_props:
  "(ln_state (fst (run_event ops b p x)), fst (snd (run_event ops b p x))) =
     abs_event ops p (ln_state (fst x), fst (snd x))"
  "lane_io (fst (run_event ops b p x)) = lane_io (fst x)"
  by (cases x, cases p, auto simp: run_event_def abs_event_def note_fault_def lane_io_def Let_def split: prod.split)+

lemma fold_relays:
  "(ln_state (fst (fold (run_relay ops rd) ms x)), snd (fold (run_relay ops rd) ms x)) =
     fold (abs_relay ops) ms (ln_state (fst x), snd x)"
  "lane_io (fst (fold (run_relay ops rd) ms x)) = lane_io (fst x)"
  by (induction ms arbitrary: x) (simp_all add: run_relay_props)

lemma fold_events:
  "(ln_state (fst (fold (run_event ops b) ps x)), fst (snd (fold (run_event ops b) ps x))) =
     fold (abs_event ops) ps (ln_state (fst x), fst (snd x))"
  "lane_io (fst (fold (run_event ops b) ps x)) = lane_io (fst x)"
  by (induction ps arbitrary: x) (simp_all add: run_event_props)

section \<open>A round refines the abstract round\<close>

lemma lane_state_upd_io [simp]: "lane_io (la\<lparr>ln_state := s\<rparr>) = lane_io la"
  by (simp add: lane_io_def)

lemma sq_after_swap [simp]:
  "sq_wf q \<Longrightarrow> sq_filled (snd (sq_swap q)) = []" "sq_wf q \<Longrightarrow> sq_wf (snd (sq_swap q))"
  "sq_wf q \<Longrightarrow> fst (sq_swap q) = sq_filled q"
  by (simp_all add: sq.swap_contents sq.swap_inv sq.swap_batch)

lemma resume_paused_eq [simp]:
  "ln_state (fst (resume_paused x)) = ln_state (fst x)"
  "snd (resume_paused x) = snd x @ map Resume (ln_paused (fst x))"
  "lane_io (fst (resume_paused x)) = (ln_inbound (fst x), ln_service_inbox (fst x), [])"
  by (simp_all add: resume_paused_def case_prod_beta lane_io_def)

lemma run_step_refines:
  assumes "lane_wf la"
    and r_def: "r = run_step ops rd rds la"
  shows "(ln_state (fst r), snd r) =
      abs_step ops rd rds (sq_filled (ln_service_inbox la)) (sq_filled (ln_inbound la)) (ln_paused la) (ln_state la)"
    and "lane_wf (fst r)"
    and "sq_filled (ln_inbound (fst r)) = [] \<and> sq_filled (ln_service_inbox (fst r)) = [] \<and> ln_paused (fst r) = []"
proof -
  obtain s0 fx0 where b: "so_before ops rd (ln_state la) = (s0, fx0)" by fastforce
  let ?relays = "sq_filled (ln_service_inbox la)" and ?batch = "sq_filled (ln_inbound la)"
  define la1 where "la1 = la\<lparr>ln_state := s0, ln_service_inbox := snd (sq_swap (ln_service_inbox la))\<rparr>"
  obtain la2 fx2 where rel: "fold (run_relay ops rd) ?relays (la1, fx0) = (la2, fx2)" by fastforce
  have abs2: "fold (abs_relay ops) ?relays (s0, fx0) = (ln_state la2, fx2)"
    and io2: "ln_inbound la2 = ln_inbound la" "ln_service_inbox la2 = snd (sq_swap (ln_service_inbox la))"
      "ln_paused la2 = ln_paused la"
    using fold_relays[of ops rd ?relays "(la1, fx0)"] rel by (simp_all add: la1_def lane_io_def)
  define la3 where "la3 = la2\<lparr>ln_service_inbox := sq_clear_batch (snd (sq_swap (ln_service_inbox la))),
    ln_inbound := snd (sq_swap (ln_inbound la))\<rparr>"
  obtain la4 fx4 last where evs: "fold (run_event ops (now_us rd)) (zip (map rds [0..<length ?batch]) ?batch) (la3, fx2, now_ns rd)
      = (la4, fx4, last)" by (metis prod_cases3)
  have abs4: "fold (abs_event ops) (zip (map rds [0..<length ?batch]) ?batch) (ln_state la2, fx2) = (ln_state la4, fx4)"
    and io4: "ln_inbound la4 = snd (sq_swap (ln_inbound la))" "ln_paused la4 = ln_paused la"
      "ln_service_inbox la4 = sq_clear_batch (snd (sq_swap (ln_service_inbox la)))"
    using fold_events[of ops "now_us rd" "zip (map rds [0..<length ?batch]) ?batch" "(la3, fx2, now_ns rd)"] evs
    by (simp_all add: la3_def lane_io_def io2)
  have wf: "sq_wf (ln_inbound la)" "sq_wf (ln_service_inbox la)" using assms by (simp_all add: lane_wf_def)
  obtain la5 where r: "r = resume_paused (la5, fx4)" and s5: "ln_state la5 = so_after ops (ln_state la4)"
    and io5: "ln_paused la5 = ln_paused la" "sq_filled (ln_inbound la5) = []" "sq_wf (ln_inbound la5)"
      "sq_filled (ln_service_inbox la5) = []" "sq_wf (ln_service_inbox la5)"
  proof (cases "?batch = []")
    case True
    with evs have "la4 = la3" "fx4 = fx2" by simp_all
    with True show ?thesis
      by (intro that[of "la3\<lparr>ln_state := so_after ops (ln_state la3)\<rparr>"])
        (simp_all add: r_def run_step_def Let_def b la1_def[symmetric] io2 rel case_prod_beta[of _ "sq_swap _"] wf la3_def)
  next
    case False
    show ?thesis
      by (rule that[of "la4\<lparr>ln_process_us := ln_process_us la4 + word_of_int (now_us (rds (length ?batch - 1)) - now_us rd),
           ln_batch_messages := ln_batch_messages la4 + word_of_nat (length ?batch), ln_batches := ln_batches la4 + 1,
           ln_inbound := sq_clear_batch (ln_inbound la4), ln_state := so_after ops (ln_state la4)\<rparr>"])
        (use False wf in \<open>simp_all add: r_def run_step_def Let_def b la1_def[symmetric] io2 rel case_prod_beta[of _ "sq_swap _"]
           la3_def[symmetric] evs io4\<close>)
  qed
  have io: "lane_io (fst r) = (ln_inbound la5, ln_service_inbox la5, [])" by (simp add: r)
  show "(ln_state (fst r), snd r) = abs_step ops rd rds ?relays ?batch (ln_paused la) (ln_state la)"
    by (simp add: r abs_step_def b abs2 abs4 s5 io5)
  show "lane_wf (fst r)" using io io5 by (simp add: lane_io_def lane_wf_def)
  show "sq_filled (ln_inbound (fst r)) = [] \<and> sq_filled (ln_service_inbox (fst r)) = [] \<and> ln_paused (fst r) = []"
    using io io5 by (simp add: lane_io_def)
qed

section \<open>Runs of a service\<close>

text \<open>
  A turn of the loop of \<^verbatim>\<open>LogicThread::run\<close> on lane \<open>j\<close>: the signal is lowered first, then the round runs.
\<close>

definition sv_turn :: "'s service_ops \<Rightarrow> readings \<Rightarrow> (nat \<Rightarrow> readings) \<Rightarrow> nat \<Rightarrow> 's service \<Rightarrow> 's service \<times> effect list" where
  "sv_turn ops rd rds j sv =
     (case run_step ops rd rds ((sv_lanes sv ! j)\<lparr>ln_signaled := False\<rparr>) of (la, fx) \<Rightarrow>
        (sv\<lparr>sv_lanes := (sv_lanes sv)[j := la]\<rparr>, fx))"

definition sv_report :: "'s service_ops \<Rightarrow> nat \<Rightarrow> 's service \<Rightarrow> 's service" where
  "sv_report ops j sv = sv\<lparr>sv_lanes := (sv_lanes sv)[j := report ops (sv_lanes sv ! j)]\<rparr>"

text \<open>
  A started service under any sequence of posts, from any thread, and turns of its lanes. The other rule,
  \<open>derived\<close>, is an operation of the derived class from another thread on the lane of \<open>i\<close>: it may change the state
  and the signal, as \<^verbatim>\<open>GameService::post_db_response\<close> does.
\<close>

inductive sv_step :: "'s service_ops \<Rightarrow> 's service \<Rightarrow> 's service \<Rightarrow> bool" for ops where
  connected: "sv_step ops sv (sv_post_connected now c sv)"
| disconnected: "sv_step ops sv (sv_post_disconnected now i sv)"
| message: "sv_step ops sv (fst (snd (sv_post_message now c f sv)))"
| relayed: "sv_step ops sv (sv_post_service m sv)"
| derived: "sv_step ops sv (upd_lane i (\<lambda>la. wake (la\<lparr>ln_state := s\<rparr>)) sv)"
| woken: "sv_step ops sv (sv_wake_all sv)"
| turn: "j < length (sv_lanes sv) \<Longrightarrow> sv_step ops sv (fst (sv_turn ops rd rds j sv))"
| reported: "j < length (sv_lanes sv) \<Longrightarrow> sv_step ops sv (sv_report ops j sv)"

inductive sv_reach :: "'s service_ops \<Rightarrow> 's service \<Rightarrow> 's service \<Rightarrow> bool" for ops sv0 where
  start: "sv_reach ops sv0 sv0"
| step: "sv_reach ops sv0 sv \<Longrightarrow> sv_step ops sv sv' \<Longrightarrow> sv_reach ops sv0 sv'"

definition messages :: "inbound_event list \<Rightarrow> inbound_event list" where
  "messages evs = filter (\<lambda>ev. ev_kind ev = Message) evs"

text \<open>
  The invariant of a lane: it owns exactly the connections with its residue; the messages that wait never exceed
  the cap; and the thread has been signalled whenever something waits, a paused connection included.
\<close>

definition lane_inv :: "nat \<Rightarrow> nat \<Rightarrow> nat \<Rightarrow> 's lane \<Rightarrow> bool" where
  "lane_inv n cap j la \<longleftrightarrow> lane_wf la \<and>
     (\<forall>ev\<in>set (sq_filled (ln_inbound la)). unat (ev_conn_id ev) mod n = j) \<and>
     (\<forall>m\<in>set (sq_filled (ln_service_inbox la)). unat (sm_conn_id m) mod n = j) \<and>
     (\<forall>c\<in>set (ln_paused la). unat c mod n = j) \<and>
     length (messages (sq_filled (ln_inbound la))) \<le> cap \<and>
     (sq_filled (ln_inbound la) \<noteq> [] \<or> sq_filled (ln_service_inbox la) \<noteq> [] \<or> ln_paused la \<noteq> [] \<longrightarrow> ln_signaled la)"

definition sv_inv :: "'s service \<Rightarrow> bool" where
  "sv_inv sv \<longleftrightarrow> 1 \<le> length (sv_lanes sv) \<and> length (sv_lanes sv) \<le> 64 \<and>
     (\<forall>j<length (sv_lanes sv). lane_inv (length (sv_lanes sv)) (sv_cap sv) j (sv_lanes sv ! j))"

lemma upd_lane_simps [simp]:
  "length (sv_lanes (upd_lane i f sv)) = length (sv_lanes sv)"
  "sv_cap (upd_lane i f sv) = sv_cap sv" "sv_policy (upd_lane i f sv) = sv_policy sv"
  "sv_lanes (upd_lane i f sv) = [] \<longleftrightarrow> sv_lanes sv = []"
  "lane_of k (upd_lane i f sv) = lane_of k sv"
  by (simp_all add: upd_lane_def lane_of_def)

lemma lane_of_less [simp]: "sv_lanes sv \<noteq> [] \<Longrightarrow> lane_of i sv < length (sv_lanes sv)"
  by (simp add: lane_of_def)

lemma nth_upd_lane [simp]:
  "sv_lanes sv \<noteq> [] \<Longrightarrow> sv_lanes (upd_lane i f sv) ! j =
     (if j = lane_of i sv then f (sv_lanes sv ! j) else sv_lanes sv ! j)"
  by (simp add: upd_lane_def nth_list_update)

lemma upd_lane_twice [simp]: "sv_lanes sv \<noteq> [] \<Longrightarrow> upd_lane i f (upd_lane i g sv) = upd_lane i (f \<circ> g) sv"
  by (simp add: upd_lane_def lane_of_def)

text \<open>Updating one lane keeps the invariant if that lane keeps it.\<close>

lemma sv_inv_upd [inv_intros]:
  assumes "sv_inv sv"
    and "\<And>la. lane_inv (length (sv_lanes sv)) (sv_cap sv) (lane_of i sv) la \<Longrightarrow>
           lane_inv (length (sv_lanes sv)) (sv_cap sv) (lane_of i sv) (f la)"
  shows "sv_inv (upd_lane i f sv)"
proof -
  have "sv_lanes sv \<noteq> []" using assms(1) by (auto simp: sv_inv_def)
  then show ?thesis using assms by (simp add: sv_inv_def)
qed

lemma sv_inv_set:
  assumes "sv_inv sv" "j < length (sv_lanes sv)"
    and "lane_inv (length (sv_lanes sv)) (sv_cap sv) j (sv_lanes sv ! j) \<Longrightarrow>
         lane_inv (length (sv_lanes sv)) (sv_cap sv) j la"
  shows "sv_inv (sv\<lparr>sv_lanes := (sv_lanes sv)[j := la]\<rparr>)"
  using assms by (simp add: sv_inv_def nth_list_update)

lemma lane_inv_wake [simp]: "lane_inv n cap j la \<Longrightarrow> lane_inv n cap j (wake la)"
  by (simp add: lane_inv_def wake_def lane_wf_def)

lemma lane_inv_state [simp]: "lane_inv n cap j la \<Longrightarrow> lane_inv n cap j (la\<lparr>ln_state := s\<rparr>)"
  by (simp add: lane_inv_def lane_wf_def)

lemma lane_inv_queue:
  assumes "lane_inv n cap j la" "unat (ev_conn_id ev) mod n = j"
    and "ev_kind ev = Message \<Longrightarrow> length (sq_filled (ln_inbound la)) < cap"
  shows "lane_inv n cap j (wake (la\<lparr>ln_inbound := sq_push ev (ln_inbound la)\<rparr>))"
proof -
  let ?q = "sq_filled (ln_inbound la)"
  have wf: "sq_wf (ln_inbound la)" using assms(1) by (simp add: lane_inv_def lane_wf_def)
  have "length (messages ?q) < cap" if "ev_kind ev = Message"
    unfolding messages_def using length_filter_le assms(3)[OF that] by (rule le_less_trans)
  then have "length (messages (?q @ [ev])) \<le> cap"
    using assms(1) by (cases "ev_kind ev = Message") (simp_all add: messages_def lane_inv_def)
  then show ?thesis
    using assms(1,2) by (simp add: lane_inv_def lane_wf_def wake_def sq.push_contents[OF wf] sq.push_inv[OF wf])
qed

lemma message_event_simps [simp]:
  "ev_conn_id (message_event now c f) = c" "ev_kind (message_event now c f) = Message"
  "ev_msg_id (message_event now c f) = fv_msg_id f"
  by (simp_all add: message_event_def Let_def)

lemma sv_inv_message:
  assumes "sv_inv sv"
  shows "sv_inv (fst (snd (sv_post_message now c f sv)))"
proof -
  have ne: "sv_lanes sv \<noteq> []" using assms by (auto simp: sv_inv_def)
  let ?la = "sv_lanes sv ! lane_of c sv"
  have la: "lane_inv (length (sv_lanes sv)) (sv_cap sv) (lane_of c sv) ?la"
    using assms ne by (simp add: sv_inv_def)
  then have wf: "sq_wf (ln_inbound ?la)" by (simp add: lane_inv_def lane_wf_def)
  have "lane_inv (length (sv_lanes sv)) (sv_cap sv) (lane_of c sv) (la\<lparr>ln_overflow := x\<rparr>)"
    "lane_inv (length (sv_lanes sv)) (sv_cap sv) (lane_of c sv) (wake (la\<lparr>ln_overflow := x, ln_paused := ln_paused la @ [c]\<rparr>))"
    if "lane_inv (length (sv_lanes sv)) (sv_cap sv) (lane_of c sv) la" for la :: "'a lane" and x
    using that by (auto simp: lane_inv_def lane_wf_def wake_def lane_of_def)
  then have over: "sv_inv (upd_lane c (\<lambda>la. la\<lparr>ln_overflow := ln_overflow la + 1\<rparr>) sv)"
    "sv_inv (upd_lane c ((\<lambda>la. wake (la\<lparr>ln_paused := ln_paused la @ [c]\<rparr>)) \<circ> (\<lambda>la. la\<lparr>ln_overflow := ln_overflow la + 1\<rparr>)) sv)"
    using assms by (auto intro!: sv_inv_upd)
  have queued: "sv_inv (upd_lane c (\<lambda>la. wake (la\<lparr>ln_inbound := sq_push ev (ln_inbound ?la)\<rparr>)) sv)"
    if "length (sq_filled (ln_inbound ?la)) < sv_cap sv" "ev_conn_id ev = c" for ev
  proof -
    have "lane_inv (length (sv_lanes sv)) (sv_cap sv) (lane_of c sv) (wake (?la\<lparr>ln_inbound := sq_push ev (ln_inbound ?la)\<rparr>))"
      using la that by (intro lane_inv_queue) (simp_all add: lane_of_def)
    then show ?thesis using assms by (simp add: upd_lane_def sv_inv_set ne)
  qed
  show ?thesis
    using over queued ne wf assms
    by (simp add: sv_post_message_def sq.try_push_eq Let_def not_le)
qed

lemma sv_inv_turn:
  assumes "sv_inv sv" "j < length (sv_lanes sv)"
  shows "sv_inv (fst (sv_turn ops rd rds j sv))"
proof -
  let ?la = "(sv_lanes sv ! j)\<lparr>ln_signaled := False\<rparr>"
  have "lane_wf ?la" using assms by (simp add: sv_inv_def lane_inv_def lane_wf_def)
  from run_step_refines(2,3)[OF this refl, of ops rd rds]
  have "lane_inv (length (sv_lanes sv)) (sv_cap sv) j (fst (run_step ops rd rds ?la))"
    by (simp add: lane_inv_def messages_def)
  then show ?thesis using assms by (simp add: sv_turn_def case_prod_beta sv_inv_set)
qed

lemma sv_inv_step: "sv_step ops sv sv' \<Longrightarrow> sv_inv sv \<Longrightarrow> sv_inv sv'"
proof (induction rule: sv_step.induct)
  case (connected sv now c)
  then show ?case
    by (cases c) (auto simp: sv_post_connected_def sq_emplace_push connected_event_def lane_of_def
        intro!: sv_inv_upd lane_inv_queue)
next
  case (disconnected sv now i)
  then show ?case
    by (auto simp: sv_post_disconnected_def sq_emplace_push disconnected_event_def lane_of_def
        intro!: sv_inv_upd lane_inv_queue)
next
  case (relayed sv m)
  then show ?case
    by (auto simp: sv_post_service_def lane_inv_def lane_wf_def wake_def sq.push_contents sq.push_inv lane_of_def
        intro!: sv_inv_upd)
next
  case (reported j sv)
  then show ?case
    by (auto simp: sv_report_def report_def case_prod_beta Let_def lane_inv_def lane_wf_def intro!: sv_inv_set)
next
  case (woken sv)
  then show ?case by (auto simp: sv_wake_all_def sv_inv_def)
qed (auto simp: sv_inv_message sv_inv_turn intro!: sv_inv_upd)

lemma sv_inv_start:
  assumes "sv_start ops opt sv = (True, sv')" "sv_lanes sv = []"
    and "\<And>n states. so_created ops n = Some states \<Longrightarrow> length states = n"
  shows "sv_inv sv'"
proof -
  have "lane_inv n cap j (lane_init j s)" for n cap j s
    by (simp add: lane_inv_def lane_wf_init messages_def, simp add: lane_init_def)
  then show ?thesis
    using assms by (auto simp: sv_start_def sv_inv_def Let_def split: option.splits)
qed

lemma sv_reach_inv: "sv_reach ops sv0 sv \<Longrightarrow> sv_inv sv0 \<Longrightarrow> sv_inv sv"
  by (induction rule: sv_reach.induct) (auto dest: sv_inv_step)

lemma turn_resumes:
  assumes "sv_inv sv" "j < length (sv_lanes sv)" "c \<in> set (ln_paused (sv_lanes sv ! j))"
  shows "Resume c \<in> set (snd (sv_turn ops rd rds j sv))"
proof -
  let ?la = "(sv_lanes sv ! j)\<lparr>ln_signaled := False\<rparr>"
  have "lane_wf ?la" using assms by (simp add: sv_inv_def lane_inv_def lane_wf_def)
  from arg_cong[OF run_step_refines(1)[OF this refl, of ops rd rds], of snd] assms(3)
  show ?thesis by (simp add: sv_turn_def case_prod_beta abs_step_def)
qed

lemma lane_frame [simp]:
  "lane_wf (wake la) = lane_wf la" "ln_state (wake la) = ln_state la" "ln_inbound (wake la) = ln_inbound la"
  "ln_service_inbox (wake la) = ln_service_inbox la" "ln_paused (wake la) = ln_paused la"
  "lane_wf (la\<lparr>ln_signaled := b\<rparr>) = lane_wf la"
  by (simp_all add: wake_def lane_wf_def)

section \<open>Properties\<close>

text \<open>A service with a trivial state, for the concrete inputs below.\<close>

abbreviation demo_ops :: "nat service_ops" where
  "demo_ops \<equiv> \<lparr>so_created = (\<lambda>n. Some (replicate n 0)), so_event = (\<lambda>rd ev s. (ev_msg_id ev = 9, s + 1, [])),
     so_service = (\<lambda>m s. (False, s, [])), so_fault = (\<lambda>i s. (s, [Close i])), so_report = (\<lambda>s t. (s, t)),
     so_pending = (\<lambda>s. 0), so_before = (\<lambda>rd s. (s, [])), so_after = (\<lambda>s. s)\<rparr>"

abbreviation demo_options :: "overflow_policy \<Rightarrow> service_options" where
  "demo_options p \<equiv> \<lparr>op_lane_count = 2, op_stats_interval_ms = 0, op_inbound_queue_cap = 64, op_overflow_policy = p\<rparr>"

abbreviation demo_service :: "overflow_policy \<Rightarrow> nat service" where
  "demo_service p \<equiv> \<lparr>sv_lanes = [lane_init 0 0, lane_init 1 0], sv_cap = 64, sv_policy = p\<rparr>"

lemma demo_service_start:
  "sv_start demo_ops (demo_options p) \<lparr>sv_lanes = [], sv_cap = 0, sv_policy = Reject\<rparr> = (True, demo_service p)"
  by (simp add: sv_start_def numeral_2_eq_2)

lemma demo_service_inv: "sv_inv (demo_service p)"
  by (rule sv_inv_start[OF demo_service_start]) auto

text \<open>
  C12: whatever is posted to a started service, by whichever threads, and however its lanes take their turns, every
  event that waits is in the lane its connection belongs to, so that the state of a connection is touched by one
  thread only; no more messages wait in a lane than the queue's cap; and a lane with an event, a message from
  another service or a paused connection has been signalled.
\<close>

theorem service_lanes_keep_their_invariant:
  assumes "sv_start ops opt sv = (True, sv0)" "sv_lanes sv = []"
    and "\<And>n states. so_created ops n = Some states \<Longrightarrow> length states = n"
    and "sv_reach ops sv0 sv'" "j < length (sv_lanes sv')"
  shows "let la = sv_lanes sv' ! j in
    (\<forall>ev\<in>set (sq_filled (ln_inbound la)). lane_of (ev_conn_id ev) sv' = j) \<and>
    (\<forall>m\<in>set (sq_filled (ln_service_inbox la)). lane_of (sm_conn_id m) sv' = j) \<and>
    (\<forall>c\<in>set (ln_paused la). lane_of c sv' = j) \<and>
    length (messages (sq_filled (ln_inbound la))) \<le> sv_cap sv' \<and>
    (sq_filled (ln_inbound la) \<noteq> [] \<or> sq_filled (ln_service_inbox la) \<noteq> [] \<or> ln_paused la \<noteq> [] \<longrightarrow> ln_signaled la)"
  using sv_reach_inv[OF assms(4) sv_inv_start[OF assms(1-3)]] assms(5)
  by (simp add: sv_inv_def lane_inv_def lane_of_def Let_def)

theorem service_lanes_keep_their_invariant_witness:
  "ln_signaled (sv_lanes (sv_post_connected 0 (Some 1) (demo_service Reject)) ! 1)"
proof -
  have r: "sv_reach demo_ops (demo_service Reject) (sv_post_connected 0 (Some 1) (demo_service Reject))"
    by (rule sv_reach.step[OF sv_reach.start sv_step.connected])
  have l: "lane_of 1 (demo_service Reject) = 1" by (simp add: lane_of_def)
  have "sq_filled (ln_inbound (wake ((lane_init 1 0)\<lparr>ln_inbound := sq_push x (ln_inbound (lane_init 1 (0::nat)))\<rparr>))) \<noteq> []" for x
    by (simp add: wake_def lane_init_def sq.push_contents)
  then have "sq_filled (ln_inbound (sv_lanes (sv_post_connected 0 (Some 1) (demo_service Reject)) ! 1)) \<noteq> []"
    by (simp add: sv_post_connected_def sq_emplace_push l del: One_nat_def)
  moreover have "1 < length (sv_lanes (sv_post_connected 0 (Some 1) (demo_service Reject)))"
    by (simp add: sv_post_connected_def)
  ultimately show ?thesis
    using service_lanes_keep_their_invariant[OF demo_service_start _ _ r, of 1] by (auto simp: Let_def)
qed

text \<open>
  C8: one round of a lane does exactly this: the derived class's own work, then the messages from other services,
  then the inbound events, each processed once and in the order they arrived; an item that throws has its
  connection cleaned up and the items after it are processed all the same; then the paused connections are
  resumed. The round leaves the queues and the list of paused connections empty.
\<close>

theorem round_refines_abstract_round:
  assumes "lane_wf la" "r = run_step ops rd rds la"
  shows "(ln_state (fst r), snd r) = abs_step ops rd rds (sq_filled (ln_service_inbox la)) (sq_filled (ln_inbound la))
      (ln_paused la) (ln_state la) \<and>
    sq_filled (ln_inbound (fst r)) = [] \<and> sq_filled (ln_service_inbox (fst r)) = [] \<and> ln_paused (fst r) = []"
  using run_step_refines(1,3)[OF assms] by simp

abbreviation demo_lane :: "nat lane" where
  "demo_lane \<equiv> (lane_init 0 0)\<lparr>ln_inbound := sq_push (message_event 0 4 \<lparr>fv_msg_id = 9, fv_body = [], fv_size = 0\<rparr>) sq_empty,
     ln_paused := [6]\<rparr>"

theorem round_refines_abstract_round_witness:
  "ln_state (fst (run_step demo_ops demo_readings (\<lambda>_. demo_readings) demo_lane)) = 1 \<and>
   snd (run_step demo_ops demo_readings (\<lambda>_. demo_readings) demo_lane) = [Close 4, Resume 6]"
proof -
  have "lane_wf demo_lane" by (simp add: lane_wf_def sq.push_inv, simp add: lane_init_def)
  from round_refines_abstract_round[OF this refl, of demo_ops demo_readings "\<lambda>_. demo_readings"]
  show ?thesis by (simp add: sq.push_contents, simp add: lane_init_def abs_step_def abs_event_def)
qed

text \<open>
  C14: a message for a full queue is never dropped silently. With room it is queued behind what waits. With the
  \<^verbatim>\<open>Reject\<close> policy it is consumed and its sender gets one \<^verbatim>\<open>kServerBusy\<close> error, which does not close the
  connection. With \<^verbatim>\<open>Backpressure\<close> it is not consumed, its connection is paused, and the next turn of the lane
  resumes it.
\<close>

theorem full_queue_rejects_or_pauses:
  assumes "sv_inv sv" "r = sv_post_message now c f sv"
  shows "let la = sv_lanes sv ! lane_of c sv; la' = sv_lanes (fst (snd r)) ! lane_of c sv;
      full = (length (sq_filled (ln_inbound la)) \<ge> sv_cap sv)
    in sq_filled (ln_inbound la') = sq_filled (ln_inbound la) @ (if full then [] else [message_event now c f]) \<and>
       ln_overflow la' = ln_overflow la + (if full then 1 else 0) \<and>
       (fst r \<longleftrightarrow> \<not> (full \<and> sv_policy sv = Backpressure)) \<and>
       snd (snd r) =
         (if \<not> full then [] else if sv_policy sv = Backpressure then [Pause c]
          else send_body c kErrorAck (error_body (fv_msg_id f) ServerBusy ''inbound queue full'')) \<and>
       (\<not> fst r \<longrightarrow> ln_signaled la' \<and>
          Resume c \<in> set (snd (sv_turn ops rd rds (lane_of c sv) (fst (snd r)))))"
proof -
  have ne: "sv_lanes sv \<noteq> []" using assms(1) by (auto simp: sv_inv_def)
  let ?la = "sv_lanes sv ! lane_of c sv" and ?la' = "sv_lanes (fst (snd r)) ! lane_of c sv"
  have wf: "sq_wf (ln_inbound ?la)" using assms(1) ne by (simp add: sv_inv_def lane_inv_def lane_wf_def)
  have "\<not> is_fatal ServerBusy" by (simp add: is_fatal_def)
  then have err: "send_error c m ServerBusy d = send_body c kErrorAck (error_body m ServerBusy d)" for m d
    by (simp add: send_error_eq send_body_def)
  have len: "length (sv_lanes (fst (snd r))) = length (sv_lanes sv)"
    using ne by (simp add: assms(2) sv_post_message_def Let_def case_prod_beta)
  have res: "c \<in> set (ln_paused ?la') \<and> ln_signaled ?la'" if "\<not> fst r"
    using that ne wf by (auto simp: assms(2) sv_post_message_def sq.try_push_eq Let_def wake_def split: if_splits)
  have "Resume c \<in> set (snd (sv_turn ops rd rds (lane_of c sv) (fst (snd r))))" if "\<not> fst r"
    using res[OF that] sv_inv_message[OF assms(1), of now c f] ne len
    by (intro turn_resumes) (simp_all add: assms(2))
  with res show ?thesis
    using ne wf by (auto simp: assms(2) sv_post_message_def sq.try_push_eq sq.push_contents Let_def wake_def err)
qed

abbreviation demo_frame :: frame_view where
  "demo_frame \<equiv> \<lparr>fv_msg_id = 1, fv_body = [], fv_size = 0\<rparr>"

abbreviation full_lane :: "nat lane" where
  "full_lane \<equiv> (lane_init 0 0)\<lparr>ln_signaled := True,
     ln_inbound := \<lparr>sq_buffers = [replicate 64 (message_event 0 2 demo_frame), []], sq_write = 0\<rparr>\<rparr>"

abbreviation full_service :: "nat service" where
  "full_service \<equiv> \<lparr>sv_lanes = [full_lane], sv_cap = 64, sv_policy = Backpressure\<rparr>"

lemma full_lane: "sq_filled (ln_inbound full_lane) = replicate 64 (message_event 0 2 demo_frame)" "lane_wf full_lane"
  by (simp add: sq_filled_def, simp add: lane_wf_def sq_wf_def lane_init_def sq_empty_def)

lemma full_service_inv: "sv_inv full_service"
  using full_lane by (simp add: sv_inv_def lane_inv_def messages_def lane_init_def)

theorem full_queue_rejects_or_pauses_witness:
  "snd (snd (sv_post_message 0 3 demo_frame full_service)) = [Pause 3] \<and>
   \<not> fst (sv_post_message 0 3 demo_frame full_service)"
  using full_queue_rejects_or_pauses[OF full_service_inv refl, where now = 0 and c = 3 and f = demo_frame] full_lane
  by (simp add: Let_def lane_of_def)

end
