(* ===== verification/Game_Service.thy ===== *)
theory Game_Service
  imports Handlers Service
begin

text \<open>
  \<^verbatim>\<open>src/src/app/game_service.h\<close> and \<^verbatim>\<open>game_service.cpp\<close>: the operations of the game service on the state of a
  lane, the sessions and the inbox of database responses. The handlers do not throw: what the code
  catches around them is the failure of an allocation, which is not modelled.
\<close>

record 'p game_state =
  gs_ctx :: "'p app_context"
  gs_db_inbox :: "response option swap_queue"

record game_config =
  gc_deadline_us :: int
  gc_guard :: session_guard
  gc_relay :: bool

definition game_configure :: "int \<Rightarrow> session_guard \<Rightarrow> bool \<Rightarrow> game_config" where
  "game_configure db_request_timeout_ms guard relay =
     \<lparr>gc_deadline_us = (if db_request_timeout_ms > 0 then db_request_timeout_ms * 1000 else 0),
      gc_guard = guard, gc_relay = relay\<rparr>"

definition game_on_created :: "game_config \<Rightarrow> 'p \<Rightarrow> nat \<Rightarrow> 'p game_state list option" where
  "game_on_created cfg pool n =
     Some (replicate n
       \<lparr>gs_ctx = (ctx_init pool)\<lparr>ctx_db_deadline_us := gc_deadline_us cfg, ctx_relay := gc_relay cfg\<rparr>,
        gs_db_inbox = sq_empty\<rparr>)"

definition game_response :: "readings \<Rightarrow> response option \<Rightarrow> 'p app_context \<times> effect list \<Rightarrow> 'p app_context \<times> effect list" where
  "game_response rd res = (\<lambda>(ctx, fx).
     case res of None \<Rightarrow> (ctx, fx) | Some r \<Rightarrow> (case process_db_response rd r ctx of (ctx', fx') \<Rightarrow> (ctx', fx @ fx')))"

definition game_before_batch :: "readings \<Rightarrow> 'p game_state \<Rightarrow> 'p game_state \<times> effect list" where
  "game_before_batch rd s =
     (let (replies, inbox) = sq_swap (gs_db_inbox s);
          (ctx, fx) = fold (game_response rd) replies (gs_ctx s, [])
      in (s\<lparr>gs_ctx := ctx, gs_db_inbox := sq_clear_batch inbox\<rparr>, fx))"

definition game_on_event ::
  "'p db_ref \<Rightarrow> readings \<Rightarrow> inbound_event \<Rightarrow> 'p game_state \<Rightarrow> bool \<times> 'p game_state \<times> effect list" where
  "game_on_event D rd ev s = (case process_event D rd ev (gs_ctx s) of (ctx, fx) \<Rightarrow> (False, s\<lparr>gs_ctx := ctx\<rparr>, fx))"

definition game_on_service :: "service_message \<Rightarrow> 'p game_state \<Rightarrow> bool \<times> 'p game_state \<times> effect list" where
  "game_on_service msg s = (False, s, [])"

definition game_on_fault :: "conn_id \<Rightarrow> 'p game_state \<Rightarrow> 'p game_state \<times> effect list" where
  "game_on_fault i s =
     (case st_find i (ctx_sessions (gs_ctx s)) of
        None \<Rightarrow> (s, [])
      | Some ss \<Rightarrow>
          (s\<lparr>gs_ctx := (gs_ctx s)\<lparr>ctx_sessions := snd (st_remove i (ctx_sessions (gs_ctx s)))\<rparr>\<rparr>, [Close (ss_conn ss)]))"

definition game_on_pending :: "'p game_state \<Rightarrow> nat" where
  "game_on_pending s = sq_pending (gs_db_inbox s)"

definition game_on_report :: "'p game_state \<Rightarrow> service_stats \<Rightarrow> 'p game_state \<times> service_stats" where
  "game_on_report s out =
     (let ctx = gs_ctx s in
      (s\<lparr>gs_ctx := ctx\<lparr>ctx_db_total_us := 0, ctx_db_responses := 0, ctx_query_dist := lat_reset (ctx_query_dist ctx),
           ctx_round_dist := lat_reset (ctx_round_dist ctx)\<rparr>\<rparr>,
       out\<lparr>st_entries := word_of_nat (st_size (ctx_sessions ctx)), st_handled := ctx_handled ctx,
           st_rejected := ctx_rejected ctx, st_db_requests := ctx_db_requests ctx,
           st_db_responses := ctx_db_responses_total ctx, st_db_failures := ctx_db_failures ctx,
           st_db_expired := ctx_db_expired ctx, st_db_round_dist := ctx_round_dist ctx\<rparr>))"

definition game_ops :: "'p db_ref \<Rightarrow> game_config \<Rightarrow> 'p \<Rightarrow> 'p game_state service_ops" where
  "game_ops D cfg pool =
     \<lparr>so_created = game_on_created cfg pool, so_event = game_on_event D, so_service = game_on_service,
      so_fault = game_on_fault, so_report = game_on_report, so_pending = game_on_pending,
      so_before = game_before_batch, so_after = (\<lambda>s. s)\<rparr>"

definition game_post_db_response :: "response option \<Rightarrow> 'p game_state service \<Rightarrow> 'p game_state service" where
  "game_post_db_response res sv =
     (case res of
        None \<Rightarrow> sv
      | Some r \<Rightarrow>
          if length (sv_lanes sv) = 0 then sv
          else upd_lane (rs_conn_id r) (\<lambda>la. wake (la\<lparr>ln_state :=
                 (ln_state la)\<lparr>gs_db_inbox := sq_push res (gs_db_inbox (ln_state la))\<rparr>\<rparr>)) sv)"

section \<open>The round of a game lane\<close>

definition gs_wf :: "'p game_state \<Rightarrow> bool" where
  "gs_wf s \<longleftrightarrow> st_wf (ctx_sessions (gs_ctx s)) \<and> sq_wf (gs_db_inbox s)"

text \<open>
  What a context owes: the messages it has handled, the sessions it opened and the responses of the database it
  delivered each cause one message to a client or one request to the database. The first argument counts the
  messages sent.
\<close>

definition opened :: "inbound_event \<Rightarrow> u64" where
  "opened ev = (if ev_kind ev = Connected \<and> ev_conn ev \<noteq> None then 1 else 0)"

definition delivered :: "'p app_context \<Rightarrow> response \<Rightarrow> u64" where
  "delivered ctx r = (if st_find (rs_conn_id r) (ctx_sessions ctx) \<noteq> None then 1 else 0)"

definition sent_count :: "effect list \<Rightarrow> u64" where
  "sent_count fx = word_of_nat (length (sends fx))"

lemma sent_count_simps [simp]: "sent_count [] = 0" "sent_count (fx @ gx) = sent_count fx + sent_count gx"
  by (simp_all add: sent_count_def)

definition balance :: "'p app_context \<Rightarrow> u64" where
  "balance ctx = ctx_db_requests ctx - ctx_handled ctx"

lemma process_event_balance:
  assumes wf: "st_wf (ctx_sessions ctx)"
  shows "sent_count (snd (process_event D rd ev ctx)) + balance (fst (process_event D rd ev ctx)) = balance ctx + opened ev"
proof (cases "ev_kind ev")
  case Connected
  then show ?thesis
    by (auto simp: process_event_def on_connected_def opened_def sent_count_def balance_def send_body_def st_add_def Let_def
        split: option.split)
next
  case Disconnected
  then show ?thesis
    by (auto simp: process_event_def on_disconnected_def opened_def sent_count_def balance_def split: option.split)
next
  case Message
  show ?thesis
  proof (cases "st_find (ev_conn_id ev) (ctx_sessions ctx)")
    case None
    then show ?thesis using Message by (simp add: process_event_def on_message_def opened_def balance_def)
  next
    case (Some s)
    from on_message_props[OF wf Some, of D rd]
    have "sent_count (snd (on_message D rd ev ctx)) + (ctx_db_requests (fst (on_message D rd ev ctx)) - ctx_db_requests ctx) = 1"
      "ctx_handled (fst (on_message D rd ev ctx)) = ctx_handled ctx + 1"
      by (auto simp: answered_def deferred_def sent_count_def)
    then show ?thesis using Message by (simp add: process_event_def opened_def balance_def algebra_simps)
  qed
qed

lemma process_db_response_frame [simp]:
  "ctx_sessions (fst (process_db_response rd r ctx)) = ctx_sessions ctx"
  "balance (fst (process_db_response rd r ctx)) = balance ctx"
  "ctx_db (fst (process_db_response rd r ctx)) = ctx_db ctx"
  by (auto simp: process_db_response_def balance_def Let_def split: option.split)

lemma process_db_response_count: "sent_count (snd (process_db_response rd r ctx)) = delivered ctx r"
  by (auto simp: process_db_response_def delivered_def sent_count_def sends_send_error Let_def split: option.split)

lemma game_response_simps [simp]:
  "game_response rd None x = x"
  "game_response rd (Some r) (ctx, fx) = (fst (process_db_response rd r ctx), fx @ snd (process_db_response rd r ctx))"
  by (simp_all add: game_response_def case_prod_beta)

lemma abs_event_game [simp]:
  "abs_event (game_ops D cfg pool) (rd, ev) (s, fx) =
     (s\<lparr>gs_ctx := fst (process_event D rd ev (gs_ctx s))\<rparr>, fx @ snd (process_event D rd ev (gs_ctx s)))"
  by (simp add: abs_event_def game_ops_def game_on_event_def case_prod_beta)

lemma fold_game_response:
  assumes "fold (game_response rd) rs (ctx, fx) = (ctx', fx')"
  shows "ctx_sessions ctx' = ctx_sessions ctx \<and> balance ctx' = balance ctx \<and>
    sent_count fx' = sent_count fx + sum_list (map (\<lambda>r. case r of None \<Rightarrow> 0 | Some r \<Rightarrow> delivered ctx r) rs)"
  using assms
proof (induction rs arbitrary: ctx fx)
  case (Cons r rs)
  have same: "delivered (fst (process_db_response rd x ctx)) = delivered ctx" for x
    by (simp add: fun_eq_iff delivered_def)
  show ?case
  proof (cases r)
    case None
    then show ?thesis using Cons by simp
  next
    case (Some x)
    have "fold (game_response rd) rs (fst (process_db_response rd x ctx), fx @ snd (process_db_response rd x ctx)) = (ctx', fx')"
      using Cons.prems Some by simp
    from Cons.IH[OF this] show ?thesis by (simp add: Some same process_db_response_count)
  qed
qed simp

lemma fold_game_events:
  assumes "fold (abs_event (game_ops D cfg pool)) evs (s, fx) = (s', fx')" "gs_wf s"
  shows "gs_wf s' \<and> sent_count fx' + balance (gs_ctx s') =
    sent_count fx + balance (gs_ctx s) + sum_list (map (\<lambda>p. opened (snd p)) evs)"
  using assms
proof (induction evs arbitrary: s fx)
  case (Cons p evs)
  obtain rd ev where p: "p = (rd, ev)" by fastforce
  let ?r = "process_event D rd ev (gs_ctx s)"
  have "fold (abs_event (game_ops D cfg pool)) evs (s\<lparr>gs_ctx := fst ?r\<rparr>, fx @ snd ?r) = (s', fx')"
    using Cons.prems(1) p by simp
  moreover have "gs_wf (s\<lparr>gs_ctx := fst ?r\<rparr>)"
    using Cons.prems(2) by (simp add: gs_wf_def process_event_wf)
  ultimately have "gs_wf s' \<and> sent_count fx' + balance (gs_ctx s') =
      sent_count (fx @ snd ?r) + balance (fst ?r) + sum_list (map (\<lambda>p. opened (snd p)) evs)"
    using Cons.IH by fastforce
  moreover have "sent_count (snd ?r) + balance (fst ?r) = balance (gs_ctx s) + opened ev"
    using Cons.prems(2) by (intro process_event_balance) (simp add: gs_wf_def)
  ultimately show ?case by (simp add: p algebra_simps)
qed simp

lemma zip_opened: "map (\<lambda>p. opened (snd p)) (zip (map f [0..<length evs]) evs) = map opened evs"
  by (rule nth_equalityI) simp_all

lemma fold_game_relays: "fold (abs_relay (game_ops D cfg pool)) ms x = x"
  by (induction ms arbitrary: x) (auto simp: abs_relay_def game_ops_def game_on_service_def case_prod_beta)

section \<open>Properties\<close>

text \<open>
  C10: the books of a round of a game lane balance. The messages sent, plus the requests the database took, are the
  messages handled for open sessions, plus the sessions opened, plus the database responses that found their
  session: nothing is answered twice and nothing is left without an answer, whatever the batch holds.
\<close>

theorem game_round_answers_exactly_once:
  assumes "gs_wf (ln_state la)" "lane_wf la" "r = run_step (game_ops D cfg pool) rd rds la"
  shows "let ctx = gs_ctx (ln_state la); ctx' = gs_ctx (ln_state (fst r)) in
    sent_count (snd r) + (ctx_db_requests ctx' - ctx_db_requests ctx) =
      (ctx_handled ctx' - ctx_handled ctx) + sum_list (map opened (sq_filled (ln_inbound la))) +
      sum_list (map (\<lambda>res. case res of None \<Rightarrow> 0 | Some x \<Rightarrow> delivered ctx x) (sq_filled (gs_db_inbox (ln_state la)))) \<and>
    gs_wf (ln_state (fst r))"
proof -
  let ?ops = "game_ops D cfg pool" and ?s = "ln_state la" and ?batch = "sq_filled (ln_inbound la)"
  let ?replies = "sq_filled (gs_db_inbox ?s)"
  obtain ctx1 fx1 where rs: "fold (game_response rd) ?replies (gs_ctx ?s, []) = (ctx1, fx1)" by fastforce
  define s1 where "s1 = ?s\<lparr>gs_ctx := ctx1, gs_db_inbox := sq_clear_batch (snd (sq_swap (gs_db_inbox ?s)))\<rparr>"
  obtain s2 fx2 where evs: "fold (abs_event ?ops) (zip (map rds [0..<length ?batch]) ?batch) (s1, fx1) = (s2, fx2)" by fastforce
  have "so_before ?ops rd ?s = (s1, fx1)"
    using assms(1) rs by (simp add: game_ops_def game_before_batch_def case_prod_beta s1_def gs_wf_def)
  then have r: "(ln_state (fst r), snd r) = (s2, fx2 @ map Resume (ln_paused la))"
    using run_step_refines(1)[OF assms(2,3)] evs by (simp add: abs_step_def fold_game_relays) (simp add: game_ops_def)
  have "gs_wf s1" using assms(1) fold_game_response[OF rs] by (simp add: s1_def gs_wf_def)
  from fold_game_events[OF evs this] fold_game_response[OF rs]
  have "gs_wf s2" "sent_count fx2 + balance (gs_ctx s2) = balance (gs_ctx ?s) + sum_list (map opened ?batch) +
      sum_list (map (\<lambda>res. case res of None \<Rightarrow> 0 | Some x \<Rightarrow> delivered (gs_ctx ?s) x) ?replies)"
    by (simp_all add: s1_def zip_opened)
  moreover have "sent_count (map Resume cs) = 0" for cs
    by (induction cs) (simp_all add: sent_count_def)
  ultimately show ?thesis using r by (simp add: Let_def balance_def algebra_simps)
qed

abbreviation demo_game_lane :: "request list game_state lane" where
  "demo_game_lane \<equiv> (lane_init 0 \<lparr>gs_ctx = demo_ctx, gs_db_inbox = sq_empty\<rparr>)
     \<lparr>ln_inbound := sq_push (demo_event kEchoReq (enc_str [104])) sq_empty\<rparr>"

theorem game_round_answers_exactly_once_witness:
  "gs_wf (ln_state (fst (run_step (game_ops demo_db (game_configure 3000 Owner True) []) demo_readings (\<lambda>_. demo_readings) demo_game_lane)))"
proof -
  have "gs_wf (ln_state demo_game_lane)" using demo_wf by (simp add: gs_wf_def lane_init_def)
  moreover have "lane_wf demo_game_lane" by (simp add: lane_wf_def sq.push_inv) (simp add: lane_init_def)
  ultimately show ?thesis
    using game_round_answers_exactly_once[OF _ _ refl, of demo_game_lane demo_db "game_configure 3000 Owner True" "[]"
        demo_readings "\<lambda>_. demo_readings"] by (simp add: Let_def)
qed

end
