(* ===== verification/Broadcast_Service.thy ===== *)
theory Broadcast_Service
  imports Service
begin

text \<open>
  \<^verbatim>\<open>src/src/app/broadcast_service.h\<close> and \<^verbatim>\<open>broadcast_service.cpp\<close>: the chat service. Its one lane holds the
  members, and the names that arrived before their member.
\<close>

record member =
  mb_conn :: "conn_id option"
  mb_name :: bytes

record chat_state =
  cs_members :: "(conn_id \<times> member) list"
  cs_pending_names :: "(conn_id \<times> bytes) list"
  cs_orphan_names :: u64
  cs_handled :: u64
  cs_rejected :: u64
  cs_broadcasts :: u64
  cs_broadcast_sends :: u64
  cs_broadcast_dist :: histogram

definition chat_init :: chat_state where
  "chat_init = \<lparr>cs_members = [], cs_pending_names = [], cs_orphan_names = 0, cs_handled = 0, cs_rejected = 0,
     cs_broadcasts = 0, cs_broadcast_sends = 0, cs_broadcast_dist = lat_init\<rparr>"

definition chat_on_stopped :: "chat_state \<Rightarrow> chat_state" where
  "chat_on_stopped s = s\<lparr>cs_members := [], cs_pending_names := []\<rparr>"

definition chat_on_created :: "nat \<Rightarrow> chat_state list option" where
  "chat_on_created n = (if n \<noteq> 1 then None else Some [chat_init])"

section \<open>Broadcast\<close>

text \<open>The connections the loop over the members sends to, in its order.\<close>

definition open_members :: "readings \<Rightarrow> (conn_id \<times> member) list \<Rightarrow> conn_id list" where
  "open_members rd ms =
     concat (map (\<lambda>(i, m). case mb_conn m of None \<Rightarrow> [] | Some c \<Rightarrow> if conn_closed rd c then [] else [c]) ms)"

definition broadcast :: "readings \<Rightarrow> bytes \<Rightarrow> bytes \<Rightarrow> chat_state \<Rightarrow> chat_state \<times> effect list" where
  "broadcast rd from txt s =
     (let w = bw_str txt (bw_str from []);
          targets = open_members rd (cs_members s)
      in (s\<lparr>cs_broadcasts := cs_broadcasts s + 1,
            cs_broadcast_sends := cs_broadcast_sends s + word_of_nat (length targets),
            cs_broadcast_dist := lat_add (spent_us rd) (cs_broadcast_dist s)\<rparr>,
          map (\<lambda>c. Send c kChatPush w (bw_size w)) targets))"

section \<open>Events\<close>

definition chat_connected :: "inbound_event \<Rightarrow> chat_state \<Rightarrow> chat_state" where
  "chat_connected ev s =
     (case ev_conn ev of
        None \<Rightarrow> s
      | Some c \<Rightarrow>
          let m = (case map_of (cs_members s) (ev_conn_id ev) of None \<Rightarrow> \<lparr>mb_conn = None, mb_name = []\<rparr> | Some m \<Rightarrow> m);
              m = m\<lparr>mb_conn := Some c\<rparr>
          in case map_of (cs_pending_names s) (ev_conn_id ev) of
               None \<Rightarrow> s\<lparr>cs_members := AList.update (ev_conn_id ev) m (cs_members s)\<rparr>
             | Some name \<Rightarrow>
                 s\<lparr>cs_members := AList.update (ev_conn_id ev) (m\<lparr>mb_name := name\<rparr>) (cs_members s),
                   cs_pending_names := AList.delete (ev_conn_id ev) (cs_pending_names s)\<rparr>)"

definition chat_disconnected :: "inbound_event \<Rightarrow> chat_state \<Rightarrow> chat_state" where
  "chat_disconnected ev s =
     s\<lparr>cs_members := AList.delete (ev_conn_id ev) (cs_members s),
       cs_pending_names := AList.delete (ev_conn_id ev) (cs_pending_names s)\<rparr>"

text \<open>\<^verbatim>\<open>*member.conn\<close> is the connection itself; the error is sent on it.\<close>

definition chat_reject :: "member \<Rightarrow> u16 \<Rightarrow> error_code \<Rightarrow> string \<Rightarrow> chat_state \<Rightarrow> chat_state \<times> effect list" where
  "chat_reject m origin code detail s =
     (s\<lparr>cs_rejected := cs_rejected s + 1\<rparr>,
      case mb_conn m of None \<Rightarrow> [] | Some c \<Rightarrow> send_error c origin code detail)"

definition chat_message :: "readings \<Rightarrow> inbound_event \<Rightarrow> chat_state \<Rightarrow> chat_state \<times> effect list" where
  "chat_message rd ev s =
     (case map_of (cs_members s) (ev_conn_id ev) of
        None \<Rightarrow> (s, [])
      | Some m \<Rightarrow>
          let s = s\<lparr>cs_handled := cs_handled s + 1\<rparr> in
          if ev_oversized ev then chat_reject m (ev_msg_id ev) PayloadTooLong ''body too large'' s
          else
            let (txt, r) = rd_str (mk_reader (ev_body ev) (ucast (ev_size ev))) in
            if \<not> consumed_all r then chat_reject m (ev_msg_id ev) InvalidField ''chat body'' s
            else if length txt > kMaxPayloadBytes
            then chat_reject m (ev_msg_id ev) PayloadTooLong ''512 bytes max'' s
            else broadcast rd (mb_name m) txt s)"

definition chat_on_event :: "readings \<Rightarrow> inbound_event \<Rightarrow> chat_state \<Rightarrow> bool \<times> chat_state \<times> effect list" where
  "chat_on_event rd ev s =
     (case ev_kind ev of
        Connected \<Rightarrow> (False, chat_connected ev s, [])
      | Disconnected \<Rightarrow> (False, chat_disconnected ev s, [])
      | Message \<Rightarrow> (False, chat_message rd ev s))"

definition chat_on_service :: "service_message \<Rightarrow> chat_state \<Rightarrow> bool \<times> chat_state \<times> effect list" where
  "chat_on_service msg s =
     (False,
      (if sm_kind msg \<noteq> SessionOpened then s
       else case map_of (cs_members s) (sm_conn_id msg) of
              None \<Rightarrow> s\<lparr>cs_pending_names := AList.update (sm_conn_id msg) (sm_text msg) (cs_pending_names s)\<rparr>
            | Some m \<Rightarrow> s\<lparr>cs_members := AList.update (sm_conn_id msg) (m\<lparr>mb_name := sm_text msg\<rparr>) (cs_members s)\<rparr>),
      [])"

definition chat_after_batch :: "chat_state \<Rightarrow> chat_state" where
  "chat_after_batch s =
     (if cs_pending_names s = [] then s
      else s\<lparr>cs_orphan_names := cs_orphan_names s + word_of_nat (length (cs_pending_names s)), cs_pending_names := []\<rparr>)"

definition chat_on_fault :: "conn_id \<Rightarrow> chat_state \<Rightarrow> chat_state \<times> effect list" where
  "chat_on_fault i s =
     (let s = s\<lparr>cs_pending_names := AList.delete i (cs_pending_names s)\<rparr> in
      case map_of (cs_members s) i of
        None \<Rightarrow> (s, [])
      | Some m \<Rightarrow>
          (s\<lparr>cs_members := AList.delete i (cs_members s)\<rparr>,
           case mb_conn m of None \<Rightarrow> [] | Some c \<Rightarrow> [Close c]))"

definition chat_on_report :: "chat_state \<Rightarrow> service_stats \<Rightarrow> chat_state \<times> service_stats" where
  "chat_on_report s out =
     (s\<lparr>cs_broadcast_dist := lat_reset (cs_broadcast_dist s)\<rparr>,
      out\<lparr>st_entries := word_of_nat (length (cs_members s)), st_handled := cs_handled s, st_rejected := cs_rejected s,
          st_broadcasts := cs_broadcasts s, st_broadcast_sends := cs_broadcast_sends s,
          st_broadcast_dist := cs_broadcast_dist s\<rparr>)"

text \<open>\<^verbatim>\<open>on_pending\<close> and \<^verbatim>\<open>on_before_batch\<close> are those of the base class.\<close>

definition chat_ops :: "chat_state service_ops" where
  "chat_ops = \<lparr>so_created = chat_on_created, so_event = chat_on_event, so_service = chat_on_service,
     so_fault = chat_on_fault, so_report = chat_on_report, so_pending = (\<lambda>s. 0), so_before = (\<lambda>rd s. (s, [])),
     so_after = chat_after_batch\<rparr>"

section \<open>Invariant\<close>

text \<open>A connection is a member under its own identifier, and no name waits for a member that is there.\<close>

definition chat_wf :: "chat_state \<Rightarrow> bool" where
  "chat_wf s \<longleftrightarrow> distinct (keys (cs_members s)) \<and> distinct (keys (cs_pending_names s)) \<and>
     (\<forall>i m. map_of (cs_members s) i = Some m \<longrightarrow> mb_conn m = Some i)"

definition ev_conn_ok :: "inbound_event \<Rightarrow> bool" where
  "ev_conn_ok ev \<longleftrightarrow> (case ev_conn ev of None \<Rightarrow> True | Some c \<Rightarrow> c = ev_conn_id ev)"

lemma chat_init_wf [simp]: "chat_wf chat_init"
  by (simp add: chat_wf_def chat_init_def)

lemma chat_wf_frame [simp]:
  "chat_wf (s\<lparr>cs_handled := a\<rparr>) = chat_wf s" "chat_wf (s\<lparr>cs_rejected := b\<rparr>) = chat_wf s"
  "chat_wf (s\<lparr>cs_broadcasts := d, cs_broadcast_sends := e, cs_broadcast_dist := f\<rparr>) = chat_wf s"
  by (simp_all add: chat_wf_def)

lemma chat_message_keeps:
  "cs_members (fst (chat_message rd ev s)) = cs_members s"
  "cs_pending_names (fst (chat_message rd ev s)) = cs_pending_names s"
  by (auto simp: chat_message_def chat_reject_def broadcast_def Let_def split: option.split prod.split)

lemma chat_on_event_wf:
  assumes "chat_wf s" "ev_conn_ok ev"
  shows "chat_wf (fst (snd (chat_on_event rd ev s)))"
proof (cases "ev_kind ev")
  case Connected
  then show ?thesis using assms
    by (auto simp: chat_on_event_def chat_connected_def chat_wf_def ev_conn_ok_def Let_def split: option.splits)
next
  case Disconnected
  then show ?thesis using assms by (auto simp: chat_on_event_def chat_disconnected_def chat_wf_def)
next
  case Message
  then show ?thesis using assms(1) by (simp add: chat_on_event_def chat_wf_def chat_message_keeps)
qed

lemma chat_on_service_wf: "chat_wf s \<Longrightarrow> chat_wf (fst (snd (chat_on_service m s)))"
  by (auto simp: chat_on_service_def chat_wf_def split: option.splits)

lemma chat_after_batch_wf: "chat_wf s \<Longrightarrow> chat_wf (chat_after_batch s)"
  by (simp add: chat_after_batch_def chat_wf_def)

lemma open_members_eq:
  "chat_wf s \<Longrightarrow> open_members rd (cs_members s) = filter (\<lambda>c. \<not> conn_closed rd c) (keys (cs_members s))"
proof -
  assume wf: "chat_wf s"
  have "open_members rd ms = filter (\<lambda>c. \<not> conn_closed rd c) (keys ms)"
    if "\<forall>p\<in>set ms. mb_conn (snd p) = Some (fst p)" for ms
    using that by (induction ms) (auto simp: open_members_def)
  moreover have "\<forall>p\<in>set (cs_members s). mb_conn (snd p) = Some (fst p)"
    using wf by (auto simp: chat_wf_def dest: map_of_is_SomeI)
  ultimately show ?thesis by blast
qed

section \<open>The round of the chat lane\<close>

lemma abs_event_chat [simp]:
  "abs_event chat_ops (rd, ev) (s, fx) = (fst (snd (chat_on_event rd ev s)), fx @ snd (snd (chat_on_event rd ev s)))"
  by (simp add: abs_event_def chat_ops_def chat_on_event_def case_prod_beta split: event_kind.split)

lemma abs_relay_chat [simp]: "abs_relay chat_ops m (s, fx) = (fst (snd (chat_on_service m s)), fx)"
  by (simp add: abs_relay_def chat_ops_def chat_on_service_def)

lemma fold_chat_relays: "fold (abs_relay chat_ops) ms (s, fx) = (fold (\<lambda>m s. fst (snd (chat_on_service m s))) ms s, fx)"
  by (induction ms arbitrary: s) simp_all

lemma fold_chat_events:
  "fst (fold (abs_event chat_ops) ps (s, fx)) = fold (\<lambda>(rd, ev) s. fst (snd (chat_on_event rd ev s))) ps s"
  by (induction ps arbitrary: s fx) auto

text \<open>The state after a round, as one fold over the messages of the other service and one over the events.\<close>

lemma chat_round:
  assumes "lane_wf la" "r = run_step chat_ops rd rds la"
  shows "ln_state (fst r) = chat_after_batch
    (fold (\<lambda>(rd, ev) s. fst (snd (chat_on_event rd ev s)))
       (zip (map rds [0..<length (sq_filled (ln_inbound la))]) (sq_filled (ln_inbound la)))
       (fold (\<lambda>m s. fst (snd (chat_on_service m s))) (sq_filled (ln_service_inbox la)) (ln_state la)))"
proof -
  let ?ps = "zip (map rds [0..<length (sq_filled (ln_inbound la))]) (sq_filled (ln_inbound la))"
  let ?s = "fold (\<lambda>m s. fst (snd (chat_on_service m s))) (sq_filled (ln_service_inbox la)) (ln_state la)"
  have "so_before chat_ops rd (ln_state la) = (ln_state la, [])" "so_after chat_ops = chat_after_batch"
    by (simp_all add: chat_ops_def)
  then show ?thesis
    using arg_cong[OF run_step_refines(1)[OF assms], of fst] fold_chat_events[of ?ps ?s "[]"]
    by (simp add: abs_step_def fold_chat_relays case_prod_beta)
qed

text \<open>
  Where the name of connection \<open>i\<close> is: with its member, or waiting for it. Nothing but its disconnection takes it
  away within a round.
\<close>

definition name_kept :: "conn_id \<Rightarrow> bytes \<Rightarrow> chat_state \<Rightarrow> bool" where
  "name_kept i name s \<longleftrightarrow>
     (case map_of (cs_members s) i of
        Some m \<Rightarrow> mb_name m = name \<and> map_of (cs_pending_names s) i = None
      | None \<Rightarrow> map_of (cs_pending_names s) i = Some name)"

definition no_stale_name :: "conn_id \<Rightarrow> chat_state \<Rightarrow> bool" where
  "no_stale_name i s \<longleftrightarrow> (map_of (cs_members s) i \<noteq> None \<longrightarrow> map_of (cs_pending_names s) i = None)"

lemma name_kept_service:
  assumes "no_stale_name i s"
  shows "sm_conn_id m = i \<Longrightarrow> name_kept i (sm_text m) (fst (snd (chat_on_service m s)))"
    and "sm_conn_id m \<noteq> i \<Longrightarrow> name_kept i name (fst (snd (chat_on_service m s))) = name_kept i name s"
    and "no_stale_name i (fst (snd (chat_on_service m s)))"
  using assms by (cases "sm_kind m"; auto simp: chat_on_service_def name_kept_def no_stale_name_def split: option.splits)+

lemma name_kept_event:
  assumes "name_kept i name s" "ev_conn_id ev = i \<Longrightarrow> ev_kind ev \<noteq> Disconnected"
  shows "name_kept i name (fst (snd (chat_on_event rd ev s)))"
proof (cases "ev_kind ev")
  case Connected
  then show ?thesis using assms
    by (auto simp: chat_on_event_def chat_connected_def name_kept_def Let_def split: option.splits)
next
  case Disconnected
  then show ?thesis using assms
    by (auto simp: chat_on_event_def chat_disconnected_def name_kept_def split: option.splits)
next
  case Message
  then show ?thesis using assms(1)
    by (simp add: chat_on_event_def name_kept_def chat_message_keeps split: option.splits)
qed

lemma member_event:
  assumes "ev_conn_id ev = i \<Longrightarrow> ev_kind ev \<noteq> Disconnected"
    and "map_of (cs_members s) i \<noteq> None \<or> ev_conn_id ev = i \<and> ev_kind ev = Connected \<and> ev_conn ev \<noteq> None"
  shows "map_of (cs_members (fst (snd (chat_on_event rd ev s)))) i \<noteq> None"
  using assms
  by (cases "ev_kind ev")
    (auto simp: chat_on_event_def chat_connected_def chat_disconnected_def chat_message_keeps Let_def split: option.splits)

lemma fold_name_kept:
  assumes "name_kept i name s" "\<forall>p\<in>set ps. ev_conn_id (snd p) = i \<longrightarrow> ev_kind (snd p) \<noteq> Disconnected"
  shows "name_kept i name (fold (\<lambda>(rd, ev) s. fst (snd (chat_on_event rd ev s))) ps s)"
  using assms
proof (induction ps arbitrary: s)
  case (Cons p ps)
  then show ?case using name_kept_event[OF Cons.prems(1), of "snd p" "fst p"] by (cases p) simp
qed simp

lemma fold_member:
  assumes "\<forall>p\<in>set ps. ev_conn_id (snd p) = i \<longrightarrow> ev_kind (snd p) \<noteq> Disconnected"
    and "map_of (cs_members s) i \<noteq> None \<or>
      (\<exists>p\<in>set ps. ev_conn_id (snd p) = i \<and> ev_kind (snd p) = Connected \<and> ev_conn (snd p) \<noteq> None)"
  shows "map_of (cs_members (fold (\<lambda>(rd, ev) s. fst (snd (chat_on_event rd ev s))) ps s)) i \<noteq> None"
  using assms
proof (induction ps arbitrary: s)
  case (Cons p ps)
  obtain rd ev where p: "p = (rd, ev)" by fastforce
  have "map_of (cs_members (fst (snd (chat_on_event rd ev s)))) i \<noteq> None \<or>
      (\<exists>p\<in>set ps. ev_conn_id (snd p) = i \<and> ev_kind (snd p) = Connected \<and> ev_conn (snd p) \<noteq> None)"
    using Cons.prems member_event[of ev i s rd] by (auto simp: p)
  with Cons.IH[of "fst (snd (chat_on_event rd ev s))"] Cons.prems(1) show ?case by (simp add: p)
qed simp

lemma fold_service_members:
  "map_of (cs_members s) i \<noteq> None \<Longrightarrow> map_of (cs_members (fold (\<lambda>m s. fst (snd (chat_on_service m s))) ms s)) i \<noteq> None"
proof (induction ms arbitrary: s)
  case (Cons x ms)
  have "map_of (cs_members (fst (snd (chat_on_service x s)))) i \<noteq> None"
    using Cons.prems by (auto simp: chat_on_service_def split: option.split)
  from Cons.IH[OF this] show ?case by simp
qed simp

lemma fold_service_name:
  assumes "no_stale_name i s" "m \<in> set ms" "sm_conn_id m = i" "\<forall>m'\<in>set ms. sm_conn_id m' = i \<longrightarrow> sm_text m' = sm_text m"
  shows "name_kept i (sm_text m) (fold (\<lambda>m s. fst (snd (chat_on_service m s))) ms s)"
proof -
  have keep: "name_kept i name s \<Longrightarrow> no_stale_name i s \<Longrightarrow> \<forall>m'\<in>set ms. sm_conn_id m' = i \<longrightarrow> sm_text m' = name \<Longrightarrow>
      name_kept i name (fold (\<lambda>m s. fst (snd (chat_on_service m s))) ms s)" for name s ms
  proof (induction ms arbitrary: s)
    case (Cons m ms)
    have "name_kept i name (fst (snd (chat_on_service m s)))"
      using name_kept_service(1,2)[OF Cons.prems(2), of m] Cons.prems by (cases "sm_conn_id m = i") auto
    with Cons.IH[of "fst (snd (chat_on_service m s))"] name_kept_service(3)[OF Cons.prems(2)] Cons.prems(3)
    show ?case by simp
  qed simp
  show ?thesis using assms
  proof (induction ms arbitrary: s)
    case (Cons m' ms)
    let ?s = "fst (snd (chat_on_service m' s))"
    have ns: "no_stale_name i ?s" by (rule name_kept_service(3)[OF Cons.prems(1)])
    have rest: "\<forall>x\<in>set ms. sm_conn_id x = i \<longrightarrow> sm_text x = sm_text m" using Cons.prems(4) by simp
    show ?case
    proof (cases "sm_conn_id m' = i")
      case True
      then have "name_kept i (sm_text m) ?s"
        using name_kept_service(1)[OF Cons.prems(1) True] Cons.prems(4) by simp
      from keep[OF this ns rest] show ?thesis by simp
    next
      case False
      then have "m \<in> set ms" using Cons.prems(2,3) by auto
      from Cons.IH[OF ns this Cons.prems(3) rest] show ?thesis by simp
    qed
  qed simp
qed

text \<open>The two states a chat lane goes through when the key comes before the notice.\<close>

lemma early_name_dropped:
  assumes "lane_wf la" "sq_filled (ln_inbound la) = []" "sq_filled (ln_service_inbox la) = [m]" "ln_state la = chat_init"
  shows "cs_members (ln_state (fst (run_step chat_ops rd rds la))) = [] \<and>
    cs_pending_names (ln_state (fst (run_step chat_ops rd rds la))) = []"
  using chat_round[OF assms(1) refl, of rd rds] assms(2-4)
  by (cases "sm_kind m") (simp add: chat_on_service_def chat_after_batch_def chat_init_def)

lemma late_member_nameless:
  assumes "lane_wf la" "sq_filled (ln_inbound la) = [connected_event now i]" "sq_filled (ln_service_inbox la) = []"
    and "cs_members (ln_state la) = []" "cs_pending_names (ln_state la) = []"
  shows "map_of (cs_members (ln_state (fst (run_step chat_ops rd rds la)))) i = Some \<lparr>mb_conn = Some i, mb_name = []\<rparr>"
  using chat_round[OF assms(1) refl, of rd rds] assms(2-5)
  by (simp add: chat_on_event_def chat_connected_def connected_event_def chat_after_batch_def)

section \<open>Properties\<close>

abbreviation demo_chat :: chat_state where
  "demo_chat \<equiv> chat_init\<lparr>cs_members := [(7, \<lparr>mb_conn = Some 7, mb_name = [1]\<rparr>), (8, \<lparr>mb_conn = Some 8, mb_name = []\<rparr>)]\<rparr>"

abbreviation demo_say :: "bytes \<Rightarrow> inbound_event" where
  "demo_say b \<equiv> \<lparr>ev_kind = Message, ev_conn_id = 7, ev_msg_id = kChatReq, ev_size = word_of_nat (length b),
     ev_oversized = False, ev_enqueued_us = 0, ev_conn = None, ev_body = b\<rparr>"

lemma demo_chat_wf: "chat_wf demo_chat"
  by (simp add: chat_wf_def chat_init_def)

text \<open>
  C34: a chat message of at most 512 bytes from a member goes to every member whose connection is open, the sender
  included, exactly once, with the same bytes: the sender's name and the text. Nobody else gets anything, and no
  connection is closed.
\<close>

theorem chat_reaches_every_open_member_once:
  assumes "chat_wf s" "map_of (cs_members s) (ev_conn_id ev) = Some m"
    and "ev_kind ev = Message" "\<not> ev_oversized ev" "ev_ok ev" "ev_body ev = enc_str txt" "length txt \<le> 512"
  shows "snd (snd (chat_on_event rd ev s)) =
      map (\<lambda>c. Send c kChatPush (enc_str (mb_name m) @ enc_str txt) (bw_size (enc_str (mb_name m) @ enc_str txt)))
        (filter (\<lambda>c. \<not> conn_closed rd c) (keys (cs_members s))) \<and>
    distinct (filter (\<lambda>c. \<not> conn_closed rd c) (keys (cs_members s)))"
proof -
  have fits: "str_fits txt" using assms(7) by (simp add: str_fits_def)
  note body = rd_body[OF assms(5) fits assms(6)]
  have "chat_message rd ev s = broadcast rd (mb_name m) txt (s\<lparr>cs_handled := cs_handled s + 1\<rparr>)"
    using assms(2,4,7) body by (simp add: chat_message_def Let_def case_prod_beta kMaxPayloadBytes_def)
  then show ?thesis
    using assms(1,3) open_members_eq[OF assms(1), of rd]
    by (simp add: chat_on_event_def broadcast_def Let_def codec_simps) (simp add: chat_wf_def)
qed

theorem chat_reaches_every_open_member_once_witness:
  "snd (snd (chat_on_event demo_readings (demo_say (enc_str [104])) demo_chat)) =
     map (\<lambda>c. Send c kChatPush (enc_str [1] @ enc_str [104]) (bw_size (enc_str [1] @ enc_str [104]))) [7, 8]"
  using chat_reaches_every_open_member_once[OF demo_chat_wf, of "demo_say (enc_str [104])" _ "[104]" demo_readings]
  by (simp add: ev_ok_def width_simps)

text \<open>
  If the chat service takes up the session key of a connection in a round in which that connection is a
  member already, or in whose batch its connection notice stands, then after the round the member carries that
  name, whatever else the round holds, unless the batch also ends the connection. No round leaves a name waiting.
\<close>

theorem name_arrives_with_its_member:
  assumes "lane_wf la" "r = run_step chat_ops rd rds la" "cs_pending_names (ln_state la) = []"
    and "m \<in> set (sq_filled (ln_service_inbox la))"
    and "\<forall>m'\<in>set (sq_filled (ln_service_inbox la)). sm_conn_id m' = sm_conn_id m \<longrightarrow> sm_text m' = sm_text m"
    and "\<forall>ev\<in>set (sq_filled (ln_inbound la)). ev_conn_id ev = sm_conn_id m \<longrightarrow> ev_kind ev \<noteq> Disconnected"
    and "map_of (cs_members (ln_state la)) (sm_conn_id m) \<noteq> None \<or>
      (\<exists>ev\<in>set (sq_filled (ln_inbound la)). ev_kind ev = Connected \<and> ev_conn_id ev = sm_conn_id m \<and> ev_conn ev \<noteq> None)"
  shows "(\<exists>mb. map_of (cs_members (ln_state (fst r))) (sm_conn_id m) = Some mb \<and> mb_name mb = sm_text m) \<and>
    cs_pending_names (ln_state (fst r)) = []"
proof -
  let ?i = "sm_conn_id m" and ?batch = "sq_filled (ln_inbound la)"
  let ?ps = "zip (map rds [0..<length ?batch]) ?batch"
  let ?s1 = "fold (\<lambda>m s. fst (snd (chat_on_service m s))) (sq_filled (ln_service_inbox la)) (ln_state la)"
  let ?s2 = "fold (\<lambda>(rd, ev) s. fst (snd (chat_on_event rd ev s))) ?ps ?s1"
  have batch: "set ?batch = snd ` set ?ps"
    by (metis length_map length_upt map_snd_zip minus_nat.diff_0 set_map)
  have nod: "\<forall>p\<in>set ?ps. ev_conn_id (snd p) = ?i \<longrightarrow> ev_kind (snd p) \<noteq> Disconnected"
    using assms(6) batch by auto
  have s1: "name_kept ?i (sm_text m) ?s1"
    by (rule fold_service_name[OF _ assms(4) refl assms(5)]) (simp add: no_stale_name_def assms(3))
  have mem: "map_of (cs_members ?s1) ?i \<noteq> None \<or>
      (\<exists>p\<in>set ?ps. ev_conn_id (snd p) = ?i \<and> ev_kind (snd p) = Connected \<and> ev_conn (snd p) \<noteq> None)"
    using assms(7)
  proof
    assume "map_of (cs_members (ln_state la)) ?i \<noteq> None"
    from fold_service_members[OF this] show ?thesis by blast
  qed (unfold batch, blast)
  have "map_of (cs_members ?s2) ?i \<noteq> None" by (rule fold_member[OF nod mem])
  moreover have "name_kept ?i (sm_text m) ?s2" by (rule fold_name_kept[OF s1 nod])
  moreover have "ln_state (fst r) = chat_after_batch ?s2" by (rule chat_round[OF assms(1,2)])
  ultimately show ?thesis by (cases "map_of (cs_members ?s2) ?i") (simp_all add: chat_after_batch_def name_kept_def)
qed

abbreviation demo_opened :: service_message where
  "demo_opened \<equiv> \<lparr>sm_kind = SessionOpened, sm_conn_id = 7, sm_text = [65], sm_enqueued_us = 0\<rparr>"

abbreviation demo_chat_lane :: "chat_state lane" where
  "demo_chat_lane \<equiv> (lane_init 0 chat_init)\<lparr>ln_inbound := sq_push (connected_event 0 7) sq_empty,
     ln_service_inbox := sq_push demo_opened sq_empty\<rparr>"

theorem name_arrives_with_its_member_witness:
  "\<exists>mb. map_of (cs_members (ln_state (fst (run_step chat_ops demo_readings (\<lambda>_. demo_readings) demo_chat_lane)))) 7 = Some mb \<and>
     mb_name mb = [65]"
proof -
  have "lane_wf demo_chat_lane" by (simp add: lane_wf_def sq.push_inv)
  moreover have "cs_pending_names (ln_state demo_chat_lane) = []" by (simp add: lane_init_def chat_init_def)
  ultimately show ?thesis
    using name_arrives_with_its_member[of demo_chat_lane _ demo_readings "\<lambda>_. demo_readings" demo_opened]
    by (simp add: sq.push_contents connected_event_def)
qed

end
