(* ===== verification/Service_Router.thy ===== *)
theory Service_Router
  imports Game_Service Broadcast_Service
begin

text \<open>
  \<^verbatim>\<open>src/src/app/service_router.h\<close> and \<^verbatim>\<open>service_router.cpp\<close>: the two services, the table from message ids to
  services, and the hand-over of session keys from the game service to the chat service. The worker
  pool is the state \<open>'p\<close> behind \<^verbatim>\<open>ctx.db\<close>.
\<close>

datatype service_id = Game | Chat

definition kServiceCount :: nat where "kServiceCount = 2"
definition kRouteTableSize :: nat where "kRouteTableSize = 100"
definition kNoService :: byte where "kNoService = 0xFF"

fun service_num :: "service_id \<Rightarrow> byte" where
  "service_num Game = 0"
| "service_num Chat = 1"

record 'p router =
  rt_game :: "'p game_state service"
  rt_chat :: "chat_state service"
  rt_table :: "byte list"
  rt_unknown :: u64

record router_options =
  ro_game_lane_count :: int
  ro_stats_interval_ms :: int
  ro_inbound_queue_cap :: int
  ro_db_request_timeout_ms :: int
  ro_overflow_policy :: overflow_policy
  ro_session_guard :: session_guard

definition service_new :: "'s service" where
  "service_new = \<lparr>sv_lanes = [], sv_cap = 8192, sv_policy = Reject\<rparr>"

definition router_new :: "'p router" where
  "router_new = \<lparr>rt_game = service_new, rt_chat = service_new, rt_table = replicate kRouteTableSize 0, rt_unknown = 0\<rparr>"

definition rt_assign :: "u16 \<Rightarrow> service_id \<Rightarrow> byte list \<Rightarrow> byte list" where
  "rt_assign msg_id i table = table[unat msg_id := service_num i]"

definition router_config :: "router_options \<Rightarrow> game_config" where
  "router_config opt = game_configure (ro_db_request_timeout_ms opt) (ro_session_guard opt) True"

definition rt_start :: "'p db_ref \<Rightarrow> 'p \<Rightarrow> router_options \<Rightarrow> 'p router \<Rightarrow> bool \<times> 'p router" where
  "rt_start D pool opt rt =
     (let table = replicate (length (rt_table rt)) kNoService;
          table = rt_assign kEchoReq Game table;
          table = rt_assign kSaveReq Game table;
          table = rt_assign kHistoryReq Game table;
          table = rt_assign kCounterReq Game table;
          table = rt_assign kPingReq Game table;
          table = rt_assign kChatReq Chat table;
          rt = rt\<lparr>rt_table := table\<rparr>;
          game_opt = \<lparr>op_lane_count = ro_game_lane_count opt, op_stats_interval_ms = ro_stats_interval_ms opt,
                      op_inbound_queue_cap = ro_inbound_queue_cap opt, op_overflow_policy = ro_overflow_policy opt\<rparr>;
          (ok, game) = sv_start (game_ops D (router_config opt) pool) game_opt (rt_game rt);
          rt = rt\<lparr>rt_game := game\<rparr>
      in if \<not> ok then (False, rt)
         else
           let chat_opt = game_opt\<lparr>op_lane_count := 1\<rparr>;
               (ok, chat) = sv_start chat_ops chat_opt (rt_chat rt);
               rt = rt\<lparr>rt_chat := chat\<rparr>
           in if \<not> ok then (False, rt\<lparr>rt_game := sv_stop (rt_game rt)\<rparr>) else (True, rt))"

definition rt_stop :: "'p router \<Rightarrow> 'p router" where
  "rt_stop rt = rt\<lparr>rt_chat := sv_stop (rt_chat rt), rt_game := sv_stop (rt_game rt)\<rparr>"

section \<open>Routing\<close>

definition rt_service_at :: "nat \<Rightarrow> service_id option" where
  "rt_service_at index = (if index = 0 then Some Game else if index = 1 then Some Chat else None)"

definition rt_route :: "u16 \<Rightarrow> 'p router \<Rightarrow> service_id option" where
  "rt_route msg_id rt =
     (if unat msg_id \<ge> kRouteTableSize then None
      else let slot = rt_table rt ! unat msg_id in
           if slot = kNoService then None else rt_service_at (unat slot))"

definition rt_connect_one :: "int \<Rightarrow> conn_id option \<Rightarrow> service_id \<Rightarrow> 'p router \<Rightarrow> 'p router" where
  "rt_connect_one now conn i rt =
     (case i of Game \<Rightarrow> rt\<lparr>rt_game := sv_post_connected now conn (rt_game rt)\<rparr>
      | Chat \<Rightarrow> rt\<lparr>rt_chat := sv_post_connected now conn (rt_chat rt)\<rparr>)"

definition rt_post_connected :: "int \<Rightarrow> conn_id option \<Rightarrow> 'p router \<Rightarrow> 'p router" where
  "rt_post_connected now conn rt =
     fold (rt_connect_one now conn) (map (the \<circ> rt_service_at) [0..<kServiceCount]) rt"

definition rt_disconnect_one :: "int \<Rightarrow> conn_id \<Rightarrow> service_id \<Rightarrow> 'p router \<Rightarrow> 'p router" where
  "rt_disconnect_one now c i rt =
     (case i of Game \<Rightarrow> rt\<lparr>rt_game := sv_post_disconnected now c (rt_game rt)\<rparr>
      | Chat \<Rightarrow> rt\<lparr>rt_chat := sv_post_disconnected now c (rt_chat rt)\<rparr>)"

definition rt_post_disconnected :: "int \<Rightarrow> conn_id \<Rightarrow> 'p router \<Rightarrow> 'p router" where
  "rt_post_disconnected now c rt =
     fold (rt_disconnect_one now c) (map (the \<circ> rt_service_at) [0..<kServiceCount]) rt"

definition rt_post_message :: "int \<Rightarrow> conn_id \<Rightarrow> frame_view \<Rightarrow> 'p router \<Rightarrow> bool \<times> 'p router \<times> effect list" where
  "rt_post_message now c f rt =
     (case rt_route (fv_msg_id f) rt of
        None \<Rightarrow> (True, rt\<lparr>rt_unknown := rt_unknown rt + 1\<rparr>, send_error c (fv_msg_id f) UnknownMessage ''unknown id'')
      | Some Game \<Rightarrow> (case sv_post_message now c f (rt_game rt) of (b, sv, fx) \<Rightarrow> (b, rt\<lparr>rt_game := sv\<rparr>, fx))
      | Some Chat \<Rightarrow> (case sv_post_message now c f (rt_chat rt) of (b, sv, fx) \<Rightarrow> (b, rt\<lparr>rt_chat := sv\<rparr>, fx)))"

definition rt_post_db_response :: "response option \<Rightarrow> 'p router \<Rightarrow> 'p router" where
  "rt_post_db_response res rt = rt\<lparr>rt_game := game_post_db_response res (rt_game rt)\<rparr>"

definition rt_post_to :: "nat \<Rightarrow> service_message \<Rightarrow> 'p router \<Rightarrow> 'p router" where
  "rt_post_to target msg rt =
     (case rt_service_at target of
        None \<Rightarrow> rt
      | Some Game \<Rightarrow> rt\<lparr>rt_game := sv_post_service msg (rt_game rt)\<rparr>
      | Some Chat \<Rightarrow> rt\<lparr>rt_chat := sv_post_service msg (rt_chat rt)\<rparr>)"

definition rt_stats :: "'p router \<Rightarrow> service_stats" where
  "rt_stats rt =
     (let total = stats_add (stats_add stats_init (sv_stats (rt_game rt))) (sv_stats (rt_chat rt))
      in total\<lparr>st_rejected := st_rejected total + rt_unknown rt\<rparr>)"

section \<open>Turns of the lanes\<close>

text \<open>A turn of a game lane; the keys of the sessions it opens go to the chat service, through the relay function.\<close>

fun relay_of :: "effect \<Rightarrow> service_message option" where
  "relay_of (Relay m) = Some m"
| "relay_of _ = None"

definition rt_game_turn :: "'p db_ref \<Rightarrow> game_config \<Rightarrow> 'p \<Rightarrow> readings \<Rightarrow> (nat \<Rightarrow> readings) \<Rightarrow> nat \<Rightarrow> 'p router \<Rightarrow> 'p router \<times> effect list" where
  "rt_game_turn D cfg pool rd rds j rt =
     (case sv_turn (game_ops D cfg pool) rd rds j (rt_game rt) of (game, fx) \<Rightarrow>
        (fold (rt_post_to 1) (List.map_filter relay_of fx) (rt\<lparr>rt_game := game\<rparr>),
         filter (\<lambda>f. relay_of f = None) fx))"

definition rt_chat_turn :: "readings \<Rightarrow> (nat \<Rightarrow> readings) \<Rightarrow> nat \<Rightarrow> 'p router \<Rightarrow> 'p router \<times> effect list" where
  "rt_chat_turn rd rds j rt =
     (case sv_turn chat_ops rd rds j (rt_chat rt) of (chat, fx) \<Rightarrow> (rt\<lparr>rt_chat := chat\<rparr>, fx))"

section \<open>Shutting down\<close>

definition rt_pending :: "'p db_ref \<Rightarrow> game_config \<Rightarrow> 'p \<Rightarrow> 'p router \<Rightarrow> nat" where
  "rt_pending D cfg pool rt = sv_pending (game_ops D cfg pool) (rt_game rt) + sv_pending chat_ops (rt_chat rt)"

datatype drain_end = Drained | DrainTimeout nat

text \<open>
  \<^verbatim>\<open>drain\<close> polls. Every turn of its loop sees the clock and the number of events that are left; \<open>obs\<close> are the pairs it
  sees. The result is \<open>None\<close> as long as the loop goes on after all of them.
\<close>

fun drain_loop :: "int \<Rightarrow> (int \<times> nat) list \<Rightarrow> drain_end option" where
  "drain_loop deadline [] = None"
| "drain_loop deadline ((now, left) # obs) =
     (if left = 0 then Some Drained
      else if now \<ge> deadline then Some (DrainTimeout left)
      else drain_loop deadline obs)"

definition rt_drain :: "int \<Rightarrow> int \<Rightarrow> (int \<times> nat) list \<Rightarrow> drain_end option" where
  "rt_drain now timeout_ms obs = drain_loop (now + max 0 timeout_ms) obs"

section \<open>The routing table\<close>

lemma rt_start_table:
  assumes "rt_start D pool opt router_new = (True, rt)"
  shows "rt_route m rt =
    (if m \<in> {kEchoReq, kSaveReq, kHistoryReq, kCounterReq, kPingReq} then Some Game
     else if m = kChatReq then Some Chat else None)"
proof -
  have t: "rt_table rt = rt_assign kChatReq Chat (rt_assign kPingReq Game (rt_assign kCounterReq Game (rt_assign kHistoryReq Game
      (rt_assign kSaveReq Game (rt_assign kEchoReq Game (replicate 100 kNoService))))))"
    using assms by (auto simp: rt_start_def router_new_def Let_def kRouteTableSize_def split: prod.splits if_splits)
  have eq: "m = kEchoReq \<longleftrightarrow> unat m = unat kEchoReq" "m = kSaveReq \<longleftrightarrow> unat m = unat kSaveReq"
    "m = kHistoryReq \<longleftrightarrow> unat m = unat kHistoryReq" "m = kCounterReq \<longleftrightarrow> unat m = unat kCounterReq"
    "m = kPingReq \<longleftrightarrow> unat m = unat kPingReq" "m = kChatReq \<longleftrightarrow> unat m = unat kChatReq"
    by (auto simp: word_unat_eq_iff)
  show ?thesis
    unfolding rt_route_def t rt_assign_def kRouteTableSize_def insert_iff empty_iff eq
    by (auto simp: nth_list_update kNoService_def rt_service_at_def msg_ids Let_def)
qed

section \<open>The hand-over of a session key\<close>

text \<open>A router with one lane per service, given by the state of the two lanes.\<close>

definition router_of :: "'p game_state lane \<Rightarrow> chat_state lane \<Rightarrow> 'p router \<Rightarrow> bool" where
  "router_of g c rt \<longleftrightarrow> sv_lanes (rt_game rt) = [g] \<and> sv_lanes (rt_chat rt) = [c]"

lemma connect_game_one:
  "router_of g c rt \<Longrightarrow> router_of (wake (g\<lparr>ln_inbound := sq_push (connected_event now i) (ln_inbound g)\<rparr>)) c
     (rt_connect_one now (Some i) Game rt)"
  by (simp add: router_of_def rt_connect_one_def sv_post_connected_def upd_lane_def lane_of_def sq_emplace_push)

lemma connect_chat_one:
  "router_of g c rt \<Longrightarrow> router_of g (wake (c\<lparr>ln_inbound := sq_push (connected_event now i) (ln_inbound c)\<rparr>))
     (rt_connect_one now (Some i) Chat rt)"
  by (simp add: router_of_def rt_connect_one_def sv_post_connected_def upd_lane_def lane_of_def sq_emplace_push)

lemma chat_turn_one:
  "router_of g c rt \<Longrightarrow> router_of g (fst (run_step chat_ops rd rds (c\<lparr>ln_signaled := False\<rparr>))) (fst (rt_chat_turn rd rds 0 rt))"
  by (simp add: router_of_def rt_chat_turn_def sv_turn_def case_prod_beta)

lemma game_turn_one:
  assumes "router_of g c rt" "run_step (game_ops D cfg pool) rd rds (g\<lparr>ln_signaled := False\<rparr>) = (g', fx)"
    and "List.map_filter relay_of fx = [m]"
  shows "router_of g' (wake (c\<lparr>ln_service_inbox := sq_push m (ln_service_inbox c)\<rparr>)) (fst (rt_game_turn D cfg pool rd rds 0 rt))"
  using assms
  by (simp add: router_of_def rt_game_turn_def sv_turn_def rt_post_to_def rt_service_at_def sv_post_service_def
      upd_lane_def lane_of_def)

lemma router_started:
  assumes "rt_start D pool opt router_new = (True, rt)" "ro_game_lane_count opt = 1"
  shows "router_of (lane_init 0 \<lparr>gs_ctx = (ctx_init pool)\<lparr>ctx_db_deadline_us := gc_deadline_us (router_config opt), ctx_relay := True\<rparr>,
      gs_db_inbox = sq_empty\<rparr>) (lane_init 0 chat_init) rt"
  using assms
  by (auto simp: rt_start_def router_new_def router_of_def service_new_def sv_start_def game_ops_def chat_ops_def
      game_on_created_def chat_on_created_def router_config_def game_configure_def Let_def split: prod.splits if_splits)

lemma game_opens_session:
  assumes "lane_wf g" "sq_filled (ln_inbound g) = [connected_event now i]" "sq_filled (ln_service_inbox g) = []" "ln_paused g = []"
    and "sq_wf (gs_db_inbox (ln_state g))" "sq_filled (gs_db_inbox (ln_state g)) = []"
    and "ctx_sessions (gs_ctx (ln_state g)) = []" "ctx_relay (gs_ctx (ln_state g))"
    and "run_step (game_ops D cfg pool) rd rds g = (g', fx)"
  obtains m s where "List.map_filter relay_of fx = [m]" "sm_conn_id m = i"
    "st_find i (ctx_sessions (gs_ctx (ln_state g'))) = Some s" "length (ss_session_key s) = 36"
    "lane_pending (game_ops D cfg pool) g' = 0"
proof -
  let ?ops = "game_ops D cfg pool"
  let ?key = "make_session_key (rnd_hi (rds 0)) (rnd_lo (rds 0))"
  let ?s = "\<lparr>ss_conn_id = i, ss_session_key = ?key, ss_conn = i, ss_connected_ms = now_ms (rds 0), ss_message_count = 0\<rparr>"
  let ?m = "\<lparr>sm_kind = SessionOpened, sm_conn_id = i, sm_text = ?key, sm_enqueued_us = now_us (rds 0)\<rparr>"
  let ?st = "(ln_state g)\<lparr>gs_db_inbox := sq_clear_batch (snd (sq_swap (gs_db_inbox (ln_state g))))\<rparr>"
  have before: "so_before ?ops rd (ln_state g) = (?st, [])"
    using assms(5,6) by (simp add: game_ops_def game_before_batch_def case_prod_beta)
  have after: "so_after ?ops = (\<lambda>s. s)" by (simp add: game_ops_def)
  have ev: "process_event D (rds 0) (connected_event now i) (gs_ctx (ln_state g)) =
      ((gs_ctx (ln_state g))\<lparr>ctx_sessions := [(i, ?s)]\<rparr>, send_body i kSessionAck (bw_str ?key []) @ [Relay ?m])"
    using assms(7,8) by (simp add: process_event_def on_connected_def connected_event_def st_add_def Let_def)
  have "(ln_state g', fx) = (?st\<lparr>gs_ctx := (gs_ctx (ln_state g))\<lparr>ctx_sessions := [(i, ?s)]\<rparr>\<rparr>, send_body i kSessionAck (bw_str ?key []) @ [Relay ?m])"
    using run_step_refines(1)[OF assms(1) refl, of ?ops rd rds] assms(2,3,4,9)
    by (simp add: abs_step_def before after ev)
  moreover have "sq_filled (ln_inbound g') = []" "sq_filled (ln_service_inbox g') = []"
    using run_step_refines(3)[OF assms(1) refl, of ?ops rd rds] assms(9) by simp_all
  moreover have "so_pending ?ops = game_on_pending" by (simp add: game_ops_def)
  ultimately show ?thesis using assms(5)
    by (intro that[of ?m ?s]) (simp_all add: send_body_def map_filter_simps st_find_def lane_pending_def sq_pending_eq game_on_pending_def)
qed

lemma post_connected_two_steps:
  "rt_post_connected now conn rt = rt_connect_one now conn Chat (rt_connect_one now conn Game rt)"
  by (simp add: rt_post_connected_def kServiceCount_def numeral_2_eq_2 rt_service_at_def)

section \<open>Draining\<close>

lemma drain_loop_ends:
  assumes "\<exists>(now, left)\<in>set obs. now \<ge> deadline"
  shows "drain_loop deadline obs \<noteq> None"
  using assms by (induction deadline obs rule: drain_loop.induct) auto

lemma drain_loop_result:
  "drain_loop deadline obs = Some r \<Longrightarrow>
     (case r of Drained \<Rightarrow> \<exists>now. (now, 0) \<in> set obs | DrainTimeout left \<Rightarrow> \<exists>now. (now, left) \<in> set obs \<and> left > 0 \<and> now \<ge> deadline)"
  by (induction deadline obs rule: drain_loop.induct) (auto split: if_splits drain_end.splits)

section \<open>Properties\<close>

text \<open>
  After a successful start every message id has exactly one place to go. The five request ids of the game
  service and the chat request are routed; any other id, those of the responses and those beyond the table
  included, is answered at once with \<^verbatim>\<open>kUnknownMessage\<close>, which closes the connection, and nothing is queued for it.
\<close>

theorem every_id_has_one_place_to_go:
  assumes "rt_start D pool opt router_new = (True, rt)"
  shows "rt_route m rt =
      (if m \<in> {kEchoReq, kSaveReq, kHistoryReq, kCounterReq, kPingReq} then Some Game
       else if m = kChatReq then Some Chat else None) \<and>
    (rt_route (fv_msg_id f) rt = None \<longrightarrow>
       rt_post_message now c f rt =
         (True, rt\<lparr>rt_unknown := rt_unknown rt + 1\<rparr>,
          send_body c kErrorAck (error_body (fv_msg_id f) UnknownMessage ''unknown id'') @ [Close c]))"
proof -
  have "is_fatal UnknownMessage" by (simp add: is_fatal_def)
  then show ?thesis
    using rt_start_table[OF assms, of m] by (simp add: rt_post_message_def send_error_eq send_body_def)
qed

abbreviation demo_router_options :: router_options where
  "demo_router_options \<equiv> \<lparr>ro_game_lane_count = 1, ro_stats_interval_ms = 5000, ro_inbound_queue_cap = 8192,
     ro_db_request_timeout_ms = 3000, ro_overflow_policy = Reject, ro_session_guard = Owner\<rparr>"

lemma demo_router_start:
  "rt_start None () demo_router_options router_new = (True, snd (rt_start None () demo_router_options router_new))"
  by (simp add: rt_start_def router_new_def service_new_def sv_start_def game_ops_def chat_ops_def game_on_created_def
      chat_on_created_def Let_def)

theorem every_id_has_one_place_to_go_witness:
  "rt_route 100 (snd (rt_start None () demo_router_options router_new)) = None"
  using every_id_has_one_place_to_go[OF demo_router_start, of 100] by (simp add: msg_ids)

text \<open>
  C19: the session key can miss its member for good. \<^verbatim>\<open>post_connected\<close> tells the game service first and the chat
  service second. If the game lane opens the session and the chat lane takes its turn between the two, the
  chat service drops the name at the end of that turn, since the connection is not a member yet. When the notice
  arrives the member is created with an empty name, no name is on its way any more, and the session is open with its key.
\<close>

theorem name_lost_between_the_two_notices:
  assumes "rt_start D pool opt router_new = (True, rt0)" "ro_game_lane_count opt = 1"
    and "rt1 = rt_connect_one now (Some i) Game rt0"
    and "rt2 = fst (rt_game_turn D (router_config opt) pool rd1 rds1 0 rt1)"
    and "rt3 = fst (rt_chat_turn rd2 rds2 0 rt2)"
    and "rt4 = rt_connect_one now' (Some i) Chat rt3"
    and "rt5 = fst (rt_chat_turn rd3 rds3 0 rt4)"
  shows "rt_post_connected now (Some i) rt = rt_connect_one now (Some i) Chat (rt_connect_one now (Some i) Game rt) \<and>
    (\<exists>s. st_find i (ctx_sessions (gs_ctx (ln_state (sv_lanes (rt_game rt5) ! 0)))) = Some s \<and> ss_session_key s \<noteq> []) \<and>
    map_of (cs_members (ln_state (sv_lanes (rt_chat rt5) ! 0))) i = Some \<lparr>mb_conn = Some i, mb_name = []\<rparr> \<and>
    rt_pending D (router_config opt) pool rt5 = 0"
proof -
  let ?ops = "game_ops D (router_config opt) pool"
  let ?gs = "\<lparr>gs_ctx = (ctx_init pool)\<lparr>ctx_db_deadline_us := gc_deadline_us (router_config opt), ctx_relay := True\<rparr>,
      gs_db_inbox = sq_empty\<rparr> :: 'a game_state"
  let ?g0 = "lane_init 0 ?gs" and ?c0 = "lane_init 0 chat_init"
  let ?g1 = "wake (?g0\<lparr>ln_inbound := sq_push (connected_event now i) (ln_inbound ?g0)\<rparr>)"
  have r1: "router_of ?g1 ?c0 rt1"
    unfolding assms(3) by (rule connect_game_one[OF router_started[OF assms(1,2)]])
  obtain g2 fx where st: "run_step ?ops rd1 rds1 (?g1\<lparr>ln_signaled := False\<rparr>) = (g2, fx)" by fastforce
  obtain m s where ms: "List.map_filter relay_of fx = [m]" "sm_conn_id m = i"
      "st_find i (ctx_sessions (gs_ctx (ln_state g2))) = Some s" "length (ss_session_key s) = 36" "lane_pending ?ops g2 = 0"
    by (rule game_opens_session[OF _ _ _ _ _ _ _ _ st, of now i])
      (simp_all add: lane_wf_def lane_init_def sq.push_inv sq.push_contents ctx_init_def)
  let ?c2 = "wake (?c0\<lparr>ln_service_inbox := sq_push m (ln_service_inbox ?c0)\<rparr>)"
  have r2: "router_of g2 ?c2 rt2" unfolding assms(4) by (rule game_turn_one[OF r1 st ms(1)])
  define c3 where "c3 = fst (run_step chat_ops rd2 rds2 (?c2\<lparr>ln_signaled := False\<rparr>))"
  have wf2: "lane_wf (?c2\<lparr>ln_signaled := False\<rparr>)" by (simp add: lane_wf_def lane_init_def sq.push_inv)
  have c3: "cs_members (ln_state c3) = []" "cs_pending_names (ln_state c3) = []"
    unfolding c3_def using early_name_dropped[OF wf2, of m rd2 rds2] by (simp_all add: lane_init_def sq.push_contents)
  have q3: "lane_wf c3" "sq_filled (ln_inbound c3) = []" "sq_filled (ln_service_inbox c3) = []"
    unfolding c3_def using run_step_refines(2,3)[OF wf2 refl, of chat_ops rd2 rds2] by simp_all
  have r3: "router_of g2 c3 rt3" unfolding assms(5) c3_def by (rule chat_turn_one[OF r2])
  let ?c4 = "wake (c3\<lparr>ln_inbound := sq_push (connected_event now' i) (ln_inbound c3)\<rparr>)"
  have r4: "router_of g2 ?c4 rt4" unfolding assms(6) by (rule connect_chat_one[OF r3])
  define c5 where "c5 = fst (run_step chat_ops rd3 rds3 (?c4\<lparr>ln_signaled := False\<rparr>))"
  have wf4: "lane_wf (?c4\<lparr>ln_signaled := False\<rparr>)" using q3(1) by (simp add: lane_wf_def sq.push_inv)
  have in4: "sq_filled (ln_inbound (?c4\<lparr>ln_signaled := False\<rparr>)) = [connected_event now' i]"
    using q3(1,2) by (simp add: lane_wf_def sq.push_contents)
  have c5: "map_of (cs_members (ln_state c5)) i = Some \<lparr>mb_conn = Some i, mb_name = []\<rparr>"
    unfolding c5_def by (rule late_member_nameless[OF wf4 in4]) (simp_all add: q3(3) c3)
  have q5: "lane_pending chat_ops c5 = 0"
    unfolding c5_def using run_step_refines(3)[OF wf4 refl, of chat_ops rd3 rds3]
    by (simp add: lane_pending_def sq_pending_eq chat_ops_def)
  have r5: "router_of g2 c5 rt5" unfolding assms(7) c5_def by (rule chat_turn_one[OF r4])
  have "ss_session_key s \<noteq> []" using ms(4) by auto
  then show ?thesis
    using r5 ms(3,5) c5 q5 post_connected_two_steps[of now "Some i" rt]
    by (simp add: router_of_def rt_pending_def sv_pending_def)
qed

theorem name_lost_between_the_two_notices_witness:
  "\<exists>rt5 :: unit router. map_of (cs_members (ln_state (sv_lanes (rt_chat rt5) ! 0))) 7 = Some \<lparr>mb_conn = Some 7, mb_name = []\<rparr>"
  by (rule exI, rule name_lost_between_the_two_notices[OF demo_router_start _ refl refl refl refl refl,
      where i = 7 and now = 0 and rt = router_new, THEN conjunct2, THEN conjunct2, THEN conjunct1]) simp

text \<open>
  C33: \<^verbatim>\<open>drain\<close> always returns. With its 5 ms sleep per turn it has returned once more than \<^verbatim>\<open>timeout_ms\<close> have passed,
  whatever the queues do meanwhile; it reports success only when it has seen every queue empty, and otherwise the
  number of events it saw after the deadline.
\<close>

theorem drain_returns_in_time:
  assumes "\<forall>k<length obs. fst (obs ! k) \<ge> now + 5 * int k" "5 * (int (length obs) - 1) \<ge> max 0 timeout_ms"
  shows "\<exists>r. rt_drain now timeout_ms obs = Some r \<and>
    (case r of Drained \<Rightarrow> \<exists>t. (t, 0) \<in> set obs
     | DrainTimeout left \<Rightarrow> \<exists>t. (t, left) \<in> set obs \<and> left > 0 \<and> t \<ge> now + max 0 timeout_ms)"
proof -
  let ?k = "length obs - 1"
  have k: "?k < length obs" using assms(2) by (cases obs) auto
  then have "fst (obs ! ?k) \<ge> now + max 0 timeout_ms" using assms(1,2) by (fastforce simp: of_nat_diff)
  then have "\<exists>(t, left)\<in>set obs. t \<ge> now + max 0 timeout_ms"
    using nth_mem[OF k] by (auto simp: case_prod_beta)
  from drain_loop_ends[OF this] show ?thesis
    by (auto simp: rt_drain_def dest: drain_loop_result)
qed

theorem drain_returns_in_time_witness:
  "rt_drain 0 5 [(0, 3), (6, 2)] = Some (DrainTimeout 2)"
proof -
  have "\<exists>r. rt_drain 0 5 [(0, 3), (6, 2)] = Some r"
    using drain_returns_in_time[of "[(0, 3), (6, 2)]" 0 5] by (auto simp: less_Suc_eq nth_Cons')
  then show ?thesis by (simp add: rt_drain_def)
qed

end
