(* ===== verification/Receive_Buffer.thy ===== *)
theory Receive_Buffer
  imports Frame
begin

text \<open>
  \<^verbatim>\<open>src/src/net/receive_buffer.h\<close> and \<^verbatim>\<open>receive_buffer.cpp\<close>: the linear receive buffer with its three
  step policy (compact, grow, refuse). The heap block is an optional byte list, \<^verbatim>\<open>None\<close> before the
  first allocation; the positions are C \<^verbatim>\<open>int\<close>s, which the invariant keeps within 16 KiB.
\<close>

section \<open>The buffer and its operations\<close>

definition kMinFree :: int where "kMinFree = 4 * 1024"
definition kChunk :: int where "kChunk = 8 * 1024"
definition kMaxCapacity :: int where "kMaxCapacity = 16 * 1024"

lemmas rb_consts = kMinFree_def kChunk_def kMaxCapacity_def

lemma kMaxCapacity_eq: "kMaxCapacity = kChunk + kChunk" and kChunk_pos: "0 < kChunk"
  by (simp_all add: rb_consts)

record recv_buf =
  rb_mem :: "bytes option"
  rb_cap :: int
  rb_write :: int
  rb_read :: int

definition rb_init :: recv_buf where
  "rb_init = \<lparr>rb_mem = None, rb_cap = 0, rb_write = 0, rb_read = 0\<rparr>"

definition readable_size :: "recv_buf \<Rightarrow> int" where
  "readable_size b = rb_write b - rb_read b"

definition writable_size :: "recv_buf \<Rightarrow> int" where
  "writable_size b = rb_cap b - rb_write b"

text \<open>The bytes at \<^verbatim>\<open>readable()\<close>, \<^verbatim>\<open>readable_size()\<close> of them.\<close>

definition rb_readable :: "recv_buf \<Rightarrow> bytes" where
  "rb_readable b = (case rb_mem b of None \<Rightarrow> []
     | Some m \<Rightarrow> take (nat (readable_size b)) (drop (nat (rb_read b)) m))"

definition rb_allocate :: "int \<Rightarrow> recv_buf \<Rightarrow> recv_buf" where
  "rb_allocate capacity b =
     b\<lparr>rb_mem := Some (replicate (nat capacity) 0), rb_cap := capacity, rb_write := 0, rb_read := 0\<rparr>"

definition rb_reset :: "recv_buf \<Rightarrow> recv_buf" where
  "rb_reset b = b\<lparr>rb_write := 0, rb_read := 0\<rparr>"

definition rb_compact :: "recv_buf \<Rightarrow> recv_buf" where
  "rb_compact b =
     (let remain = rb_write b - rb_read b;
          mem = (if remain > 0 \<and> rb_read b > 0
                 then map_option (\<lambda>m. take (nat remain) (drop (nat (rb_read b)) m) @ drop (nat remain) m)
                        (rb_mem b)
                 else rb_mem b)
      in b\<lparr>rb_mem := mem, rb_write := remain, rb_read := 0\<rparr>)"

definition rb_grow :: "int \<Rightarrow> recv_buf \<Rightarrow> bool \<times> recv_buf" where
  "rb_grow add b =
     (let remain = rb_write b - rb_read b; new_cap = rb_cap b + add in
      if new_cap > kMaxCapacity then (False, b)
      else (let fresh = replicate (nat new_cap) 0;
                old = (case rb_mem b of None \<Rightarrow> [] | Some m \<Rightarrow> take (nat remain) (drop (nat (rb_read b)) m));
                next = (if remain > 0 then old @ drop (nat remain) fresh else fresh)
            in (True, b\<lparr>rb_mem := Some next, rb_cap := new_cap, rb_write := remain, rb_read := 0\<rparr>)))"

text \<open>\<^verbatim>\<open>while (writable_size() + read_ + add < required) add += kChunk;\<close>\<close>

function grow_by :: "int \<Rightarrow> int \<Rightarrow> int \<Rightarrow> int" where
  "grow_by free required add = (if free + add < required then grow_by free required (add + kChunk) else add)"
  by pat_completeness auto
termination
  by (relation "measure (\<lambda>(free, required, add). nat (required - free - add))") (auto simp: kChunk_def)

declare grow_by.simps [simp del]

text \<open>The first part of \<^verbatim>\<open>reserve_free\<close>: first allocation, and shrinking of a buffer that was used up.\<close>

definition rb_ready :: "recv_buf \<Rightarrow> recv_buf" where
  "rb_ready b =
     (let b1 = (if rb_mem b = None then rb_allocate kChunk b else b)
      in if rb_read b1 = rb_write b1
         then (if rb_cap b1 > kChunk then rb_allocate kChunk b1 else rb_reset b1)
         else b1)"

definition rb_reserve_free :: "int \<Rightarrow> recv_buf \<Rightarrow> bool \<times> recv_buf" where
  "rb_reserve_free req b =
     (let required = (if req \<le> 0 then kMinFree else req);
          b2 = rb_ready b
      in if writable_size b2 \<ge> required then (True, b2)
         else if writable_size b2 + rb_read b2 \<ge> required then (True, rb_compact b2)
         else (let add = grow_by (writable_size b2 + rb_read b2) required kChunk in
               case rb_grow add b2 of
                 (False, b3) \<Rightarrow> (False, b3)
               | (True, b3) \<Rightarrow> (writable_size b3 \<ge> required, b3)))"

definition rb_commit_write :: "int \<Rightarrow> recv_buf \<Rightarrow> recv_buf" where
  "rb_commit_write n b = b\<lparr>rb_write := rb_write b + n\<rparr>"

definition rb_consume :: "int \<Rightarrow> recv_buf \<Rightarrow> recv_buf" where
  "rb_consume n b = b\<lparr>rb_read := rb_read b + n\<rparr>"

text \<open>
  The kernel fills the window handed to \<^verbatim>\<open>WSARecv\<close> before it reports the completion: \<open>data\<close> lands at
  \<^verbatim>\<open>writable()\<close>.
\<close>

definition rb_fill :: "bytes \<Rightarrow> recv_buf \<Rightarrow> recv_buf" where
  "rb_fill data b = b\<lparr>rb_mem := map_option (\<lambda>m. take (nat (rb_write b)) m @ data @
     drop (nat (rb_write b) + length data) m) (rb_mem b)\<rparr>"

definition rb_receive :: "bytes \<Rightarrow> recv_buf \<Rightarrow> recv_buf" where
  "rb_receive data b = rb_commit_write (int (length data)) (rb_fill data b)"

section \<open>Invariant\<close>

definition rb_wf :: "recv_buf \<Rightarrow> bool" where
  "rb_wf b \<longleftrightarrow> 0 \<le> rb_read b \<and> rb_read b \<le> rb_write b \<and> rb_write b \<le> rb_cap b \<and>
     (case rb_mem b of None \<Rightarrow> rb_cap b = 0
      | Some m \<Rightarrow> int (length m) = rb_cap b \<and> (rb_cap b = kChunk \<or> rb_cap b = kMaxCapacity))"

lemma rb_wf_init [simp, inv_intros]: "rb_wf rb_init"
  by (simp add: rb_wf_def rb_init_def)

lemma length_rb_readable: "rb_wf b \<Longrightarrow> int (length (rb_readable b)) = readable_size b"
  by (auto simp: rb_wf_def rb_readable_def readable_size_def split: option.splits)

lemma readable_size_nonneg: "rb_wf b \<Longrightarrow> 0 \<le> readable_size b"
  by (simp add: rb_wf_def readable_size_def)

lemma rb_wf_receive [inv_intros]:
  "rb_wf b \<Longrightarrow> int (length d) \<le> writable_size b \<Longrightarrow> rb_wf (rb_receive d b)"
  by (auto simp: rb_wf_def rb_receive_def rb_commit_write_def rb_fill_def writable_size_def
      split: option.splits)

lemma rb_readable_receive:
  assumes "rb_wf b" and "int (length d) \<le> writable_size b"
  shows "rb_readable (rb_receive d b) = rb_readable b @ d"
proof (cases "rb_mem b")
  case None
  moreover from None assms(1) have "0 \<le> rb_write b" "rb_cap b = 0"
    by (simp_all add: rb_wf_def)
  with assms(2) have "int (length d) \<le> 0"
    by (simp only: writable_size_def)
  ultimately show ?thesis
    by (simp add: rb_wf_def rb_receive_def rb_commit_write_def rb_fill_def writable_size_def
        rb_readable_def)
next
  case (Some m)
  define r w where "r = nat (rb_read b)" and "w = nat (rb_write b)"
  with Some assms(1) have rw: "rb_read b = int r" "rb_write b = int w" "r \<le> w" "w \<le> length m"
    by (auto simp: rb_wf_def)
  have "nat (int w + int (length d) - int r) = w - r + length d" "nat (int w - int r) = w - r"
    using rw(3) by (simp_all add: nat_diff_distrib' flip: of_nat_add)
  then show ?thesis
    unfolding rb_receive_def rb_commit_write_def rb_fill_def rb_readable_def readable_size_def
    using Some rw(1,2) take_drop_fill[OF rw(3,4), of d "drop (w + length d) m"] by simp
qed

lemma rb_wf_consume [inv_intros]:
  "rb_wf b \<Longrightarrow> 0 \<le> n \<Longrightarrow> n \<le> readable_size b \<Longrightarrow> rb_wf (rb_consume n b)"
  by (auto simp: rb_wf_def rb_consume_def readable_size_def split: option.splits)

lemma rb_readable_consume:
  assumes "rb_wf b" "0 \<le> n" "n \<le> readable_size b"
  shows "rb_readable (rb_consume n b) = drop (nat n) (rb_readable b)"
  using assms
  by (auto simp: rb_wf_def rb_consume_def rb_readable_def readable_size_def drop_take
      nat_add_distrib nat_diff_distrib' algebra_simps split: option.splits)

section \<open>Making room\<close>

lemma grow_by_chunks:
  "\<exists>k \<ge> (0 :: int). grow_by free required add = add + k * kChunk"
proof (induction free required add rule: grow_by.induct)
  case (1 free required add)
  show ?case
  proof (cases "free + add < required")
    case True
    with 1 obtain k where "k \<ge> 0" "grow_by free required (add + kChunk) = add + kChunk + k * kChunk"
      by auto
    with True show ?thesis
      by (intro exI[of _ "k + 1"]) (simp add: grow_by.simps[of free required add] algebra_simps)
  next
    case False
    then show ?thesis by (auto simp: grow_by.simps[of free required add] intro: exI[of _ 0])
  qed
qed

lemma grow_by_enough: "required \<le> free + grow_by free required add"
proof (induction free required add rule: grow_by.induct)
  case (1 free required add)
  then show ?case by (simp add: grow_by.simps[of free required add])
qed

lemma grow_by_least: "required \<le> free + add \<Longrightarrow> grow_by free required add = add"
  by (simp add: grow_by.simps)

lemma rb_ready_props:
  assumes "rb_wf b"
  shows "rb_wf (rb_ready b)" "rb_readable (rb_ready b) = rb_readable b"
    "readable_size (rb_ready b) = readable_size b"
    "rb_cap (rb_ready b) = (if readable_size b = 0 then kChunk else rb_cap b)"
    "\<exists>m. rb_mem (rb_ready b) = Some m"
    "readable_size b = 0 \<Longrightarrow> rb_write (rb_ready b) = 0"
  using assms
  by (cases "rb_mem b"; auto simp: rb_ready_def rb_wf_def rb_allocate_def rb_reset_def Let_def
      rb_readable_def readable_size_def rb_consts)+

lemma rb_compact_props:
  assumes "rb_wf b"
  shows "rb_wf (rb_compact b)" "rb_readable (rb_compact b) = rb_readable b"
    "writable_size (rb_compact b) = writable_size b + rb_read b" "rb_cap (rb_compact b) = rb_cap b"
  using assms
  by (cases "rb_mem b"; auto simp: rb_compact_def rb_wf_def Let_def rb_readable_def readable_size_def
      writable_size_def)+

lemma rb_grow_props:
  assumes wf: "rb_wf b" and m: "rb_mem b = Some m" and add: "add \<ge> kChunk"
    and grow: "rb_grow add b = (True, b')"
  shows "rb_wf b'" "rb_readable b' = rb_readable b"
    "writable_size b' = writable_size b + rb_read b + add" "rb_cap b' = kMaxCapacity" "rb_cap b = kChunk"
proof -
  let ?remain = "rb_write b - rb_read b"
  from wf m have pos: "0 \<le> rb_read b" "rb_read b \<le> rb_write b" "rb_write b \<le> rb_cap b"
    "int (length m) = rb_cap b" "rb_cap b = kChunk \<or> rb_cap b = kMaxCapacity"
    by (simp_all add: rb_wf_def)
  from grow have "\<not> rb_cap b + add > kMaxCapacity"
    by (auto simp: rb_grow_def Let_def split: if_splits)
  with pos(5) add have cap: "rb_cap b = kChunk" and add: "add = kChunk"
    by (auto simp: rb_consts)
  define old where "old = take (nat ?remain) (drop (nat (rb_read b)) m)"
  have b': "b' = b\<lparr>rb_mem := Some (old @ replicate (nat kMaxCapacity - nat ?remain) 0),
      rb_cap := kMaxCapacity, rb_write := ?remain, rb_read := 0\<rparr>"
  proof (cases "?remain > 0")
    case True
    with grow m cap add kChunk_pos show ?thesis
      by (simp add: rb_grow_def Let_def old_def kMaxCapacity_eq)
  next
    case False
    with grow m cap add kChunk_pos show ?thesis
      by (simp add: rb_grow_def Let_def old_def kMaxCapacity_eq)
  qed
  have old: "length old = nat ?remain"
    using pos cap by (simp add: old_def)
  show "rb_cap b = kChunk" by (rule cap)
  show "rb_cap b' = kMaxCapacity" by (simp add: b')
  show "writable_size b' = writable_size b + rb_read b + add"
    by (simp add: b' writable_size_def cap add kMaxCapacity_eq)
  show "rb_readable b' = rb_readable b"
    using old by (simp add: b' rb_readable_def readable_size_def m old_def[symmetric])
  have "nat ?remain \<le> nat kMaxCapacity"
    using pos cap kChunk_pos by (simp add: kMaxCapacity_eq)
  then show "rb_wf b'"
    using pos cap old kChunk_pos by (simp add: b' rb_wf_def kMaxCapacity_eq)
qed

lemma rb_grow_fails: "rb_grow add b = (False, b') \<Longrightarrow> b' = b \<and> rb_cap b + add > kMaxCapacity"
  by (auto simp: rb_grow_def Let_def split: if_splits)

lemma reserve_cases:
  assumes "res = (if r \<le> (w :: int) then (True, b2) else if r \<le> w + rd then (True, c)
      else case g of (False, b3) \<Rightarrow> (False, b3) | (True, b3) \<Rightarrow> (r \<le> f b3, b3))"
    and "res = (ok, b')"
  obtains "r \<le> w" "b' = b2" | "r \<le> w + rd" "b' = c" | "g = (False, b')" "\<not> ok"
    | "g = (True, b')" "ok = (r \<le> f b')"
  using assms by (cases g; cases "fst g") (auto split: if_splits)

text \<open>Whatever the outcome, no unread byte is lost, and success means the room is there.\<close>

lemma rb_reserve_free_props:
  assumes "rb_wf b" "rb_reserve_free req b = (ok, b')"
  shows "rb_wf b' \<and> rb_readable b' = rb_readable b \<and>
    (ok \<longrightarrow> writable_size b' \<ge> (if req \<le> 0 then kMinFree else req))"
proof -
  note ready = rb_ready_props[OF assms(1)]
  define b2 where "b2 = rb_ready b"
  define r where "r = (if req \<le> 0 then kMinFree else req)"
  define add where "add = grow_by (writable_size b2 + rb_read b2) r kChunk"
  have ready: "rb_wf b2" "rb_readable b2 = rb_readable b" using ready(1,2) by (simp_all add: b2_def)
  obtain m where m: "rb_mem b2 = Some m" using rb_ready_props(5)[OF assms(1)] by (auto simp: b2_def)
  have large: "add \<ge> kChunk"
    using grow_by_chunks[of "writable_size b2 + rb_read b2" r kChunk] kChunk_pos
    by (auto simp: add_def)
  have "rb_reserve_free req b = (if r \<le> writable_size b2 then (True, b2)
      else if r \<le> writable_size b2 + rb_read b2 then (True, rb_compact b2)
      else case rb_grow add b2 of (False, b3) \<Rightarrow> (False, b3)
        | (True, b3) \<Rightarrow> (r \<le> writable_size b3, b3))"
    unfolding rb_reserve_free_def Let_def b2_def r_def add_def by (rule refl)
  from reserve_cases[OF this assms(2)]
  have "rb_wf b' \<and> rb_readable b' = rb_readable b \<and> (ok \<longrightarrow> writable_size b' \<ge> r)"
  proof cases
    case 2 then show ?thesis using ready rb_compact_props[OF ready(1)] by simp
  next
    case 3 then show ?thesis using ready rb_grow_fails[OF 3(1)] by simp
  next
    case 4 then show ?thesis using ready rb_grow_props[OF ready(1) m large 4(1)] by simp
  qed (simp add: ready)
  then show ?thesis by (simp add: r_def)
qed

text \<open>
  With the default request of 4 KiB the buffer refuses only when more than 12 KiB are still unread,
  and it does not even grow while at most 4 KiB are.
\<close>

lemma grow_by_default: "0 \<le> free \<Longrightarrow> grow_by free kMinFree kChunk = kChunk"
  by (simp add: grow_by_least rb_consts)

lemma rb_reserve_default:
  assumes "rb_wf b"
  shows "fst (rb_reserve_free 0 b) \<longleftrightarrow> readable_size b \<le> kMaxCapacity - kMinFree"
    and "readable_size b \<le> kMinFree \<Longrightarrow> rb_cap b \<le> kChunk \<Longrightarrow> rb_cap (snd (rb_reserve_free 0 b)) = kChunk"
proof -
  define b2 where "b2 = rb_ready b"
  have b2: "rb_wf b2" "readable_size b2 = readable_size b" "\<exists>m. rb_mem b2 = Some m"
    "rb_cap b2 = (if readable_size b = 0 then kChunk else rb_cap b)"
    using rb_ready_props[OF assms] by (simp_all add: b2_def)
  then have bounds: "0 \<le> rb_read b2" "rb_read b2 \<le> rb_write b2" "rb_write b2 \<le> rb_cap b2"
    "rb_cap b2 = kChunk \<or> rb_cap b2 = kMaxCapacity"
    by (auto simp: rb_wf_def)
  have sizes: "writable_size b2 + rb_read b2 = rb_cap b2 - readable_size b"
    using b2(2) by (simp add: writable_size_def readable_size_def)
  have pos: "0 \<le> writable_size b2 + rb_read b2" using bounds by (simp add: writable_size_def)
  have eq: "rb_reserve_free 0 b = (if writable_size b2 \<ge> kMinFree then (True, b2)
      else if writable_size b2 + rb_read b2 \<ge> kMinFree then (True, rb_compact b2)
      else case rb_grow kChunk b2 of (False, b3) \<Rightarrow> (False, b3)
        | (True, b3) \<Rightarrow> (writable_size b3 \<ge> kMinFree, b3))"
    unfolding rb_reserve_free_def Let_def by (simp add: b2_def[symmetric] grow_by_default[OF pos])
  show "fst (rb_reserve_free 0 b) \<longleftrightarrow> readable_size b \<le> kMaxCapacity - kMinFree"
  proof (cases "rb_grow kChunk b2")
    case (Pair ok b3)
    then show ?thesis
    proof (cases ok)
      case True
      obtain m where m: "rb_mem b2 = Some m" using b2(3) by auto
      from rb_grow_props[OF b2(1) m order.refl] Pair True
      have "writable_size b3 = kMaxCapacity - readable_size b" "rb_cap b2 = kChunk"
        using sizes by (simp_all add: kMaxCapacity_eq)
      then show ?thesis
        using eq Pair True bounds sizes by (auto simp: rb_consts writable_size_def)
    next
      case False
      with Pair rb_grow_fails[of kChunk b2 b3] have "rb_cap b2 = kMaxCapacity"
        using bounds(4) by (auto simp: rb_consts)
      then show ?thesis
        using eq Pair False bounds sizes by (auto simp: rb_consts writable_size_def)
    qed
  qed
  assume small: "readable_size b \<le> kMinFree" "rb_cap b \<le> kChunk"
  then have "rb_cap b2 = kChunk" using bounds(4) b2(4) by (auto simp: rb_consts)
  with small sizes eq show "rb_cap (snd (rb_reserve_free 0 b)) = kChunk"
    by (auto simp: rb_consts rb_compact_props[OF b2(1)])
qed

section \<open>The buffer as a byte queue\<close>

text \<open>What the connection relies on: bytes come out in the order they were put in.\<close>

locale byte_queue =
  fixes contents :: "'b \<Rightarrow> bytes"
    and room :: "'b \<Rightarrow> int"
    and inv :: "'b \<Rightarrow> bool"
    and put :: "bytes \<Rightarrow> 'b \<Rightarrow> 'b"
    and take_off :: "int \<Rightarrow> 'b \<Rightarrow> 'b"
    and make_room :: "'b \<Rightarrow> bool \<times> 'b"
  assumes put_contents: "inv b \<Longrightarrow> int (length d) \<le> room b \<Longrightarrow> contents (put d b) = contents b @ d"
    and put_inv: "inv b \<Longrightarrow> int (length d) \<le> room b \<Longrightarrow> inv (put d b)"
    and take_off_contents: "inv b \<Longrightarrow> 0 \<le> n \<Longrightarrow> n \<le> int (length (contents b)) \<Longrightarrow>
      contents (take_off n b) = drop (nat n) (contents b)"
    and take_off_inv: "inv b \<Longrightarrow> 0 \<le> n \<Longrightarrow> n \<le> int (length (contents b)) \<Longrightarrow> inv (take_off n b)"
    and make_room_contents: "inv b \<Longrightarrow> contents (snd (make_room b)) = contents b"
    and make_room_inv: "inv b \<Longrightarrow> inv (snd (make_room b))"
    and make_room_ok: "inv b \<Longrightarrow> fst (make_room b) \<Longrightarrow> 0 < room (snd (make_room b))"
begin

text \<open>A receive completion followed by the consumption of a prefix.\<close>

lemma put_take_off:
  assumes "inv b" "int (length d) \<le> room b" "n \<le> length (contents b) + length d"
  shows "contents (take_off (int n) (put d b)) = drop n (contents b @ d)"
    and "inv (take_off (int n) (put d b))"
  using assms by (simp_all add: put_contents put_inv take_off_contents take_off_inv)

end

interpretation rb: byte_queue rb_readable writable_size rb_wf rb_receive rb_consume "rb_reserve_free 0"
proof (unfold_locales, goal_cases)
  case (3 b n)
  then show ?case by (simp add: rb_readable_consume length_rb_readable)
next
  case (4 b n)
  then show ?case by (simp add: rb_wf_consume length_rb_readable)
next
  case (5 b)
  then show ?case using rb_reserve_free_props[OF 5 surjective_pairing] by simp
next
  case (6 b)
  then show ?case using rb_reserve_free_props[OF 6 surjective_pairing] by simp
next
  case (7 b)
  then show ?case
    using rb_reserve_free_props[OF 7(1) surjective_pairing, of 0] by (simp add: kMinFree_def)
qed (simp_all add: rb_readable_receive rb_wf_receive)

section \<open>Properties\<close>

text \<open>
  C27: \<^verbatim>\<open>reserve_free()\<close> keeps the buffer well formed and never loses or reorders an unread byte. It fails
  exactly when more than 12 KiB are unread, and on success at least 4 KiB can be written.
\<close>

theorem reserve_free_keeps_unread_bytes:
  assumes "rb_wf b"
  shows "rb_wf (snd (rb_reserve_free 0 b)) \<and> rb_readable (snd (rb_reserve_free 0 b)) = rb_readable b \<and>
    (fst (rb_reserve_free 0 b) \<longleftrightarrow> length (rb_readable b) \<le> 12 * 1024) \<and>
    (fst (rb_reserve_free 0 b) \<longrightarrow> writable_size (snd (rb_reserve_free 0 b)) \<ge> 4 * 1024)"
  using rb_reserve_free_props[OF assms surjective_pairing, of 0] rb_reserve_default(1)[OF assms] length_rb_readable[OF assms]
  by (auto simp: rb_consts)

theorem reserve_free_keeps_unread_bytes_witness:
  "fst (rb_reserve_free 0 rb_init) \<and> rb_readable (snd (rb_reserve_free 0 rb_init)) = []"
  using reserve_free_keeps_unread_bytes[OF rb_wf_init] by (simp add: rb_readable_def rb_init_def)

end
