(* ===== verification/Rate_Limiter.thy ===== *)
theory Rate_Limiter
  imports Prelude Ieee_Double
begin

text \<open>
  \<^verbatim>\<open>src/src/net/rate_limiter.h\<close>: the token bucket of one connection, with its arithmetic in \<^verbatim>\<open>double\<close>.
\<close>

record rate_limiter =
  rl_rate :: rat
  rl_burst :: rat
  rl_tokens :: rat
  rl_last_ms :: int

definition rl_init :: rate_limiter where
  "rl_init = \<lparr>rl_rate = 0, rl_burst = 0, rl_tokens = 0, rl_last_ms = 0\<rparr>"

definition rl_configure :: "int \<Rightarrow> int \<Rightarrow> rate_limiter \<Rightarrow> rate_limiter" where
  "rl_configure rate_per_sec burst l =
     (let b = (if burst > 0 then double_of_int burst else double_of_int (max 1 rate_per_sec))
      in l\<lparr>rl_rate := (if rate_per_sec > 0 then double_of_int rate_per_sec else 0),
           rl_burst := b, rl_tokens := b, rl_last_ms := 0\<rparr>)"

definition rl_enabled :: "rate_limiter \<Rightarrow> bool" where
  "rl_enabled l \<longleftrightarrow> rl_rate l > 0"

definition rl_allow :: "int \<Rightarrow> rate_limiter \<Rightarrow> bool \<times> rate_limiter" where
  "rl_allow now_ms l =
     (if rl_rate l \<le> 0 then (True, l)
      else
        (let l1 = (if rl_last_ms l = 0 then l\<lparr>rl_last_ms := now_ms\<rparr> else l);
             elapsed = now_ms - rl_last_ms l1;
             l2 = (if elapsed > 0
                   then l1\<lparr>rl_tokens := min (rl_burst l1)
                              (dadd (rl_tokens l1) (dmul (rl_rate l1) (ddiv (double_of_int elapsed) 1000))),
                           rl_last_ms := now_ms\<rparr>
                   else l1)
         in if rl_tokens l2 < 1 then (False, l2)
            else (True, l2\<lparr>rl_tokens := dsub (rl_tokens l2) 1\<rparr>)))"

section \<open>Invariant\<close>

text \<open>The rate and the burst come from C \<^verbatim>\<open>int\<close>s of the configuration.\<close>

definition rl_wf :: "rate_limiter \<Rightarrow> bool" where
  "rl_wf l \<longleftrightarrow> (\<exists>r b. rl_rate l = of_int r \<and> 0 \<le> r \<and> r < 2 ^ 31 \<and>
     rl_burst l = of_int b \<and> 1 \<le> b \<and> b < 2 ^ 31) \<and> 0 \<le> rl_tokens l \<and> rl_tokens l \<le> rl_burst l"

lemma rl_wf_configure [inv_intros]:
  "r < 2 ^ 31 \<Longrightarrow> b < 2 ^ 31 \<Longrightarrow> rl_wf (rl_configure r b l)"
  by (cases "r > 0"; cases "b > 0") (auto simp: rl_wf_def rl_configure_def Let_def double_of_int max_def)

lemma rl_configure_sel:
  "r < 2 ^ 31 \<Longrightarrow> 0 < b \<Longrightarrow> b < 2 ^ 31 \<Longrightarrow>
     rl_tokens (rl_configure r b l) = of_int b \<and> rl_burst (rl_configure r b l) = of_int b"
  by (simp add: rl_configure_def Let_def double_of_int)

lemma refill_nonneg:
  assumes "0 \<le> t" "0 \<le> r" "0 < e"
  shows "0 \<le> dadd t (dmul r (ddiv (double_of_int e) 1000))"
  using assms by (simp add: dadd_def dmul_def ddiv_def double_of_int_def rnd_nonneg)

lemma take_token:
  assumes "1 \<le> t" "t \<le> of_int b" "b < 2 ^ 31"
  shows "0 \<le> dsub t 1" "dsub t 1 \<le> of_int b"
proof -
  show "0 \<le> dsub t 1" using assms(1) by (simp add: dsub_def rnd_nonneg)
  have "0 < b" using assms(1,2) by (metis (mono_tags) of_int_0_less_iff less_le_trans zero_less_one)
  then show "dsub t 1 \<le> of_int b"
    unfolding dsub_def using assms by (intro rnd_le_int) auto
qed

lemma rl_allow_wf [inv_intros]:
  assumes wf: "rl_wf l"
  shows "rl_wf (snd (rl_allow now l))"
proof (cases "rl_rate l \<le> 0")
  case True
  with wf show ?thesis by (simp add: rl_allow_def)
next
  case False
  define l1 where "l1 = (if rl_last_ms l = 0 then l\<lparr>rl_last_ms := now\<rparr> else l)"
  define l2 where "l2 = (if now - rl_last_ms l1 > 0
      then l1\<lparr>rl_tokens := min (rl_burst l1) (dadd (rl_tokens l1)
              (dmul (rl_rate l1) (ddiv (double_of_int (now - rl_last_ms l1)) 1000))), rl_last_ms := now\<rparr>
      else l1)"
  from wf have "rl_wf l1" by (simp add: l1_def rl_wf_def)
  then have wf2: "rl_wf l2"
    using refill_nonneg[of "rl_tokens l1" "rl_rate l1" "now - rl_last_ms l1"]
    by (auto simp: l2_def rl_wf_def)
  moreover have "rl_allow now l = (if rl_tokens l2 < 1 then (False, l2)
      else (True, l2\<lparr>rl_tokens := dsub (rl_tokens l2) 1\<rparr>))"
    using False by (simp only: rl_allow_def Let_def l1_def l2_def if_False)
  ultimately show ?thesis
    using take_token[of "rl_tokens l2"] by (auto simp: rl_wf_def)
qed

section \<open>Bursts\<close>

text \<open>\<open>n\<close> messages in the same millisecond: how many are let through, and the bucket after them.\<close>

fun allow_burst :: "nat \<Rightarrow> int \<Rightarrow> rate_limiter \<Rightarrow> nat \<times> rate_limiter" where
  "allow_burst 0 now l = (0, l)"
| "allow_burst (Suc n) now l =
     (case rl_allow now l of (ok, l') \<Rightarrow>
        case allow_burst n now l' of (k, l'') \<Rightarrow> ((if ok then Suc k else k), l''))"

lemma rl_allow_same_ms:
  assumes "rl_rate l > 0" "rl_last_ms l = 0 \<or> rl_last_ms l = now" "rl_tokens l = of_nat t" "t < 2 ^ 31"
  shows "rl_allow now l = (if t = 0 then (False, l\<lparr>rl_last_ms := now\<rparr>)
     else (True, l\<lparr>rl_last_ms := now, rl_tokens := of_nat (t - 1)\<rparr>))"
proof -
  have "dsub (of_nat t) 1 = of_nat (t - 1)" if "t > 0"
  proof -
    have eq: "of_nat t - (1 :: rat) = of_int (int (t - 1))" using that by (simp add: of_nat_diff)
    have "int (t - 1) < 2 ^ 31" using assms(4) by (metis less_imp_diff_less of_nat_less_iff of_nat_numeral of_nat_power)
    then have "\<bar>int (t - 1)\<bar> < 2 ^ 53" by simp
    then have "dsub (of_nat t) 1 = of_int (int (t - 1))"
      unfolding dsub_def eq by (rule rnd_int)
    then show ?thesis by simp
  qed
  moreover have "l = l\<lparr>rl_last_ms := now\<rparr>" if "rl_last_ms l = now" using that by simp
  ultimately show ?thesis
    using assms by (auto simp: rl_allow_def Let_def)
qed

lemma allow_burst_same_ms:
  assumes "rl_rate l > 0" "rl_last_ms l = 0 \<or> rl_last_ms l = now" "rl_tokens l = of_nat t" "t < 2 ^ 31"
  shows "fst (allow_burst n now l) = min n t"
  using assms
proof (induction n arbitrary: l t)
  case (Suc n)
  note step = rl_allow_same_ms[OF Suc.prems]
  show ?case
  proof (cases t)
    case 0
    then have "fst (allow_burst n now (l\<lparr>rl_last_ms := now\<rparr>)) = 0"
      using Suc.IH[of "l\<lparr>rl_last_ms := now\<rparr>" 0] Suc.prems by simp
    then show ?thesis using step 0 by (simp add: case_prod_beta)
  next
    case (Suc t')
    then have "fst (allow_burst n now (l\<lparr>rl_last_ms := now, rl_tokens := of_nat t'\<rparr>)) = min n t'"
      using Suc.IH[of "l\<lparr>rl_last_ms := now, rl_tokens := of_nat t'\<rparr>" t'] Suc.prems by simp
    then show ?thesis using step Suc by (simp add: case_prod_beta)
  qed
qed simp

section \<open>Recovery\<close>

lemma rl_allow_after_second:
  assumes wf: "rl_wf l" and on: "rl_enabled l" and last: "rl_last_ms l \<noteq> 0"
    and now: "now \<ge> rl_last_ms l + 1000" "now - rl_last_ms l < 2 ^ 53"
  shows "fst (rl_allow now l)"
proof -
  from wf on obtain r b where r: "rl_rate l = of_int r" "1 \<le> r" "r < 2 ^ 31"
    and b: "rl_burst l = of_int b" "1 \<le> b" "b < 2 ^ 31" and t: "0 \<le> rl_tokens l"
    by (auto simp: rl_wf_def rl_enabled_def)
  let ?e = "now - rl_last_ms l"
  have "of_int 1 \<le> ddiv (double_of_int ?e) 1000"
  proof -
    have e: "double_of_int ?e = of_int ?e" using now by (intro double_of_int) simp
    have "(1000 :: rat) \<le> of_int ?e" using now(1) by (metis add_le_imp_le_diff of_int_le_iff of_int_numeral
          add.commute)
    then show ?thesis unfolding ddiv_def e by (intro rnd_ge_int) auto
  qed
  then have "of_int 1 \<le> dmul (rl_rate l) (ddiv (double_of_int ?e) 1000)"
    unfolding dmul_def r(1) using r(2)
    by (intro rnd_ge_int) (auto intro: order_trans[OF _ mult_mono[of 1 _ 1]])
  then have "of_int 1 \<le> dadd (rl_tokens l) (dmul (rl_rate l) (ddiv (double_of_int ?e) 1000))"
    unfolding dadd_def using t by (intro rnd_ge_int) auto
  moreover have "(1 :: rat) \<le> of_int b" using b(2) by simp
  ultimately show ?thesis
    using on last now(1) b(1) by (auto simp: rl_allow_def Let_def rl_enabled_def not_less)
qed

section \<open>Properties\<close>

text \<open>
  A connection whose bucket is full gets exactly its burst through in one millisecond, however many
  messages it sends, in the arithmetic of \<^verbatim>\<open>double\<close>.
\<close>

theorem burst_is_exact:
  assumes "0 < rate" "rate < 2 ^ 31" "0 < burst" "burst < 2 ^ 31"
  shows "fst (allow_burst n now (rl_configure rate burst l)) = min n (nat burst)"
proof -
  have "rl_tokens (rl_configure rate burst l) = of_nat (nat burst)"
    using rl_configure_sel[of rate burst l] assms by simp
  moreover have "rl_rate (rl_configure rate burst l) > 0" "rl_last_ms (rl_configure rate burst l) = 0"
    using assms by (simp_all add: rl_configure_def Let_def double_of_int)
  ultimately show ?thesis using assms by (intro allow_burst_same_ms) simp_all
qed

theorem burst_is_exact_witness:
  "fst (allow_burst 30 17 (rl_configure 10 20 rl_init)) = 20"
  using burst_is_exact[of 10 20 30 17 rl_init] by simp

text \<open>
  A throttled connection recovers: a second after the last refill, whatever is left in the bucket,
  the next message is let through, and the bucket always stays between empty and full.
\<close>

theorem throttled_connection_recovers:
  assumes "rl_wf l" "rl_enabled l" "rl_last_ms l \<noteq> 0"
    and "now \<ge> rl_last_ms l + 1000" "now - rl_last_ms l < 2 ^ 53"
  shows "fst (rl_allow now l) \<and> 0 \<le> rl_tokens (snd (rl_allow now l)) \<and>
    rl_tokens (snd (rl_allow now l)) \<le> rl_burst (snd (rl_allow now l))"
  using rl_allow_after_second[OF assms] rl_allow_wf[OF assms(1), of now] by (simp add: rl_wf_def)

theorem throttled_connection_recovers_witness:
  "fst (rl_allow 2000 \<lparr>rl_rate = 10, rl_burst = 20, rl_tokens = 0, rl_last_ms = 1000\<rparr>)"
proof -
  let ?l = "\<lparr>rl_rate = 10, rl_burst = 20, rl_tokens = 0, rl_last_ms = 1000\<rparr>"
  have "rl_wf ?l" unfolding rl_wf_def by (intro conjI exI[of _ 10] exI[of _ 20]) simp_all
  then show ?thesis using throttled_connection_recovers[of ?l 2000] by (simp add: rl_enabled_def)
qed

end
