(* ===== verification/Connection.thy ===== *)
theory Connection
  imports Frame Receive_Buffer Rate_Limiter "HOL-Library.Sublist"
begin

text \<open>
  \<^verbatim>\<open>src/src/net/connection.h\<close> and \<^verbatim>\<open>connection.cpp\<close>: one socket, its receive buffer, its two send buffers
  and the requests it has handed to the kernel.

  The operating system answers a request through \<open>h_os\<close>: the \<open>n\<close>-th call is accepted when \<open>h_os n\<close>
  holds and refused otherwise. The two callbacks of the class are the other fields of the hooks. An
  unset message handler is the one that accepts everything and does nothing.

  Three fields of the state are not in the code: \<open>c_out\<close>, the requests the kernel has accepted and
  not completed, \<open>c_accepted\<close>, the bytes of every frame \<^verbatim>\<open>send\<close> has taken, and \<open>c_wire\<close>, the bytes the
  kernel has reported as sent.
\<close>

section \<open>State\<close>

datatype io_req = ReqRecv int | ReqSend bytes | ReqFlush | ReqResume

record conn =
  c_id :: conn_id
  c_peer :: bytes
  c_socket :: bool
  c_recv_buf :: recv_buf
  c_limiter :: rate_limiter
  c_flush_queued :: bool
  c_recv_paused :: bool
  c_resume_queued :: bool
  c_send_pending :: bytes
  c_send_staging :: bytes
  c_sending :: bool
  c_direct_send :: bool
  c_send_limit :: nat
  c_pending_messages :: u64
  c_pending :: int
  c_closed :: bool
  c_last_active :: int
  c_out :: "io_req list"
  c_accepted :: bytes
  c_wire :: bytes

text \<open>
  What the connection sees of the rest of the process: the clock, the number of system calls made,
  the counters of \<^verbatim>\<open>IoService\<close> it bumps, and the state of the application behind the callbacks.
\<close>

record 'a io_env =
  e_now :: int
  e_calls :: nat
  e_throttled :: u64
  e_send_overflow :: u64
  e_flush_posts :: u64
  e_send_issues :: u64
  e_send_messages :: u64
  e_partial_sends :: u64
  e_app :: 'a

definition env_init :: "'a \<Rightarrow> 'a io_env" where
  "env_init a = \<lparr>e_now = 0, e_calls = 0, e_throttled = 0, e_send_overflow = 0, e_flush_posts = 0,
     e_send_issues = 0, e_send_messages = 0, e_partial_sends = 0, e_app = a\<rparr>"

record 'a conn_hooks =
  h_os :: "nat \<Rightarrow> bool"
  h_on_message :: "frame_view \<Rightarrow> conn \<Rightarrow> 'a io_env \<Rightarrow> bool \<times> conn \<times> 'a io_env"
  h_on_close :: "conn_id \<Rightarrow> 'a \<Rightarrow> 'a"

type_synonym 'a cstate = "conn \<times> 'a io_env"

definition conn_new :: "conn_id \<Rightarrow> bytes \<Rightarrow> int \<Rightarrow> conn" where
  "conn_new i peer now = \<lparr>c_id = i, c_peer = peer, c_socket = True, c_recv_buf = rb_init,
     c_limiter = rl_init, c_flush_queued = False, c_recv_paused = False, c_resume_queued = False,
     c_send_pending = [], c_send_staging = [], c_sending = False, c_direct_send = False,
     c_send_limit = 0, c_pending_messages = 0, c_pending = 0, c_closed = False, c_last_active = now,
     c_out = [], c_accepted = [], c_wire = []\<rparr>"

text \<open>The settings \<^verbatim>\<open>IoService::adopt\<close> makes on a new connection.\<close>

definition conn_configure :: "int \<Rightarrow> int \<Rightarrow> int \<Rightarrow> bool \<Rightarrow> conn \<Rightarrow> conn" where
  "conn_configure rate_per_sec burst send_limit direct c =
     c\<lparr>c_limiter := rl_configure rate_per_sec burst (c_limiter c),
       c_send_limit := (if send_limit > 0 then nat send_limit else 0), c_direct_send := direct\<rparr>"

section \<open>Operations\<close>

definition syscall :: "'a conn_hooks \<Rightarrow> 'a io_env \<Rightarrow> bool \<times> 'a io_env" where
  "syscall H e = (h_os H (e_calls e), e\<lparr>e_calls := Suc (e_calls e)\<rparr>)"

definition conn_allow_message :: "int \<Rightarrow> conn \<Rightarrow> bool \<times> conn" where
  "conn_allow_message now c =
     (if \<not> rl_enabled (c_limiter c) then (True, c)
      else case rl_allow now (c_limiter c) of (ok, l) \<Rightarrow> (ok, c\<lparr>c_limiter := l\<rparr>))"

definition conn_has_unsent :: "conn \<Rightarrow> bool" where
  "conn_has_unsent c \<longleftrightarrow> c_sending c \<or> c_send_pending c \<noteq> []"

definition conn_touch :: "int \<Rightarrow> conn \<Rightarrow> conn" where
  "conn_touch now c = c\<lparr>c_last_active := now\<rparr>"

definition conn_reclaimable :: "conn \<Rightarrow> bool" where
  "conn_reclaimable c \<longleftrightarrow> c_closed c \<and> c_pending c = 0"

definition conn_close :: "'a conn_hooks \<Rightarrow> 'a cstate \<Rightarrow> 'a cstate" where
  "conn_close H = (\<lambda>(c, e).
     if c_closed c then (c, e)
     else (c\<lparr>c_closed := True, c_socket := False\<rparr>, e\<lparr>e_app := h_on_close H (c_id c) (e_app e)\<rparr>))"

definition conn_post_receive :: "'a conn_hooks \<Rightarrow> 'a cstate \<Rightarrow> bool \<times> 'a cstate" where
  "conn_post_receive H = (\<lambda>(c, e).
     if c_closed c then (False, c, e)
     else case rb_reserve_free 0 (c_recv_buf c) of (ok, b) \<Rightarrow>
       let c1 = c\<lparr>c_recv_buf := b\<rparr> in
       if \<not> ok then (False, conn_close H (c1, e))
       else
         let c2 = c1\<lparr>c_pending := c_pending c1 + 1\<rparr>; (accepted, e1) = syscall H e in
         if accepted then (True, c2\<lparr>c_out := ReqRecv (writable_size b) # c_out c2\<rparr>, e1)
         else (False, conn_close H (c2\<lparr>c_pending := c_pending c2 - 1\<rparr>, e1)))"

definition conn_start :: "'a conn_hooks \<Rightarrow> 'a cstate \<Rightarrow> bool \<times> 'a cstate" where
  "conn_start H s = conn_post_receive H s"

text \<open>
  The handler cannot reach \<^verbatim>\<open>recv_buf_\<close>, which is private to the class: after the call the loop goes
  on with the buffer it had.
\<close>

function conn_drain_frames :: "'a conn_hooks \<Rightarrow> conn \<Rightarrow> 'a io_env \<Rightarrow> 'a cstate" where
  "conn_drain_frames H c e =
     (case peek_frame (rb_readable (c_recv_buf c)) (readable_size (c_recv_buf c)) of
        Incomplete \<Rightarrow> (c, e)
      | TooLarge \<Rightarrow> conn_close H (c, e)
      | FrameOk view consumed \<Rightarrow>
          (case h_on_message H view c e of (accepted, c1, e1) \<Rightarrow>
             if \<not> accepted then (c1\<lparr>c_recv_buf := c_recv_buf c\<rparr>, e1)
             else if c_closed c1 then (c1\<lparr>c_recv_buf := rb_consume consumed (c_recv_buf c)\<rparr>, e1)
             else conn_drain_frames H (c1\<lparr>c_recv_buf := rb_consume consumed (c_recv_buf c)\<rparr>) e1))"
  by pat_completeness auto

lemma peek_frame_consumed:
  "peek_frame d sz = FrameOk v n \<Longrightarrow> 6 \<le> n \<and> 6 \<le> sz"
proof -
  assume ok: "peek_frame d sz = FrameOk v n"
  then have "load_be32 d \<le> kMaxInboundBody" "int kHeaderSize \<le> sz"
    "n = uint (word_of_nat kHeaderSize + load_be32 d :: u32)"
    by (auto simp: peek_frame_def Let_def not_less split: if_splits)
  then show ?thesis
    using unat_total[of "load_be32 d"] by (simp add: uint_nat kHeaderSize_def del: of_nat_unat)
qed

termination conn_drain_frames
  by (relation "measure (\<lambda>(H, c, e). nat (readable_size (c_recv_buf c)))")
    (auto dest!: peek_frame_consumed simp: readable_size_def rb_consume_def)

declare conn_drain_frames.simps [simp del]

text \<open>
  \<^verbatim>\<open>on_receive_done\<close> and \<^verbatim>\<open>on_resume\<close> end in the same check, at which another thread may get in between;
  it is kept as an operation of its own.
\<close>

definition conn_repost :: "'a conn_hooks \<Rightarrow> 'a cstate \<Rightarrow> 'a cstate" where
  "conn_repost H = (\<lambda>(c, e).
     case (if \<not> c_closed c \<and> \<not> c_recv_paused c then snd (conn_post_receive H (c, e)) else (c, e)) of
       (c1, e1) \<Rightarrow> (c1\<lparr>c_pending := c_pending c1 - 1\<rparr>, e1))"

definition receive_part :: "'a conn_hooks \<Rightarrow> bytes \<Rightarrow> 'a cstate \<Rightarrow> 'a cstate" where
  "receive_part H data = (\<lambda>(c, e).
     let c1 = conn_touch (e_now e) c
     in conn_drain_frames H (c1\<lparr>c_recv_buf := rb_receive data (c_recv_buf c1)\<rparr>) e)"

definition conn_on_receive_done :: "'a conn_hooks \<Rightarrow> bytes \<Rightarrow> bool \<Rightarrow> 'a cstate \<Rightarrow> 'a cstate" where
  "conn_on_receive_done H data ok s =
     (if \<not> ok \<or> data = []
      then (case conn_close H s of (c, e) \<Rightarrow> (c\<lparr>c_pending := c_pending c - 1\<rparr>, e))
      else conn_repost H (receive_part H data s))"

definition conn_pause_receive :: "conn \<Rightarrow> conn" where
  "conn_pause_receive c = c\<lparr>c_recv_paused := True\<rparr>"

definition conn_resume_receive :: "'a conn_hooks \<Rightarrow> 'a cstate \<Rightarrow> 'a cstate" where
  "conn_resume_receive H = (\<lambda>(c, e).
     if \<not> c_recv_paused c then (c, e)
     else if c_resume_queued c then (c, e)
     else
       let c1 = c\<lparr>c_resume_queued := True, c_pending := c_pending c + 1\<rparr>;
           (accepted, e1) = syscall H e in
       if accepted then (c1\<lparr>c_out := ReqResume # c_out c1\<rparr>, e1)
       else (c1\<lparr>c_pending := c_pending c1 - 1, c_resume_queued := False\<rparr>, e1))"

definition resume_part :: "'a conn_hooks \<Rightarrow> 'a cstate \<Rightarrow> 'a cstate" where
  "resume_part H = (\<lambda>(c, e).
     conn_drain_frames H (c\<lparr>c_recv_paused := False, c_resume_queued := False\<rparr>) e)"

definition conn_on_resume :: "'a conn_hooks \<Rightarrow> 'a cstate \<Rightarrow> 'a cstate" where
  "conn_on_resume H s = conn_repost H (resume_part H s)"

definition requeue_unsent :: "bytes \<Rightarrow> bytes \<Rightarrow> nat \<Rightarrow> bytes" where
  "requeue_unsent pending staged sent =
     (if sent \<ge> length staged then pending else drop sent staged @ pending)"

definition conn_post_send :: "'a conn_hooks \<Rightarrow> 'a cstate \<Rightarrow> 'a cstate" where
  "conn_post_send H = (\<lambda>(c, e).
     if c_sending c \<or> c_closed c \<or> c_send_pending c = [] then (c, e)
     else
       let c1 = c\<lparr>c_send_staging := c_send_pending c, c_send_pending := []\<rparr>;
           e1 = e\<lparr>e_send_issues := e_send_issues e + 1,
                  e_send_messages := e_send_messages e + c_pending_messages c1\<rparr>;
           c2 = c1\<lparr>c_pending_messages := 0, c_sending := True, c_pending := c_pending c1 + 1\<rparr>;
           (accepted, e2) = syscall H e1 in
       if accepted then (c2\<lparr>c_out := ReqSend (c_send_staging c2) # c_out c2\<rparr>, e2)
       else conn_close H (c2\<lparr>c_pending := c_pending c2 - 1, c_sending := False\<rparr>, e2))"

text \<open>The part of \<^verbatim>\<open>send\<close> under \<^verbatim>\<open>send_mutex_\<close>; the flag is \<^verbatim>\<open>overflow\<close>.\<close>

definition conn_send_locked :: "'a conn_hooks \<Rightarrow> u16 \<Rightarrow> bytes \<Rightarrow> u32 \<Rightarrow> 'a cstate \<Rightarrow> bool \<times> 'a cstate" where
  "conn_send_locked H msg_id body sz = (\<lambda>(c, e).
     let adding = kHeaderSize + unat sz;
         queued = length (c_send_pending c) + length (c_send_staging c) in
     if c_send_limit c > 0 \<and> queued + adding > c_send_limit c then (True, c, e)
     else
       let frame = write_header msg_id sz @ take (unat sz) body;
           c1 = c\<lparr>c_send_pending := c_send_pending c @ frame,
                  c_accepted := c_accepted c @ frame,
                  c_pending_messages := c_pending_messages c + 1\<rparr> in
       if c_direct_send c1 then (False, conn_post_send H (c1, e))
       else if \<not> c_sending c1 \<and> \<not> c_flush_queued c1 then
         let e1 = e\<lparr>e_flush_posts := e_flush_posts e + 1\<rparr>;
             c2 = c1\<lparr>c_flush_queued := True, c_pending := c_pending c1 + 1\<rparr>;
             (accepted, e2) = syscall H e1 in
         if accepted then (False, c2\<lparr>c_out := ReqFlush # c_out c2\<rparr>, e2)
         else (False, conn_post_send H (c2\<lparr>c_pending := c_pending c2 - 1, c_flush_queued := False\<rparr>, e2))
       else (False, c1, e))"

definition conn_send :: "'a conn_hooks \<Rightarrow> u16 \<Rightarrow> bytes \<Rightarrow> u32 \<Rightarrow> 'a cstate \<Rightarrow> 'a cstate" where
  "conn_send H msg_id body sz s =
     (if c_closed (fst s) then s
      else if sz > kMaxOutboundBody then conn_close H s
      else case conn_send_locked H msg_id body sz s of (overflow, c, e) \<Rightarrow>
        if overflow then conn_close H (c, e\<lparr>e_send_overflow := e_send_overflow e + 1\<rparr>) else (c, e))"

definition conn_on_flush :: "'a conn_hooks \<Rightarrow> 'a cstate \<Rightarrow> 'a cstate" where
  "conn_on_flush H = (\<lambda>(c, e).
     case conn_post_send H (c\<lparr>c_flush_queued := False\<rparr>, e) of
       (c1, e1) \<Rightarrow> (c1\<lparr>c_pending := c_pending c1 - 1\<rparr>, e1))"

definition conn_on_send_done :: "'a conn_hooks \<Rightarrow> int \<Rightarrow> bool \<Rightarrow> 'a cstate \<Rightarrow> 'a cstate" where
  "conn_on_send_done H transferred ok = (\<lambda>(c, e).
     let staged = int (length (c_send_staging c));
         short = (ok \<and> transferred < staged);
         fail = (\<not> ok \<or> short \<and> transferred \<le> 0);
         c1 = (if short \<and> \<not> fail
               then c\<lparr>c_send_pending := requeue_unsent (c_send_pending c) (c_send_staging c) (nat transferred)\<rparr>
               else c);
         e1 = (if short \<and> \<not> fail then e\<lparr>e_partial_sends := e_partial_sends e + 1\<rparr> else e);
         c2 = c1\<lparr>c_sending := False, c_send_staging := []\<rparr>;
         s3 = (if \<not> fail \<and> \<not> c_closed c2 then conn_post_send H (conn_touch (e_now e1) c2, e1) else (c2, e1));
         s4 = (if fail then conn_close H s3 else s3)
     in (fst s4\<lparr>c_pending := c_pending (fst s4) - 1\<rparr>, snd s4))"

section \<open>The invariant of the send side and of the bookkeeping\<close>

fun is_recv :: "io_req \<Rightarrow> bool" where
  "is_recv (ReqRecv _) = True" | "is_recv _ = False"

fun is_send :: "io_req \<Rightarrow> bool" where
  "is_send (ReqSend _) = True" | "is_send _ = False"

definition recvs :: "conn \<Rightarrow> io_req list" where
  "recvs c = filter is_recv (c_out c)"

text \<open>
  At most one send is in the kernel, and it carries the staging buffer; the two notifications are
  in the completion port exactly while their flags are set.
\<close>

definition requests_ok :: "conn \<Rightarrow> bool" where
  "requests_ok c \<longleftrightarrow>
     filter is_send (c_out c) = (if c_sending c then [ReqSend (c_send_staging c)] else []) \<and>
     filter (\<lambda>r. r = ReqFlush) (c_out c) = (if c_flush_queued c then [ReqFlush] else []) \<and>
     filter (\<lambda>r. r = ReqResume) (c_out c) = (if c_resume_queued c then [ReqResume] else [])"

definition staging_ok :: "conn \<Rightarrow> bool" where
  "staging_ok c \<longleftrightarrow> (\<not> c_closed c \<longrightarrow> \<not> c_sending c \<longrightarrow> c_send_staging c = []) \<and>
     (c_sending c \<longrightarrow> c_send_staging c \<noteq> []) \<and>
     (c_send_limit c > 0 \<longrightarrow> length (c_send_pending c) + length (c_send_staging c) \<le> c_send_limit c)"

text \<open>Nothing that waits to be sent is forgotten.\<close>

definition wakeup_ok :: "conn \<Rightarrow> bool" where
  "wakeup_ok c \<longleftrightarrow> (\<not> c_closed c \<longrightarrow> c_send_pending c \<noteq> [] \<longrightarrow> c_sending c \<or> c_flush_queued c)"

text \<open>The bytes on the wire are the accepted frames, in the order they were accepted.\<close>

definition stream_ok :: "conn \<Rightarrow> bool" where
  "stream_ok c \<longleftrightarrow>
     (\<not> c_closed c \<longrightarrow> c_wire c @ c_send_staging c @ c_send_pending c = c_accepted c) \<and>
     prefix (c_wire c @ (if c_sending c then c_send_staging c else [])) (c_accepted c)"

text \<open>\<open>k\<close> completion handlers are running: their share of \<^verbatim>\<open>pending_\<close> is not given back yet.\<close>

definition pending_ok :: "nat \<Rightarrow> conn \<Rightarrow> bool" where
  "pending_ok k c \<longleftrightarrow> c_pending c = int (length (c_out c)) + int k"

definition socket_ok :: "conn \<Rightarrow> bool" where
  "socket_ok c \<longleftrightarrow> (c_socket c \<longleftrightarrow> \<not> c_closed c)"

definition conn_core :: "nat \<Rightarrow> conn \<Rightarrow> bool" where
  "conn_core k c \<longleftrightarrow> requests_ok c \<and> staging_ok c \<and> stream_ok c \<and> pending_ok k c \<and> socket_ok c"

definition conn_inv :: "nat \<Rightarrow> conn \<Rightarrow> bool" where
  "conn_inv k c \<longleftrightarrow> conn_core k c \<and> wakeup_ok c"

lemmas conn_core_defs = conn_core_def requests_ok_def staging_ok_def stream_ok_def pending_ok_def socket_ok_def

lemma conn_inv_new: "conn_inv 0 (conn_new i peer now)"
  by (simp add: conn_inv_def wakeup_ok_def conn_core_defs conn_new_def)

lemma conn_inv_configure: "conn_inv 0 (conn_configure rate burst limit direct (conn_new i peer now))"
  by (simp add: conn_inv_def wakeup_ok_def conn_core_defs conn_new_def conn_configure_def)

subsection \<open>Closing\<close>

lemma conn_close_eq:
  "conn_close H (c, e) = (if c_closed c then (c, e)
     else (c\<lparr>c_closed := True, c_socket := False\<rparr>, e\<lparr>e_app := h_on_close H (c_id c) (e_app e)\<rparr>))"
  by (simp add: conn_close_def)

lemma conn_close_closed [simp]: "c_closed (fst (conn_close H s))"
  by (cases s) (simp add: conn_close_eq)

lemma conn_close_core: "conn_core k c \<Longrightarrow> conn_core k (fst (conn_close H (c, e)))"
  by (auto simp: conn_close_eq conn_core_defs)

lemma conn_close_wakeup [simp]: "wakeup_ok (fst (conn_close H s))"
  by (simp add: wakeup_ok_def)

subsection \<open>Fields that the send path leaves alone\<close>

definition same_rest :: "conn \<Rightarrow> conn \<Rightarrow> bool" where
  "same_rest c c' \<longleftrightarrow> c_id c' = c_id c \<and> c_recv_buf c' = c_recv_buf c \<and>
     c_resume_queued c' = c_resume_queued c \<and> recvs c' = recvs c \<and>
     c_send_limit c' = c_send_limit c \<and> c_wire c' = c_wire c \<and> (c_closed c \<longrightarrow> c_closed c') \<and>
     prefix (c_accepted c) (c_accepted c')"

lemma same_rest_refl [simp]: "same_rest c c"
  by (simp add: same_rest_def)

lemma same_rest_trans: "same_rest a b \<Longrightarrow> same_rest b c \<Longrightarrow> same_rest a c"
  by (auto simp: same_rest_def)

lemma conn_close_rest: "same_rest c (fst (conn_close H (c, e)))" "c_recv_paused (fst (conn_close H (c, e))) = c_recv_paused c"
  by (auto simp: conn_close_eq same_rest_def recvs_def)

subsection \<open>Sending\<close>

lemma write_header_not_Nil [simp]: "write_header i n \<noteq> []"
  by (simp add: write_header_def store_be32_def)

text \<open>The three ways through \<^verbatim>\<open>post_send_locked\<close>.\<close>

lemma conn_post_send_cases:
  obtains (idle) "conn_post_send H (c, e) = (c, e)" "c_sending c \<or> c_closed c \<or> c_send_pending c = []"
  | (issued) e' where "conn_post_send H (c, e) =
      (c\<lparr>c_send_staging := c_send_pending c, c_send_pending := [], c_pending_messages := 0, c_sending := True,
         c_pending := c_pending c + 1, c_out := ReqSend (c_send_pending c) # c_out c\<rparr>, e')"
      "\<not> c_sending c" "\<not> c_closed c" "c_send_pending c \<noteq> []"
  | (refused) e' where "conn_post_send H (c, e) =
      conn_close H (c\<lparr>c_send_staging := c_send_pending c, c_send_pending := [], c_pending_messages := 0,
         c_sending := False\<rparr>, e')"
      "\<not> c_sending c" "\<not> c_closed c" "c_send_pending c \<noteq> []"
proof (cases "c_sending c \<or> c_closed c \<or> c_send_pending c = []")
  case True
  then show ?thesis by (intro idle) (auto simp: conn_post_send_def)
next
  case False
  show ?thesis
  proof (cases "h_os H (e_calls e)")
    case True
    with False show ?thesis
      by (intro issued) (auto simp: conn_post_send_def syscall_def Let_def)
  next
    case no: False
    have "c\<lparr>c_send_staging := c_send_pending c, c_send_pending := [], c_pending_messages := 0, c_sending := False,
        c_pending := c_pending c\<rparr> = c\<lparr>c_send_staging := c_send_pending c, c_send_pending := [], c_pending_messages := 0,
        c_sending := False\<rparr>" by simp
    with False no show ?thesis
      by (intro refused) (auto simp: conn_post_send_def syscall_def Let_def)
  qed
qed

lemma conn_post_send_inv:
  assumes core: "conn_core k c"
  shows "conn_inv k (fst (conn_post_send H (c, e)))"
proof (cases rule: conn_post_send_cases[of H c e])
  case idle
  with core show ?thesis by (auto simp: conn_inv_def wakeup_ok_def)
next
  case (issued e')
  with core show ?thesis by (auto simp: conn_inv_def wakeup_ok_def conn_core_defs)
next
  case (refused e')
  with core show ?thesis by (auto simp: conn_inv_def wakeup_ok_def conn_core_defs conn_close_eq)
qed

lemma conn_post_send_rest:
  "same_rest c (fst (conn_post_send H (c, e)))" "c_recv_paused (fst (conn_post_send H (c, e))) = c_recv_paused c"
  by (cases rule: conn_post_send_cases[of H c e],
      auto simp: same_rest_def recvs_def conn_close_eq)+

text \<open>The state after the frame has been appended to the accumulation buffer.\<close>

definition append_frame :: "bytes \<Rightarrow> conn \<Rightarrow> conn" where
  "append_frame frame c = c\<lparr>c_send_pending := c_send_pending c @ frame, c_accepted := c_accepted c @ frame,
     c_pending_messages := c_pending_messages c + 1\<rparr>"

lemma append_frame_core:
  assumes "conn_core k c"
    and "c_send_limit c = 0 \<or> length (c_send_pending c) + length (c_send_staging c) + length frame \<le> c_send_limit c"
  shows "conn_core k (append_frame frame c)"
  using assms by (auto simp: append_frame_def conn_core_defs)

lemma append_frame_rest: "same_rest c (append_frame frame c)" "c_recv_paused (append_frame frame c) = c_recv_paused c"
  by (simp_all add: append_frame_def same_rest_def recvs_def)

text \<open>The ways through the locked part of \<^verbatim>\<open>send\<close>.\<close>

lemma conn_send_locked_cases:
  fixes body :: bytes and msg_id :: u16 and sz :: u32
  defines "frame \<equiv> write_header msg_id sz @ take (unat sz) body"
  obtains (overflow) "conn_send_locked H msg_id body sz (c, e) = (True, c, e)"
      "c_send_limit c > 0"
      "length (c_send_pending c) + length (c_send_staging c) + kHeaderSize + unat sz > c_send_limit c"
  | (fits) "c_send_limit c = 0 \<or>
        length (c_send_pending c) + length (c_send_staging c) + length frame \<le> c_send_limit c"
      "conn_send_locked H msg_id body sz (c, e) = (False, append_frame frame c, e)"
      "c_sending c \<or> c_flush_queued c" "\<not> c_direct_send c"
  | (post) e' where "c_send_limit c = 0 \<or>
        length (c_send_pending c) + length (c_send_staging c) + length frame \<le> c_send_limit c"
      "conn_send_locked H msg_id body sz (c, e) = (False, conn_post_send H (append_frame frame c, e'))"
  | (notify) e' where "c_send_limit c = 0 \<or>
        length (c_send_pending c) + length (c_send_staging c) + length frame \<le> c_send_limit c"
      "conn_send_locked H msg_id body sz (c, e) =
        (False, (append_frame frame c)\<lparr>c_flush_queued := True, c_pending := c_pending c + 1,
           c_out := ReqFlush # c_out c\<rparr>, e')"
      "\<not> c_flush_queued c"
proof (cases "c_send_limit c > 0 \<and> length (c_send_pending c) + length (c_send_staging c) + (kHeaderSize + unat sz) > c_send_limit c")
  case True
  then show ?thesis by (intro overflow) (auto simp: conn_send_locked_def Let_def)
next
  case False
  then have le: "c_send_limit c = 0 \<or>
      length (c_send_pending c) + length (c_send_staging c) + length frame \<le> c_send_limit c"
    by (auto simp: frame_def)
  consider "c_direct_send c" | "\<not> c_direct_send c" "c_sending c \<or> c_flush_queued c"
    | "\<not> c_direct_send c" "\<not> c_sending c" "\<not> c_flush_queued c" "h_os H (e_calls e)"
    | "\<not> c_direct_send c" "\<not> c_sending c" "\<not> c_flush_queued c" "\<not> h_os H (e_calls e)" by blast
  then show ?thesis
  proof cases
    case 1
    with False le show ?thesis
      by (intro post[of e]) (simp_all add: conn_send_locked_def append_frame_def Let_def frame_def)
  next
    case 2
    with False le show ?thesis
      by (intro fits) (auto simp add: conn_send_locked_def append_frame_def Let_def frame_def)
  next
    case 3
    with False le show ?thesis
      by (intro notify) (auto simp add: conn_send_locked_def append_frame_def Let_def frame_def syscall_def)
  next
    case 4
    have eq: "c\<lparr>c_send_pending := p, c_accepted := a, c_pending_messages := m, c_flush_queued := False\<rparr> =
        c\<lparr>c_send_pending := p, c_accepted := a, c_pending_messages := m\<rparr>" for p a m
      using 4(3) by (cases c) simp
    with 4 False le show ?thesis
      by (intro post[of "e\<lparr>e_flush_posts := e_flush_posts e + 1, e_calls := Suc (e_calls e)\<rparr>"])
        (auto simp add: conn_send_locked_def append_frame_def Let_def frame_def syscall_def eq)
  qed
qed

lemma conn_send_locked_inv:
  assumes inv: "conn_inv k c"
  shows "conn_inv k (fst (snd (conn_send_locked H msg_id body sz (c, e))))"
proof (cases rule: conn_send_locked_cases[where H = H and msg_id = msg_id and body = body and sz = sz and c = c and e = e])
  case overflow
  with inv show ?thesis by simp
next
  case fits
  from fits(1) inv append_frame_core have "conn_core k (append_frame (write_header msg_id sz @ take (unat sz) body) c)"
    by (simp add: conn_inv_def)
  with fits show ?thesis by (auto simp: conn_inv_def wakeup_ok_def append_frame_def)
next
  case (post e')
  from post(1) inv append_frame_core have "conn_core k (append_frame (write_header msg_id sz @ take (unat sz) body) c)"
    by (simp add: conn_inv_def)
  with post show ?thesis by (simp add: conn_post_send_inv)
next
  case (notify e')
  from notify(1) inv append_frame_core have "conn_core k (append_frame (write_header msg_id sz @ take (unat sz) body) c)"
    by (simp add: conn_inv_def)
  with notify show ?thesis
    by (cases "c_sending c") (auto simp: conn_inv_def wakeup_ok_def conn_core_defs append_frame_def)
qed

lemma conn_send_locked_rest:
  "same_rest c (fst (snd (conn_send_locked H msg_id body sz (c, e))))"
  "c_recv_paused (fst (snd (conn_send_locked H msg_id body sz (c, e)))) = c_recv_paused c"
proof -
  let ?f = "write_header msg_id sz @ take (unat sz) body"
  let ?r = "fst (snd (conn_send_locked H msg_id body sz (c, e)))"
  have "same_rest c ?r \<and> c_recv_paused ?r = c_recv_paused c"
  proof (cases rule: conn_send_locked_cases[where H = H and msg_id = msg_id and body = body and sz = sz and c = c and e = e])
    case (post e')
    then show ?thesis
      using conn_post_send_rest[where c = "append_frame ?f c" and H = H and e = e'] append_frame_rest[where c = c and frame = ?f]
      by (auto intro: same_rest_trans)
  next
    case (notify e')
    then show ?thesis using append_frame_rest[where c = c and frame = ?f] by (simp add: same_rest_def recvs_def)
  qed (simp_all add: append_frame_rest)
  then show "same_rest c ?r" "c_recv_paused ?r = c_recv_paused c" by auto
qed

lemma conn_send_cases:
  obtains (noop) "conn_send H msg_id body sz (c, e) = (c, e)" "c_closed c"
  | (large) "conn_send H msg_id body sz (c, e) = conn_close H (c, e)" "\<not> c_closed c" "sz > kMaxOutboundBody"
  | (over) e' where "conn_send H msg_id body sz (c, e) = conn_close H (c, e')" "\<not> c_closed c"
      "fst (conn_send_locked H msg_id body sz (c, e))"
  | (ok) "conn_send H msg_id body sz (c, e) = snd (conn_send_locked H msg_id body sz (c, e))"
      "\<not> c_closed c" "sz \<le> kMaxOutboundBody" "\<not> fst (conn_send_locked H msg_id body sz (c, e))"
proof -
  have "fst (conn_send_locked H msg_id body sz (c, e)) \<Longrightarrow> snd (conn_send_locked H msg_id body sz (c, e)) = (c, e)"
    by (cases rule: conn_send_locked_cases[where H = H and msg_id = msg_id and body = body and sz = sz and c = c and e = e]) auto
  then obtain r where r: "conn_send_locked H msg_id body sz (c, e) = (True, c, e) \<or>
      conn_send_locked H msg_id body sz (c, e) = (False, r)"
    by (metis prod.collapse)
  consider "c_closed c" | "\<not> c_closed c" "sz > kMaxOutboundBody"
    | "\<not> c_closed c" "sz \<le> kMaxOutboundBody" by fastforce
  then show ?thesis
  proof cases
    case 1
    then show ?thesis by (intro noop) (simp_all add: conn_send_def)
  next
    case 2
    then show ?thesis by (intro large) (simp_all add: conn_send_def)
  next
    case 3
    from r show ?thesis
    proof
      assume "conn_send_locked H msg_id body sz (c, e) = (True, c, e)"
      with 3 show ?thesis
        by (intro over[of "e\<lparr>e_send_overflow := e_send_overflow e + 1\<rparr>"]) (simp_all add: conn_send_def leD)
    next
      assume "conn_send_locked H msg_id body sz (c, e) = (False, r)"
      with 3 show ?thesis by (intro ok) (simp_all add: conn_send_def case_prod_beta leD)
    qed
  qed
qed

lemma conn_send_inv:
  assumes "conn_inv k c"
  shows "conn_inv k (fst (conn_send H msg_id body sz (c, e)))"
  using assms conn_close_core[of k c] conn_send_locked_inv[OF assms]
  by (cases rule: conn_send_cases[of H msg_id body sz c e]) (simp_all add: conn_inv_def)

lemma conn_send_rest:
  "same_rest c (fst (conn_send H msg_id body sz (c, e)))"
  "c_recv_paused (fst (conn_send H msg_id body sz (c, e))) = c_recv_paused c"
  by (cases rule: conn_send_cases[of H msg_id body sz c e];
      simp add: conn_close_rest conn_send_locked_rest)+

subsection \<open>Completion of a send or of a flush notification\<close>

text \<open>The completion port hands a request back: it is no longer in the kernel.\<close>

definition take_out :: "io_req \<Rightarrow> conn \<Rightarrow> conn" where
  "take_out r c = c\<lparr>c_out := remove1 r (c_out c)\<rparr>"

lemma filter_remove1_other: "\<not> P r \<Longrightarrow> filter P (remove1 r xs) = filter P xs"
  by (induction xs) auto

lemma filter_remove1_same: "P r \<Longrightarrow> filter P (remove1 r xs) = remove1 r (filter P xs)"
  by (induction xs) auto

lemma length_take_out: "r \<in> set (c_out c) \<Longrightarrow> length (c_out c) = Suc (length (c_out (take_out r c)))"
  by (simp add: take_out_def length_remove1) (metis Suc_pred length_pos_if_in_set)

lemmas take_out_simps = take_out_def filter_remove1_other filter_remove1_same

lemma conn_inv_done: "conn_inv (Suc k) c \<Longrightarrow> conn_inv k (c\<lparr>c_pending := c_pending c - 1\<rparr>)"
  by (auto simp: conn_inv_def wakeup_ok_def conn_core_defs)

lemma conn_on_flush_inv:
  assumes inv: "conn_inv k c" and out: "ReqFlush \<in> set (c_out c)"
  shows "conn_inv k (fst (conn_on_flush H (take_out ReqFlush c, e)))"
proof -
  let ?c = "(take_out ReqFlush c)\<lparr>c_flush_queued := False\<rparr>"
  have q: "c_flush_queued c"
    using inv out by (auto simp: conn_inv_def conn_core_def requests_ok_def filter_empty_conv split: if_splits)
  have "conn_core (Suc k) ?c"
    using inv out q length_take_out[OF out]
    by (auto simp: conn_inv_def conn_core_defs take_out_simps)
  from conn_post_send_inv[OF this, of H e] show ?thesis
    by (simp add: conn_on_flush_def case_prod_beta conn_inv_done)
qed

lemma requeue_unsent_eq: "n \<le> length st \<Longrightarrow> take n st @ requeue_unsent p st n = st @ p"
  by (simp add: requeue_unsent_def)

text \<open>What the kernel reports as sent has left the machine.\<close>

definition report_sent :: "nat \<Rightarrow> conn \<Rightarrow> conn" where
  "report_sent n c = take_out (ReqSend (c_send_staging c)) (c\<lparr>c_wire := c_wire c @ take n (c_send_staging c)\<rparr>)"

definition send_done_conn :: "nat \<Rightarrow> bool \<Rightarrow> conn \<Rightarrow> conn" where
  "send_done_conn n ok c = c\<lparr>c_send_pending :=
       (if ok \<and> n \<noteq> 0 then requeue_unsent (c_send_pending c) (c_send_staging c) n else c_send_pending c),
     c_sending := False, c_send_staging := []\<rparr>"

lemma conn_on_send_done_cases:
  assumes "n \<le> length (c_send_staging c)" "c_send_staging c \<noteq> []"
  obtains (next_send) e' where "ok" "n \<noteq> 0" "\<not> c_closed c" "conn_on_send_done H (int n) ok (c, e) =
      (let s = conn_post_send H (conn_touch (e_now e) (send_done_conn n ok c), e')
       in (fst s\<lparr>c_pending := c_pending (fst s) - 1\<rparr>, snd s))"
  | (stop) e' where "ok" "n \<noteq> 0" "c_closed c" "conn_on_send_done H (int n) ok (c, e) =
      ((send_done_conn n ok c)\<lparr>c_pending := c_pending c - 1\<rparr>, e')"
  | (failed) "\<not> ok \<or> n = 0" "conn_on_send_done H (int n) ok (c, e) =
      (let s = conn_close H (send_done_conn n ok c, e)
       in (fst s\<lparr>c_pending := c_pending (fst s) - 1\<rparr>, snd s))"
proof -
  have nonneg: "int n < int (length (c_send_staging c)) \<longleftrightarrow> n < length (c_send_staging c)" by simp
  consider "\<not> ok \<or> n = 0" | "ok" "n \<noteq> 0" "c_closed c" | "ok" "n \<noteq> 0" "\<not> c_closed c" by blast
  then show ?thesis
  proof cases
    case 1
    with assms show ?thesis
      by (intro failed) (auto simp: conn_on_send_done_def Let_def send_done_conn_def)
  next
    case 2
    show ?thesis
      by (rule stop[OF 2]) (use 2 assms in \<open>auto simp: conn_on_send_done_def Let_def send_done_conn_def requeue_unsent_def\<close>)
  next
    case 3
    show ?thesis
      by (rule next_send[OF 3, of "if n < length (c_send_staging c) then e\<lparr>e_partial_sends := e_partial_sends e + 1\<rparr> else e"]) (use 3 assms in \<open>auto simp: conn_on_send_done_def Let_def send_done_conn_def requeue_unsent_def conn_touch_def\<close>)
  qed
qed

lemma conn_on_send_done_inv:
  assumes inv: "conn_inv k c" and snd: "c_sending c" and n: "n \<le> length (c_send_staging c)"
    and ne: "c_send_staging c \<noteq> []"
  shows "conn_inv k (fst (conn_on_send_done H (int n) ok (report_sent n c, e)))"
proof -
  let ?r = "report_sent n c"
  have out: "ReqSend (c_send_staging c) \<in> set (c_out c)"
  proof -
    have "ReqSend (c_send_staging c) \<in> set (filter is_send (c_out c))"
      using inv snd by (simp add: conn_inv_def conn_core_def requests_ok_def)
    then show ?thesis by simp
  qed
  have [simp]: "c_send_staging ?r = c_send_staging c" "c_closed ?r = c_closed c"
    by (simp_all add: report_sent_def take_out_def)
  have pre: "prefix (c_wire c @ take n (c_send_staging c)) (c_accepted c)"
    using inv snd take_is_prefix[of n "c_send_staging c"]
    by (auto simp: conn_inv_def conn_core_defs intro: prefix_order.trans[rotated])
  have st: "take n (c_send_staging c) @ requeue_unsent (c_send_pending c) (c_send_staging c) n =
      c_send_staging c @ c_send_pending c" using n by (rule requeue_unsent_eq)
  then have len: "length (requeue_unsent (c_send_pending c) (c_send_staging c) n) \<le>
      length (c_send_staging c) + length (c_send_pending c)"
    by (metis le_add2 length_append)
  note defs = conn_inv_def conn_core_defs report_sent_def send_done_conn_def take_out_simps
  note lt = length_take_out[OF out, unfolded take_out_def, simplified]
  have lim: "c_send_limit c > 0 \<Longrightarrow> length (requeue_unsent (c_send_pending c) (c_send_staging c) n) \<le> c_send_limit c"
    "c_send_limit c > 0 \<Longrightarrow> length (c_send_pending c) \<le> c_send_limit c"
    using inv len by (auto simp: conn_inv_def conn_core_defs)
  have ne': "n \<le> length (c_send_staging ?r)" "c_send_staging ?r \<noteq> []" using n ne by simp_all
  show ?thesis
  proof (cases rule: conn_on_send_done_cases[OF ne', where ok = ok and H = H and e = e, case_names next_send stop failed])
    case (next_send e')
    have "conn_core (Suc k) (conn_touch (e_now e) (send_done_conn n ok ?r))"
      using inv snd pre st lt lim next_send(1-3) by (auto simp: defs conn_touch_def)
    from conn_post_send_inv[OF this, of H e'] next_send(4) show ?thesis by (simp add: Let_def conn_inv_done)
  next
    case (stop e')
    then show ?thesis using inv snd pre st lt lim by (auto simp: defs wakeup_ok_def)
  next
    case failed
    have "conn_inv (Suc k) (fst (conn_close H (send_done_conn n ok ?r, e)))"
      using inv snd pre st lt lim by (auto simp: defs conn_close_eq wakeup_ok_def)
    with failed(2) show ?thesis by (simp add: Let_def conn_inv_done)
  qed
qed

subsection \<open>Receiving\<close>

lemma conn_post_receive_cases:
  obtains (noop) "conn_post_receive H (c, e) = (False, c, e)" "c_closed c"
  | (full) b where "conn_post_receive H (c, e) = (False, conn_close H (c\<lparr>c_recv_buf := b\<rparr>, e))"
      "\<not> c_closed c" "rb_reserve_free 0 (c_recv_buf c) = (False, b)"
  | (posted) b e' where "conn_post_receive H (c, e) =
      (True, c\<lparr>c_recv_buf := b, c_pending := c_pending c + 1, c_out := ReqRecv (writable_size b) # c_out c\<rparr>, e')"
      "\<not> c_closed c" "rb_reserve_free 0 (c_recv_buf c) = (True, b)"
  | (refused) b e' where "conn_post_receive H (c, e) = (False, conn_close H (c\<lparr>c_recv_buf := b\<rparr>, e'))"
      "\<not> c_closed c" "rb_reserve_free 0 (c_recv_buf c) = (True, b)"
proof -
  obtain ok b where rb: "rb_reserve_free 0 (c_recv_buf c) = (ok, b)" by (cases "rb_reserve_free 0 (c_recv_buf c)")
  have same: "c\<lparr>c_recv_buf := b, c_pending := c_pending c\<rparr> = c\<lparr>c_recv_buf := b\<rparr>" by (cases c) simp
  consider "c_closed c" | "\<not> c_closed c" "\<not> ok" | "\<not> c_closed c" "ok" "h_os H (e_calls e)"
    | "\<not> c_closed c" "ok" "\<not> h_os H (e_calls e)" by blast
  then show ?thesis
  proof cases
    case 1 then show ?thesis by (intro noop) (simp_all add: conn_post_receive_def)
  next
    case 2 with rb show ?thesis by (intro full[of b]) (simp_all add: conn_post_receive_def)
  next
    case 3 with rb show ?thesis
      by (intro posted[of b]) (simp_all add: conn_post_receive_def syscall_def Let_def)
  next
    case 4 with rb show ?thesis
      by (intro refused[of b]) (simp_all add: conn_post_receive_def syscall_def Let_def same)
  qed
qed

lemma recv_buf_inv [simp]: "conn_inv k (c\<lparr>c_recv_buf := b\<rparr>) = conn_inv k c"
  by (simp add: conn_inv_def wakeup_ok_def conn_core_defs cong: if_cong)

lemma conn_close_inv: "conn_inv k c \<Longrightarrow> conn_inv k (fst (conn_close H (c, e)))"
  by (simp add: conn_inv_def conn_close_core)

lemma conn_post_receive_inv:
  assumes "conn_inv k c"
  shows "conn_inv k (fst (snd (conn_post_receive H (c, e))))"
proof (cases rule: conn_post_receive_cases[of H c e])
  case (posted b e')
  with assms show ?thesis by (auto simp: conn_inv_def wakeup_ok_def conn_core_defs)
qed (use assms in \<open>simp_all add: conn_close_inv\<close>)

lemma conn_repost_inv:
  assumes "conn_inv (Suc k) c"
  shows "conn_inv k (fst (conn_repost H (c, e)))"
  using assms conn_post_receive_inv[OF assms, of H e]
  by (auto simp: conn_repost_def case_prod_beta intro: conn_inv_done)

lemma conn_resume_receive_inv:
  assumes "conn_inv k c"
  shows "conn_inv k (fst (conn_resume_receive H (c, e)))"
proof (cases "c_recv_paused c \<and> \<not> c_resume_queued c")
  case True
  have same: "c\<lparr>c_resume_queued := False\<rparr> = c" using True by (cases c) simp
  from assms have "conn_inv k (c\<lparr>c_resume_queued := True, c_pending := c_pending c + 1, c_out := ReqResume # c_out c\<rparr>)"
    using True by (auto simp: conn_inv_def wakeup_ok_def conn_core_defs)
  moreover from assms have "conn_inv k (c\<lparr>c_resume_queued := False, c_pending := c_pending c\<rparr>)"
    by (simp add: same)
  ultimately show ?thesis using True assms
    by (cases "h_os H (e_calls e)") (simp_all add: conn_resume_receive_def syscall_def Let_def same)
next
  case False
  with assms show ?thesis by (auto simp: conn_resume_receive_def)
qed

end
