(* ===== verification/Connection_Run.thy ===== *)
theory Connection_Run
  imports Connection
begin

text \<open>
  A connection among the threads that use it. The completion handlers of \<^verbatim>\<open>connection.cpp\<close> run on the
  worker threads, \<^verbatim>\<open>send\<close>, \<^verbatim>\<open>close\<close> and \<^verbatim>\<open>resume_receive\<close> on any thread. A step is one critical
  section: the handlers of a receive and of a resume notification are two steps, cut before the
  check that posts the next receive.
\<close>

section \<open>The contract of the message handler\<close>

text \<open>
  The handler holds a \<^verbatim>\<open>Connection&\<close>: it can use the public operations of the connection, and it can
  do what it likes with the rest of the process.
\<close>

inductive handler_ops :: "'a conn_hooks \<Rightarrow> conn \<Rightarrow> 'a io_env \<Rightarrow> conn \<Rightarrow> 'a io_env \<Rightarrow> bool"
  for H :: "'a conn_hooks" and c :: conn and e :: "'a io_env" where
  h_done: "handler_ops H c e c e"
| h_env: "handler_ops H c e c1 e1 \<Longrightarrow> handler_ops H c e c1 e2"
| h_allow: "handler_ops H c e c1 e1 \<Longrightarrow> handler_ops H c e (snd (conn_allow_message now c1)) e1"
| h_pause: "handler_ops H c e c1 e1 \<Longrightarrow> handler_ops H c e (conn_pause_receive c1) e1"
| h_send: "handler_ops H c e c1 e1 \<Longrightarrow> conn_send H m body sz (c1, e1) = (c2, e2) \<Longrightarrow> handler_ops H c e c2 e2"
| h_close: "handler_ops H c e c1 e1 \<Longrightarrow> conn_close H (c1, e1) = (c2, e2) \<Longrightarrow> handler_ops H c e c2 e2"

lemma conn_allow_message_inv [simp]: "conn_inv k (snd (conn_allow_message now c)) = conn_inv k c"
  by (auto simp: conn_allow_message_def case_prod_beta conn_inv_def wakeup_ok_def conn_core_defs)

lemma conn_allow_message_rest:
  "same_rest c (snd (conn_allow_message now c))" "c_recv_paused (snd (conn_allow_message now c)) = c_recv_paused c"
  by (auto simp: conn_allow_message_def case_prod_beta same_rest_def recvs_def)

lemma conn_pause_receive_inv [simp]: "conn_inv k (conn_pause_receive c) = conn_inv k c"
  by (auto simp: conn_pause_receive_def conn_inv_def wakeup_ok_def conn_core_defs)

lemma conn_pause_receive_rest: "same_rest c (conn_pause_receive c)"
  by (simp add: conn_pause_receive_def same_rest_def recvs_def)

lemma handler_ops_inv: "handler_ops H c e c' e' \<Longrightarrow> conn_inv k c \<Longrightarrow> conn_inv k c'"
proof (induction rule: handler_ops.induct)
  case (h_send c1 e1 m body sz c2 e2)
  then show ?case using conn_send_inv[of k c1 H m body sz e1] by simp
next
  case (h_close c1 e1 c2 e2)
  then show ?case using conn_close_inv[of k c1 H e1] by simp
qed simp_all

lemma handler_ops_rest:
  "handler_ops H c e c' e' \<Longrightarrow> same_rest c c' \<and> (c_recv_paused c \<longrightarrow> c_recv_paused c')"
proof (induction rule: handler_ops.induct)
  case (h_send c1 e1 m body sz c2 e2)
  then show ?case
    using conn_send_rest[where c = c1 and H = H and msg_id = m and body = body and sz = sz and e = e1]
    by (auto intro: same_rest_trans)
next
  case (h_close c1 e1 c2 e2)
  then show ?case using conn_close_rest[where c = c1 and H = H and e = e1] by (auto intro: same_rest_trans)
next
  case (h_allow c1 e1 now)
  then show ?case using conn_allow_message_rest[where c = c1 and now = now] by (auto intro: same_rest_trans)
next
  case (h_pause c1 e1)
  then show ?case using conn_pause_receive_rest[of c1]
    by (auto simp: conn_pause_receive_def intro: same_rest_trans)
qed auto

lemma same_rest_recv_buf:
  "same_rest c c' \<Longrightarrow> same_rest (c\<lparr>c_recv_buf := b\<rparr>) (c'\<lparr>c_recv_buf := b\<rparr>)"
  by (simp add: same_rest_def recvs_def)

abbreviation next_frame :: "conn \<Rightarrow> frame_result" where
  "next_frame c \<equiv> peek_frame (rb_readable (c_recv_buf c)) (readable_size (c_recv_buf c))"

lemma drain_induct [case_names step]:
  assumes "\<And>c e. (\<And>v n c1 e1. next_frame c = FrameOk v n \<Longrightarrow> h_on_message H v c e = (True, c1, e1) \<Longrightarrow>
      \<not> c_closed c1 \<Longrightarrow> P (c1\<lparr>c_recv_buf := rb_consume n (c_recv_buf c)\<rparr>) e1) \<Longrightarrow> P c e"
  shows "P c e"
proof (induction "nat (readable_size (c_recv_buf c))" arbitrary: c e rule: less_induct)
  case less
  show ?case
  proof (rule assms)
    fix v n c1 e1 assume "next_frame c = FrameOk v n"
    then show "P (c1\<lparr>c_recv_buf := rb_consume n (c_recv_buf c)\<rparr>) e1"
      using peek_frame_consumed by (intro less) (force simp: readable_size_def rb_consume_def)
  qed
qed

lemma drain_cases:
  obtains (partial) "next_frame c = Incomplete" "conn_drain_frames H c e = (c, e)"
  | (malformed) "next_frame c = TooLarge" "conn_drain_frames H c e = conn_close H (c, e)"
  | (refused) v n c1 e1 where "next_frame c = FrameOk v n" "h_on_message H v c e = (False, c1, e1)"
      "conn_drain_frames H c e = (c1\<lparr>c_recv_buf := c_recv_buf c\<rparr>, e1)"
  | (stopped) v n c1 e1 where "next_frame c = FrameOk v n" "h_on_message H v c e = (True, c1, e1)"
      "c_closed c1" "conn_drain_frames H c e = (c1\<lparr>c_recv_buf := rb_consume n (c_recv_buf c)\<rparr>, e1)"
  | (taken) v n c1 e1 where "next_frame c = FrameOk v n" "h_on_message H v c e = (True, c1, e1)"
      "\<not> c_closed c1"
      "conn_drain_frames H c e = conn_drain_frames H (c1\<lparr>c_recv_buf := rb_consume n (c_recv_buf c)\<rparr>) e1"
proof (cases "next_frame c")
  case (FrameOk v n)
  obtain ok c1 e1 where h: "h_on_message H v c e = (ok, c1, e1)" by (cases "h_on_message H v c e")
  consider "\<not> ok" | "ok" "c_closed c1" | "ok" "\<not> c_closed c1" by blast
  then show ?thesis
  proof cases
    case 1
    with FrameOk h show ?thesis by (intro refused[of v n c1 e1]) (simp_all add: conn_drain_frames.simps[of H c e])
  next
    case 2
    with FrameOk h show ?thesis by (intro stopped[of v n c1 e1]) (simp_all add: conn_drain_frames.simps[of H c e])
  next
    case 3
    with FrameOk h show ?thesis by (intro taken[of v n c1 e1]) (simp_all add: conn_drain_frames.simps[of H c e])
  qed
next
  case Incomplete
  then show ?thesis by (intro partial) (simp_all add: conn_drain_frames.simps[of H c e])
next
  case TooLarge
  then show ?thesis by (intro malformed) (simp_all add: conn_drain_frames.simps[of H c e])
qed

lemma next_frame_bounds:
  assumes "rb_wf (c_recv_buf c)" "next_frame c = FrameOk v n"
  shows "0 \<le> n" "n \<le> readable_size (c_recv_buf c)"
proof -
  note len = length_rb_readable[OF assms(1)]
  have "readable_size (c_recv_buf c) \<le> kMaxCapacity"
    using assms(1) by (auto simp: rb_wf_def readable_size_def rb_consts split: option.splits)
  then have small: "length (rb_readable (c_recv_buf c)) < 2 ^ 32" using len by (simp add: kMaxCapacity_def)
  from peek_frame_ok_bounds(1,2)[OF small] assms(2)[unfolded len[symmetric]]
  show "0 \<le> n" "n \<le> readable_size (c_recv_buf c)" unfolding len[symmetric] by auto
qed

text \<open>Draining touches the receive buffer and nothing else of the receive side.\<close>

definition drained :: "conn \<Rightarrow> conn \<Rightarrow> bool" where
  "drained c c' \<longleftrightarrow> same_rest (c\<lparr>c_recv_buf := c_recv_buf c'\<rparr>) c' \<and> (c_recv_paused c \<longrightarrow> c_recv_paused c')"

lemma drained_trans: "drained a b \<Longrightarrow> drained b c \<Longrightarrow> drained a c"
  by (auto simp: drained_def same_rest_def recvs_def)

locale message_handler =
  fixes H :: "'a conn_hooks"
  assumes uses: "h_on_message H v c e = (b, c', e') \<Longrightarrow> handler_ops H c e c' e'"
begin

lemma handler_inv: "h_on_message H v c e = (b, c', e') \<Longrightarrow> conn_inv k c \<Longrightarrow> conn_inv k c'"
  by (blast intro: handler_ops_inv uses)

lemma drain_inv: "conn_inv k c \<Longrightarrow> conn_inv k (fst (conn_drain_frames H c e))"
proof (induction c e rule: drain_induct[where H = H])
  case (step c e)
  show ?case
    by (cases rule: drain_cases[of c H e])
      (use step in \<open>auto simp: conn_close_inv dest: handler_inv[OF _ step(2)]\<close>)
qed

lemma drained_handler: "h_on_message H v c e = (ok, c1, e1) \<Longrightarrow> drained c (c1\<lparr>c_recv_buf := b\<rparr>)"
  using handler_ops_rest[OF uses] by (fastforce simp: drained_def same_rest_def recvs_def)

lemma drain_drained: "drained c (fst (conn_drain_frames H c e))"
proof (induction c e rule: drain_induct[where H = H])
  case (step c e)
  show ?case
  proof (cases rule: drain_cases[of c H e])
    case partial
    then show ?thesis by (simp add: drained_def)
  next
    case malformed
    then show ?thesis using conn_close_rest[where c = c and H = H and e = e]
      by (auto simp: drained_def same_rest_def recvs_def)
  next
    case (taken v n c1 e1)
    then show ?thesis using step[OF taken(1-3)] drained_handler[OF taken(2)] by (auto intro: drained_trans)
  qed (simp_all add: drained_handler)
qed

lemma drain_wf: "rb_wf (c_recv_buf c) \<Longrightarrow> rb_wf (c_recv_buf (fst (conn_drain_frames H c e)))"
proof (induction c e rule: drain_induct[where H = H])
  case (step c e)
  show ?case
    by (cases rule: drain_cases[of c H e])
      (use step next_frame_bounds[OF step(2)] in \<open>auto simp: conn_close_eq rb_wf_consume\<close>)
qed

end

section \<open>Steps\<close>

text \<open>\<open>k\<close> counts the handlers that stand between their two parts.\<close>

type_synonym 'a crun = "nat \<times> conn \<times> 'a io_env"

text \<open>What the worker threads do: take a completion from the port, or finish a handler.\<close>

inductive kstep :: "'a conn_hooks \<Rightarrow> 'a crun \<Rightarrow> 'a crun \<Rightarrow> bool" for H :: "'a conn_hooks" where
  s_receive: "ReqRecv w \<in> set (c_out c) \<Longrightarrow> data \<noteq> [] \<Longrightarrow> int (length data) \<le> w \<Longrightarrow>
     kstep H (k, c, e) (Suc k, receive_part H data (take_out (ReqRecv w) c, e))"
| s_receive_end: "ReqRecv w \<in> set (c_out c) \<Longrightarrow> \<not> ok \<or> data = [] \<Longrightarrow>
     kstep H (k, c, e) (k, conn_on_receive_done H data ok (take_out (ReqRecv w) c, e))"
| s_resume: "ReqResume \<in> set (c_out c) \<Longrightarrow>
     kstep H (k, c, e) (Suc k, resume_part H (take_out ReqResume c, e))"
| s_repost: "kstep H (Suc k, c, e) (k, conn_repost H (c, e))"
| s_sent: "ReqSend (c_send_staging c) \<in> set (c_out c) \<Longrightarrow> n \<le> length (c_send_staging c) \<Longrightarrow>
     kstep H (k, c, e) (k, conn_on_send_done H (int n) ok (report_sent n c, e))"
| s_flush: "ReqFlush \<in> set (c_out c) \<Longrightarrow>
     kstep H (k, c, e) (k, conn_on_flush H (take_out ReqFlush c, e))"

text \<open>And what any thread may do at any moment.\<close>

inductive cstep :: "'a conn_hooks \<Rightarrow> 'a crun \<Rightarrow> 'a crun \<Rightarrow> bool" for H :: "'a conn_hooks" where
  s_kernel: "kstep H s s' \<Longrightarrow> cstep H s s'"
| s_call_send: "cstep H (k, c, e) (k, conn_send H m body sz (c, e))"
| s_call_close: "cstep H (k, c, e) (k, conn_close H (c, e))"
| s_call_resume: "cstep H (k, c, e) (k, conn_resume_receive H (c, e))"
| s_others: "cstep H (k, c, e) (k, c, e')"

inductive creach :: "'a conn_hooks \<Rightarrow> 'a crun \<Rightarrow> 'a crun \<Rightarrow> bool" for H :: "'a conn_hooks" and s0 :: "'a crun" where
  start: "creach H s0 s0"
| step: "creach H s0 s \<Longrightarrow> cstep H s s' \<Longrightarrow> creach H s0 s'"

lemma take_recv_inv:
  assumes "conn_inv k c" "ReqRecv w \<in> set (c_out c)"
  shows "conn_inv (Suc k) (take_out (ReqRecv w) c)"
  using assms length_take_out[OF assms(2)]
  by (auto simp: conn_inv_def wakeup_ok_def conn_core_defs take_out_simps)

lemma take_resume_inv:
  assumes inv: "conn_inv k c" and out: "ReqResume \<in> set (c_out c)"
  shows "conn_inv (Suc k) ((take_out ReqResume c)\<lparr>c_recv_paused := p, c_resume_queued := False\<rparr>)"
proof -
  have "c_resume_queued c"
    using inv out by (auto simp: conn_inv_def conn_core_def requests_ok_def filter_empty_conv split: if_splits)
  with inv length_take_out[OF out] show ?thesis
    by (auto simp: conn_inv_def wakeup_ok_def conn_core_defs take_out_simps)
qed

lemma sending_iff:
  assumes "conn_inv k c"
  shows "ReqSend b \<in> set (c_out c) \<longleftrightarrow> c_sending c \<and> b = c_send_staging c"
proof -
  have f: "filter is_send (c_out c) = (if c_sending c then [ReqSend (c_send_staging c)] else [])"
    using assms by (simp add: conn_inv_def conn_core_def requests_ok_def)
  have "ReqSend b \<in> set (c_out c) \<longleftrightarrow> ReqSend b \<in> set (filter is_send (c_out c))" by simp
  also have "\<dots> \<longleftrightarrow> c_sending c \<and> b = c_send_staging c" unfolding f by auto
  finally show ?thesis .
qed

lemma flush_queued_iff:
  assumes "conn_inv k c"
  shows "ReqFlush \<in> set (c_out c) \<longleftrightarrow> c_flush_queued c"
proof -
  have f: "filter (\<lambda>r. r = ReqFlush) (c_out c) = (if c_flush_queued c then [ReqFlush] else [])"
    using assms by (simp add: conn_inv_def conn_core_def requests_ok_def)
  have "ReqFlush \<in> set (c_out c) \<longleftrightarrow> ReqFlush \<in> set (filter (\<lambda>r. r = ReqFlush) (c_out c))" by simp
  also have "\<dots> \<longleftrightarrow> c_flush_queued c" unfolding f by auto
  finally show ?thesis .
qed

lemma conn_touch_inv [simp]: "conn_inv k (conn_touch now c) = conn_inv k c"
  by (simp add: conn_touch_def conn_inv_def wakeup_ok_def conn_core_defs cong: if_cong)

context message_handler
begin

lemma receive_part_inv: "conn_inv k c \<Longrightarrow> conn_inv k (fst (receive_part H data (c, e)))"
  by (simp add: receive_part_def Let_def drain_inv)

lemma resume_part_inv:
  "conn_inv k c \<Longrightarrow> ReqResume \<in> set (c_out c) \<Longrightarrow>
     conn_inv (Suc k) (fst (resume_part H (take_out ReqResume c, e)))"
  by (simp add: resume_part_def drain_inv take_resume_inv)

lemma receive_end_inv:
  assumes "conn_inv k c" "ReqRecv w \<in> set (c_out c)" "\<not> ok \<or> data = []"
  shows "conn_inv k (fst (conn_on_receive_done H data ok (take_out (ReqRecv w) c, e)))"
proof -
  have "conn_inv (Suc k) (fst (conn_close H (take_out (ReqRecv w) c, e)))"
    using assms by (intro conn_close_inv take_recv_inv)
  then show ?thesis using assms(3) by (simp add: conn_on_receive_done_def case_prod_beta conn_inv_done)
qed

lemma kernel_inv: "kstep H s s' \<Longrightarrow> conn_inv (fst s) (fst (snd s)) \<Longrightarrow> conn_inv (fst s') (fst (snd s'))"
proof (induction rule: kstep.induct)
  case (s_sent c n k e ok)
  then have "c_sending c" by (simp add: sending_iff)
  moreover then have "c_send_staging c \<noteq> []" using s_sent by (simp add: conn_inv_def conn_core_defs)
  ultimately show ?case using s_sent by (simp add: conn_on_send_done_inv)
qed (simp_all add: receive_part_inv resume_part_inv receive_end_inv conn_repost_inv conn_on_flush_inv
    take_recv_inv)

lemma step_inv: "cstep H s s' \<Longrightarrow> conn_inv (fst s) (fst (snd s)) \<Longrightarrow> conn_inv (fst s') (fst (snd s'))"
  by (induction rule: cstep.induct)
    (simp_all add: kernel_inv conn_send_inv conn_close_inv conn_resume_receive_inv)

lemma reach_inv: "creach H (0, c0, e0) (k, c, e) \<Longrightarrow> conn_inv 0 c0 \<Longrightarrow> conn_inv k c"
proof (induction "(k, c, e)" arbitrary: k c e rule: creach.induct)
  case (step s)
  then show ?case using step_inv[OF step(3)] by (cases s) auto
qed simp

text \<open>A connection that may be freed is known to nobody: no request in the kernel, no handler running.\<close>

lemma reclaim_safe:
  "creach H (0, c0, e0) (k, c, e) \<Longrightarrow> conn_inv 0 c0 \<Longrightarrow> conn_reclaimable c \<Longrightarrow> c_out c = [] \<and> k = 0"
  using reach_inv[of c0 e0 k c e] of_nat_add[of "length (c_out c)" k, where 'a = int, symmetric]
  by (auto simp: conn_reclaimable_def conn_inv_def conn_core_def pending_ok_def simp del: of_nat_add)

end

lemma limit_post_receive: "c_send_limit (fst (snd (conn_post_receive H (c, e)))) = c_send_limit c"
  by (cases rule: conn_post_receive_cases[of H c e]) (auto simp: conn_close_eq)

lemma limit_repost: "c_send_limit (fst (conn_repost H (c, e))) = c_send_limit c"
  using limit_post_receive[of H c e] by (auto simp: conn_repost_def case_prod_beta)

lemma limit_sent: "c_send_limit (fst (conn_on_send_done H n ok (c, e))) = c_send_limit c"
proof -
  have "c_send_limit (fst (conn_close H s)) = c_send_limit (fst s)" for s
    by (cases s) (simp add: conn_close_eq)
  moreover have "c_send_limit (fst (conn_post_send H s)) = c_send_limit (fst s)" for s
    using conn_post_send_rest(1)[of "fst s" H "snd s"] by (simp add: same_rest_def)
  ultimately show ?thesis by (auto simp: conn_on_send_done_def Let_def conn_touch_def)
qed

context message_handler
begin

lemma limit_drain: "c_send_limit (fst (conn_drain_frames H c e)) = c_send_limit c"
  using drain_drained[of c e] by (simp add: drained_def same_rest_def)

lemma limit_kernel: "kstep H s s' \<Longrightarrow> c_send_limit (fst (snd s')) = c_send_limit (fst (snd s))"
proof (induction rule: kstep.induct)
  case (s_flush c k e)
  then show ?case using conn_post_send_rest(1)[of "(take_out ReqFlush c)\<lparr>c_flush_queued := False\<rparr>" H e]
    by (simp add: conn_on_flush_def case_prod_beta same_rest_def take_out_def)
qed (auto simp: receive_part_def resume_part_def Let_def limit_drain conn_touch_def take_out_def limit_repost
    limit_sent report_sent_def conn_on_receive_done_def conn_close_def)

lemma limit_step: "cstep H s s' \<Longrightarrow> c_send_limit (fst (snd s')) = c_send_limit (fst (snd s))"
proof (induction rule: cstep.induct)
  case (s_call_send k c e m body sz)
  then show ?case using conn_send_rest(1)[of c H m body sz e] by (simp add: same_rest_def)
qed (auto simp: limit_kernel conn_close_def conn_resume_receive_def syscall_def Let_def)

lemma limit_reach: "creach H (0, c0, e0) (k, c, e) \<Longrightarrow> c_send_limit c = c_send_limit c0"
proof (induction "(k, c, e)" arbitrary: k c e rule: creach.induct)
  case (step s)
  then show ?case using limit_step[OF step(3)] by (cases s) auto
qed simp

end

section \<open>A closed connection runs dry\<close>

definition unfinished :: "'a crun \<Rightarrow> nat" where
  "unfinished s = 2 * length (c_out (fst (snd s))) + fst s"

lemma handler_ops_closed:
  "handler_ops H c e c' e' \<Longrightarrow> c_closed c \<Longrightarrow> c_closed c' \<and> c_out c' = c_out c"
  by (induction rule: handler_ops.induct)
    (auto simp: conn_allow_message_def case_prod_beta conn_pause_receive_def conn_send_def conn_close_eq)

lemma closed_repost: "c_closed c \<Longrightarrow> conn_repost H (c, e) = (c\<lparr>c_pending := c_pending c - 1\<rparr>, e)"
  by (simp add: conn_repost_def)

context message_handler
begin

lemma closed_drain:
  "c_closed c \<Longrightarrow> c_closed (fst (conn_drain_frames H c e)) \<and> c_out (fst (conn_drain_frames H c e)) = c_out c"
proof (induction c e rule: drain_induct[where H = H])
  case (step c e)
  have h: "c_closed c' \<and> c_out c' = c_out c" if "h_on_message H v c e = (b, c', e')" for v b c' e'
    using handler_ops_closed[OF uses[OF that]] step(2) by simp
  show ?case
    by (cases rule: drain_cases[of c H e]) (use step h in \<open>auto simp: conn_close_eq\<close>)
qed

lemma closed_step:
  "kstep H s s' \<Longrightarrow> conn_inv (fst s) (fst (snd s)) \<Longrightarrow> c_closed (fst (snd s)) \<Longrightarrow>
     c_closed (fst (snd s')) \<and> unfinished s' < unfinished s"
proof (induction rule: kstep.induct)
  case (s_receive w c data k e)
  note len = length_take_out[OF s_receive(1)]
  have "c_closed (take_out (ReqRecv w) c)" using s_receive by (simp add: take_out_def)
  then show ?case
    using closed_drain[of "(conn_touch (e_now e) (take_out (ReqRecv w) c))\<lparr>c_recv_buf :=
        rb_receive data (c_recv_buf (conn_touch (e_now e) (take_out (ReqRecv w) c)))\<rparr>" e] len
    by (simp add: receive_part_def Let_def conn_touch_def unfinished_def)
next
  case (s_receive_end w c ok data k e)
  then show ?case using length_take_out[OF s_receive_end(1)]
    by (simp add: conn_on_receive_done_def conn_close_def unfinished_def take_out_def)
next
  case (s_resume c k e)
  note len = length_take_out[OF s_resume(1)]
  have "c_closed (take_out ReqResume c)" using s_resume by (simp add: take_out_def)
  then show ?case
    using closed_drain[of "(take_out ReqResume c)\<lparr>c_recv_paused := False, c_resume_queued := False\<rparr>" e] len
    by (simp add: resume_part_def unfinished_def)
next
  case (s_repost k c e)
  then show ?case by (simp add: closed_repost unfinished_def)
next
  case (s_sent c n k e ok)
  then show ?case using length_take_out[OF s_sent(1)]
    by (auto simp: conn_on_send_done_def Let_def conn_close_eq report_sent_def take_out_def unfinished_def)
next
  case (s_flush c k e)
  then show ?case using length_take_out[OF s_flush(1)]
    by (simp add: conn_on_flush_def conn_post_send_def take_out_def unfinished_def)
qed

text \<open>While something is unfinished, a worker has something to do.\<close>

lemma busy_step:
  assumes "conn_inv k c" "unfinished (k, c, e) \<noteq> 0"
  shows "\<exists>s'. kstep H (k, c, e) s'"
proof (cases k)
  case (Suc k')
  then show ?thesis using kstep.s_repost[of H k' c e] by blast
next
  case 0
  then obtain r where r: "r \<in> set (c_out c)" using assms(2)
    by (cases "c_out c") (auto simp: unfinished_def)
  show ?thesis
  proof (cases r)
    case (ReqRecv w)
    then have "kstep H (k, c, e) (k, conn_on_receive_done H [] False (take_out (ReqRecv w) c, e))"
      using r by (intro kstep.s_receive_end) simp_all
    then show ?thesis by blast
  next
    case (ReqSend b)
    then have "ReqSend (c_send_staging c) \<in> set (c_out c)" using r sending_iff[OF assms(1)] by blast
    from kstep.s_sent[OF this le0] show ?thesis by blast
  next
    case ReqFlush
    then show ?thesis using r kstep.s_flush[of c H k e] by blast
  next
    case ReqResume
    then show ?thesis using r kstep.s_resume[of c H k e] by blast
  qed
qed

text \<open>Any run of the workers on a closed connection ends, and it ends with the connection reclaimable.\<close>

lemma closed_runs_dry:
  assumes "conn_inv (fst s) (fst (snd s))" "c_closed (fst (snd s))"
  shows "\<exists>c e. (kstep H)\<^sup>*\<^sup>* s (0, c, e) \<and> conn_reclaimable c"
  using assms
proof (induction "unfinished s" arbitrary: s rule: less_induct)
  case less
  obtain k c e where s: "s = (k, c, e)" by (cases s)
  show ?case
  proof (cases "unfinished s = 0")
    case True
    with less(2,3) s show ?thesis
      by (intro exI[of _ c] exI[of _ e])
        (auto simp: unfinished_def conn_reclaimable_def conn_inv_def conn_core_def pending_ok_def)
  next
    case False
    with less(2) s obtain s' where st: "kstep H s s'" using busy_step[of k c e] by auto
    from less(1)[of s'] closed_step[OF st less(2,3)] kernel_inv[OF st less(2)]
    show ?thesis using converse_rtranclp_into_rtranclp[of "kstep H", OF st] by blast
  qed
qed

end

section \<open>Handlers that run to the end\<close>

text \<open>
  The same connection when no other thread gets between the two parts of a handler. Then at most one
  receive is in the kernel, the window it was given is the free part of the buffer, and a paused
  connection has none.
\<close>

inductive astep :: "'a conn_hooks \<Rightarrow> 'a cstate \<Rightarrow> 'a cstate \<Rightarrow> bool" for H :: "'a conn_hooks" where
  a_receive: "ReqRecv w \<in> set (c_out c) \<Longrightarrow> int (length data) \<le> w \<Longrightarrow>
     astep H (c, e) (conn_on_receive_done H data ok (take_out (ReqRecv w) c, e))"
| a_resume: "ReqResume \<in> set (c_out c) \<Longrightarrow> astep H (c, e) (conn_on_resume H (take_out ReqResume c, e))"
| a_sent: "ReqSend (c_send_staging c) \<in> set (c_out c) \<Longrightarrow> n \<le> length (c_send_staging c) \<Longrightarrow>
     astep H (c, e) (conn_on_send_done H (int n) ok (report_sent n c, e))"
| a_flush: "ReqFlush \<in> set (c_out c) \<Longrightarrow> astep H (c, e) (conn_on_flush H (take_out ReqFlush c, e))"
| a_call_send: "astep H (c, e) (conn_send H m body sz (c, e))"
| a_call_close: "astep H (c, e) (conn_close H (c, e))"
| a_call_resume: "astep H (c, e) (conn_resume_receive H (c, e))"
| a_others: "astep H (c, e) (c, e')"

inductive areach :: "'a conn_hooks \<Rightarrow> 'a cstate \<Rightarrow> 'a cstate \<Rightarrow> bool" for H :: "'a conn_hooks" and s0 :: "'a cstate" where
  a_start: "areach H s0 s0"
| a_step: "areach H s0 s \<Longrightarrow> astep H s s' \<Longrightarrow> areach H s0 s'"

definition recv_inv :: "conn \<Rightarrow> bool" where
  "recv_inv c \<longleftrightarrow> rb_wf (c_recv_buf c) \<and>
     (recvs c = [] \<or> recvs c = [ReqRecv (writable_size (c_recv_buf c))] \<and> \<not> c_recv_paused c) \<and>
     (c_resume_queued c \<longrightarrow> c_recv_paused c)"

lemma recv_inv_new: "recv_inv (conn_configure rate burst limit direct (conn_new i peer now))"
  by (simp add: recv_inv_def recvs_def conn_configure_def conn_new_def)

definition recv_idle :: "conn \<Rightarrow> bool" where
  "recv_idle c \<longleftrightarrow> rb_wf (c_recv_buf c) \<and> recvs c = [] \<and> (c_resume_queued c \<longrightarrow> c_recv_paused c)"

text \<open>An operation of the send side.\<close>

definition recv_same :: "conn \<Rightarrow> conn \<Rightarrow> bool" where
  "recv_same c c' \<longleftrightarrow> c_recv_buf c' = c_recv_buf c \<and> recvs c' = recvs c \<and>
     c_recv_paused c' = c_recv_paused c \<and> c_resume_queued c' = c_resume_queued c"

lemma recv_same_rest: "same_rest c c' \<Longrightarrow> c_recv_paused c' = c_recv_paused c \<Longrightarrow> recv_same c c'"
  by (simp add: recv_same_def same_rest_def)

lemma recv_inv_same: "recv_same c c' \<Longrightarrow> recv_inv c \<Longrightarrow> recv_inv c'"
  by (simp add: recv_same_def recv_inv_def)

lemma recv_same_flush: "recv_same c (fst (conn_on_flush H (take_out ReqFlush c, e)))"
  using conn_post_send_rest[where c = "(take_out ReqFlush c)\<lparr>c_flush_queued := False\<rparr>" and H = H and e = e]
  by (auto simp: conn_on_flush_def case_prod_beta recv_same_def same_rest_def recvs_def take_out_simps)

lemma recv_same_sent:
  assumes "n \<le> length (c_send_staging c)" "c_send_staging c \<noteq> []"
  shows "recv_same c (fst (conn_on_send_done H (int n) ok (report_sent n c, e)))"
proof -
  let ?r = "report_sent n c"
  have ne: "n \<le> length (c_send_staging ?r)" "c_send_staging ?r \<noteq> []"
    using assms by (simp_all add: report_sent_def take_out_def)
  have base: "recv_same c (send_done_conn n ok ?r)"
    by (simp add: recv_same_def send_done_conn_def report_sent_def take_out_simps recvs_def)
  show ?thesis
  proof (cases rule: conn_on_send_done_cases[OF ne, where ok = ok and H = H and e = e, case_names next_send stop failed])
    case (next_send e')
    with base conn_post_send_rest[where c = "conn_touch (e_now e) (send_done_conn n ok ?r)" and H = H and e = e']
    show ?thesis by (simp add: Let_def recv_same_def same_rest_def recvs_def conn_touch_def)
  next
    case (stop e')
    with base show ?thesis by (simp add: recv_same_def recvs_def)
  next
    case failed
    with base conn_close_rest[where c = "send_done_conn n ok ?r" and H = H and e = e]
    show ?thesis by (simp add: Let_def recv_same_def same_rest_def recvs_def)
  qed
qed

lemma recv_inv_resume_receive:
  assumes "recv_inv c"
  shows "recv_inv (fst (conn_resume_receive H (c, e)))"
  using assms by (auto simp: conn_resume_receive_def syscall_def Let_def recv_inv_def recvs_def)

lemma recv_inv_repost:
  assumes idle: "recv_idle c"
  shows "recv_inv (fst (conn_repost H (c, e)))"
proof (cases "\<not> c_closed c \<and> \<not> c_recv_paused c")
  case True
  have wf: "rb_wf (c_recv_buf c)" using idle by (simp add: recv_idle_def)
  note wf' = rb_reserve_free_props[OF wf]
  show ?thesis
    by (cases rule: conn_post_receive_cases[of H c e])
      (use True idle wf' in \<open>auto simp: conn_repost_def recv_idle_def recv_inv_def recvs_def conn_close_eq\<close>)
next
  case False
  then show ?thesis using idle by (auto simp: conn_repost_def recv_idle_def recv_inv_def recvs_def)
qed

lemma recv_inv_start:
  assumes idle: "recv_idle c" "\<not> c_recv_paused c"
  shows "recv_inv (fst (snd (conn_start H (c, e))))"
proof -
  have wf: "rb_wf (c_recv_buf c)" using idle by (simp add: recv_idle_def)
  note wf' = rb_reserve_free_props[OF wf]
  show ?thesis unfolding conn_start_def
    by (cases rule: conn_post_receive_cases[of H c e])
      (use idle wf' in \<open>auto simp: recv_idle_def recv_inv_def recvs_def conn_close_eq\<close>)
qed

lemma recv_taken:
  assumes inv: "recv_inv c" and out: "ReqRecv w \<in> set (c_out c)"
  shows "recv_idle (take_out (ReqRecv w) c)" "w = writable_size (c_recv_buf c)" "\<not> c_recv_paused c"
proof -
  have "ReqRecv w \<in> set (recvs c)" using out by (simp add: recvs_def)
  then have r: "recvs c = [ReqRecv (writable_size (c_recv_buf c))]" "\<not> c_recv_paused c"
    and w: "w = writable_size (c_recv_buf c)" using inv by (auto simp: recv_inv_def)
  then show "recv_idle (take_out (ReqRecv w) c)"
    using inv by (simp add: recv_idle_def recv_inv_def recvs_def take_out_simps)
  show "w = writable_size (c_recv_buf c)" "\<not> c_recv_paused c" by fact+
qed

context message_handler
begin

lemma drain_idle: "recv_idle c \<Longrightarrow> recv_idle (fst (conn_drain_frames H c e))"
  using drain_wf[of c e] drain_drained[of c e]
  by (auto simp: recv_idle_def drained_def same_rest_def recvs_def)

lemma receive_recv_inv:
  assumes inv: "recv_inv c" and out: "ReqRecv w \<in> set (c_out c)" and len: "int (length data) \<le> w"
  shows "recv_inv (fst (conn_on_receive_done H data ok (take_out (ReqRecv w) c, e)))"
proof (cases "\<not> ok \<or> data = []")
  case True
  from recv_taken[OF inv out] conn_close_rest[where c = "take_out (ReqRecv w) c" and H = H and e = e]
  show ?thesis using True
    by (auto simp: conn_on_receive_done_def case_prod_beta recv_inv_def recv_idle_def same_rest_def recvs_def)
next
  case False
  let ?c = "conn_touch (e_now e) (take_out (ReqRecv w) c)"
  have "recv_idle (?c\<lparr>c_recv_buf := rb_receive data (c_recv_buf ?c)\<rparr>)"
    using recv_taken[OF inv out] len
    by (auto simp: recv_idle_def conn_touch_def recvs_def take_out_def rb_wf_receive)
  then have "recv_idle (fst (receive_part H data (take_out (ReqRecv w) c, e)))"
    by (simp add: receive_part_def Let_def drain_idle)
  then show ?thesis using False recv_inv_repost
    by (metis conn_on_receive_done_def prod.collapse)
qed

lemma resume_recv_inv:
  assumes inv: "recv_inv c" "c_resume_queued c"
  shows "recv_inv (fst (conn_on_resume H (take_out ReqResume c, e)))"
proof -
  have "recv_idle ((take_out ReqResume c)\<lparr>c_recv_paused := False, c_resume_queued := False\<rparr>)"
    using inv by (auto simp: recv_idle_def recv_inv_def recvs_def take_out_simps)
  then have "recv_idle (fst (resume_part H (take_out ReqResume c, e)))"
    by (simp add: resume_part_def drain_idle)
  then show ?thesis unfolding conn_on_resume_def using recv_inv_repost by (metis prod.collapse)
qed

end

lemma resume_queued_iff:
  assumes "conn_inv k c"
  shows "ReqResume \<in> set (c_out c) \<longleftrightarrow> c_resume_queued c"
proof -
  have f: "filter (\<lambda>r. r = ReqResume) (c_out c) = (if c_resume_queued c then [ReqResume] else [])"
    using assms by (simp add: conn_inv_def conn_core_def requests_ok_def)
  have "ReqResume \<in> set (c_out c) \<longleftrightarrow> ReqResume \<in> set (filter (\<lambda>r. r = ReqResume) (c_out c))" by simp
  also have "\<dots> \<longleftrightarrow> c_resume_queued c" unfolding f by auto
  finally show ?thesis .
qed

context message_handler
begin

lemma receive_inv:
  assumes "conn_inv 0 c" "ReqRecv w \<in> set (c_out c)"
  shows "conn_inv 0 (fst (conn_on_receive_done H data ok (take_out (ReqRecv w) c, e)))"
proof (cases "\<not> ok \<or> data = []")
  case True
  with assms show ?thesis by (rule receive_end_inv)
next
  case False
  from assms have "conn_inv (Suc 0) (fst (receive_part H data (take_out (ReqRecv w) c, e)))"
    by (intro receive_part_inv take_recv_inv)
  from conn_repost_inv[OF this, of H "snd (receive_part H data (take_out (ReqRecv w) c, e))"] False
  show ?thesis by (simp add: conn_on_receive_done_def)
qed

lemma resume_inv:
  assumes "conn_inv 0 c" "ReqResume \<in> set (c_out c)"
  shows "conn_inv 0 (fst (conn_on_resume H (take_out ReqResume c, e)))"
  using conn_repost_inv[OF resume_part_inv[OF assms, of e], of H "snd (resume_part H (take_out ReqResume c, e))"]
  by (simp add: conn_on_resume_def)

lemma astep_inv:
  "astep H s s' \<Longrightarrow> conn_inv 0 (fst s) \<and> recv_inv (fst s) \<Longrightarrow> conn_inv 0 (fst s') \<and> recv_inv (fst s')"
proof (induction rule: astep.induct)
  case (a_sent c n e ok)
  then have "c_sending c" using sending_iff[of 0 c] by auto
  moreover then have "c_send_staging c \<noteq> []" using a_sent by (simp add: conn_inv_def conn_core_defs)
  ultimately show ?case using a_sent recv_inv_same[OF recv_same_sent[where H = H and e = e and ok = ok]]
    by (auto simp: conn_on_send_done_inv)
next
  case (a_resume c e)
  then show ?case using resume_queued_iff[of 0 c] by (simp add: resume_inv resume_recv_inv)
next
  case (a_call_send c e m body sz)
  then show ?case
    using recv_inv_same[OF recv_same_rest[OF conn_send_rest[where c = c and H = H and msg_id = m and body = body and sz = sz and e = e]]]
    by (simp add: conn_send_inv)
next
  case (a_call_close c e)
  then show ?case
    using recv_inv_same[OF recv_same_rest[OF conn_close_rest[where c = c and H = H and e = e]]]
    by (simp add: conn_close_inv)
next
  case (a_flush c e)
  then show ?case using recv_inv_same[OF recv_same_flush[of c H e]] by (auto simp: conn_on_flush_inv)
qed (simp_all add: receive_inv receive_recv_inv conn_resume_receive_inv recv_inv_resume_receive)

lemma areach_inv:
  "areach H s0 s \<Longrightarrow> conn_inv 0 (fst s0) \<and> recv_inv (fst s0) \<Longrightarrow> conn_inv 0 (fst s) \<and> recv_inv (fst s)"
  by (induction rule: areach.induct) (simp_all add: astep_inv)

lemma one_receive:
  assumes "areach H s0 (c, e)" "conn_inv 0 (fst s0)" "recv_inv (fst s0)"
  shows "recvs c = [] \<or> recvs c = [ReqRecv (writable_size (c_recv_buf c))]"
  using areach_inv[OF assms(1)] assms by (auto simp: recv_inv_def)

end

section \<open>The stream a connection delivers\<close>

text \<open>
  A handler that takes every frame and files it with the application, over a system that refuses
  nothing.
\<close>

definition filing_hooks :: "(u16 \<times> bytes \<Rightarrow> 'a \<Rightarrow> 'a) \<Rightarrow> (conn_id \<Rightarrow> 'a \<Rightarrow> 'a) \<Rightarrow> 'a conn_hooks" where
  "filing_hooks f oc = \<lparr>h_os = (\<lambda>_. True),
     h_on_message = (\<lambda>v c e. (True, c, e\<lparr>e_app := f (fv_msg_id v, fv_body v) (e_app e)\<rparr>)),
     h_on_close = oc\<rparr>"

interpretation filing: message_handler "filing_hooks f oc" for f oc
  by unfold_locales (auto simp: filing_hooks_def intro: handler_ops.intros)

lemma filing_sel [simp]:
  "h_on_message (filing_hooks f oc) v c e = (True, c, e\<lparr>e_app := f (fv_msg_id v, fv_body v) (e_app e)\<rparr>)"
  "h_os (filing_hooks f oc) n" "h_on_close (filing_hooks f oc) = oc"
  by (simp_all add: filing_hooks_def)

lemma rb_readable_small:
  assumes "rb_wf b"
  shows "length (rb_readable b) < 2 ^ 32" "readable_size b = int (length (rb_readable b))"
  using assms length_rb_readable[OF assms]
  by (auto simp: rb_wf_def readable_size_def rb_consts split: option.splits)

lemma drain_filing:
  assumes "rb_wf (c_recv_buf c)" "\<not> c_closed c"
    and "parse_stream (rb_readable (c_recv_buf c)) = (fs, rest, en)"
    and "conn_drain_frames (filing_hooks f oc) c e = (c', e')"
  shows "rb_readable (c_recv_buf c') = rest \<and> (c_closed c' \<longleftrightarrow> en = Malformed) \<and>
    rb_cap (c_recv_buf c') = rb_cap (c_recv_buf c) \<and> c_recv_paused c' = c_recv_paused c \<and>
    e_app e' = (if en = Malformed then oc (c_id c) (fold f fs (e_app e)) else fold f fs (e_app e))"
  using assms
proof (induction c e arbitrary: fs rule: drain_induct[where H = "filing_hooks f oc"])
  case (step c e)
  note ps = parse_stream_peek[OF rb_readable_small(1)[OF step(2)], folded rb_readable_small(2)[OF step(2)]]
  show ?case
  proof (cases rule: drain_cases[of c "filing_hooks f oc" e])
    case (taken v n c1 e1)
    let ?c = "c\<lparr>c_recv_buf := rb_consume n (c_recv_buf c)\<rparr>"
    note b = next_frame_bounds[OF step(2) taken(1)]
    from ps step(4) taken(1) obtain gs where
      gs: "parse_stream (drop (nat n) (rb_readable (c_recv_buf c))) = (gs, rest, en)"
      and fs: "fs = (fv_msg_id v, fv_body v) # gs"
      by (auto simp: prepend_def prod_eq_iff)
    have "rb_readable (c_recv_buf c') = rest \<and> (c_closed c' \<longleftrightarrow> en = Malformed) \<and>
      rb_cap (c_recv_buf c') = rb_cap (c_recv_buf ?c) \<and> c_recv_paused c' = c_recv_paused ?c \<and>
      e_app e' = (if en = Malformed then oc (c_id ?c) (fold f gs (e_app e1)) else fold f gs (e_app e1))"
      using taken b step(2,3,5) gs step(1)[OF taken(1,2)]
      by (auto simp: rb_wf_consume rb_readable_consume)
    then show ?thesis using taken(2) by (auto simp: fs rb_consume_def)
  qed (use step(2-5) ps in \<open>auto simp: conn_close_eq\<close>)
qed

text \<open>
  The chunks the kernel delivers, one completion after the other; a chunk that does not fit the window
  of the receive in the kernel is not a run of the system.
\<close>

fun feed :: "'a conn_hooks \<Rightarrow> bytes list \<Rightarrow> 'a cstate \<Rightarrow> 'a cstate option" where
  "feed H [] s = Some s"
| "feed H (d # ds) (c, e) =
     (if c_closed c then Some (c, e)
      else case recvs c of
        [ReqRecv w] \<Rightarrow>
          if d = [] \<or> int (length d) > w then None
          else feed H ds (conn_on_receive_done H d True (take_out (ReqRecv w) c, e))
      | _ \<Rightarrow> None)"

text \<open>A connection that waits for the rest of a frame.\<close>

definition listening :: "conn \<Rightarrow> bool" where
  "listening c \<longleftrightarrow> rb_wf (c_recv_buf c) \<and> \<not> c_closed c \<and> \<not> c_recv_paused c \<and> \<not> c_resume_queued c \<and>
     recvs c = [ReqRecv (writable_size (c_recv_buf c))] \<and> rb_cap (c_recv_buf c) = kChunk \<and>
     writable_size (c_recv_buf c) \<ge> kMinFree \<and>
     parse_stream (rb_readable (c_recv_buf c)) = ([], rb_readable (c_recv_buf c), NeedMore)"

lemma parse_stream_idem:
  "parse_stream b = (fs, r, NeedMore) \<Longrightarrow> parse_stream r = ([], r, NeedMore)"
proof (induction b arbitrary: fs rule: parse_stream.induct)
  case (1 b)
  let ?n = "unat (load_be32 b)"
  consider (more) "length b < 6 \<or> ?n \<le> 1024 \<and> length b < 6 + ?n"
    | (bad) "6 \<le> length b" "?n > 1024" | (frame) "?n \<le> 1024" "6 + ?n \<le> length b"
    by linarith
  then show ?case
  proof cases
    case more
    then show ?thesis using 1(2) parse_stream_cases(1)[of b] by auto
  next
    case bad
    then show ?thesis using 1(2) parse_stream_cases(2)[of b] by auto
  next
    case frame
    obtain gs r' en where ps: "parse_stream (drop (6 + ?n) b) = (gs, r', en)"
      by (cases "parse_stream (drop (6 + ?n) b)")
    then have "r' = r" "en = NeedMore" using 1(2) parse_stream_cases(3)[OF frame] by simp_all
    then show ?thesis using 1(1)[of gs] ps frame by simp
  qed
qed

lemma parse_stream_short: "parse_stream r = ([], r, NeedMore) \<Longrightarrow> length r < 1030"
proof (rule ccontr)
  assume r: "parse_stream r = ([], r, NeedMore)" and l: "\<not> length r < 1030"
  show False
    using r l parse_stream_cases(2)[of r] parse_stream_cases(3)[of r]
    by (cases "unat (load_be32 r) > 1024") (auto simp: prepend_def)
qed

lemma receive_filing:
  assumes lis: "listening c" and d: "d \<noteq> []" "int (length d) \<le> writable_size (c_recv_buf c)"
    and ps: "parse_stream (rb_readable (c_recv_buf c) @ d) = (fs, r, en)"
    and res: "conn_on_receive_done (filing_hooks f oc) d True
        (take_out (ReqRecv (writable_size (c_recv_buf c))) c, e) = (c', e')"
  shows "(if en = Malformed then c_closed c' else listening c' \<and> rb_readable (c_recv_buf c') = r) \<and>
    c_id c' = c_id c \<and>
    e_app e' = (if en = Malformed then oc (c_id c) (fold f fs (e_app e)) else fold f fs (e_app e))"
proof -
  let ?H = "filing_hooks f oc"
  let ?t = "take_out (ReqRecv (writable_size (c_recv_buf c))) c"
  let ?c1 = "(conn_touch (e_now e) ?t)\<lparr>c_recv_buf := rb_receive d (c_recv_buf c)\<rparr>"
  have buf [simp]: "c_recv_buf (conn_touch (e_now e) ?t) = c_recv_buf c"
    by (simp add: conn_touch_def take_out_def)
  have c1: "rb_wf (c_recv_buf ?c1)" "\<not> c_closed ?c1" "recvs ?c1 = []" "\<not> c_recv_paused ?c1" "\<not> c_resume_queued ?c1"
    "rb_readable (c_recv_buf ?c1) = rb_readable (c_recv_buf c) @ d" "rb_cap (c_recv_buf ?c1) = kChunk" "c_id ?c1 = c_id c"
    using lis d
    by (simp_all add: listening_def recvs_def take_out_simps conn_touch_def rb_wf_receive rb_readable_receive,
        simp add: rb_receive_def rb_commit_write_def rb_fill_def)
  obtain c2 e2 where dr: "conn_drain_frames ?H ?c1 e = (c2, e2)" by fastforce
  from drain_filing[OF c1(1,2) _ dr] ps c1
  have c2: "rb_readable (c_recv_buf c2) = r" "c_closed c2 \<longleftrightarrow> en = Malformed" "rb_cap (c_recv_buf c2) = kChunk"
    "\<not> c_recv_paused c2"
    "e_app e2 = (if en = Malformed then oc (c_id c) (fold f fs (e_app e)) else fold f fs (e_app e))" by simp_all
  have more: "recvs c2 = []" "\<not> c_resume_queued c2" "c_id c2 = c_id c" "rb_wf (c_recv_buf c2)"
    using filing.drain_drained[of ?c1 f oc e] filing.drain_wf[OF c1(1), of f oc e] dr c1
    by (simp_all add: drained_def same_rest_def recvs_def)
  have eq: "(c', e') = conn_repost ?H (c2, e2)"
    using res d dr by (simp add: conn_on_receive_done_def receive_part_def Let_def)
  show ?thesis
  proof (cases "en = Malformed")
    case True
    with eq c2 more show ?thesis by (simp add: conn_repost_def)
  next
    case False
    then have en: "en = NeedMore" by (cases en) auto
    with ps have idem: "parse_stream r = ([], r, NeedMore)" using parse_stream_idem by blast
    then have short: "readable_size (c_recv_buf c2) \<le> kMinFree"
      using parse_stream_short[OF idem] c2(1) length_rb_readable[OF more(4)] by (simp add: kMinFree_def)
    obtain ok b where b: "rb_reserve_free 0 (c_recv_buf c2) = (ok, b)" by fastforce
    have ok: "ok" "rb_cap b = kChunk" "rb_wf b" "rb_readable b = r" "writable_size b \<ge> kMinFree"
      using rb_reserve_default[OF more(4)] rb_reserve_free_props[OF more(4) b] short b c2
      by (auto simp: rb_consts)
    then have "conn_repost ?H (c2, e2) = (c2\<lparr>c_recv_buf := b, c_pending := c_pending c2,
        c_out := ReqRecv (writable_size b) # c_out c2\<rparr>, e2\<lparr>e_calls := Suc (e_calls e2)\<rparr>)"
      using c2 en b by (simp add: conn_repost_def conn_post_receive_def Let_def syscall_def)
    with eq c2 more ok en idem show ?thesis
      by (simp add: listening_def recvs_def)
  qed
qed

definition filed :: "(u16 \<times> bytes \<Rightarrow> 'a \<Rightarrow> 'a) \<Rightarrow> (conn_id \<Rightarrow> 'a \<Rightarrow> 'a) \<Rightarrow> conn_id \<Rightarrow> bytes \<Rightarrow> 'a \<Rightarrow> 'a" where
  "filed f oc i b a = (case parse_stream b of (fs, r, en) \<Rightarrow>
     if en = Malformed then oc i (fold f fs a) else fold f fs a)"

lemma filed_append:
  "parse_stream b = (fs, r, en) \<Longrightarrow> filed f oc i (b @ d) a =
     (if en = Malformed then filed f oc i b a else filed f oc i (r @ d) (fold f fs a))"
  using parse_stream_append[of b d]
  by (cases en; cases "parse_stream (r @ d)") (simp_all add: filed_def)

lemma feed_closed: "c_closed c \<Longrightarrow> feed H ds (c, e) = Some (c, e)"
  by (cases ds) simp_all

lemma feed_filing:
  assumes "listening c" "\<forall>d\<in>set ds. d \<noteq> []" "feed (filing_hooks f oc) ds (c, e) = Some (c', e')"
  shows "e_app e' = filed f oc (c_id c) (rb_readable (c_recv_buf c) @ concat ds) (e_app e) \<and>
    (c_closed c' \<longleftrightarrow> snd (snd (parse_stream (rb_readable (c_recv_buf c) @ concat ds))) = Malformed) \<and>
    (\<not> c_closed c' \<longrightarrow> listening c')"
  using assms
proof (induction ds arbitrary: c e)
  case Nil
  then show ?case by (auto simp: listening_def filed_def)
next
  case (Cons d ds)
  let ?H = "filing_hooks f oc" and ?w = "writable_size (c_recv_buf c)"
  from Cons.prems have fits: "d \<noteq> []" "int (length d) \<le> ?w"
    and rest: "feed ?H ds (conn_on_receive_done ?H d True (take_out (ReqRecv ?w) c, e)) = Some (c', e')"
    by (auto simp: listening_def split: if_splits)
  obtain c1 e1 where one: "conn_on_receive_done ?H d True (take_out (ReqRecv ?w) c, e) = (c1, e1)" by fastforce
  obtain fs r en where ps: "parse_stream (rb_readable (c_recv_buf c) @ d) = (fs, r, en)"
    by (cases "parse_stream (rb_readable (c_recv_buf c) @ d)")
  note step = receive_filing[OF Cons.prems(1) fits ps one]
  have ps': "parse_stream (rb_readable (c_recv_buf c) @ d @ concat ds) =
      (case (fs, r, en) of (fs, rest, NeedMore) \<Rightarrow> prepend fs (parse_stream (rest @ concat ds))
        | (fs, rest, Malformed) \<Rightarrow> (fs, rest @ concat ds, Malformed))"
    using parse_stream_append[of "rb_readable (c_recv_buf c) @ d" "concat ds"] ps by simp
  note fl = filed_append[OF ps, of f oc "c_id c" "concat ds"]
  show ?case
  proof (cases en)
    case Malformed
    with step rest one have "c' = c1" "e' = e1" by (simp_all add: feed_closed)
    with Malformed step ps' fl ps show ?thesis by (simp add: filed_def)
  next
    case NeedMore
    with step rest one Cons.IH[of c1 e1] Cons.prems(2) ps' fl show ?thesis by simp
  qed
qed

lemma feed_runs:
  assumes "listening c" "\<forall>d\<in>set ds. d \<noteq> [] \<and> int (length d) \<le> kMinFree"
  shows "\<exists>s. feed (filing_hooks f oc) ds (c, e) = Some s"
  using assms
proof (induction ds arbitrary: c e)
  case (Cons d ds)
  let ?H = "filing_hooks f oc" and ?w = "writable_size (c_recv_buf c)"
  from Cons.prems have fits: "d \<noteq> []" "int (length d) \<le> ?w" by (auto simp: listening_def)
  obtain c1 e1 where one: "conn_on_receive_done ?H d True (take_out (ReqRecv ?w) c, e) = (c1, e1)" by fastforce
  obtain fs r en where ps: "parse_stream (rb_readable (c_recv_buf c) @ d) = (fs, r, en)"
    by (cases "parse_stream (rb_readable (c_recv_buf c) @ d)")
  note step = receive_filing[OF Cons.prems(1) fits ps one]
  have "feed ?H (d # ds) (c, e) = feed ?H ds (c1, e1)"
    using Cons.prems(1) fits one by (simp add: listening_def)
  moreover have "\<exists>s. feed ?H ds (c1, e1) = Some s"
  proof (cases en)
    case Malformed
    with step show ?thesis by (simp add: feed_closed)
  next
    case NeedMore
    with step Cons show ?thesis by simp
  qed
  ultimately show ?case by simp
qed simp

text \<open>The state after \<^verbatim>\<open>start\<close>.\<close>

lemma start_listening:
  assumes "h_os H (e_calls e)"
    and "conn_start H (conn_configure rate burst limit direct (conn_new i peer now), e) = (ok, c, e')"
  shows "ok \<and> listening c \<and> rb_readable (c_recv_buf c) = [] \<and> c_id c = i \<and> e_app e' = e_app e \<and>
    c_out c = [ReqRecv (writable_size (c_recv_buf c))] \<and> c_pending c = 1"
proof -
  obtain ok' b where b: "rb_reserve_free 0 rb_init = (ok', b)" by fastforce
  have z: "readable_size rb_init = 0" "rb_readable rb_init = []" "rb_cap rb_init = 0"
    by (simp_all add: readable_size_def rb_readable_def rb_init_def)
  have "ok'" "rb_cap b = kChunk" "rb_wf b" "rb_readable b = []" "writable_size b \<ge> kMinFree"
    using rb_reserve_default[OF rb_wf_init] rb_reserve_free_props[OF rb_wf_init b] b z by (auto simp: rb_consts)
  moreover have "parse_stream [] = ([], [], NeedMore)" by (simp add: parse_stream_cases(1))
  ultimately show ?thesis
    using assms b
    by (auto simp: conn_start_def conn_post_receive_def conn_configure_def conn_new_def syscall_def Let_def
        listening_def recvs_def)
qed

section \<open>Two receives at once\<close>

text \<open>
  The handler of the back-pressure policy: while the queue behind it is full it pauses the connection
  and leaves the frame in the buffer.
\<close>

definition pausing_hooks :: "bool conn_hooks" where
  "pausing_hooks = \<lparr>h_os = (\<lambda>_. True),
     h_on_message = (\<lambda>v c e. if e_app e then (False, conn_pause_receive c, e) else (True, c, e)),
     h_on_close = (\<lambda>_ a. a)\<rparr>"

interpretation pausing: message_handler pausing_hooks
  by unfold_locales (auto simp: pausing_hooks_def split: if_splits intro: handler_ops.intros)

definition may_post :: "conn \<Rightarrow> bool" where
  "may_post c \<longleftrightarrow> rb_wf (c_recv_buf c) \<and> \<not> c_closed c \<and> \<not> c_recv_paused c \<and>
     readable_size (c_recv_buf c) \<le> kMaxCapacity - kMinFree"

lemma repost_posts:
  assumes "may_post c" "h_os H (e_calls e)"
  obtains c' e' where "conn_repost H (c, e) = (c', e')" "may_post c'" "length (recvs c') = Suc (length (recvs c))"
proof -
  obtain ok b where b: "rb_reserve_free 0 (c_recv_buf c) = (ok, b)" by fastforce
  have wf: "rb_wf (c_recv_buf c)" using assms by (simp add: may_post_def)
  have ok: "ok" "rb_wf b" "rb_readable b = rb_readable (c_recv_buf c)"
    using assms rb_reserve_default[OF wf] rb_reserve_free_props[OF wf b] b by (auto simp: may_post_def)
  then have "readable_size b = readable_size (c_recv_buf c)"
    using length_rb_readable[OF wf] length_rb_readable[OF ok(2)] by simp
  with assms ok b show ?thesis
    by (intro that[of "c\<lparr>c_recv_buf := b, c_out := ReqRecv (writable_size b) # c_out c\<rparr>"
          "e\<lparr>e_calls := Suc (e_calls e)\<rparr>"]) (simp_all add: conn_repost_def conn_post_receive_def syscall_def Let_def may_post_def recvs_def)
qed

lemma next_frame_of_frame:
  assumes "rb_wf (c_recv_buf c)" "rb_readable (c_recv_buf c) = frame_bytes i body" "length body \<le> 1024"
  obtains v where "next_frame c = FrameOk v (int (length (frame_bytes i body)))"
proof -
  note small = rb_readable_small[OF assms(1)]
  have ps: "parse_stream (frame_bytes i body) = ([(i, body)], [], NeedMore)"
    using parse_stream_cons[OF assms(3), of i "[]"] by (simp add: parse_stream_cases(1))
  note pk = parse_stream_peek[OF small(1), folded small(2)]
  show ?thesis
  proof (cases "next_frame c")
    case (FrameOk v n)
    have "drop (nat n) (frame_bytes i body) = []"
    proof -
      obtain gs r en where q: "parse_stream (drop (nat n) (frame_bytes i body)) = (gs, r, en)"
        by (cases "parse_stream (drop (nat n) (frame_bytes i body))")
      then have "gs = [] \<and> r = []" using pk FrameOk ps assms(2) by (simp add: prepend_def)
      with parse_stream_rest[OF q] show ?thesis by simp
    qed
    then have "length (frame_bytes i body) \<le> nat n" by simp
    moreover have "0 \<le> n" "n \<le> int (length (frame_bytes i body))"
      using next_frame_bounds[OF assms(1) FrameOk] small(2) assms(2) by simp_all
    ultimately have "n = int (length (frame_bytes i body))" by simp
    with FrameOk that show ?thesis by simp
  qed (use pk ps assms(2) in simp_all)
qed

lemma pausing_os [simp]: "h_os pausing_hooks n"
  by (simp add: pausing_hooks_def)

text \<open>The first worker: a frame arrives while the queue is full.\<close>

lemma pausing_receive:
  assumes lis: "listening c" and empty: "rb_readable (c_recv_buf c) = []" and app: "e_app e"
  obtains c' where "receive_part pausing_hooks (frame_bytes i []) (take_out (ReqRecv (writable_size (c_recv_buf c))) c, e) = (c', e)"
    "rb_wf (c_recv_buf c')" "rb_readable (c_recv_buf c') = frame_bytes i []" "c_recv_paused c'" "\<not> c_closed c'"
    "\<not> c_resume_queued c'" "recvs c' = []"
    "c_out c' = remove1 (ReqRecv (writable_size (c_recv_buf c))) (c_out c)" "c_pending c' = c_pending c"
proof -
  let ?d = "frame_bytes i []" and ?t = "take_out (ReqRecv (writable_size (c_recv_buf c))) c"
  let ?c1 = "(conn_touch (e_now e) ?t)\<lparr>c_recv_buf := rb_receive ?d (c_recv_buf c)\<rparr>"
  have len: "int (length ?d) \<le> writable_size (c_recv_buf c)"
    using lis by (simp add: listening_def length_frame_bytes kHeaderSize_def kMinFree_def)
  have c1: "rb_wf (c_recv_buf ?c1)" "rb_readable (c_recv_buf ?c1) = ?d" "\<not> c_closed ?c1" "\<not> c_resume_queued ?c1" "recvs ?c1 = []"
    using lis empty len
    by (simp_all add: listening_def rb_wf_receive rb_readable_receive conn_touch_def take_out_simps recvs_def)
  obtain v where "next_frame ?c1 = FrameOk v (int (length ?d))"
    using next_frame_of_frame[OF c1(1,2)] by auto
  then have "conn_drain_frames pausing_hooks ?c1 e = (conn_pause_receive ?c1, e)"
    using app by (subst conn_drain_frames.simps) (simp add: pausing_hooks_def conn_pause_receive_def)
  then have "receive_part pausing_hooks ?d (?t, e) = (conn_pause_receive ?c1, e)"
    by (simp add: receive_part_def Let_def conn_touch_def take_out_def)
  then show ?thesis
    using c1 by (intro that[of "conn_pause_receive ?c1"])
      (simp_all add: conn_pause_receive_def recvs_def conn_touch_def take_out_def)
qed

text \<open>The second worker: the queue has room again and the resume notification is handled.\<close>

lemma pausing_resume:
  assumes "rb_wf (c_recv_buf c)" "rb_readable (c_recv_buf c) = frame_bytes i []" "\<not> c_closed c" "recvs c = []"
    and "\<not> e_app e"
  obtains c' where "resume_part pausing_hooks (c, e) = (c', e)" "may_post c'" "recvs c' = []"
proof -
  let ?c1 = "c\<lparr>c_recv_paused := False, c_resume_queued := False\<rparr>" and ?n = "int (length (frame_bytes i []))"
  let ?b = "rb_consume ?n (c_recv_buf c)"
  obtain v where v: "next_frame ?c1 = FrameOk v ?n"
    using next_frame_of_frame[of ?c1 i "[]"] assms by auto
  have n: "?n \<le> readable_size (c_recv_buf c)" using next_frame_bounds(2)[of ?c1, OF _ v] assms(1) by simp
  have b: "rb_wf ?b" "rb_readable ?b = []"
    using assms(1,2) n by (simp_all add: rb_wf_consume rb_readable_consume)
  then have rs: "readable_size ?b = 0" using length_rb_readable[OF b(1)] by simp
  have "conn_drain_frames pausing_hooks (?c1\<lparr>c_recv_buf := ?b\<rparr>) e = (?c1\<lparr>c_recv_buf := ?b\<rparr>, e)"
    using b rs by (subst conn_drain_frames.simps) (simp add: peek_frame_def kHeaderSize_def)
  then have "conn_drain_frames pausing_hooks ?c1 e = (?c1\<lparr>c_recv_buf := ?b\<rparr>, e)"
    using v assms(3,5) by (subst conn_drain_frames.simps) (simp add: pausing_hooks_def)
  then show ?thesis
    using b rs assms by (intro that[of "?c1\<lparr>c_recv_buf := ?b\<rparr>"]) (simp_all add: resume_part_def may_post_def recvs_def rb_consts)
qed

lemma race_two_receives:
  assumes lis: "listening c0" "rb_readable (c_recv_buf c0) = []" and app: "e_app e0"
  shows "\<exists>c e. creach pausing_hooks (0, c0, e0) (0, c, e) \<and> length (recvs c) = 2"
proof -
  let ?H = pausing_hooks and ?w = "writable_size (c_recv_buf c0)"
  obtain c1 where c1: "receive_part ?H (frame_bytes 1 []) (take_out (ReqRecv ?w) c0, e0) = (c1, e0)"
    "rb_wf (c_recv_buf c1)" "rb_readable (c_recv_buf c1) = frame_bytes 1 []" "c_recv_paused c1" "\<not> c_closed c1"
    "\<not> c_resume_queued c1" "recvs c1 = []" using pausing_receive[OF lis app, of 1] by blast
  have "ReqRecv ?w \<in> set (recvs c0)" using lis by (simp add: listening_def)
  then have r0: "ReqRecv ?w \<in> set (c_out c0)" by (simp add: recvs_def)
  have len: "length (frame_bytes 1 []) = 6" by (simp add: length_frame_bytes kHeaderSize_def)
  then have "frame_bytes 1 [] \<noteq> []" by (metis length_0_conv zero_neq_numeral)
  moreover have "int (length (frame_bytes 1 [])) \<le> ?w"
    using lis(1) len by (simp add: listening_def kMinFree_def)
  ultimately have "cstep ?H (0, c0, e0) (1, c1, e0)"
    using s_kernel[OF s_receive[OF r0, of "frame_bytes 1 []" ?H 0 e0]] c1(1) by simp
  then have s1: "creach ?H (0, c0, e0) (1, c1, e0)" by (rule creach.step[OF creach.start])
  define c2 where "c2 = c1\<lparr>c_resume_queued := True, c_pending := c_pending c1 + 1, c_out := ReqResume # c_out c1\<rparr>"
  define e2 where "e2 = e0\<lparr>e_calls := Suc (e_calls e0), e_app := False\<rparr>"
  have "cstep ?H (1, c1, e0) (1, c2, e0\<lparr>e_calls := Suc (e_calls e0)\<rparr>)"
    using s_call_resume[of ?H 1 c1 e0] c1
    by (simp add: conn_resume_receive_def syscall_def Let_def c2_def)
  from creach.step[OF creach.step[OF s1 this] s_others] have s2: "creach ?H (0, c0, e0) (1, c2, e2)" .
  let ?t = "take_out ReqResume c2"
  have t: "rb_wf (c_recv_buf ?t)" "rb_readable (c_recv_buf ?t) = frame_bytes 1 []" "\<not> c_closed ?t" "recvs ?t = []"
    using c1 by (simp_all add: c2_def take_out_simps recvs_def)
  obtain c3 where c3: "resume_part ?H (?t, e2) = (c3, e2)" "may_post c3" "recvs c3 = []"
    using pausing_resume[OF t, of e2] by (auto simp: e2_def)
  have "cstep ?H (1, c2, e2) (Suc 1, c3, e2)"
    using s_kernel[OF s_resume[of c2 ?H 1 e2]] c3(1) by (simp add: c2_def)
  from creach.step[OF s2 this] have s3: "creach ?H (0, c0, e0) (Suc 1, c3, e2)" .
  obtain c4 e4 where c4: "conn_repost ?H (c3, e2) = (c4, e4)" "may_post c4" "length (recvs c4) = Suc (length (recvs c3))"
    using repost_posts[OF c3(2)] pausing_os by blast
  obtain c5 e5 where c5: "conn_repost ?H (c4, e4) = (c5, e5)" "length (recvs c5) = Suc (length (recvs c4))"
    using repost_posts[OF c4(2)] pausing_os by blast
  have "creach ?H (0, c0, e0) (1, c4, e4)" using creach.step[OF s3 s_kernel[OF s_repost]] c4(1) by simp
  then have "creach ?H (0, c0, e0) (0, c5, e5)" using creach.step[OF _ s_kernel[OF s_repost[of ?H 0 c4 e4]]] c5(1) by simp
  then show ?thesis using c5(2) c4(3) c3(3) by auto
qed

section \<open>Properties\<close>

text \<open>A fresh connection as \<^verbatim>\<open>adopt\<close> configures it.\<close>

abbreviation fresh :: "int \<Rightarrow> int \<Rightarrow> int \<Rightarrow> bool \<Rightarrow> conn_id \<Rightarrow> bytes \<Rightarrow> int \<Rightarrow> conn" where
  "fresh rate burst limit direct i peer now \<equiv> conn_configure rate burst limit direct (conn_new i peer now)"

abbreviation quiet_hooks :: "unit conn_hooks" where
  "quiet_hooks \<equiv> filing_hooks (\<lambda>_ a. a) (\<lambda>_ a. a)"

abbreviation direct_conn :: conn where
  "direct_conn \<equiv> fresh 0 0 64 True 1 [] 0"

lemma quiet_step: "cstep quiet_hooks (0, direct_conn, env_init ()) s \<Longrightarrow>
    creach quiet_hooks (0, direct_conn, env_init ()) s"
  by (rule creach.step[OF creach.start])

lemma quiet_close: "creach quiet_hooks (0, direct_conn, env_init ())
    (0, fst (conn_close quiet_hooks (direct_conn, env_init ())), snd (conn_close quiet_hooks (direct_conn, env_init ())))"
  by (rule quiet_step, unfold prod.collapse) (rule s_call_close)

lemma quiet_send: "creach quiet_hooks (0, direct_conn, env_init ())
    (0, fst (conn_send quiet_hooks 1 [] 0 (direct_conn, env_init ())), snd (conn_send quiet_hooks 1 [] 0 (direct_conn, env_init ())))"
  by (rule quiet_step, unfold prod.collapse) (rule s_call_send)

text \<open>
  C6: a connection is freed only when nobody can still reach it. In every interleaving of completion
  handlers, sends, closes and resumes, a connection that satisfies \<^verbatim>\<open>reclaimable()\<close> has no request left
  in the kernel and no completion handler running.
\<close>

theorem reclaimable_is_unreferenced:
  assumes "message_handler H"
    and "creach H (0, fresh rate burst limit direct i peer now, e0) (k, c, e)"
    and "conn_reclaimable c"
  shows "c_out c = [] \<and> k = 0"
  using message_handler.reclaim_safe[OF assms(1,2) conn_inv_configure assms(3)] .

theorem reclaimable_is_unreferenced_witness:
  "c_out (fst (conn_close quiet_hooks (direct_conn, env_init ()))) = [] \<and> (0::nat) = 0"
  by (rule reclaimable_is_unreferenced[OF filing.message_handler_axioms quiet_close])
    (simp add: conn_reclaimable_def conn_close_eq conn_new_def conn_configure_def)

text \<open>
  C11: closing a connection leads to its release. From every reachable state in which the connection is
  closed, each step of the worker threads leaves less to do, and running them reaches a state in which
  \<^verbatim>\<open>reclaimable()\<close> holds and no handler is running.
\<close>

theorem closed_connection_becomes_reclaimable:
  assumes H: "message_handler H"
    and reach: "creach H (0, fresh rate burst limit direct i peer now, e0) (k, c, e)" and closed: "c_closed c"
  shows "(\<forall>s'. kstep H (k, c, e) s' \<longrightarrow> c_closed (fst (snd s')) \<and> unfinished s' < unfinished (k, c, e)) \<and>
    (\<exists>c' e'. (kstep H)\<^sup>*\<^sup>* (k, c, e) (0, c', e') \<and> conn_reclaimable c')"
proof -
  have inv: "conn_inv (fst (k, c, e)) (fst (snd (k, c, e)))"
    using message_handler.reach_inv[OF H reach conn_inv_configure] by simp
  show ?thesis
    using message_handler.closed_step[OF H _ inv] message_handler.closed_runs_dry[OF H inv] closed by simp
qed

theorem closed_connection_becomes_reclaimable_witness:
  "\<exists>c' e'. (kstep quiet_hooks)\<^sup>*\<^sup>* (0, conn_close quiet_hooks (direct_conn, env_init ())) (0, c', e') \<and> conn_reclaimable c'"
  using closed_connection_becomes_reclaimable[OF filing.message_handler_axioms quiet_close] by simp

text \<open>
  At most one send is outstanding, and it is the send of the staging buffer: while \<^verbatim>\<open>sending_\<close> is set
  the kernel holds exactly that request, and otherwise it holds none.
\<close>

theorem one_send_in_flight:
  assumes "message_handler H"
    and "creach H (0, fresh rate burst limit direct i peer now, e0) (k, c, e)"
  shows "filter is_send (c_out c) = (if c_sending c then [ReqSend (c_send_staging c)] else [])"
  using message_handler.reach_inv[OF assms conn_inv_configure]
  by (simp add: conn_inv_def conn_core_def requests_ok_def)

theorem one_send_in_flight_witness:
  "filter is_send (c_out (fst (conn_send quiet_hooks 1 [] 0 (direct_conn, env_init ())))) =
    [ReqSend (frame_bytes 1 [])]"
  using one_send_in_flight[OF filing.message_handler_axioms quiet_send]
  by (simp add: conn_send_def conn_send_locked_def conn_post_send_def conn_new_def conn_configure_def
      syscall_def Let_def frame_bytes_def bw_size_def kHeaderSize_def kMaxOutboundBody_def)



text \<open>
  C31: no accepted frame is forgotten. While an open connection has bytes waiting, either a send is in the
  kernel, whose completion goes on with them, or a flush notification is in the completion port.
\<close>

theorem waiting_bytes_have_a_wakeup:
  assumes "message_handler H"
    and "creach H (0, fresh rate burst limit direct i peer now, e0) (k, c, e)"
    and "\<not> c_closed c" "c_send_pending c \<noteq> []"
  shows "ReqSend (c_send_staging c) \<in> set (c_out c) \<or> ReqFlush \<in> set (c_out c)"
proof -
  have inv: "conn_inv k c" using message_handler.reach_inv[OF assms(1,2) conn_inv_configure] .
  then have "c_sending c \<or> c_flush_queued c" using assms(3,4) by (simp add: conn_inv_def wakeup_ok_def)
  then show ?thesis using sending_iff[OF inv] flush_queued_iff[OF inv] by blast
qed

abbreviation notify_conn :: conn where
  "notify_conn \<equiv> fresh 0 0 64 False 1 [] 0"

lemma notify_send: "creach quiet_hooks (0, notify_conn, env_init ())
    (0, fst (conn_send quiet_hooks 1 [] 0 (notify_conn, env_init ())), snd (conn_send quiet_hooks 1 [] 0 (notify_conn, env_init ())))"
  by (rule creach.step[OF creach.start], unfold prod.collapse) (rule s_call_send)

theorem waiting_bytes_have_a_wakeup_witness:
  "let c = fst (conn_send quiet_hooks 1 [] 0 (notify_conn, env_init ()))
   in ReqSend (c_send_staging c) \<in> set (c_out c) \<or> ReqFlush \<in> set (c_out c)"
  unfolding Let_def
  by (rule waiting_bytes_have_a_wakeup[OF filing.message_handler_axioms notify_send])
    (simp_all add: conn_send_def conn_send_locked_def conn_new_def conn_configure_def
      syscall_def Let_def kHeaderSize_def kMaxOutboundBody_def write_header_def store_be32_def)

text \<open>
  With a send limit configured, the bytes a connection holds for a peer that does not read never
  exceed it, the bytes already handed to the kernel included.
\<close>

theorem send_backlog_bounded:
  assumes "message_handler H" "0 < limit"
    and "creach H (0, fresh rate burst limit direct i peer now, e0) (k, c, e)"
  shows "int (length (c_send_pending c) + length (c_send_staging c)) \<le> limit"
proof -
  have "conn_inv k c" using message_handler.reach_inv[OF assms(1,3) conn_inv_configure] .
  moreover have "c_send_limit c = nat limit"
    using message_handler.limit_reach[OF assms(1,3)] assms(2) by (simp add: conn_configure_def)
  ultimately show ?thesis using assms(2) by (auto simp: conn_inv_def conn_core_def staging_ok_def)
qed

theorem send_backlog_bounded_witness:
  "int (length (c_send_pending (fst (conn_send quiet_hooks 1 [] 0 (notify_conn, env_init ())))) +
     length (c_send_staging (fst (conn_send quiet_hooks 1 [] 0 (notify_conn, env_init ()))))) \<le> 64"
  using send_backlog_bounded[OF filing.message_handler_axioms _ notify_send] by simp

text \<open>
  C18: as long as no other thread gets between the two parts of a receive or resume handler, at most one
  receive is in the kernel, its window is the free part of the receive buffer, and the buffer is well formed.
\<close>

theorem one_receive_in_flight:
  assumes "message_handler H"
    and "areach H (snd (conn_start H (fresh rate burst limit direct i peer now, e0))) (c, e)"
  shows "(recvs c = [] \<or> recvs c = [ReqRecv (writable_size (c_recv_buf c))]) \<and> rb_wf (c_recv_buf c)"
proof -
  have "recv_idle (fresh rate burst limit direct i peer now)" "\<not> c_recv_paused (fresh rate burst limit direct i peer now)"
    by (simp_all add: recv_idle_def recvs_def conn_configure_def conn_new_def)
  then have "recv_inv (fst (snd (conn_start H (fresh rate burst limit direct i peer now, e0))))"
    by (rule recv_inv_start)
  moreover have "conn_inv 0 (fst (snd (conn_start H (fresh rate burst limit direct i peer now, e0))))"
    unfolding conn_start_def by (intro conn_post_receive_inv conn_inv_configure)
  ultimately have "recv_inv c" using message_handler.areach_inv[OF assms] by simp
  then show ?thesis by (auto simp: recv_inv_def)
qed

theorem one_receive_in_flight_witness:
  "let c = fst (conn_send quiet_hooks 1 [] 0 (snd (conn_start quiet_hooks (direct_conn, env_init ()))))
   in (recvs c = [] \<or> recvs c = [ReqRecv (writable_size (c_recv_buf c))]) \<and> rb_wf (c_recv_buf c)"
proof -
  let ?s = "snd (conn_start quiet_hooks (direct_conn, env_init ()))"
  have "areach quiet_hooks ?s (fst (conn_send quiet_hooks 1 [] 0 ?s), snd (conn_send quiet_hooks 1 [] 0 ?s))"
    using a_call_send[of quiet_hooks "fst ?s" "snd ?s"] by (auto intro: areach.intros)
  from one_receive_in_flight[OF filing.message_handler_axioms this] show ?thesis by (simp only: Let_def)
qed

text \<open>
  C17: when another thread does get in between, two receives end up in the kernel at once, on the same
  \<^verbatim>\<open>OVERLAPPED\<close> and the same buffer. A worker finds the queue full and pauses the connection; before it
  reaches the check that would post the next receive, the service thread resumes the connection and a
  second worker handles the notification. Then both workers see the connection open and unpaused, and
  both post a receive.
\<close>

theorem pause_and_resume_post_two_receives:
  "\<exists>c e. creach pausing_hooks (0, snd (conn_start pausing_hooks (fresh 0 0 0 False 1 [] 0, env_init True))) (0, c, e) \<and>
     length (recvs c) = 2"
proof -
  obtain ok c0 e0 where st: "conn_start pausing_hooks (fresh 0 0 0 False 1 [] 0, env_init True) = (ok, c0, e0)"
    by (cases "conn_start pausing_hooks (fresh 0 0 0 False 1 [] 0, env_init True)")
  from start_listening[OF pausing_os st] have "listening c0" "rb_readable (c_recv_buf c0) = []" "e_app e0"
    by (simp_all add: env_init_def)
  from race_two_receives[OF this] show ?thesis by (simp add: st)
qed



end
