(* ===== verification/Io_Service.thy ===== *)
theory Io_Service
  imports Connection_Run
begin

text \<open>
  \<^verbatim>\<open>src/src/net/io_service.h\<close> and \<^verbatim>\<open>io_service.cpp\<close>: the table of the connections, and the threads that serve the
  completion port and reclaim connections. The completion port is the set of the requests the connections have
  outstanding (\<open>c_out\<close>). A connection of the table carries the number of handlers that are running on it, as in the theory
  \<open>Connection_Run\<close>. What \<^verbatim>\<open>WSAStartup\<close>, \<^verbatim>\<open>CreateIoCompletionPort\<close> and \<^verbatim>\<open>hardware_concurrency\<close> answer are arguments.

  Three fields are not in the code: \<open>io_gone\<close>, the connections that have left the table and that somebody may still hold,
  each with whether the sweep has taken it out; \<open>io_reserved\<close>, the identifiers given out in advance; and \<open>io_starting\<close>, those
  of the connections in the table whose first receive is not posted yet.
\<close>

section \<open>State\<close>

record io_options =
  op_worker_count :: int
  op_heartbeat_timeout_ms :: int
  op_sweep_interval_ms :: int
  op_max_connections :: int
  op_message_rate_limit :: int
  op_message_burst :: int
  op_send_buffer_limit :: int
  op_direct_send :: bool

definition io_options_default :: io_options where
  "io_options_default = \<lparr>op_worker_count = 0, op_heartbeat_timeout_ms = 30000, op_sweep_interval_ms = 1000,
     op_max_connections = 8192, op_message_rate_limit = 0, op_message_burst = 0, op_send_buffer_limit = 256 * 1024,
     op_direct_send = False\<rparr>"

record 'a io_service =
  io_opt :: io_options
  io_running :: bool
  io_workers :: nat
  io_conns :: "(conn_id \<times> nat \<times> conn) list"
  io_next_id :: conn_id
  io_refused :: u64
  io_env :: "'a io_env"
  io_gone :: "(bool \<times> nat \<times> conn) list"
  io_reserved :: "conn_id list"
  io_starting :: "conn_id list"

definition io_new :: "'a \<Rightarrow> 'a io_service" where
  "io_new a = \<lparr>io_opt = io_options_default, io_running = False, io_workers = 0, io_conns = [], io_next_id = 1, io_refused = 0,
     io_env = env_init a, io_gone = [], io_reserved = [], io_starting = []\<rparr>"

definition decide_worker_count :: "u32 \<Rightarrow> int \<Rightarrow> int" where
  "decide_worker_count hw requested =
     (if requested > 0 then requested else max 2 (min 4 (if hw = 0 then 2 else int (unat hw div 2))))"

definition io_start :: "bool \<Rightarrow> bool \<Rightarrow> u32 \<Rightarrow> io_options \<Rightarrow> 'a io_service \<Rightarrow> bool \<times> 'a io_service" where
  "io_start wsa_ok port_ok hw opt s =
     (if io_running s then (True, s)
      else let s = s\<lparr>io_opt := opt\<rparr> in
        if \<not> wsa_ok \<or> \<not> port_ok then (False, s)
        else (True, s\<lparr>io_running := True, io_workers := nat (decide_worker_count hw (op_worker_count opt))\<rparr>))"

definition set_conn :: "conn_id \<Rightarrow> nat \<times> conn \<Rightarrow> 'a io_env \<Rightarrow> 'a io_service \<Rightarrow> 'a io_service" where
  "set_conn i kc e s = s\<lparr>io_conns := AList.update i kc (io_conns s), io_env := e\<rparr>"

definition io_find :: "conn_id \<Rightarrow> 'a io_service \<Rightarrow> (nat \<times> conn) option" where
  "io_find i s = map_of (io_conns s) i"

definition io_count :: "'a io_service \<Rightarrow> nat" where
  "io_count s = length (io_conns s)"

section \<open>New connections\<close>

definition io_reserve_id :: "'a io_service \<Rightarrow> conn_id \<times> 'a io_service" where
  "io_reserve_id s = (io_next_id s, s\<lparr>io_next_id := io_next_id s + 1\<rparr>)"

text \<open>
  \<^verbatim>\<open>adopt\<close> up to the call of \<open>on_setup\<close>, and its end. Between the two the other threads already see the connection.
\<close>

definition io_register :: "(conn_id \<Rightarrow> 'a \<Rightarrow> 'a) \<Rightarrow> bool \<Rightarrow> bytes \<Rightarrow> conn_id \<Rightarrow> 'a io_service \<Rightarrow> conn_id option \<times> 'a io_service" where
  "io_register on_setup bind_ok peer bound_id s =
     (let already_bound = (bound_id \<noteq> 0);
          (i, s) = (if already_bound then (bound_id, s) else io_reserve_id s);
          c = conn_configure (op_message_rate_limit (io_opt s)) (op_message_burst (io_opt s)) (op_send_buffer_limit (io_opt s))
            (op_direct_send (io_opt s)) (conn_new i peer (e_now (io_env s)))
      in if \<not> already_bound \<and> \<not> bind_ok then (None, s)
         else if op_max_connections (io_opt s) > 0 \<and> io_count s \<ge> nat (op_max_connections (io_opt s)) then
           (None, s\<lparr>io_refused := io_refused s + 1\<rparr>)
         else (Some i, s\<lparr>io_conns := (if io_find i s = None then (i, 0, c) # io_conns s else io_conns s),
           io_env := (io_env s)\<lparr>e_app := on_setup i (e_app (io_env s))\<rparr>\<rparr>))"

text \<open>A connection that is no longer in the table here has been closed, and \<^verbatim>\<open>start\<close> does nothing on it.\<close>

definition io_begin_receive :: "'a conn_hooks \<Rightarrow> conn_id \<Rightarrow> 'a io_service \<Rightarrow> bool \<times> 'a io_service" where
  "io_begin_receive H i s =
     (case io_find i s of
        None \<Rightarrow> (False, s)
      | Some (k, c) \<Rightarrow>
          (case conn_start H (c, io_env s) of
             (True, c, e) \<Rightarrow> (True, set_conn i (k, c) e s)
           | (False, c, e) \<Rightarrow> (False, s\<lparr>io_conns := AList.delete i (io_conns s), io_env := e, io_gone := (False, k, c) # io_gone s\<rparr>)))"

definition io_adopt :: "'a conn_hooks \<Rightarrow> (conn_id \<Rightarrow> 'a \<Rightarrow> 'a) \<Rightarrow> bool \<Rightarrow> bytes \<Rightarrow> conn_id \<Rightarrow> 'a io_service \<Rightarrow> conn_id option \<times> 'a io_service" where
  "io_adopt H on_setup bind_ok peer bound_id s =
     (case io_register on_setup bind_ok peer bound_id s of
        (None, s) \<Rightarrow> (None, s)
      | (Some i, s) \<Rightarrow> (case io_begin_receive H i s of (ok, s) \<Rightarrow> (if ok then Some i else None, s)))"

section \<open>The completion port\<close>

datatype port_op = AcceptOp | ConnectOp | ConnOp io_req

text \<open>What \<^verbatim>\<open>GetQueuedCompletionStatus\<close> returns.\<close>

record port_result =
  pr_rc :: bool
  pr_key :: conn_id
  pr_bytes :: nat
  pr_op :: "port_op option"
  pr_timeout :: bool

definition kExitKey :: conn_id where "kExitKey = 0"

datatype worker_turn = Leave | Again | Handle conn_id port_op nat bool

definition worker_turn :: "bool \<Rightarrow> port_result \<Rightarrow> worker_turn" where
  "worker_turn running r =
     (if pr_rc r then
        (if pr_key r = kExitKey \<and> pr_bytes r = 0 \<and> pr_op r = None then Leave
         else case pr_op r of None \<Rightarrow> Again | Some p \<Rightarrow> Handle (pr_key r) p (pr_bytes r) True)
      else case pr_op r of
        None \<Rightarrow> if pr_timeout r then Again else if \<not> running then Leave else Again
      | Some p \<Rightarrow> Handle (pr_key r) p (pr_bytes r) False)"

text \<open>The handler of a request of a connection; \<open>data\<close> is what the kernel has put into the buffer of a receive.\<close>

definition finish_request :: "'a conn_hooks \<Rightarrow> io_req \<Rightarrow> bytes \<Rightarrow> nat \<Rightarrow> bool \<Rightarrow> 'a cstate \<Rightarrow> 'a cstate" where
  "finish_request H req data n ok = (\<lambda>(c, e).
     case req of
       ReqRecv w \<Rightarrow> conn_on_receive_done H data ok (take_out req c, e)
     | ReqSend b \<Rightarrow> conn_on_send_done H (int n) ok (report_sent n c, e)
     | ReqFlush \<Rightarrow> conn_on_flush H (take_out req c, e)
     | ReqResume \<Rightarrow> conn_on_resume H (take_out req c, e))"

text \<open>The handlers for the requests of the acceptor and of the connector may be unset.\<close>

definition io_dispatch :: "'a conn_hooks \<Rightarrow> (bool \<Rightarrow> 'a io_service \<Rightarrow> 'a io_service) option \<Rightarrow> (bool \<Rightarrow> 'a io_service \<Rightarrow> 'a io_service) option \<Rightarrow>
    conn_id \<Rightarrow> port_op \<Rightarrow> bytes \<Rightarrow> nat \<Rightarrow> bool \<Rightarrow> 'a io_service \<Rightarrow> 'a io_service" where
  "io_dispatch H on_accept on_connect i p data n ok s =
     (case p of
        AcceptOp \<Rightarrow> (case on_accept of None \<Rightarrow> s | Some f \<Rightarrow> f ok s)
      | ConnectOp \<Rightarrow> (case on_connect of None \<Rightarrow> s | Some f \<Rightarrow> f ok s)
      | ConnOp req \<Rightarrow>
          (case io_find i s of
             None \<Rightarrow> s
           | Some (k, c) \<Rightarrow> (case finish_request H req data n ok (c, io_env s) of (c, e) \<Rightarrow> set_conn i (k, c) e s)))"

section \<open>Reclaiming and stopping\<close>

definition expired :: "int \<Rightarrow> io_options \<Rightarrow> conn \<Rightarrow> bool" where
  "expired now opt c \<longleftrightarrow> op_heartbeat_timeout_ms opt > 0 \<and> \<not> c_closed c \<and> now - c_last_active c > op_heartbeat_timeout_ms opt"

text \<open>The part of a sweep under the mutex, with the identifiers of the connections to be closed.\<close>

definition sweep_table :: "int \<Rightarrow> 'a io_service \<Rightarrow> conn_id list \<times> 'a io_service" where
  "sweep_table now s =
     (let kept = filter (\<lambda>(i, k, c). \<not> conn_reclaimable c) (io_conns s);
          dropped = filter (\<lambda>(i, k, c). conn_reclaimable c) (io_conns s)
      in (map fst (filter (\<lambda>(i, k, c). expired now (io_opt s) c) kept),
          s\<lparr>io_conns := kept, io_gone := map (\<lambda>(i, k, c). (True, k, c)) dropped @ io_gone s\<rparr>))"

definition io_close :: "'a conn_hooks \<Rightarrow> conn_id \<Rightarrow> 'a io_service \<Rightarrow> 'a io_service" where
  "io_close H i s =
     (case io_find i s of
        None \<Rightarrow> s
      | Some (k, c) \<Rightarrow> (case conn_close H (c, io_env s) of (c, e) \<Rightarrow> set_conn i (k, c) e s))"

definition io_sweep :: "'a conn_hooks \<Rightarrow> int \<Rightarrow> 'a io_service \<Rightarrow> 'a io_service" where
  "io_sweep H now s = (case sweep_table now s of (ids, s) \<Rightarrow> fold (io_close H) ids s)"

text \<open>
  \<^verbatim>\<open>stop\<close>: the connections are closed, the threads are waited for, and the table is emptied.
\<close>

definition io_stop_begin :: "'a conn_hooks \<Rightarrow> 'a io_service \<Rightarrow> 'a io_service" where
  "io_stop_begin H s = fold (io_close H) (keys (io_conns s)) (s\<lparr>io_running := False\<rparr>)"

definition io_stop_end :: "'a io_service \<Rightarrow> 'a io_service" where
  "io_stop_end s = s\<lparr>io_workers := 0, io_conns := [], io_gone := map (\<lambda>(i, k, c). (False, k, c)) (io_conns s) @ io_gone s\<rparr>"

definition io_stop :: "'a conn_hooks \<Rightarrow> 'a io_service \<Rightarrow> 'a io_service" where
  "io_stop H s = (if \<not> io_running s then s else io_stop_end (io_stop_begin H s))"

text \<open>
  \<^verbatim>\<open>flush_pending\<close> polls: every turn sees the connections of the table and then, if bytes are waiting, the clock. The
  result says whether it has seen none waiting; \<open>None\<close> is a loop that goes on.
\<close>

definition unsent_count :: "conn list \<Rightarrow> nat" where
  "unsent_count cs = length (filter conn_has_unsent (filter (\<lambda>c. \<not> c_closed c) cs))"

fun flush_loop :: "int \<Rightarrow> (conn list \<times> int) list \<Rightarrow> bool option" where
  "flush_loop deadline [] = None"
| "flush_loop deadline ((cs, now) # obs) =
     (if unsent_count cs = 0 then Some True
      else if now \<ge> deadline then Some False
      else flush_loop deadline obs)"

definition io_flush_pending :: "int \<Rightarrow> int \<Rightarrow> (conn list \<times> int) list \<Rightarrow> bool option" where
  "io_flush_pending now timeout_ms obs = flush_loop (now + max 0 timeout_ms) obs"


section \<open>Steps\<close>

text \<open>What a thread may still do with a connection it holds when the table does not have it any more.\<close>

inductive held_step :: "'a conn_hooks \<Rightarrow> 'a crun \<Rightarrow> 'a crun \<Rightarrow> bool" for H :: "'a conn_hooks" where
  g_send: "held_step H (k, c, e) (k, conn_send H m body sz (c, e))"
| g_close: "held_step H (k, c, e) (k, conn_close H (c, e))"
| g_resume: "held_step H (k, c, e) (k, conn_resume_receive H (c, e))"
| g_repost: "held_step H (Suc k, c, e) (k, conn_repost H (c, e))"

text \<open>
  The threads of the process, cut where the mutex of the table is released and as in \<open>Connection_Run\<close>. The completion of a
  request of a connection that is not in the table is dropped (\<open>i_lost\<close>). Identifiers do not run out: \<open>2 ^ 64\<close> are enough.
\<close>

inductive io_step :: "'a conn_hooks \<Rightarrow> (conn_id \<Rightarrow> 'a \<Rightarrow> 'a) \<Rightarrow> 'a io_service \<Rightarrow> 'a io_service \<Rightarrow> bool"
  for H :: "'a conn_hooks" and on_setup :: "conn_id \<Rightarrow> 'a \<Rightarrow> 'a" where
  i_conn: "io_find i s = Some (k, c) \<Longrightarrow> cstep H (k, c, io_env s) (k', c', e') \<Longrightarrow> io_step H on_setup s (set_conn i (k', c') e' s)"
| i_held: "j < length (io_gone s) \<Longrightarrow> io_gone s ! j = (b, k, c) \<Longrightarrow> held_step H (k, c, io_env s) (k', c', e') \<Longrightarrow>
     io_step H on_setup s (s\<lparr>io_gone := (io_gone s)[j := (b, k', c')], io_env := e'\<rparr>)"
| i_lost: "j < length (io_gone s) \<Longrightarrow> io_gone s ! j = (b, k, c) \<Longrightarrow> r \<in> set (c_out c) \<Longrightarrow>
     io_step H on_setup s (s\<lparr>io_gone := (io_gone s)[j := (b, k, take_out r c)]\<rparr>)"
| i_reserve: "io_reserve_id s = (i, s') \<Longrightarrow> io_next_id s + 1 \<noteq> 0 \<Longrightarrow>
     io_step H on_setup s (s'\<lparr>io_reserved := i # io_reserved s'\<rparr>)"
| i_register: "io_register on_setup bind_ok peer i s = (r, s') \<Longrightarrow> i = 0 \<and> io_next_id s + 1 \<noteq> 0 \<or> i \<in> set (io_reserved s) \<Longrightarrow>
     io_step H on_setup s (s'\<lparr>io_reserved := removeAll i (io_reserved s'), io_starting := (case r of None \<Rightarrow> [] | Some i \<Rightarrow> [i]) @ io_starting s'\<rparr>)"
| i_start: "i \<in> set (io_starting s) \<Longrightarrow> io_begin_receive H i s = (ok, s') \<Longrightarrow>
     io_step H on_setup s (s'\<lparr>io_starting := removeAll i (io_starting s')\<rparr>)"
| i_sweep: "sweep_table now s = (ids, s') \<Longrightarrow> io_step H on_setup s s'"
| i_others: "io_step H on_setup s (s\<lparr>io_env := e\<rparr>)"

definition swept_ok :: "nat \<Rightarrow> conn \<Rightarrow> bool" where
  "swept_ok k c \<longleftrightarrow> c_closed c \<and> k = 0 \<and> set (c_out c) \<subseteq> {ReqResume} \<and> (c_out c \<noteq> [] \<longrightarrow> c_recv_paused c)"

definition ids_ok :: "'a io_service \<Rightarrow> bool" where
  "ids_ok s \<longleftrightarrow> distinct (keys (io_conns s)) \<and> 0 < io_next_id s \<and>
     (\<forall>i\<in>set (keys (io_conns s)) \<union> set (io_reserved s). 0 < i \<and> i < io_next_id s) \<and>
     set (keys (io_conns s)) \<inter> set (io_reserved s) = {}"

definition conns_ok :: "'a io_service \<Rightarrow> bool" where
  "conns_ok s \<longleftrightarrow> (\<forall>i k c. io_find i s = Some (k, c) \<longrightarrow> c_id c = i \<and> conn_inv k c) \<and>
     (\<forall>(swept, k, c)\<in>set (io_gone s). swept \<longrightarrow> swept_ok k c)"

definition limit_ok :: "'a io_service \<Rightarrow> bool" where
  "limit_ok s \<longleftrightarrow> (op_max_connections (io_opt s) > 0 \<longrightarrow> int (io_count s) \<le> op_max_connections (io_opt s))"

definition io_inv :: "'a io_service \<Rightarrow> bool" where
  "io_inv s \<longleftrightarrow> ids_ok s \<and> conns_ok s \<and> limit_ok s"

lemmas io_inv_defs = io_inv_def ids_ok_def conns_ok_def limit_ok_def io_find_def io_count_def

lemma io_inv_new: "io_inv (io_new a)"
  by (simp add: io_inv_defs io_new_def)

lemma io_inv_start: "io_conns s = [] \<Longrightarrow> io_inv s \<Longrightarrow> io_inv (snd (io_start w p hw opt s))"
  by (auto simp: io_inv_defs io_start_def Let_def)

lemma io_inv_env [simp]: "io_inv (s\<lparr>io_env := e\<rparr>) = io_inv s" "io_inv (s\<lparr>io_starting := l\<rparr>) = io_inv s"
  by (simp_all add: io_inv_defs)

text \<open>The identifier of a connection never changes.\<close>

lemma c_id_close [simp]: "c_id (fst (conn_close H s)) = c_id (fst s)"
  by (cases s) (simp add: conn_close_eq)

lemma c_id_post_send [simp]: "c_id (fst (conn_post_send H s)) = c_id (fst s)"
  using conn_post_send_rest(1)[of "fst s" H "snd s"] by (simp add: same_rest_def)

lemma c_id_send [simp]: "c_id (fst (conn_send H m body sz s)) = c_id (fst s)"
  using conn_send_rest[where c = "fst s" and H = H and e = "snd s"] by (simp add: same_rest_def)

lemma c_id_resume [simp]: "c_id (fst (conn_resume_receive H s)) = c_id (fst s)"
  by (cases s) (simp add: conn_resume_receive_def syscall_def Let_def)

lemma c_id_post_receive [simp]: "c_id (fst (snd (conn_post_receive H s))) = c_id (fst s)"
  by (cases s; cases rule: conn_post_receive_cases[of H "fst s" "snd s"]) simp_all

lemma c_id_repost [simp]: "c_id (fst (conn_repost H s)) = c_id (fst s)"
  by (cases s) (simp add: conn_repost_def case_prod_beta)

lemma c_id_send_done: "c_id (fst (conn_on_send_done H n ok s)) = c_id (fst s)"
  by (cases s) (auto simp: conn_on_send_done_def Let_def conn_touch_def)

lemma c_id_flush [simp]: "c_id (fst (conn_on_flush H s)) = c_id (fst s)"
  by (cases s) (simp add: conn_on_flush_def case_prod_beta)

context message_handler
begin

lemma c_id_drain: "c_id (fst (conn_drain_frames H c e)) = c_id c"
  using drain_drained[of c e] by (simp add: drained_def same_rest_def)

lemma kstep_id: "kstep H s s' \<Longrightarrow> c_id (fst (snd s')) = c_id (fst (snd s))"
proof (induction rule: kstep.induct)
  case (s_receive_end w c ok data k e)
  then show ?case by (simp add: conn_on_receive_done_def case_prod_beta take_out_def)
qed (simp_all add: receive_part_def resume_part_def c_id_drain c_id_send_done take_out_def report_sent_def conn_touch_def Let_def)

lemma cstep_id: "cstep H s s' \<Longrightarrow> c_id (fst (snd s')) = c_id (fst (snd s))"
  by (induction rule: cstep.induct) (simp_all add: kstep_id)

end

section \<open>The invariant of the table\<close>

lemma keys_found: "io_find i s = Some kc \<Longrightarrow> i \<in> set (keys (io_conns s))"
  by (force simp: io_find_def dest: map_of_SomeD)

lemma io_inv_set_conn:
  assumes inv: "io_inv s" and at: "io_find i s = Some kc" and id: "c_id c = i" and c: "conn_inv k c"
  shows "io_inv (set_conn i (k, c) e s)"
proof -
  have "keys (AList.update i (k, c) (io_conns s)) = keys (io_conns s)"
    using keys_found[OF at] by (simp add: AList.update_keys)
  moreover from this have "length (AList.update i (k, c) (io_conns s)) = length (io_conns s)"
    by (metis length_map)
  ultimately show ?thesis using inv id c by (simp add: io_inv_defs set_conn_def)
qed

lemma io_inv_gone:
  assumes "io_inv s" "\<And>k' c'. (True, k', c') = g \<Longrightarrow> swept_ok k' c'"
  shows "io_inv (s\<lparr>io_gone := (io_gone s)[j := g], io_env := e\<rparr>)"
proof -
  have "set ((io_gone s)[j := g]) \<subseteq> insert g (set (io_gone s))" by (rule set_update_subset_insert)
  with assms show ?thesis by (cases g) (fastforce simp: io_inv_defs)
qed

lemma swept_ok_held: "held_step H (k, c, e) (k', c', e') \<Longrightarrow> swept_ok k c \<Longrightarrow> swept_ok k' c'"
  by (induction "(k, c, e)" "(k', c', e')" rule: held_step.induct)
    (auto simp: swept_ok_def conn_send_def conn_close_def conn_resume_receive_def syscall_def Let_def split: if_splits)

lemma swept_ok_lost: "swept_ok k c \<Longrightarrow> swept_ok k (take_out r c)"
  using set_remove1_subset[of r "c_out c"] by (auto simp: swept_ok_def take_out_def)

lemma reclaimable_swept:
  assumes "conn_inv k c" "conn_reclaimable c"
  shows "swept_ok k c"
proof -
  have "int (length (c_out c)) + int k = 0" using assms by (simp add: conn_reclaimable_def conn_inv_def conn_core_defs)
  then have "length (c_out c) = 0 \<and> k = 0" by linarith
  with assms(2) show ?thesis by (simp add: swept_ok_def conn_reclaimable_def)
qed

lemma io_inv_sweep:
  assumes inv: "io_inv s" and sw: "sweep_table now s = (ids, s')"
  shows "io_inv s'"
proof -
  let ?keep = "\<lambda>(i, k, c). \<not> conn_reclaimable c"
  have s': "s' = s\<lparr>io_conns := filter ?keep (io_conns s),
      io_gone := map (\<lambda>(i, k, c). (True, k, c)) (filter (\<lambda>(i, k, c). conn_reclaimable c) (io_conns s)) @ io_gone s\<rparr>"
    using sw by (simp add: sweep_table_def Let_def)
  have dist: "distinct (keys (io_conns s))" using inv by (simp add: io_inv_defs)
  have "ids_ok s'"
    using inv distinct_map_filter[OF dist, of ?keep] by (auto simp: io_inv_defs s')
  moreover have "conns_ok s'"
  proof -
    have "io_find i s = Some kc" if "io_find i s' = Some kc" for i kc
    proof -
      have "(i, kc) \<in> set (io_conns s')" using that by (simp add: io_find_def map_of_SomeD)
      then have "(i, kc) \<in> set (io_conns s)" by (simp add: s')
      with dist show ?thesis by (simp add: io_find_def)
    qed
    moreover have "swept_ok k c" if "(i, k, c) \<in> set (io_conns s)" "conn_reclaimable c" for i k c
    proof (rule reclaimable_swept[OF _ that(2)])
      have "io_find i s = Some (k, c)" using dist that(1) by (simp add: io_find_def)
      then show "conn_inv k c" using inv by (simp add: io_inv_def conns_ok_def)
    qed
    then have "\<forall>(swept, k, c)\<in>set (io_gone s'). swept \<longrightarrow> swept_ok k c"
      using inv by (auto simp: s' io_inv_def conns_ok_def)
    ultimately show ?thesis using inv unfolding io_inv_def conns_ok_def by blast
  qed
  moreover have "io_opt s' = io_opt s" "io_count s' \<le> io_count s" by (simp_all add: s' io_count_def)
  then have "limit_ok s'" using inv by (auto simp: io_inv_def limit_ok_def)
  ultimately show ?thesis by (simp add: io_inv_def)
qed

lemma less_next: "n + 1 \<noteq> (0 :: 'a :: len word) \<Longrightarrow> x < n + 1 \<longleftrightarrow> x \<le> n"
  using unatSuc[of n] by (simp add: word_less_nat_alt word_le_nat_alt add.commute less_Suc_eq_le)

lemma io_inv_reserve:
  assumes inv: "io_inv s" and r: "io_reserve_id s = (i, s')" and more: "io_next_id s + 1 \<noteq> 0"
  shows "io_inv s'" "i = io_next_id s" "io_conns s' = io_conns s" "i \<notin> set (keys (io_conns s)) \<union> set (io_reserved s)"
    "0 < i" "i < io_next_id s'"
proof -
  show i: "i = io_next_id s" "io_conns s' = io_conns s" using r by (auto simp: io_reserve_id_def)
  show "i \<notin> set (keys (io_conns s)) \<union> set (io_reserved s)" "0 < i"
    using inv unfolding i io_inv_def ids_ok_def by blast+
  have s': "s' = s\<lparr>io_next_id := io_next_id s + 1\<rparr>" using r by (auto simp: io_reserve_id_def)
  then show "i < io_next_id s'" using less_next[OF more] i by simp
  have "0 < io_next_id s + 1" using more by (simp add: word_gt_0)
  moreover have "\<forall>j\<in>set (keys (io_conns s)) \<union> set (io_reserved s). 0 < j \<and> j < io_next_id s + 1"
    using inv less_next[OF more] unfolding io_inv_def ids_ok_def by (blast intro: less_imp_le)
  moreover have "conns_ok s' = conns_ok s" "limit_ok s' = limit_ok s"
    by (simp_all add: s' conns_ok_def limit_ok_def io_find_def io_count_def)
  ultimately show "io_inv s'"
    using inv by (simp add: io_inv_def ids_ok_def s')
qed

lemma io_inv_reserved:
  assumes "io_inv s" "0 < i" "i < io_next_id s" "i \<notin> set (keys (io_conns s))"
  shows "io_inv (s\<lparr>io_reserved := i # io_reserved s\<rparr>)"
  using assms by (auto simp: io_inv_defs)

text \<open>Registering: a table that is full or a socket that cannot be bound changes nothing but the counters.\<close>

lemma io_register_cases:
  assumes r: "io_register on_setup bind_ok peer b s = (r, s')"
  defines "i \<equiv> if b = 0 then io_next_id s else b"
    and "s1 \<equiv> if b = 0 then snd (io_reserve_id s) else s"
  obtains (refused) n where "r = None" "s' = s1\<lparr>io_refused := n\<rparr>"
  | (taken) e where "r = Some i" "\<not> (op_max_connections (io_opt s) > 0 \<and> io_count s \<ge> nat (op_max_connections (io_opt s)))"
      "s' = s1\<lparr>io_conns := (if io_find i s = None then (i, 0, fresh (op_message_rate_limit (io_opt s)) (op_message_burst (io_opt s))
         (op_send_buffer_limit (io_opt s)) (op_direct_send (io_opt s)) i peer (e_now (io_env s))) # io_conns s else io_conns s), io_env := e\<rparr>"
proof -
  have s1: "io_opt s1 = io_opt s" "io_conns s1 = io_conns s" "io_env s1 = io_env s" "io_refused s1 = io_refused s" "io_count s1 = io_count s"
    "io_find j s1 = io_find j s" for j
    by (simp_all add: s1_def io_reserve_id_def io_count_def io_find_def)
  have u: "io_register on_setup bind_ok peer b s =
      (if b = 0 \<and> \<not> bind_ok then (None, s1)
       else if op_max_connections (io_opt s1) > 0 \<and> io_count s1 \<ge> nat (op_max_connections (io_opt s1)) then
         (None, s1\<lparr>io_refused := io_refused s1 + 1\<rparr>)
       else (Some i, s1\<lparr>io_conns := (if io_find i s1 = None then (i, 0, fresh (op_message_rate_limit (io_opt s1)) (op_message_burst (io_opt s1))
         (op_send_buffer_limit (io_opt s1)) (op_direct_send (io_opt s1)) i peer (e_now (io_env s1))) # io_conns s1 else io_conns s1),
         io_env := (io_env s1)\<lparr>e_app := on_setup i (e_app (io_env s1))\<rparr>\<rparr>))"
    by (simp add: io_register_def i_def s1_def io_reserve_id_def Let_def)
  note u = u[unfolded s1]
  have eta: "s1 = s1\<lparr>io_refused := io_refused s1\<rparr>" by simp
  consider "b = 0 \<and> \<not> bind_ok" | "\<not> (b = 0 \<and> \<not> bind_ok)" "op_max_connections (io_opt s) > 0 \<and> io_count s \<ge> nat (op_max_connections (io_opt s))"
    | "\<not> (b = 0 \<and> \<not> bind_ok)" "\<not> (op_max_connections (io_opt s) > 0 \<and> io_count s \<ge> nat (op_max_connections (io_opt s)))" by blast
  then show ?thesis
  proof cases
    case 1
    then show ?thesis using r u eta by (intro refused[of "io_refused s1"]) auto
  next
    case 2
    then show ?thesis using r u by (intro refused[of "io_refused s + 1"]) auto
  next
    case 3
    then show ?thesis using r u by (intro taken[of "(io_env s)\<lparr>e_app := on_setup i (e_app (io_env s))\<rparr>"]) auto
  qed
qed

lemma io_inv_insert:
  assumes inv: "io_inv s" and j: "0 < j" "j < io_next_id s" "j \<notin> set (keys (io_conns s))"
    and c: "conn_inv 0 c" "c_id c = j"
    and room: "\<not> (op_max_connections (io_opt s) > 0 \<and> io_count s \<ge> nat (op_max_connections (io_opt s)))"
  shows "io_inv (s\<lparr>io_conns := (j, 0, c) # io_conns s, io_env := e, io_reserved := removeAll j (io_reserved s)\<rparr>)"
proof -
  let ?s = "s\<lparr>io_conns := (j, 0, c) # io_conns s, io_env := e, io_reserved := removeAll j (io_reserved s)\<rparr>"
  have "ids_ok ?s" using inv j unfolding io_inv_def ids_ok_def by auto
  moreover have "conns_ok ?s" using inv c unfolding io_inv_def conns_ok_def by (simp add: io_find_def)
  moreover have "limit_ok ?s" using room by (auto simp: limit_ok_def io_count_def)
  ultimately show ?thesis by (simp add: io_inv_def)
qed

lemma conn_inv_fresh: "conn_inv 0 (fresh rate burst limit direct i peer now)" "c_id (fresh rate burst limit direct i peer now) = i"
  by (rule conn_inv_configure) (simp add: conn_configure_def conn_new_def)

lemma io_inv_register:
  assumes inv: "io_inv s" and r: "io_register on_setup bind_ok peer b s = (r, s')"
    and b: "b = 0 \<and> io_next_id s + 1 \<noteq> 0 \<or> b \<in> set (io_reserved s)"
  shows "io_inv (s'\<lparr>io_reserved := removeAll b (io_reserved s')\<rparr>)"
proof -
  define s1 where "s1 = (if b = 0 then snd (io_reserve_id s) else s)"
  define i where "i = (if b = 0 then io_next_id s else b)"
  have res: "\<forall>j\<in>set (io_reserved s). 0 < j \<and> j < io_next_id s \<and> j \<notin> set (keys (io_conns s))"
    using inv unfolding io_inv_def ids_ok_def by blast
  then have zero: "0 \<notin> set (io_reserved s)" by auto
  have s1: "io_inv s1" "io_conns s1 = io_conns s" "0 < i" "i < io_next_id s1" "i \<notin> set (keys (io_conns s))"
    "io_reserved s1 = io_reserved s" "io_opt s1 = io_opt s" "io_count s1 = io_count s"
    "removeAll b (io_reserved s) = removeAll i (io_reserved s)"
  proof -
    show "io_reserved s1 = io_reserved s" "io_opt s1 = io_opt s" "io_count s1 = io_count s" "io_conns s1 = io_conns s"
      by (simp_all add: s1_def io_reserve_id_def io_count_def)
    show "removeAll b (io_reserved s) = removeAll i (io_reserved s)"
    proof (cases "b = 0")
      case True
      have "io_next_id s \<notin> set (io_reserved s)" using res by auto
      then show ?thesis using zero True by (simp add: i_def removeAll_id)
    qed (simp add: i_def)
    have "io_inv s1 \<and> 0 < i \<and> i < io_next_id s1 \<and> i \<notin> set (keys (io_conns s))"
    proof (cases "b = 0")
      case True
      with b zero have more: "io_next_id s + 1 \<noteq> 0" by auto
      from io_inv_reserve[OF inv surjective_pairing more] True
      show "io_inv s1 \<and> 0 < i \<and> i < io_next_id s1 \<and> i \<notin> set (keys (io_conns s))"
        unfolding s1_def i_def by (simp add: io_reserve_id_def)
    next
      case False
      with b have "b \<in> set (io_reserved s)" by simp
      with res inv False show "io_inv s1 \<and> 0 < i \<and> i < io_next_id s1 \<and> i \<notin> set (keys (io_conns s))"
        unfolding s1_def i_def by simp
    qed
    then show "io_inv s1" "0 < i" "i < io_next_id s1" "i \<notin> set (keys (io_conns s))" by blast+
  qed
  have rem: "io_inv (s1\<lparr>io_refused := n, io_reserved := removeAll b (io_reserved s1)\<rparr>)" for n
    using s1(1) unfolding io_inv_defs by auto
  show ?thesis
  proof (cases rule: io_register_cases[OF r, folded s1_def i_def, case_names refused taken])
    case (refused n)
    then show ?thesis using rem by simp
  next
    case (taken e)
    have "io_find i s = None" using s1(5) by (simp add: io_find_def map_of_eq_None_iff)
    then show ?thesis
      using io_inv_insert[OF s1(1,3,4) _ conn_inv_fresh, of e] s1 taken by simp
  qed
qed

lemma io_inv_begin_receive:
  assumes inv: "io_inv s" and r: "io_begin_receive H i s = (ok, s')"
  shows "io_inv s'"
proof (cases "io_find i s")
  case None
  then show ?thesis using inv r by (simp add: io_begin_receive_def)
next
  case (Some kc)
  obtain k c where kc: "kc = (k, c)" by (cases kc)
  obtain b c1 e1 where st: "conn_start H (c, io_env s) = (b, c1, e1)" by (cases "conn_start H (c, io_env s)")
  have c: "c_id c = i" "conn_inv k c" using inv Some kc unfolding io_inv_def conns_ok_def by blast+
  have c1: "c_id c1 = i" "conn_inv k c1"
    using c st c_id_post_receive[of H "(c, io_env s)"] conn_post_receive_inv[OF c(2), of H "io_env s"]
    by (simp_all add: conn_start_def)
  show ?thesis
  proof (cases b)
    case True
    then show ?thesis using io_inv_set_conn[OF inv Some c1, of e1] r Some kc st by (auto simp: io_begin_receive_def)
  next
    case False
    then have s': "s' = s\<lparr>io_conns := AList.delete i (io_conns s), io_env := e1, io_gone := (False, k, c1) # io_gone s\<rparr>"
      using r Some kc st by (simp add: io_begin_receive_def)
    have d: "distinct (keys (io_conns s))" using inv by (simp add: io_inv_def ids_ok_def)
    have "ids_ok s'" using inv d unfolding s' io_inv_def ids_ok_def
      by (auto simp: AList.delete_keys distinct_removeAll)
    moreover have "conns_ok s'" using inv unfolding s' io_inv_def conns_ok_def by (simp add: io_find_def)
    moreover have "limit_ok s'" using inv length_delete[OF d, of i] unfolding s' io_inv_def limit_ok_def by (auto simp: io_count_def split: if_splits)
    ultimately show ?thesis by (simp add: io_inv_def)
  qed
qed

context message_handler
begin

lemma io_inv_step: "io_step H on_setup s s' \<Longrightarrow> io_inv s \<Longrightarrow> io_inv s'"
proof (induction rule: io_step.induct)
  case (i_conn i s k c k' c' e')
  have "c_id c = i" "conn_inv k c" using i_conn(1,3) unfolding io_inv_def conns_ok_def by blast+
  with step_inv[OF i_conn(2)] cstep_id[OF i_conn(2)] show ?case
    by (intro io_inv_set_conn[OF i_conn(3,1)]) simp_all
next
  case (i_held j s b k c k' c' e')
  have "(b, k, c) \<in> set (io_gone s)" using i_held(1,2) nth_mem by metis
  then have "b \<longrightarrow> swept_ok k c" using i_held(4) unfolding io_inv_def conns_ok_def by blast
  with swept_ok_held[OF i_held(3)] show ?case by (intro io_inv_gone[OF i_held(4)]) simp
next
  case (i_lost j s b k c r)
  have "(b, k, c) \<in> set (io_gone s)" using i_lost(1,2) nth_mem by metis
  then have "b \<longrightarrow> swept_ok k c" using i_lost(4) unfolding io_inv_def conns_ok_def by blast
  then show ?case using io_inv_gone[OF i_lost(4), of "(b, k, take_out r c)" "io_env s" j] by (simp add: swept_ok_lost)
next
  case (i_reserve s i s')
  from io_inv_reserve[OF i_reserve(3,1,2)] show ?case by (intro io_inv_reserved) auto
next
  case (i_register bind_ok peer i s r s')
  from io_inv_register[OF i_register(3,1,2)] show ?case by simp
next
  case (i_start i s ok s')
  from io_inv_begin_receive[OF i_start(3,2)] show ?case by simp
next
  case (i_sweep now s ids s')
  from io_inv_sweep[OF i_sweep(2,1)] show ?case .
qed simp

lemma io_inv_run: "(io_step H on_setup)\<^sup>*\<^sup>* s s' \<Longrightarrow> io_inv s \<Longrightarrow> io_inv s'"
  by (induction rule: rtranclp_induct) (auto intro: io_inv_step)

end

section \<open>One sweep, and one completion\<close>

lemma sweep_found:
  assumes "distinct (keys (io_conns s))" "sweep_table now s = (ids, s')"
  shows "io_find i s' = (case io_find i s of None \<Rightarrow> None | Some (k, c) \<Rightarrow> if conn_reclaimable c then None else Some (k, c)) \<and>
    (i \<in> set ids \<longleftrightarrow> (\<exists>k c. io_find i s = Some (k, c) \<and> \<not> conn_reclaimable c \<and> expired now (io_opt s) c)) \<and> distinct ids"
proof -
  let ?keep = "\<lambda>(i, k, c). \<not> conn_reclaimable c"
  have s': "io_conns s' = filter ?keep (io_conns s)"
    "ids = map fst (filter (\<lambda>(i, k, c). expired now (io_opt s) c) (filter ?keep (io_conns s)))"
    using assms(2) by (auto simp: sweep_table_def Let_def)
  have mem: "(i, k, c) \<in> set (io_conns s) \<longleftrightarrow> io_find i s = Some (k, c)" for i k c
    using assms(1) by (simp add: io_find_def)
  have d': "distinct (keys (io_conns s'))" unfolding s' by (rule distinct_map_filter[OF assms(1)])
  have mem': "io_find i s' = Some (k, c) \<longleftrightarrow> io_find i s = Some (k, c) \<and> \<not> conn_reclaimable c" for k c
    using d' mem[of i k c] by (auto simp: io_find_def s'(1))
  have "io_find i s' = (case io_find i s of None \<Rightarrow> None | Some (k, c) \<Rightarrow> if conn_reclaimable c then None else Some (k, c))"
  proof (cases "io_find i s'")
    case (Some kc)
    then show ?thesis using mem'[of "fst kc" "snd kc"] by (auto split: prod.splits)
  next
    case None
    then show ?thesis using mem' by (cases "io_find i s") auto
  qed
  moreover have "distinct ids" unfolding s'(2) filter_filter by (rule distinct_map_filter[OF assms(1)])
  moreover have "i \<in> set ids \<longleftrightarrow> (\<exists>k c. (i, k, c) \<in> set (io_conns s) \<and> \<not> conn_reclaimable c \<and> expired now (io_opt s) c)"
    by (force simp: s'(2))
  ultimately show ?thesis by (simp add: mem)
qed

abbreviation shut :: "conn \<Rightarrow> conn" where
  "shut c \<equiv> c\<lparr>c_closed := True, c_socket := False\<rparr>"

lemma io_close_found:
  "io_find j (io_close H i s) = (case io_find j s of None \<Rightarrow> None
     | Some (k, c) \<Rightarrow> Some (k, if j = i \<and> \<not> c_closed c then shut c else c))"
proof (cases "io_find i s")
  case (Some kc)
  then show ?thesis
    by (cases kc) (auto simp: io_close_def conn_close_eq set_conn_def io_find_def split: option.splits)
qed (auto simp: io_close_def split: option.splits)

lemma fold_close_found:
  "distinct ids \<Longrightarrow> io_find j (fold (io_close H) ids s) = (case io_find j s of None \<Rightarrow> None
     | Some (k, c) \<Rightarrow> Some (k, if j \<in> set ids \<and> \<not> c_closed c then shut c else c))"
  by (induction ids arbitrary: s) (auto simp: io_close_found split: option.splits)

context message_handler
begin

lemma dispatch_steps:
  assumes at: "io_find i s = Some (k, c)" and out: "req \<in> set (c_out c)" and inv: "conn_inv k c"
    and data: "\<And>w. req = ReqRecv w \<Longrightarrow> int (length data) \<le> w" and n: "n \<le> length (c_send_staging c)"
  shows "(io_step H on_setup)\<^sup>*\<^sup>* s (io_dispatch H fa fc i (ConnOp req) data n ok s)"
proof -
  obtain c' e' where fin: "finish_request H req data n ok (c, io_env s) = (c', e')" by fastforce
  have one: "(io_step H on_setup)\<^sup>*\<^sup>* s (set_conn i (k, c') e' s)" if "cstep H (k, c, io_env s) (k, c', e')"
    using i_conn[OF at that] by blast
  have two: "(io_step H on_setup)\<^sup>*\<^sup>* s (set_conn i (k, c') e' s)"
    if s1: "cstep H (k, c, io_env s) (k1, c1, e1)" and s2: "cstep H (k1, c1, e1) (k, c', e')" for k1 c1 e1
  proof -
    let ?s1 = "set_conn i (k1, c1) e1 s"
    have "io_find i ?s1 = Some (k1, c1)" "io_env ?s1 = e1" by (simp_all add: set_conn_def io_find_def)
    with s2 have "io_step H on_setup ?s1 (set_conn i (k, c') e' ?s1)" using i_conn[of i ?s1 k1 c1] by simp
    moreover have "set_conn i (k, c') e' ?s1 = set_conn i (k, c') e' s" by (simp add: set_conn_def AList.update_Some_unfold)
    ultimately show ?thesis using i_conn[OF at s1, of on_setup] by (simp add: rtranclp.rtrancl_into_rtrancl r_into_rtranclp)
  qed
  have "(io_step H on_setup)\<^sup>*\<^sup>* s (set_conn i (k, c') e' s)"
  proof (cases req)
    case (ReqRecv w)
    show ?thesis
    proof (cases "\<not> ok \<or> data = []")
      case True
      then show ?thesis
        using one[OF s_kernel] s_receive_end[of w c ok data H k "io_env s"] fin out ReqRecv by (simp add: finish_request_def)
    next
      case False
      obtain c1 e1 where p: "receive_part H data (take_out (ReqRecv w) c, io_env s) = (c1, e1)" by fastforce
      have "cstep H (k, c, io_env s) (Suc k, c1, e1)"
        using s_kernel[OF s_receive[of w c data H k "io_env s"]] False out ReqRecv data p by simp
      moreover have "cstep H (Suc k, c1, e1) (k, c', e')"
        using s_kernel[OF s_repost[of H k c1 e1]] fin ReqRecv False p by (simp add: finish_request_def conn_on_receive_done_def)
      ultimately show ?thesis by (rule two)
    qed
  next
    case (ReqSend b)
    then have "c_send_staging c = b" using sending_iff[OF inv] out by simp
    then show ?thesis
      using one[OF s_kernel] s_sent[of c n H k "io_env s" ok] n fin out ReqSend by (simp add: finish_request_def)
  next
    case ReqFlush
    then show ?thesis using one[OF s_kernel] s_flush[of c H k "io_env s"] fin out by (simp add: finish_request_def)
  next
    case ReqResume
    obtain c1 e1 where p: "resume_part H (take_out ReqResume c, io_env s) = (c1, e1)" by fastforce
    have "cstep H (k, c, io_env s) (Suc k, c1, e1)"
      using s_kernel[OF s_resume[of c H k "io_env s"]] out ReqResume p by simp
    moreover have "cstep H (Suc k, c1, e1) (k, c', e')"
      using s_kernel[OF s_repost[of H k c1 e1]] fin ReqResume p by (simp add: finish_request_def conn_on_resume_def)
    ultimately show ?thesis by (rule two)
  qed
  then show ?thesis using at fin by (simp add: io_dispatch_def)
qed

end

section \<open>Connections freed with a request in flight\<close>

abbreviation silent :: "conn_id \<Rightarrow> 'a \<Rightarrow> 'a" where
  "silent \<equiv> \<lambda>_ a. a"

abbreviation started :: "bool \<Rightarrow> bool \<Rightarrow> u32 \<Rightarrow> io_options \<Rightarrow> 'a \<Rightarrow> 'a io_service" where
  "started w p hw opt a \<equiv> snd (io_start w p hw opt (io_new a))"

text \<open>A service with one connection, number 1.\<close>

definition with_one :: "nat \<Rightarrow> conn \<Rightarrow> 'a io_env \<Rightarrow> conn_id list \<Rightarrow> 'a io_service \<Rightarrow> 'a io_service" where
  "with_one k c e starting s = s\<lparr>io_next_id := 2, io_starting := starting, io_conns := [(1, k, c)], io_env := e\<rparr>"

abbreviation accepted :: conn where
  "accepted \<equiv> fresh 0 0 (256 * 1024) False 1 [] 0"

lemma one_registered:
  fixes a :: 'a
  defines "s0 \<equiv> started True True 8 io_options_default a"
  shows "io_step H silent s0 (with_one 0 accepted (env_init a) [1] s0)"
proof -
  have "io_register silent True [] 0 s0 = (Some 1, (with_one 0 accepted (env_init a) [] s0)\<lparr>io_starting := io_starting s0\<rparr>)"
    by (simp add: io_register_def io_reserve_id_def s0_def io_start_def io_new_def with_one_def io_options_default_def
        io_count_def io_find_def env_init_def)
  from i_register[OF this, of H] show ?thesis
    by (simp add: s0_def io_start_def io_new_def with_one_def)
qed

lemma one_run: "(io_step H silent)\<^sup>*\<^sup>* (started True True 8 io_options_default a)
    (with_one 0 accepted (env_init a) [1] (started True True 8 io_options_default a))"
  by (rule r_into_rtranclp, rule one_registered)

lemma with_one_starting: "(with_one k c e l s)\<lparr>io_starting := l'\<rparr> = with_one k c e l' s"
  by (cases s) (simp add: with_one_def)

lemma one_step:
  assumes "cstep H (k, c, e) (k', c', e')"
  shows "io_step H silent (with_one k c e l s) (with_one k' c' e' l s)"
proof -
  have "io_find 1 (with_one k c e l s) = Some (k, c)" "io_env (with_one k c e l s) = e" by (simp_all add: with_one_def io_find_def)
  from i_conn[OF this(1), of H k' c' e' silent] assms this(2) show ?thesis by (simp add: set_conn_def with_one_def)
qed

lemma one_started:
  assumes "conn_start H (c, e) = (True, c', e')"
  shows "io_step H silent (with_one k c e [1] s) (with_one k c' e' [] s)"
proof -
  have at: "io_starting (with_one k c e l s) = l" "io_find 1 (with_one k c e l s) = Some (k, c)" "io_env (with_one k c e l s) = e"
    "set_conn 1 (k, c') e' (with_one k c e l s) = with_one k c' e' l s" for k c e l
    by (simp_all add: with_one_def io_find_def set_conn_def)
  have "io_begin_receive H 1 (with_one k c e [1] s) = (True, with_one k c' e' [1] s)"
    using assms by (simp add: io_begin_receive_def at)
  from i_start[OF _ this, of silent] show ?thesis by (simp add: at with_one_starting)
qed

text \<open>A worker receives a frame that finds the queue full, and then posts no further receive.\<close>

lemma one_paused:
  assumes c0: "listening c0" "rb_readable (c_recv_buf c0) = []" "e_app e0" "c_out c0 = [ReqRecv (writable_size (c_recv_buf c0))]" "c_pending c0 = 1"
  obtains c1 where "(io_step pausing_hooks silent)\<^sup>*\<^sup>* (with_one 0 c0 e0 l s) (with_one 0 c1 e0 l s)"
    "c_recv_paused c1" "\<not> c_closed c1" "\<not> c_resume_queued c1" "c_out c1 = []" "c_pending c1 = 0"
proof -
  let ?H = pausing_hooks and ?w = "writable_size (c_recv_buf c0)"
  obtain c1 where c1: "receive_part ?H (frame_bytes 1 []) (take_out (ReqRecv ?w) c0, e0) = (c1, e0)" "c_recv_paused c1" "\<not> c_closed c1"
    "\<not> c_resume_queued c1" "c_out c1 = remove1 (ReqRecv ?w) (c_out c0)" "c_pending c1 = c_pending c0"
    using pausing_receive[OF c0(1-3), of 1] by blast
  have out: "c_out c1 = []" "c_pending c1 = 1" using c1(5,6) c0(4,5) by simp_all
  have len: "length (frame_bytes 1 []) = 6" by (simp add: length_frame_bytes kHeaderSize_def)
  then have ne: "frame_bytes 1 [] \<noteq> []" by (metis length_0_conv zero_neq_numeral)
  have "int (length (frame_bytes 1 [])) \<le> ?w" using c0(1) len by (simp add: listening_def kMinFree_def)
  with ne have "cstep ?H (0, c0, e0) (1, c1, e0)"
    using s_kernel[OF s_receive[of ?w c0 "frame_bytes 1 []" ?H 0 e0]] c0(4) c1(1) by simp
  from one_step[OF this, of l s] have 1: "io_step ?H silent (with_one 0 c0 e0 l s) (with_one 1 c1 e0 l s)" .
  let ?c2 = "c1\<lparr>c_pending := 0\<rparr>"
  have "conn_repost ?H (c1, e0) = (?c2, e0)" using c1(2) out(2) by (simp add: conn_repost_def)
  then have "cstep ?H (1, c1, e0) (0, ?c2, e0)"
    using s_kernel[OF s_repost[of ?H 0 c1 e0]] by simp
  from one_step[OF this, of l s] 1 have "(io_step ?H silent)\<^sup>*\<^sup>* (with_one 0 c0 e0 l s) (with_one 0 ?c2 e0 l s)"
    by (simp add: rtranclp.rtrancl_into_rtrancl r_into_rtranclp)
  then show ?thesis by (rule that) (use c1 out in simp_all)
qed

lemma one_swept:
  assumes "c_closed c" "c_pending c = 0" "io_gone s = []"
  shows "io_step H silent (with_one 0 c e l s) ((with_one 0 c e l s)\<lparr>io_conns := [], io_gone := [(True, 0, c)]\<rparr>)"
  using assms by (intro i_sweep[where now = 0 and ids = "[]"]) (simp add: sweep_table_def with_one_def conn_reclaimable_def)

lemma gone_step:
  assumes "io_gone s = [(b, k, c)]" "held_step H (k, c, io_env s) (k', c', e')"
  shows "io_step H silent s (s\<lparr>io_gone := [(b, k', c')], io_env := e'\<rparr>)"
  using i_held[of 0 s b k c H k' c' e' silent] assms by simp

lemma resume_after_sweep:
  "\<exists>s c. (io_step pausing_hooks silent)\<^sup>*\<^sup>* (started True True 8 io_options_default True) s \<and>
     (True, 0, c) \<in> set (io_gone s) \<and> ReqResume \<in> set (c_out c)"
proof -
  define s0 where "s0 = started True True 8 io_options_default True"
  have gone: "io_gone s0 = []" by (simp add: s0_def io_start_def io_new_def)
  let ?H = pausing_hooks and ?step = "io_step pausing_hooks silent"
  obtain ok c0 e0 where st: "conn_start ?H (accepted, env_init True) = (ok, c0, e0)" by (cases "conn_start ?H (accepted, env_init True)")
  from start_listening[OF pausing_os st] have c0: "ok" "listening c0" "rb_readable (c_recv_buf c0) = []" "e_app e0"
    "c_out c0 = [ReqRecv (writable_size (c_recv_buf c0))]" "c_pending c0 = 1" by (simp_all add: env_init_def)
  have r0: "?step\<^sup>*\<^sup>* s0 (with_one 0 c0 e0 [] s0)"
    using one_run[of ?H True] one_started[of ?H accepted "env_init True" c0 e0 0 s0] st c0(1)
    by (simp add: s0_def rtranclp.rtrancl_into_rtrancl)
  obtain c1 where r1: "?step\<^sup>*\<^sup>* (with_one 0 c0 e0 [] s0) (with_one 0 c1 e0 [] s0)"
    and c1: "c_recv_paused c1" "\<not> c_closed c1" "\<not> c_resume_queued c1" "c_out c1 = []" "c_pending c1 = 0"
    using one_paused[OF c0(2-6)] by blast
  have "cstep ?H (0, c1, e0) (0, shut c1, e0)"
    using s_call_close[of ?H 0 c1 e0] c1(2) by (simp add: conn_close_eq pausing_hooks_def)
  then have r2: "?step (with_one 0 c1 e0 [] s0) (with_one 0 (shut c1) e0 [] s0)" by (rule one_step)
  let ?s3 = "(with_one 0 (shut c1) e0 [] s0)\<lparr>io_conns := [], io_gone := [(True, 0, shut c1)]\<rparr>"
  have r3: "?step (with_one 0 (shut c1) e0 [] s0) ?s3" using c1(5) gone by (intro one_swept) simp_all
  let ?c4 = "(shut c1)\<lparr>c_resume_queued := True, c_pending := 1, c_out := [ReqResume]\<rparr>" and ?e4 = "e0\<lparr>e_calls := Suc (e_calls e0)\<rparr>"
  have "held_step ?H (0, shut c1, e0) (0, ?c4, ?e4)"
    using g_resume[of ?H 0 "shut c1" e0] c1 by (simp add: conn_resume_receive_def syscall_def Let_def)
  then have r4: "?step ?s3 (?s3\<lparr>io_gone := [(True, 0, ?c4)], io_env := ?e4\<rparr>)"
    by (intro gone_step) (simp_all add: with_one_def)
  define s4 where "s4 = ?s3\<lparr>io_gone := [(True, 0, ?c4)], io_env := ?e4\<rparr>"
  have "?step\<^sup>*\<^sup>* s0 (with_one 0 (shut c1) e0 [] s0)" by (rule rtranclp.rtrancl_into_rtrancl[OF rtranclp_trans[OF r0 r1] r2])
  then have "?step\<^sup>*\<^sup>* s0 ?s3" using r3 by (rule rtranclp.rtrancl_into_rtrancl)
  then have "?step\<^sup>*\<^sup>* s0 s4" using r4 unfolding s4_def by (rule rtranclp.rtrancl_into_rtrancl)
  moreover have "(True, 0, ?c4) \<in> set (io_gone s4)" by (simp add: s4_def)
  ultimately show ?thesis unfolding s0_def by (intro exI[of _ s4] exI[of _ ?c4] conjI) simp_all
qed

text \<open>An operating system that accepts the first call only.\<close>

definition one_call_hooks :: "unit conn_hooks" where
  "one_call_hooks = (filing_hooks (\<lambda>_ a. a) (\<lambda>_ a. a))\<lparr>h_os := (\<lambda>n. n = 0)\<rparr>"

lemma start_refused:
  assumes "\<not> h_os H (e_calls e)"
  shows "\<exists>c' e'. conn_start H (c, e) = (False, c', e') \<and> c_out c' = c_out c"
  using assms by (cases "rb_reserve_free 0 (c_recv_buf c)")
    (auto simp: conn_start_def conn_post_receive_def syscall_def Let_def conn_close_eq)

lemma failed_start_drops:
  fixes s0 defines "s0 \<equiv> started True True 8 io_options_default ()"
  shows "\<exists>s c. (io_step one_call_hooks silent)\<^sup>*\<^sup>* s0 s \<and> (False, 0, c) \<in> set (io_gone s) \<and> ReqFlush \<in> set (c_out c)"
proof -
  let ?H = one_call_hooks and ?run = "(io_step one_call_hooks silent)\<^sup>*\<^sup>* s0"
  have r0: "?run (with_one 0 accepted (env_init ()) [1] s0)" unfolding s0_def by (rule one_run)
  obtain c1 e1 where c1: "conn_send ?H 1 [] 0 (accepted, env_init ()) = (c1, e1)" by fastforce
  then have c1': "c_out c1 = [ReqFlush]" "e_calls e1 = 1"
    by (auto simp: conn_send_def conn_send_locked_def Let_def syscall_def one_call_hooks_def conn_configure_def conn_new_def env_init_def
        kMaxOutboundBody_def kHeaderSize_def)
  have "cstep ?H (0, accepted, env_init ()) (0, c1, e1)" using s_call_send[of ?H 0 accepted "env_init ()" 1 "[]" 0] c1 by simp
  from rtranclp.rtrancl_into_rtrancl[OF r0 one_step[OF this]] have r1: "?run (with_one 0 c1 e1 [1] s0)" .
  obtain c2 e2 where c2: "conn_start ?H (c1, e1) = (False, c2, e2)" "c_out c2 = [ReqFlush]"
    using start_refused[of ?H e1 c1] c1' by (auto simp: one_call_hooks_def)
  let ?s2 = "(with_one 0 c1 e1 [1] s0)\<lparr>io_conns := [], io_env := e2, io_gone := [(False, 0, c2)]\<rparr>"
  have "io_begin_receive ?H 1 (with_one 0 c1 e1 [1] s0) = (False, ?s2)"
    using c2 by (simp add: io_begin_receive_def with_one_def io_find_def s0_def io_start_def io_new_def)
  from i_start[OF _ this, of silent] have "io_step ?H silent (with_one 0 c1 e1 [1] s0) (?s2\<lparr>io_starting := []\<rparr>)"
    by (simp add: with_one_def)
  from rtranclp.rtrancl_into_rtrancl[OF r1 this] c2(2) show ?thesis
    by (intro exI[of _ "?s2\<lparr>io_starting := []\<rparr>"] exI[of _ c2]) simp
qed

section \<open>Properties\<close>

lemma io_inv_started: "io_inv (started w p hw opt a)"
  by (intro io_inv_start io_inv_new) (simp add: io_new_def)

lemma io_inv_swept:
  assumes "io_inv s" "(True, k, c) \<in> set (io_gone s)"
  shows "swept_ok k c"
proof -
  have "\<forall>x\<in>set (io_gone s). case x of (b, k, c) \<Rightarrow> b \<longrightarrow> swept_ok k c"
    using assms(1) by (simp add: io_inv_def conns_ok_def)
  from bspec[OF this assms(2)] show ?thesis by simp
qed



text \<open>
  C13: and it can come up, and an \<^verbatim>\<open>adopt\<close> that fails drops its connection unchecked, so that a connection may be freed
  while a request of it is in the completion port. A service thread that has paused a connection wakes it after it was closed
  and swept: \<^verbatim>\<open>resume_receive\<close> does not look at \<^verbatim>\<open>closed()\<close>. And a reply sent between the connection notice and the
  first receive leaves a flush notification behind when that receive is refused. When the worker takes the request out, it
  reads \<^verbatim>\<open>op->kind\<close> of the freed connection.
\<close>

theorem freed_with_a_request_in_flight:
  "(\<exists>s c. (io_step pausing_hooks silent)\<^sup>*\<^sup>* (started True True 8 io_options_default True) s \<and>
     (True, 0, c) \<in> set (io_gone s) \<and> ReqResume \<in> set (c_out c)) \<and>
   (\<exists>s c. (io_step one_call_hooks silent)\<^sup>*\<^sup>* (started True True 8 io_options_default ()) s \<and>
     (False, 0, c) \<in> set (io_gone s) \<and> ReqFlush \<in> set (c_out c))"
  using resume_after_sweep failed_start_drops by blast

text \<open>
  C35: the table never holds more connections than \<^verbatim>\<open>max_connections\<close>, whatever number of threads call \<^verbatim>\<open>adopt\<close> at once;
  every connection is filed under its own identifier, no identifier is used twice, and none is the key of the exit signal.
\<close>

theorem connection_table_is_bounded:
  assumes "message_handler H" "(io_step H on_setup)\<^sup>*\<^sup>* (started w p hw opt a) s"
  shows "(0 < op_max_connections (io_opt s) \<longrightarrow> int (io_count s) \<le> op_max_connections (io_opt s)) \<and>
    distinct (keys (io_conns s)) \<and> kExitKey \<notin> set (keys (io_conns s)) \<and> (io_find i s = Some (k, c) \<longrightarrow> c_id c = i)"
proof -
  from message_handler.io_inv_run[OF assms io_inv_started] show ?thesis
    unfolding io_inv_def ids_ok_def conns_ok_def limit_ok_def kExitKey_def by blast
qed

theorem connection_table_is_bounded_witness:
  "distinct (keys (io_conns (with_one 0 accepted (env_init ()) [1] (started True True 8 io_options_default ()))))"
  using connection_table_is_bounded[OF filing.message_handler_axioms one_run[where a = "()"]] by blast

text \<open>
  A sweep drops exactly the connections that are closed and have nothing pending, closes exactly the open ones that have
  been silent for longer than the heartbeat timeout, and leaves all others as they are.
\<close>

theorem sweep_drops_dead_and_closes_silent:
  assumes "message_handler H" "(io_step H on_setup)\<^sup>*\<^sup>* (started w p hw opt a) s"
  shows "io_find i (io_sweep H now s) = (case io_find i s of None \<Rightarrow> None
     | Some (k, c) \<Rightarrow> if conn_reclaimable c then None else if expired now (io_opt s) c then Some (k, shut c) else Some (k, c))"
proof -
  from message_handler.io_inv_run[OF assms io_inv_started] have d: "distinct (keys (io_conns s))" by (simp add: io_inv_def ids_ok_def)
  obtain ids s' where sw: "sweep_table now s = (ids, s')" by fastforce
  from sweep_found[OF d sw] fold_close_found[of ids i H s'] sw show ?thesis
    by (cases "io_find i s") (auto simp: io_sweep_def expired_def split: if_splits)
qed

theorem sweep_drops_dead_and_closes_silent_witness:
  "io_find 1 (io_sweep quiet_hooks 40000 (with_one 0 accepted (env_init ()) [1] (started True True 8 io_options_default ()))) =
     Some (0, shut accepted)"
proof -
  let ?s = "with_one 0 accepted (env_init ()) [1] (started True True 8 io_options_default ())"
  have "io_find 1 ?s = Some (0, accepted)" "io_opt ?s = io_options_default"
    by (simp_all add: with_one_def io_find_def io_start_def io_new_def)
  moreover have "\<not> conn_reclaimable accepted" "expired 40000 io_options_default accepted"
    by (simp_all add: conn_reclaimable_def expired_def io_options_default_def conn_configure_def conn_new_def)
  ultimately show ?thesis
    using sweep_drops_dead_and_closes_silent[OF filing.message_handler_axioms one_run[where a = "()"], of 1 _ _ 40000] by simp
qed

text \<open>
  Dispatching the completion of an outstanding request is a run of the steps of its connection, so that what holds of a
  connection in every interleaving holds of the connections of the table; a completion whose connection is gone changes nothing.
\<close>

theorem dispatch_refines_connection_steps:
  assumes "message_handler H" "(io_step H on_setup)\<^sup>*\<^sup>* (started w p hw opt a) s"
    and "\<And>w. req = ReqRecv w \<Longrightarrow> int (length data) \<le> w"
    and "\<And>k c. io_find i s = Some (k, c) \<Longrightarrow> req \<in> set (c_out c) \<and> n \<le> length (c_send_staging c)"
  shows "(io_step H on_setup)\<^sup>*\<^sup>* s (io_dispatch H fa fc i (ConnOp req) data n ok s) \<and>
    (io_find i s = None \<longrightarrow> io_dispatch H fa fc i (ConnOp req) data n ok s = s)"
proof -
  from message_handler.io_inv_run[OF assms(1,2) io_inv_started] have inv: "conn_inv k c" if "io_find i s = Some (k, c)" for k c
    using that unfolding io_inv_def conns_ok_def by blast
  show ?thesis
  proof (cases "io_find i s")
    case None
    then show ?thesis by (simp add: io_dispatch_def)
  next
    case (Some kc)
    obtain k c where kc: "kc = (k, c)" by (cases kc)
    from message_handler.dispatch_steps[OF assms(1) Some[unfolded kc] _ inv[OF Some[unfolded kc]] assms(3)] assms(4)[OF Some[unfolded kc]] Some
    show ?thesis by simp
  qed
qed

theorem dispatch_refines_connection_steps_witness:
  "io_dispatch quiet_hooks None None 7 (ConnOp ReqFlush) [] 0 True (started True True 8 io_options_default ()) =
     started True True 8 io_options_default ()"
  using dispatch_refines_connection_steps[OF filing.message_handler_axioms rtranclp.rtrancl_refl, of ReqFlush "[]" 7
      True True 8 io_options_default "()" 0] 
  by (simp add: io_start_def io_new_def io_find_def)

end
