(* ===== verification/Mysql_Connection.thy ===== *)
theory Mysql_Connection
  imports App_Types
begin

text \<open>
  \<^verbatim>\<open>src/src/db/mysql_connection.h\<close> and \<^verbatim>\<open>mysql_connection.cpp\<close>: one connection of a database worker. The MySQL
  client library is not part of the repository: its functions are the fields of \<open>mysql_api\<close>, on a state \<open>'m\<close> that
  stands for the library, the network and the server. A handle or a statement is a number, \<^verbatim>\<open>nullptr\<close> is \<open>None\<close>, and a
  function that answers 0 for success answers \<open>True\<close> here. \<^verbatim>\<open>mysql_stmt_store_result\<close> buffers the whole result on the
  client, so that it gives the list of what the following fetches answer. The text of the last error, which is
  logged only, is left out.
\<close>

section \<open>The client library\<close>

record connection_config =
  cf_host :: bytes
  cf_port :: u32
  cf_user :: bytes
  cf_password :: bytes
  cf_schema :: bytes
  cf_timeout_ms :: u32
  cf_use_procedures :: bool

datatype sql_value = SqlStr bytes | SqlNum u64 | SqlNull

datatype fetched = Fetched "sql_value list" | Truncated "sql_value list" | FetchFailed

record 'm mysql_api =
  my_init :: "'m \<Rightarrow> nat option \<times> 'm"
  my_timeouts :: "nat \<Rightarrow> u32 \<Rightarrow> 'm \<Rightarrow> 'm"
  my_connect :: "nat \<Rightarrow> connection_config \<Rightarrow> 'm \<Rightarrow> bool \<times> 'm"
  my_errno :: "nat \<Rightarrow> 'm \<Rightarrow> u32"
  my_close :: "nat \<Rightarrow> 'm \<Rightarrow> 'm"
  my_ping :: "nat \<Rightarrow> 'm \<Rightarrow> bool \<times> 'm"
  my_query :: "nat \<Rightarrow> string \<Rightarrow> 'm \<Rightarrow> bool \<times> 'm"
  my_commit :: "nat \<Rightarrow> 'm \<Rightarrow> bool \<times> 'm"
  my_rollback :: "nat \<Rightarrow> 'm \<Rightarrow> 'm"
  ms_init :: "nat \<Rightarrow> 'm \<Rightarrow> nat option \<times> 'm"
  ms_prepare :: "nat \<Rightarrow> string \<Rightarrow> 'm \<Rightarrow> bool \<times> 'm"
  ms_close :: "nat \<Rightarrow> 'm \<Rightarrow> 'm"
  ms_errno :: "nat \<Rightarrow> 'm \<Rightarrow> u32"
  ms_bind_param :: "nat \<Rightarrow> sql_value list \<Rightarrow> 'm \<Rightarrow> bool \<times> 'm"
  ms_execute :: "nat \<Rightarrow> 'm \<Rightarrow> bool \<times> 'm"
  ms_insert_id :: "nat \<Rightarrow> 'm \<Rightarrow> u64"
  ms_bind_result :: "nat \<Rightarrow> 'm \<Rightarrow> bool \<times> 'm"
  ms_store_result :: "nat \<Rightarrow> 'm \<Rightarrow> fetched list option \<times> 'm"
  ms_free_result :: "nat \<Rightarrow> 'm \<Rightarrow> 'm"
  ms_more_results :: "nat \<Rightarrow> 'm \<Rightarrow> nat"
  ms_next_result :: "nat \<Rightarrow> 'm \<Rightarrow> 'm"

definition CR_CONN_HOST_ERROR :: u32 where "CR_CONN_HOST_ERROR = 2003"
definition CR_SERVER_GONE_ERROR :: u32 where "CR_SERVER_GONE_ERROR = 2006"
definition CR_SERVER_LOST :: u32 where "CR_SERVER_LOST = 2013"
definition CR_SERVER_LOST_EXTENDED :: u32 where "CR_SERVER_LOST_EXTENDED = 2055"
definition ER_DUP_ENTRY :: u32 where "ER_DUP_ENTRY = 1062"

definition is_connection_lost :: "u32 \<Rightarrow> bool" where
  "is_connection_lost err \<longleftrightarrow> err = CR_SERVER_GONE_ERROR \<or> err = CR_SERVER_LOST \<or>
     err = CR_CONN_HOST_ERROR \<or> err = CR_SERVER_LOST_EXTENDED"

definition kMaxPayloadLen :: nat where "kMaxPayloadLen = 512"

section \<open>State\<close>

datatype slot = SlotSave | SlotHistory | SlotClaim | SlotBump | SlotRead | SlotProcSave | SlotProcHistory | SlotProcCounter

record mysql_connection =
  mc_cfg :: connection_config
  mc_mysql :: "nat option"
  mc_broken :: bool
  mc_stmts :: "slot \<Rightarrow> nat option"
  mc_last_errno :: u32

type_synonym 'm dbs = "mysql_connection \<times> 'm"

definition config_default :: connection_config where
  "config_default = \<lparr>cf_host = lit ''127.0.0.1'', cf_port = 3306, cf_user = [], cf_password = [], cf_schema = [],
     cf_timeout_ms = 5000, cf_use_procedures = False\<rparr>"

definition mc_new :: mysql_connection where
  "mc_new = \<lparr>mc_cfg = config_default, mc_mysql = None, mc_broken = True, mc_stmts = (\<lambda>_. None), mc_last_errno = 0\<rparr>"

definition mc_usable :: "mysql_connection \<Rightarrow> bool" where
  "mc_usable c \<longleftrightarrow> mc_mysql c \<noteq> None \<and> \<not> mc_broken c"

text \<open>The handle a usable connection has, and the statement in a slot.\<close>

definition mc_handle :: "mysql_connection \<Rightarrow> nat" where
  "mc_handle c = the (mc_mysql c)"

definition mc_stmt :: "slot \<Rightarrow> mysql_connection \<Rightarrow> nat" where
  "mc_stmt sl c = the (mc_stmts c sl)"

section \<open>Opening and closing\<close>

definition all_slots :: "slot list" where
  "all_slots = [SlotSave, SlotHistory, SlotClaim, SlotBump, SlotRead, SlotProcSave, SlotProcHistory, SlotProcCounter]"

definition close_statement :: "'m mysql_api \<Rightarrow> slot \<Rightarrow> 'm dbs \<Rightarrow> 'm dbs" where
  "close_statement A sl = (\<lambda>(c, m).
     case mc_stmts c sl of None \<Rightarrow> (c, m) | Some st \<Rightarrow> (c\<lparr>mc_stmts := (mc_stmts c)(sl := None)\<rparr>, ms_close A st m))"

definition close_statements :: "'m mysql_api \<Rightarrow> 'm dbs \<Rightarrow> 'm dbs" where
  "close_statements A s = fold (close_statement A) all_slots s"

definition mc_close :: "'m mysql_api \<Rightarrow> 'm dbs \<Rightarrow> 'm dbs" where
  "mc_close A s =
     (case close_statements A s of (c, m) \<Rightarrow>
        case mc_mysql c of
          None \<Rightarrow> (c\<lparr>mc_broken := True\<rparr>, m)
        | Some h \<Rightarrow> (c\<lparr>mc_mysql := None, mc_broken := True\<rparr>, my_close A h m))"

definition kSqlSave :: string where
  "kSqlSave = ''INSERT INTO echo_log(session_key, payload) VALUES(?, ?)''"
definition kSqlHistory :: string where
  "kSqlHistory = ''SELECT log_id, payload, CAST(UNIX_TIMESTAMP(created_at) * 1000 AS UNSIGNED) FROM echo_log WHERE session_key = ? ORDER BY log_id DESC LIMIT ?''"
definition kSqlCounterClaim :: string where
  "kSqlCounterClaim = ''INSERT INTO counter_request(request_key, session_key) VALUES(?, ?)''"
definition kSqlCounterBump :: string where
  "kSqlCounterBump = ''INSERT INTO echo_counter(session_key, hit_count, version) VALUES(?, 1, 1) ON DUPLICATE KEY UPDATE hit_count = hit_count + 1, version = version + 1''"
definition kSqlCounterRead :: string where
  "kSqlCounterRead = ''SELECT hit_count FROM echo_counter WHERE session_key = ?''"
definition kCallSave :: string where "kCallSave = ''CALL sp_save_log(?, ?, ?)''"
definition kCallHistory :: string where "kCallHistory = ''CALL sp_get_history(?, ?)''"
definition kCallCounter :: string where "kCallCounter = ''CALL sp_apply_counter(?, ?, ?, ?)''"

definition stmt_items :: "bool \<Rightarrow> (slot \<times> string) list" where
  "stmt_items use_procedures =
     (if use_procedures
      then [(SlotProcSave, kCallSave), (SlotProcHistory, kCallHistory), (SlotProcCounter, kCallCounter)]
      else [(SlotSave, kSqlSave), (SlotHistory, kSqlHistory), (SlotClaim, kSqlCounterClaim),
            (SlotBump, kSqlCounterBump), (SlotRead, kSqlCounterRead)])"

fun prepare_items :: "'m mysql_api \<Rightarrow> (slot \<times> string) list \<Rightarrow> 'm dbs \<Rightarrow> bool \<times> 'm dbs" where
  "prepare_items A [] s = (True, s)"
| "prepare_items A ((sl, sql) # items) (c, m) =
     (case ms_init A (mc_handle c) m of
        (None, m1) \<Rightarrow> (False, c, m1)
      | (Some st, m1) \<Rightarrow>
          (case ms_prepare A st sql m1 of
             (False, m2) \<Rightarrow> (False, c\<lparr>mc_last_errno := ms_errno A st m2\<rparr>, ms_close A st m2)
           | (True, m2) \<Rightarrow> prepare_items A items (c\<lparr>mc_stmts := (mc_stmts c)(sl := Some st)\<rparr>, m2)))"

definition prepare_all :: "'m mysql_api \<Rightarrow> 'm dbs \<Rightarrow> bool \<times> 'm dbs" where
  "prepare_all A s = prepare_items A (stmt_items (cf_use_procedures (mc_cfg (fst s)))) s"

definition mc_open :: "'m mysql_api \<Rightarrow> connection_config \<Rightarrow> 'm dbs \<Rightarrow> bool \<times> 'm dbs" where
  "mc_open A cfg = (\<lambda>(c, m).
     let (c, m) = mc_close A (c\<lparr>mc_cfg := cfg\<rparr>, m) in
     case my_init A m of
       (None, m) \<Rightarrow> (False, c, m)
     | (Some h, m) \<Rightarrow>
         let c = c\<lparr>mc_mysql := Some h\<rparr>;
             timeout_sec = (if cf_timeout_ms cfg > 0 then (cf_timeout_ms cfg + 999) div 1000 else 5);
             m = my_timeouts A h timeout_sec m
         in case my_connect A h cfg m of
              (False, m) \<Rightarrow> (False, c\<lparr>mc_last_errno := my_errno A h m, mc_mysql := None\<rparr>, my_close A h m)
            | (True, m) \<Rightarrow>
                (case prepare_all A (c, m) of
                   (False, s) \<Rightarrow> (False, mc_close A s)
                 | (True, c, m) \<Rightarrow> (True, c\<lparr>mc_broken := False\<rparr>, m)))"

definition mc_ping :: "'m mysql_api \<Rightarrow> 'm dbs \<Rightarrow> bool \<times> 'm dbs" where
  "mc_ping A = (\<lambda>(c, m).
     if mc_mysql c = None \<or> mc_broken c then (False, c, m)
     else case my_ping A (mc_handle c) m of
       (True, m1) \<Rightarrow> (True, c, m1)
     | (False, m1) \<Rightarrow> (False, c\<lparr>mc_last_errno := my_errno A (mc_handle c) m1, mc_broken := True\<rparr>, m1))"

definition ensure_usable :: "'m mysql_api \<Rightarrow> 'm dbs \<Rightarrow> bool \<times> 'm dbs" where
  "ensure_usable A s = (if mc_usable (fst s) then (True, s) else mc_open A (mc_cfg (fst s)) s)"

section \<open>Statements\<close>

definition note_stmt_failure :: "'m mysql_api \<Rightarrow> nat \<Rightarrow> 'm dbs \<Rightarrow> 'm dbs" where
  "note_stmt_failure A st = (\<lambda>(c, m).
     let err = ms_errno A st m; c = c\<lparr>mc_last_errno := err\<rparr>
     in (if is_connection_lost err then c\<lparr>mc_broken := True\<rparr> else c, m))"

definition note_conn_failure :: "'m mysql_api \<Rightarrow> 'm dbs \<Rightarrow> 'm dbs" where
  "note_conn_failure A = (\<lambda>(c, m).
     if mc_mysql c = None then (c, m)
     else let err = my_errno A (mc_handle c) m; c = c\<lparr>mc_last_errno := err\<rparr>
          in (if is_connection_lost err then c\<lparr>mc_broken := True\<rparr> else c, m))"

definition mc_exec :: "'m mysql_api \<Rightarrow> slot \<Rightarrow> sql_value list \<Rightarrow> 'm dbs \<Rightarrow> bool \<times> 'm dbs" where
  "mc_exec A sl params = (\<lambda>(c, m).
     let st = mc_stmt sl c in
     case ms_bind_param A st params m of
       (False, m) \<Rightarrow> (False, note_stmt_failure A st (c, m))
     | (True, m) \<Rightarrow>
         (case ms_execute A st m of
            (False, m) \<Rightarrow> (False, note_stmt_failure A st (c, m))
          | (True, m) \<Rightarrow> (True, c, m)))"

definition run_plain :: "'m mysql_api \<Rightarrow> string \<Rightarrow> 'm dbs \<Rightarrow> bool \<times> 'm dbs" where
  "run_plain A sql = (\<lambda>(c, m).
     case my_query A (mc_handle c) sql m of
       (False, m) \<Rightarrow> (False, note_conn_failure A (c, m))
     | (True, m) \<Rightarrow> (True, c, m))"

text \<open>\<^verbatim>\<open>mysql_stmt_bind_result\<close> and \<^verbatim>\<open>mysql_stmt_store_result\<close>, which are always called together.\<close>

definition mc_results :: "'m mysql_api \<Rightarrow> slot \<Rightarrow> 'm dbs \<Rightarrow> fetched list option \<times> 'm dbs" where
  "mc_results A sl = (\<lambda>(c, m).
     let st = mc_stmt sl c in
     case ms_bind_result A st m of
       (False, m) \<Rightarrow> (None, note_stmt_failure A st (c, m))
     | (True, m) \<Rightarrow>
         (case ms_store_result A st m of
            (None, m) \<Rightarrow> (None, note_stmt_failure A st (c, m))
          | (Some rows, m) \<Rightarrow> (Some rows, c, m)))"

definition mc_free :: "'m mysql_api \<Rightarrow> slot \<Rightarrow> 'm dbs \<Rightarrow> 'm dbs" where
  "mc_free A sl = (\<lambda>(c, m). (c, ms_free_result A (mc_stmt sl c) m))"

definition mc_rollback :: "'m mysql_api \<Rightarrow> 'm dbs \<Rightarrow> 'm dbs" where
  "mc_rollback A = (\<lambda>(c, m). (c, my_rollback A (mc_handle c) m))"

fun drain_results :: "'m mysql_api \<Rightarrow> nat \<Rightarrow> nat \<Rightarrow> 'm \<Rightarrow> 'm" where
  "drain_results A st 0 m = m"
| "drain_results A st (Suc n) m = drain_results A st n (ms_free_result A st (ms_next_result A st m))"

definition drain_extra_results :: "'m mysql_api \<Rightarrow> slot \<Rightarrow> 'm dbs \<Rightarrow> 'm dbs" where
  "drain_extra_results A sl = (\<lambda>(c, m). (c, drain_results A (mc_stmt sl c) (ms_more_results A (mc_stmt sl c) m) m))"

section \<open>Batches\<close>

definition begin_batch :: "'m mysql_api \<Rightarrow> 'm dbs \<Rightarrow> bool \<times> 'm dbs" where
  "begin_batch A s = (if \<not> mc_usable (fst s) then (False, s) else run_plain A ''START TRANSACTION'' s)"

definition commit_batch :: "'m mysql_api \<Rightarrow> 'm dbs \<Rightarrow> bool \<times> 'm dbs" where
  "commit_batch A = (\<lambda>(c, m).
     if \<not> mc_usable c then (False, c, m)
     else case my_commit A (mc_handle c) m of
       (False, m) \<Rightarrow> (False, note_conn_failure A (c, m))
     | (True, m) \<Rightarrow> (True, c, m))"

definition rollback_batch :: "'m mysql_api \<Rightarrow> 'm dbs \<Rightarrow> 'm dbs" where
  "rollback_batch A s = (if mc_mysql (fst s) \<noteq> None then mc_rollback A s else s)"

section \<open>Save\<close>

definition save_direct :: "'m mysql_api \<Rightarrow> bytes \<Rightarrow> bytes \<Rightarrow> 'm dbs \<Rightarrow> bool \<times> u64 \<times> 'm dbs" where
  "save_direct A session_key payload s =
     (if \<not> mc_usable (fst s) then (False, 0, s)
      else case mc_exec A SlotSave [SqlStr session_key, SqlStr payload] s of
        (False, s) \<Rightarrow> (False, 0, s)
      | (True, c, m) \<Rightarrow> (True, ms_insert_id A (mc_stmt SlotSave c) m, c, m))"

text \<open>The variable bound to a column keeps its value when the column does not fill it.\<close>

definition col_num :: "nat \<Rightarrow> sql_value list \<Rightarrow> u64 \<Rightarrow> u64" where
  "col_num i vs old = (if i < length vs then (case vs ! i of SqlNum n \<Rightarrow> n | _ \<Rightarrow> old) else old)"

text \<open>The values of a fetch that answers 0.\<close>

fun fetch_one :: "fetched list \<Rightarrow> sql_value list option" where
  "fetch_one (Fetched vs # rows) = Some vs"
| "fetch_one _ = None"

text \<open>The procedures answer their OUT parameters as one row; \<open>n\<close> values were 0 before.\<close>

definition call_proc :: "'m mysql_api \<Rightarrow> slot \<Rightarrow> sql_value list \<Rightarrow> 'm dbs \<Rightarrow> sql_value list option \<times> 'm dbs" where
  "call_proc A sl params s =
     (case mc_exec A sl params s of
        (False, s) \<Rightarrow> (None, s)
      | (True, s) \<Rightarrow>
          (case mc_results A sl s of
             (None, s) \<Rightarrow> (None, s)
           | (Some rows, s) \<Rightarrow> (fetch_one rows, drain_extra_results A sl (mc_free A sl s))))"

definition save_proc :: "'m mysql_api \<Rightarrow> bytes \<Rightarrow> bytes \<Rightarrow> 'm dbs \<Rightarrow> bool \<times> u64 \<times> 'm dbs" where
  "save_proc A session_key payload s =
     (case call_proc A SlotProcSave [SqlStr session_key, SqlStr payload, SqlNum 0] s of
        (None, s) \<Rightarrow> (False, 0, s)
      | (Some vs, s) \<Rightarrow> (True, col_num 0 vs 0, s))"

definition mc_save :: "'m mysql_api \<Rightarrow> bytes \<Rightarrow> bytes \<Rightarrow> 'm dbs \<Rightarrow> bool \<times> u64 \<times> 'm dbs" where
  "mc_save A session_key payload s =
     (if \<not> mc_usable (fst s) then (False, 0, s)
      else if cf_use_procedures (mc_cfg (fst s)) then save_proc A session_key payload s
      else save_direct A session_key payload s)"

section \<open>History\<close>

text \<open>The variables the columns are bound to: \<^verbatim>\<open>log_id\<close>, \<^verbatim>\<open>payload\<close> with its length, \<^verbatim>\<open>payload_null\<close>, \<^verbatim>\<open>ms\<close>.\<close>

type_synonym row_vars = "u64 \<times> bytes \<times> bool \<times> u64"

definition fill_row :: "sql_value list \<Rightarrow> row_vars \<Rightarrow> row_vars" where
  "fill_row vs = (\<lambda>(log_id, payload, isnull, ms).
     case (if 1 < length vs then vs ! 1 else SqlNull) of
       SqlStr b \<Rightarrow> (col_num 0 vs log_id, b, False, col_num 2 vs ms)
     | SqlNum _ \<Rightarrow> (col_num 0 vs log_id, payload, False, col_num 2 vs ms)
     | SqlNull \<Rightarrow> (col_num 0 vs log_id, payload, True, col_num 2 vs ms))"

definition row_of :: "row_vars \<Rightarrow> log_row" where
  "row_of = (\<lambda>(log_id, payload, isnull, ms).
     \<lparr>lr_log_id = log_id,
      lr_payload = (if isnull then [] else take (if length payload > kMaxPayloadLen then kMaxPayloadLen else length payload) payload),
      lr_created_at_ms = ms\<rparr>)"

fun fetch_rows :: "fetched list \<Rightarrow> row_vars \<Rightarrow> log_row list \<Rightarrow> bool \<times> log_row list" where
  "fetch_rows [] v rows = (True, rows)"
| "fetch_rows (Fetched vs # fs) v rows = fetch_rows fs (fill_row vs v) (rows @ [row_of (fill_row vs v)])"
| "fetch_rows (Truncated vs # fs) v rows = fetch_rows fs (fill_row vs v) (rows @ [row_of (fill_row vs v)])"
| "fetch_rows (FetchFailed # fs) v rows = (False, rows)"

definition fetch_history_rows :: "'m mysql_api \<Rightarrow> slot \<Rightarrow> 'm dbs \<Rightarrow> bool \<times> log_row list \<times> 'm dbs" where
  "fetch_history_rows A sl s =
     (case mc_results A sl s of
        (None, s) \<Rightarrow> (False, [], s)
      | (Some fs, s) \<Rightarrow>
          (case fetch_rows fs (0, [], False, 0) [] of
             (True, rows) \<Rightarrow> (True, rows, mc_free A sl s)
           | (False, rows) \<Rightarrow> (False, rows, mc_free A sl (note_stmt_failure A (mc_stmt sl (fst s)) s))))"

definition history_direct :: "'m mysql_api \<Rightarrow> bytes \<Rightarrow> u16 \<Rightarrow> 'm dbs \<Rightarrow> bool \<times> log_row list \<times> 'm dbs" where
  "history_direct A session_key max_rows s =
     (if \<not> mc_usable (fst s) then (False, [], s)
      else case mc_exec A SlotHistory [SqlStr session_key, SqlNum (ucast max_rows)] s of
        (False, s) \<Rightarrow> (False, [], s)
      | (True, s) \<Rightarrow> fetch_history_rows A SlotHistory s)"

definition history_proc :: "'m mysql_api \<Rightarrow> bytes \<Rightarrow> u16 \<Rightarrow> 'm dbs \<Rightarrow> bool \<times> log_row list \<times> 'm dbs" where
  "history_proc A session_key max_rows s =
     (case mc_exec A SlotProcHistory [SqlStr session_key, SqlNum (ucast max_rows)] s of
        (False, s) \<Rightarrow> (False, [], s)
      | (True, s) \<Rightarrow>
          (case fetch_history_rows A SlotProcHistory s of
             (False, rows, s) \<Rightarrow> (False, rows, s)
           | (True, rows, s) \<Rightarrow> (True, rows, drain_extra_results A SlotProcHistory s)))"

definition mc_history :: "'m mysql_api \<Rightarrow> bytes \<Rightarrow> u16 \<Rightarrow> 'm dbs \<Rightarrow> bool \<times> log_row list \<times> 'm dbs" where
  "mc_history A session_key max_rows s =
     (if \<not> mc_usable (fst s) then (False, [], s)
      else if cf_use_procedures (mc_cfg (fst s)) then history_proc A session_key max_rows s
      else history_direct A session_key max_rows s)"

section \<open>Counter\<close>

text \<open>The result is whether it succeeded, the count, and whether the request had been applied already.\<close>

type_synonym 'm counted = "bool \<times> u64 \<times> bool \<times> 'm dbs"

text \<open>The branch of \<^verbatim>\<open>counter_direct\<close> for a request key that is taken.\<close>

definition counter_replay :: "'m mysql_api \<Rightarrow> bytes \<Rightarrow> 'm dbs \<Rightarrow> 'm counted" where
  "counter_replay A session_key s =
     (case mc_exec A SlotRead [SqlStr session_key] s of
        (False, s) \<Rightarrow> (False, 0, True, s)
      | (True, s) \<Rightarrow>
          (case mc_results A SlotRead s of
             (None, s) \<Rightarrow> (False, 0, True, s)
           | (Some rows, s) \<Rightarrow>
               (True, (case fetch_one rows of None \<Rightarrow> 0 | Some vs \<Rightarrow> col_num 0 vs 0), True, mc_free A SlotRead s)))"

text \<open>The steps after the claim of the request key.\<close>

definition counter_apply :: "'m mysql_api \<Rightarrow> bytes \<Rightarrow> 'm dbs \<Rightarrow> 'm counted" where
  "counter_apply A session_key s =
     (case mc_exec A SlotBump [SqlStr session_key] s of
        (False, s) \<Rightarrow> (False, 0, False, mc_rollback A s)
      | (True, s) \<Rightarrow>
          (case mc_exec A SlotRead [SqlStr session_key] s of
             (False, s) \<Rightarrow> (False, 0, False, mc_rollback A s)
           | (True, s) \<Rightarrow>
               (case mc_results A SlotRead s of
                  (None, s) \<Rightarrow> (False, 0, False, mc_rollback A s)
                | (Some rows, s) \<Rightarrow>
                    let s = mc_free A SlotRead s in
                    (case fetch_one rows of
                       None \<Rightarrow> (False, 0, False, mc_rollback A s)
                     | Some vs \<Rightarrow>
                         (case s of (c, m) \<Rightarrow>
                            case my_commit A (mc_handle c) m of
                              (False, m) \<Rightarrow>
                                let err = my_errno A (mc_handle c) m; c = c\<lparr>mc_last_errno := err\<rparr>
                                in (False, 0, False, if is_connection_lost err then c\<lparr>mc_broken := True\<rparr> else c, m)
                            | (True, m) \<Rightarrow> (True, col_num 0 vs 0, False, c, m))))))"

definition counter_direct :: "'m mysql_api \<Rightarrow> bytes \<Rightarrow> bytes \<Rightarrow> 'm dbs \<Rightarrow> 'm counted" where
  "counter_direct A session_key request_key s =
     (if \<not> mc_usable (fst s) then (False, 0, False, s)
      else case run_plain A ''START TRANSACTION'' s of
        (False, s) \<Rightarrow> (False, 0, False, s)
      | (True, s) \<Rightarrow>
          (case mc_exec A SlotClaim [SqlStr request_key, SqlStr session_key] s of
             (False, s) \<Rightarrow>
               let duplicate = (mc_last_errno (fst s) = ER_DUP_ENTRY); s = mc_rollback A s in
               if \<not> duplicate then (False, 0, False, s) else counter_replay A session_key s
           | (True, s) \<Rightarrow> counter_apply A session_key s))"

definition counter_proc :: "'m mysql_api \<Rightarrow> bytes \<Rightarrow> bytes \<Rightarrow> 'm dbs \<Rightarrow> 'm counted" where
  "counter_proc A session_key request_key s =
     (case call_proc A SlotProcCounter [SqlStr request_key, SqlStr session_key, SqlNum 0, SqlNum 0] s of
        (None, s) \<Rightarrow> (False, 0, False, s)
      | (Some vs, s) \<Rightarrow> (True, col_num 0 vs 0, col_num 1 vs 0 \<noteq> 0, s))"

definition mc_counter :: "'m mysql_api \<Rightarrow> bytes \<Rightarrow> bytes \<Rightarrow> 'm dbs \<Rightarrow> 'm counted" where
  "mc_counter A session_key request_key s =
     (if \<not> mc_usable (fst s) then (False, 0, False, s)
      else if cf_use_procedures (mc_cfg (fst s)) then counter_proc A session_key request_key s
      else counter_direct A session_key request_key s)"

section \<open>Statements of a usable connection\<close>

text \<open>What the operations on requests leave alone; they can only find the connection broken.\<close>

definition mc_kept :: "mysql_connection \<Rightarrow> mysql_connection \<Rightarrow> bool" where
  "mc_kept c c' \<longleftrightarrow> mc_cfg c' = mc_cfg c \<and> mc_mysql c' = mc_mysql c \<and> mc_stmts c' = mc_stmts c \<and>
     (mc_broken c \<longrightarrow> mc_broken c')"

lemma mc_kept_refl [simp]: "mc_kept c c"
  by (simp add: mc_kept_def)

lemma mc_kept_trans: "mc_kept a b \<Longrightarrow> mc_kept b c \<Longrightarrow> mc_kept a c"
  by (simp add: mc_kept_def)

lemma kept_note_stmt: "mc_kept (fst s) (fst (note_stmt_failure A st s))"
  by (cases s) (simp add: note_stmt_failure_def mc_kept_def Let_def)

lemma kept_note_conn: "mc_kept (fst s) (fst (note_conn_failure A s))"
  by (cases s) (simp add: note_conn_failure_def mc_kept_def Let_def)

lemma kept_exec: "mc_exec A sl ps s = (ok, s') \<Longrightarrow> mc_kept (fst s) (fst s')"
  using kept_note_stmt by (cases s) (force simp: mc_exec_def Let_def split: prod.splits bool.splits)

lemma kept_run_plain: "run_plain A sql s = (ok, s') \<Longrightarrow> mc_kept (fst s) (fst s')"
  using kept_note_conn by (cases s) (force simp: run_plain_def split: prod.splits bool.splits)

lemma kept_results: "mc_results A sl s = (r, s') \<Longrightarrow> mc_kept (fst s) (fst s')"
  using kept_note_stmt by (cases s) (force simp: mc_results_def Let_def split: prod.splits bool.splits option.splits)

lemma kept_api [simp]:
  "fst (mc_free A sl s) = fst s" "fst (mc_rollback A s) = fst s" "fst (drain_extra_results A sl s) = fst s"
  by (simp_all add: mc_free_def mc_rollback_def drain_extra_results_def case_prod_beta)

lemma kept_call: "call_proc A sl ps s = (r, s') \<Longrightarrow> mc_kept (fst s) (fst s')"
  by (auto simp: call_proc_def split: prod.splits bool.splits option.splits
      dest!: kept_exec kept_results intro: mc_kept_trans)

lemma kept_save: "mc_save A k p s = (ok, i, s') \<Longrightarrow> mc_kept (fst s) (fst s')"
  by (auto simp: mc_save_def save_direct_def save_proc_def split: if_splits prod.splits bool.splits option.splits
      dest!: kept_exec kept_call)

lemma kept_fetch: "fetch_history_rows A sl s = (ok, rows, s') \<Longrightarrow> mc_kept (fst s) (fst s')"
  using kept_note_stmt
  by (fastforce simp: fetch_history_rows_def split: prod.splits bool.splits option.splits
      dest!: kept_results intro: mc_kept_trans)

lemma kept_history: "mc_history A k n s = (ok, rows, s') \<Longrightarrow> mc_kept (fst s) (fst s')"
  by (fastforce simp: mc_history_def history_direct_def history_proc_def split: if_splits prod.splits bool.splits
      dest!: kept_exec kept_fetch intro: mc_kept_trans)

lemma kept_replay: "counter_replay A k s = (ok, n, r, s') \<Longrightarrow> mc_kept (fst s) (fst s')"
  by (fastforce simp: counter_replay_def split: prod.splits bool.splits option.splits
      dest!: kept_exec kept_results intro: mc_kept_trans)

lemma kept_commit_failed: "mc_kept c (if b then (c\<lparr>mc_last_errno := err\<rparr>)\<lparr>mc_broken := True\<rparr> else c\<lparr>mc_last_errno := err\<rparr>)"
  by (simp add: mc_kept_def)

lemma kept_apply: "counter_apply A k s = (ok, n, r, s') \<Longrightarrow> mc_kept (fst s) (fst s')"
proof -
  assume run: "counter_apply A k s = (ok, n, r, s')"
  obtain b1 s1 where e1: "mc_exec A SlotBump [SqlStr k] s = (b1, s1)" by (cases "mc_exec A SlotBump [SqlStr k] s")
  obtain b2 s2 where e2: "mc_exec A SlotRead [SqlStr k] s1 = (b2, s2)" by (cases "mc_exec A SlotRead [SqlStr k] s1")
  obtain rs s3 where e3: "mc_results A SlotRead s2 = (rs, s3)" by (cases "mc_results A SlotRead s2")
  note kept = kept_exec[OF e1] kept_exec[OF e2] kept_results[OF e3]
  have k12: "mc_kept (fst s) (fst s2)" and k13: "mc_kept (fst s) (fst s3)"
    using kept by (blast intro: mc_kept_trans)+
  consider "fst s' = fst s1" | "fst s' = fst s2" | "fst s' = fst s3" | "mc_kept (fst s3) (fst s')"
    using run e1 e2 e3
    by (cases b1; cases b2; cases rs)
      (auto simp: counter_apply_def Let_def mc_free_def mc_kept_def split: prod.splits bool.splits option.splits if_splits)
  then show ?thesis using kept k12 k13 by cases (auto intro: mc_kept_trans)
qed

lemma kept_counter: "mc_counter A k rk s = (ok, n, r, s') \<Longrightarrow> mc_kept (fst s) (fst s')"
  by (fastforce simp: mc_counter_def counter_direct_def counter_proc_def Let_def
      split: if_splits prod.splits bool.splits option.splits
      dest!: kept_exec kept_run_plain kept_replay kept_apply kept_call intro: mc_kept_trans)

lemma kept_batch:
  "begin_batch A s = (ok, s') \<Longrightarrow> mc_kept (fst s) (fst s')"
  "commit_batch A s = (ok, s') \<Longrightarrow> mc_kept (fst s) (fst s')"
  "mc_kept (fst s) (fst (rollback_batch A s))"
  using kept_note_conn[where s = "(c, m)" for c m]
  by (auto simp: begin_batch_def commit_batch_def rollback_batch_def split: if_splits prod.splits bool.splits dest: kept_run_plain)

lemma kept_ping: "mc_ping A s = (ok, s') \<Longrightarrow> mc_kept (fst s) (fst s')"
  by (auto simp: mc_ping_def mc_kept_def split: if_splits prod.splits bool.splits)

definition mc_ready :: "mysql_connection \<Rightarrow> bool" where
  "mc_ready c \<longleftrightarrow> (mc_usable c \<longrightarrow> (\<exists>h. mc_mysql c = Some h) \<and>
     (\<forall>sl \<in> fst ` set (stmt_items (cf_use_procedures (mc_cfg c))). \<exists>st. mc_stmts c sl = Some st))"

lemma mc_ready_kept: "mc_kept c c' \<Longrightarrow> mc_ready c \<Longrightarrow> mc_ready c'"
  by (auto simp: mc_ready_def mc_kept_def mc_usable_def)

lemma close_slots:
  "mc_cfg (fst (fold (close_statement A) sls s)) = mc_cfg (fst s)" "mc_mysql (fst (fold (close_statement A) sls s)) = mc_mysql (fst s)"
  by (induction sls arbitrary: s) (auto simp: close_statement_def split: option.splits)

lemma mc_close_not_usable: "\<not> mc_usable (fst (mc_close A s))" "mc_cfg (fst (mc_close A s)) = mc_cfg (fst s)"
  "mc_mysql (fst (mc_close A s)) = None"
  using close_slots[of A all_slots s]
  by (auto simp: mc_close_def close_statements_def mc_usable_def split: prod.splits option.splits)

lemma prepare_items_ok:
  "prepare_items A items (c, m) = (True, c', m') \<Longrightarrow>
     mc_cfg c' = mc_cfg c \<and> mc_mysql c' = mc_mysql c \<and> (\<forall>sl. mc_stmts c sl \<noteq> None \<or> sl \<in> fst ` set items \<longrightarrow> mc_stmts c' sl \<noteq> None)"
proof (induction items arbitrary: c m)
  case (Cons it items)
  obtain sl sql where it: "it = (sl, sql)" by (cases it)
  from Cons.prems obtain st m1 m2 where
    "prepare_items A items (c\<lparr>mc_stmts := (mc_stmts c)(sl := Some st)\<rparr>, m2) = (True, c', m')"
    by (auto simp: it split: prod.splits option.splits bool.splits)
  from Cons.IH[OF this] show ?case by (auto simp: it split: if_splits)
qed simp

lemma mc_open_ready:
  assumes "mc_open A cfg s = (ok, s')"
  shows "mc_ready (fst s') \<and> (ok \<longleftrightarrow> mc_usable (fst s'))"
proof -
  obtain c m where s: "s = (c, m)" by (cases s)
  obtain c1 m1 where cl: "mc_close A (c\<lparr>mc_cfg := cfg\<rparr>, m) = (c1, m1)" by fastforce
  have c1: "\<not> mc_usable c1" "mc_cfg c1 = cfg" "mc_mysql c1 = None" "mc_broken c1"
    using mc_close_not_usable[of A "(c\<lparr>mc_cfg := cfg\<rparr>, m)"] cl
    by (auto simp: mc_close_def split: prod.splits option.splits)
  obtain h m2 where i: "my_init A m1 = (h, m2)" by (cases "my_init A m1")
  show ?thesis
  proof (cases h)
    case None
    then show ?thesis using assms c1 i by (auto simp: mc_open_def s cl mc_ready_def)
  next
    case (Some hd)
    let ?t = "if cf_timeout_ms cfg > 0 then (cf_timeout_ms cfg + 999) div 1000 else 5"
    let ?c2 = "c1\<lparr>mc_mysql := Some hd\<rparr>"
    obtain b m3 where co: "my_connect A hd cfg (my_timeouts A hd ?t m2) = (b, m3)"
      by (cases "my_connect A hd cfg (my_timeouts A hd ?t m2)")
    obtain b' c3 m4 where pr: "prepare_all A (?c2, m3) = (b', c3, m4)" by (cases "prepare_all A (?c2, m3)") auto
    have eq: "(ok, s') = (if \<not> b then (False, ?c2\<lparr>mc_last_errno := my_errno A hd m3, mc_mysql := None\<rparr>, my_close A hd m3)
        else if \<not> b' then (False, mc_close A (c3, m4)) else (True, c3\<lparr>mc_broken := False\<rparr>, m4))"
      using assms i Some co pr by (cases b; cases b') (simp_all add: mc_open_def s cl Let_def)
    show ?thesis
    proof (cases "b \<and> b'")
      case True
      then have "prepare_items A (stmt_items (cf_use_procedures cfg)) (?c2, m3) = (True, c3, m4)"
        using pr c1(2) by (simp add: prepare_all_def)
      from prepare_items_ok[OF this] True eq c1(2) show ?thesis
        by (auto simp: mc_ready_def mc_usable_def)
    next
      case False
      then show ?thesis using eq mc_close_not_usable(1)[of A "(c3, m4)"]
        by (auto simp: mc_ready_def mc_usable_def split: if_splits)
    qed
  qed
qed

section \<open>Transactions\<close>

text \<open>
  What the documentation of the server says of transactions: a rollback and a commit that succeeds end the
  transaction of their connection, a query that fails does not begin one, and no operation on the prepared
  statements, none of which is a transaction statement, does.
\<close>

definition tx_laws :: "'m mysql_api \<Rightarrow> (nat \<Rightarrow> 'm \<Rightarrow> bool) \<Rightarrow> bool" where
  "tx_laws A in_tx \<longleftrightarrow>
     (\<forall>h m. \<not> in_tx h (my_rollback A h m)) \<and>
     (\<forall>h m. fst (my_commit A h m) \<longrightarrow> \<not> in_tx h (snd (my_commit A h m))) \<and>
     (\<forall>h sql m. \<not> fst (my_query A h sql m) \<longrightarrow> \<not> in_tx h m \<longrightarrow> \<not> in_tx h (snd (my_query A h sql m))) \<and>
     (\<forall>h st m ps. \<not> in_tx h m \<longrightarrow> \<not> in_tx h (snd (ms_bind_param A st ps m)) \<and> \<not> in_tx h (snd (ms_execute A st m)) \<and>
        \<not> in_tx h (snd (ms_bind_result A st m)) \<and> \<not> in_tx h (snd (ms_store_result A st m)) \<and>
        \<not> in_tx h (ms_free_result A st m) \<and> \<not> in_tx h (ms_next_result A st m))"

lemma tx_api:
  assumes "tx_laws A in_tx"
  shows "\<not> in_tx h (my_rollback A h m)" "my_commit A h m = (True, m') \<Longrightarrow> \<not> in_tx h m'"
    "my_query A h sql m = (False, m') \<Longrightarrow> \<not> in_tx h m \<Longrightarrow> \<not> in_tx h m'"
    "ms_bind_param A st ps m = (b, m') \<Longrightarrow> \<not> in_tx h m \<Longrightarrow> \<not> in_tx h m'"
    "ms_execute A st m = (b, m') \<Longrightarrow> \<not> in_tx h m \<Longrightarrow> \<not> in_tx h m'"
    "ms_bind_result A st m = (b, m') \<Longrightarrow> \<not> in_tx h m \<Longrightarrow> \<not> in_tx h m'"
    "ms_store_result A st m = (r, m') \<Longrightarrow> \<not> in_tx h m \<Longrightarrow> \<not> in_tx h m'"
    "\<not> in_tx h m \<Longrightarrow> \<not> in_tx h (ms_free_result A st m)"
  using assms unfolding tx_laws_def by (metis fst_conv snd_conv)+

lemma snd_notes [simp]: "snd (note_stmt_failure A st s) = snd s" "snd (note_conn_failure A s) = snd s"
  by (cases s, simp add: note_stmt_failure_def note_conn_failure_def Let_def)+

lemma tx_exec:
  assumes "tx_laws A in_tx" "mc_exec A sl ps s = (ok, s')" "\<not> in_tx h (snd s)"
  shows "\<not> in_tx h (snd s')"
  using assms(2,3) by (auto simp: mc_exec_def Let_def split: prod.splits bool.splits dest: tx_api(4,5)[OF assms(1)])

lemma tx_results:
  assumes "tx_laws A in_tx" "mc_results A sl s = (r, s')" "\<not> in_tx h (snd s)"
  shows "\<not> in_tx h (snd s')"
  using assms(2,3)
  by (auto simp: mc_results_def Let_def split: prod.splits bool.splits option.splits dest: tx_api(6,7)[OF assms(1)])

lemma tx_replay:
  assumes "tx_laws A in_tx" "counter_replay A k s = (ok, n, r, s')" "\<not> in_tx h (snd s)"
  shows "\<not> in_tx h (snd s')"
proof -
  obtain b1 s1 where e1: "mc_exec A SlotRead [SqlStr k] s = (b1, s1)" by (cases "mc_exec A SlotRead [SqlStr k] s")
  obtain rs s2 where e2: "mc_results A SlotRead s1 = (rs, s2)" by (cases "mc_results A SlotRead s1")
  have t1: "\<not> in_tx h (snd s1)" by (rule tx_exec[OF assms(1) e1 assms(3)])
  have t2: "\<not> in_tx h (snd s2)" by (rule tx_results[OF assms(1) e2 t1])
  then have "\<not> in_tx h (snd (mc_free A SlotRead s2))"
    using tx_api(8)[OF assms(1)] by (simp add: mc_free_def case_prod_beta)
  with t1 t2 assms(2) e1 e2 show ?thesis
    by (cases b1; cases rs) (simp_all add: counter_replay_def)
qed

lemma handle_kept: "mc_kept c c' \<Longrightarrow> mc_handle c' = mc_handle c"
  by (simp add: mc_kept_def mc_handle_def)

lemma tx_apply:
  assumes laws: "tx_laws A in_tx" and run: "counter_apply A k s = (ok, n, r, s')"
  shows "\<not> in_tx (mc_handle (fst s)) (snd s') \<or> \<not> ok \<and> (\<exists>m1. my_commit A (mc_handle (fst s)) m1 = (False, snd s'))"
proof -
  obtain b1 s1 where e1: "mc_exec A SlotBump [SqlStr k] s = (b1, s1)" by (cases "mc_exec A SlotBump [SqlStr k] s")
  obtain b2 s2 where e2: "mc_exec A SlotRead [SqlStr k] s1 = (b2, s2)" by (cases "mc_exec A SlotRead [SqlStr k] s1")
  obtain rs s3 where e3: "mc_results A SlotRead s2 = (rs, s3)" by (cases "mc_results A SlotRead s2")
  have "mc_handle (fst s1) = mc_handle (fst s)" "mc_handle (fst s2) = mc_handle (fst s)" "mc_handle (fst s3) = mc_handle (fst s)"
    using handle_kept[OF kept_exec[OF e1]] handle_kept[OF kept_exec[OF e2]] handle_kept[OF kept_results[OF e3]] by simp_all
  note h = this
  let ?m3 = "ms_free_result A (mc_stmt SlotRead (fst s3)) (snd s3)"
  obtain b4 m4 where e4: "my_commit A (mc_handle (fst s)) ?m3 = (b4, m4)" by (cases "my_commit A (mc_handle (fst s)) ?m3")
  have "\<not> in_tx (mc_handle (fst s)) (snd s') \<or> \<not> ok \<and> snd s' = m4 \<and> \<not> b4"
    using run e1 e2 e3 e4 h tx_api(1)[OF laws] tx_api(2)[OF laws, of "mc_handle (fst s)" ?m3 m4]
    by (cases b1; cases b2; cases rs; cases b4)
      (auto simp: counter_apply_def Let_def mc_free_def mc_rollback_def case_prod_beta split: option.splits)
  with e4 show ?thesis by auto
qed

section \<open>Properties\<close>

text \<open>What a worker does with its connection.\<close>

inductive mc_step :: "'m mysql_api \<Rightarrow> 'm dbs \<Rightarrow> 'm dbs \<Rightarrow> bool" for A where
  step_open: "mc_open A cfg s = (ok, s') \<Longrightarrow> mc_step A s s'"
| step_close: "mc_step A s (mc_close A s)"
| step_ping: "mc_ping A s = (ok, s') \<Longrightarrow> mc_step A s s'"
| step_ensure: "ensure_usable A s = (ok, s') \<Longrightarrow> mc_step A s s'"
| step_save: "mc_save A k p s = (ok, i, s') \<Longrightarrow> mc_step A s s'"
| step_history: "mc_history A k n s = (ok, rows, s') \<Longrightarrow> mc_step A s s'"
| step_counter: "mc_counter A k rk s = (ok, n, r, s') \<Longrightarrow> mc_step A s s'"
| step_begin: "begin_batch A s = (ok, s') \<Longrightarrow> mc_step A s s'"
| step_commit: "commit_batch A s = (ok, s') \<Longrightarrow> mc_step A s s'"
| step_rollback: "mc_step A s (rollback_batch A s)"
| step_others: "mc_step A (c, m) (c, m')"

lemma mc_step_ready: "mc_step A s s' \<Longrightarrow> mc_ready (fst s) \<Longrightarrow> mc_ready (fst s')"
proof (induction rule: mc_step.induct)
  case (step_close s)
  then show ?case using mc_close_not_usable(1)[of A s] by (simp add: mc_ready_def)
next
  case (step_ensure s ok s')
  then show ?case by (auto simp: ensure_usable_def dest: mc_open_ready split: if_splits)
qed (auto dest: mc_open_ready kept_save kept_history kept_counter kept_batch(1,2) kept_ping intro: mc_ready_kept kept_batch(3))

text \<open>
  C29: no statement is used that is not there. However the server answers and wherever the connection breaks, a
  connection that says it is usable has its handle and a prepared statement for every operation of the path it is
  configured for; opening it succeeds exactly if it is usable afterwards.
\<close>

theorem usable_connection_has_its_statements:
  assumes "(mc_step A)\<^sup>*\<^sup>* (mc_new, m0) (c, m)"
  shows "(mc_usable c \<longrightarrow> (\<exists>h. mc_mysql c = Some h) \<and>
      (\<forall>sl \<in> fst ` set (stmt_items (cf_use_procedures (mc_cfg c))). \<exists>st. mc_stmts c sl = Some st)) \<and>
    (fst (mc_open A cfg (c, m)) \<longleftrightarrow> mc_usable (fst (snd (mc_open A cfg (c, m)))))"
proof -
  have "mc_ready (fst s)" if "(mc_step A)\<^sup>*\<^sup>* (mc_new, m0) s" for s
    using that
  proof (induction rule: rtranclp_induct)
    case base
    then show ?case by (simp add: mc_ready_def mc_usable_def mc_new_def)
  qed (rule mc_step_ready)
  from this[OF assms] mc_open_ready[of A cfg "(c, m)"] show ?thesis
    by (cases "mc_open A cfg (c, m)") (auto simp: mc_ready_def)
qed

text \<open>
  A server for the concrete inputs: it has one connection and remembers whether a transaction is open. It accepts
  everything, except commits if the argument says so.
\<close>

definition demo_api :: "bool \<Rightarrow> bool mysql_api" where
  "demo_api refuse = \<lparr>my_init = (\<lambda>m. (Some 0, m)), my_timeouts = (\<lambda>h t m. m), my_connect = (\<lambda>h cfg m. (True, m)),
     my_errno = (\<lambda>h m. 1), my_close = (\<lambda>h m. False), my_ping = (\<lambda>h m. (True, m)), my_query = (\<lambda>h sql m. (True, True)),
     my_commit = (\<lambda>h m. if refuse then (False, m) else (True, False)), my_rollback = (\<lambda>h m. False),
     ms_init = (\<lambda>h m. (Some 1, m)), ms_prepare = (\<lambda>st sql m. (True, m)), ms_close = (\<lambda>st m. m), ms_errno = (\<lambda>st m. 1),
     ms_bind_param = (\<lambda>st ps m. (True, m)), ms_execute = (\<lambda>st m. (True, m)), ms_insert_id = (\<lambda>st m. 1),
     ms_bind_result = (\<lambda>st m. (True, m)), ms_store_result = (\<lambda>st m. (Some [Fetched [SqlNum 1]], m)),
     ms_free_result = (\<lambda>st m. m), ms_more_results = (\<lambda>st m. 0), ms_next_result = (\<lambda>st m. m)\<rparr>"

lemma demo_api_laws: "tx_laws (demo_api b) (\<lambda>h m. m)"
  by (simp add: tx_laws_def demo_api_def)

abbreviation demo_mysql :: mysql_connection where
  "demo_mysql \<equiv> mc_new\<lparr>mc_mysql := Some 0, mc_broken := False, mc_stmts := (\<lambda>_. Some 1)\<rparr>"

theorem usable_connection_has_its_statements_witness:
  "mc_usable (fst (snd (mc_open (demo_api False) config_default (mc_new, False))))"
proof -
  have "fst (mc_open (demo_api False) config_default (mc_new, False))"
    by (simp add: mc_open_def mc_close_def close_statements_def all_slots_def close_statement_def prepare_all_def
        stmt_items_def mc_new_def config_default_def demo_api_def Let_def)
  then show ?thesis
    using usable_connection_has_its_statements[of "demo_api False" False mc_new False config_default] by simp
qed



end
