(* ===== verification/Request_Dispatcher.thy ===== *)
theory Request_Dispatcher
  imports App_Types
begin

text \<open>
  \<^verbatim>\<open>src/src/db/request_dispatcher.h\<close> and \<^verbatim>\<open>request_dispatcher.cpp\<close>: the queue the database workers share when
  requests are assigned dynamically. Every method holds the mutex for its whole body, so a run is a
  sequence of these operations. The locale \<open>keyed_scheduler\<close> is what the pool relies on.
\<close>

record key_queue =
  kq_waiting :: "request list"
  kq_working :: bool

record dispatcher =
  dp_queues :: "(bytes \<times> key_queue) list"
  dp_ready :: "bytes list"
  dp_depth :: nat

definition dp_init :: dispatcher where
  "dp_init = \<lparr>dp_queues = [], dp_ready = [], dp_depth = 0\<rparr>"

definition key_queue_at :: "bytes \<Rightarrow> dispatcher \<Rightarrow> key_queue" where
  "key_queue_at key d = (case map_of (dp_queues d) key of Some kq \<Rightarrow> kq | None \<Rightarrow> \<lparr>kq_waiting = [], kq_working = False\<rparr>)"

definition dp_push :: "nat \<Rightarrow> request option \<Rightarrow> dispatcher \<Rightarrow> bool \<times> dispatcher" where
  "dp_push cap req d =
     (case req of
        None \<Rightarrow> (False, d)
      | Some r \<Rightarrow>
          let key = rq_session_key r in
          if dp_depth d \<ge> cap then (False, d)
          else
            let kq = key_queue_at key d;
                kq = kq\<lparr>kq_waiting := kq_waiting kq @ [r]\<rparr>;
                d = d\<lparr>dp_queues := AList.update key kq (dp_queues d), dp_depth := dp_depth d + 1\<rparr>
            in (True, if \<not> kq_working kq \<and> length (kq_waiting kq) = 1 then d\<lparr>dp_ready := dp_ready d @ [key]\<rparr> else d))"

text \<open>The loop of \<^verbatim>\<open>take\<close> over the ready list.\<close>

fun take_ready :: "bytes list \<Rightarrow> dispatcher \<Rightarrow> request option \<times> dispatcher" where
  "take_ready [] d = (None, d\<lparr>dp_ready := []\<rparr>)"
| "take_ready (key # rest) d =
     (case map_of (dp_queues d) key of
        None \<Rightarrow> take_ready rest d
      | Some kq \<Rightarrow>
          (case kq_waiting kq of
             [] \<Rightarrow> take_ready rest d
           | r # rs \<Rightarrow>
               if kq_working kq then take_ready rest d
               else (Some r, d\<lparr>dp_ready := rest,
                  dp_queues := AList.update key (kq\<lparr>kq_working := True, kq_waiting := rs\<rparr>) (dp_queues d)\<rparr>)))"

definition dp_take :: "dispatcher \<Rightarrow> request option \<times> dispatcher" where
  "dp_take d = take_ready (dp_ready d) d"

definition dp_finish :: "bytes \<Rightarrow> dispatcher \<Rightarrow> dispatcher" where
  "dp_finish key d =
     (case map_of (dp_queues d) key of
        None \<Rightarrow> d
      | Some kq \<Rightarrow>
          let kq = kq\<lparr>kq_working := False\<rparr>;
              d = d\<lparr>dp_queues := AList.update key kq (dp_queues d),
                    dp_depth := (if dp_depth d > 0 then dp_depth d - 1 else dp_depth d)\<rparr>
          in if kq_waiting kq = [] then d\<lparr>dp_queues := AList.delete key (dp_queues d)\<rparr>
             else d\<lparr>dp_ready := dp_ready d @ [key]\<rparr>)"

definition dp_is_ready :: "dispatcher \<Rightarrow> bool" where
  "dp_is_ready d \<longleftrightarrow> dp_ready d \<noteq> []"

definition dp_take_all :: "dispatcher \<Rightarrow> request list \<times> dispatcher" where
  "dp_take_all d =
     (let all = concat (map (\<lambda>(k, kq). kq_waiting kq) (dp_queues d)) in
      (all, d\<lparr>dp_queues := map (\<lambda>(k, kq). (k, kq\<lparr>kq_waiting := []\<rparr>)) (dp_queues d),
              dp_depth := dp_depth d - length all, dp_ready := []\<rparr>))"

section \<open>Scheduling by key\<close>

datatype ('k, 'r) sched_op = SPush nat 'r | STake | SFinish 'k

locale keyed_scheduler =
  fixes inv :: "'d \<Rightarrow> bool"
    and waiting :: "'d \<Rightarrow> 'k \<Rightarrow> 'r list"
    and busy :: "'d \<Rightarrow> 'k set"
    and key :: "'r \<Rightarrow> 'k"
    and push :: "nat \<Rightarrow> 'r \<Rightarrow> 'd \<Rightarrow> bool \<times> 'd"
    and take :: "'d \<Rightarrow> 'r option \<times> 'd"
    and finish :: "'k \<Rightarrow> 'd \<Rightarrow> 'd"
  assumes push_inv: "inv d \<Longrightarrow> inv (snd (push cap r d))"
    and push_ok: "inv d \<Longrightarrow> fst (push cap r d) \<Longrightarrow>
      waiting (snd (push cap r d)) = (waiting d)(key r := waiting d (key r) @ [r]) \<and> busy (snd (push cap r d)) = busy d"
    and push_full: "\<not> fst (push cap r d) \<Longrightarrow> snd (push cap r d) = d"
    and take_some: "inv d \<Longrightarrow> take d = (Some r, d') \<Longrightarrow> inv d' \<and> key r \<notin> busy d \<and>
      waiting d = (waiting d')(key r := r # waiting d' (key r)) \<and> busy d' = insert (key r) (busy d)"
    and take_none: "inv d \<Longrightarrow> take d = (None, d') \<Longrightarrow> inv d' \<and> waiting d' = waiting d \<and> busy d' = busy d \<and>
      (\<forall>k. waiting d k \<noteq> [] \<longrightarrow> k \<in> busy d)"
    and finish_busy: "inv d \<Longrightarrow> k \<in> busy d \<Longrightarrow> inv (finish k d) \<and> waiting (finish k d) = waiting d \<and>
      busy (finish k d) = busy d - {k}"
begin

text \<open>
  A run of the producers and the workers: the scheduler, what was accepted, what was handed out, and what the
  workers hold. A worker finishes only a key it holds.
\<close>

fun sched_run :: "('k, 'r) sched_op list \<Rightarrow> 'd \<times> 'r list \<times> 'r list \<times> 'r list \<Rightarrow> 'd \<times> 'r list \<times> 'r list \<times> 'r list" where
  "sched_run [] s = s"
| "sched_run (SPush cap r # ops) (d, ps, ts, hs) =
     (case push cap r d of (ok, d') \<Rightarrow> sched_run ops (d', if ok then ps @ [r] else ps, ts, hs))"
| "sched_run (STake # ops) (d, ps, ts, hs) =
     (case take d of (None, d') \<Rightarrow> sched_run ops (d', ps, ts, hs)
      | (Some r, d') \<Rightarrow> sched_run ops (d', ps, ts @ [r], hs @ [r]))"
| "sched_run (SFinish k # ops) (d, ps, ts, hs) =
     (if k \<in> key ` set hs then sched_run ops (finish k d, ps, ts, filter (\<lambda>r. key r \<noteq> k) hs)
      else sched_run ops (d, ps, ts, hs))"

definition sched_inv :: "'d \<times> 'r list \<times> 'r list \<times> 'r list \<Rightarrow> bool" where
  "sched_inv = (\<lambda>(d, ps, ts, hs). inv d \<and> distinct (map key hs) \<and> busy d = key ` set hs \<and>
     (\<forall>k. filter (\<lambda>r. key r = k) ts @ waiting d k = filter (\<lambda>r. key r = k) ps))"

lemma sched_run_inv: "sched_inv s \<Longrightarrow> sched_inv (sched_run ops s)"
proof (induction ops s rule: sched_run.induct)
  case (2 cap r ops d ps ts hs)
  obtain ok d' where p: "push cap r d = (ok, d')" by fastforce
  have "sched_inv (d', if ok then ps @ [r] else ps, ts, hs)"
    using 2(2) push_inv[of d cap r] push_ok[of d cap r] push_full[of cap r d] p
    by (cases ok) (auto simp: sched_inv_def)
  with 2(1)[OF p[symmetric]] p show ?case by simp
next
  case (3 ops d ps ts hs)
  obtain x d' where t: "take d = (x, d')" by fastforce
  show ?case
  proof (cases x)
    case None
    with 3(3) t take_none[of d d'] have "sched_inv (d', ps, ts, hs)" by (simp add: sched_inv_def)
    with 3(1)[OF t[symmetric] None] t None show ?thesis by simp
  next
    case (Some r)
    from 3(3) take_some[of d r d'] t Some
    have i: "inv d'" "key r \<notin> busy d" "waiting d = (waiting d')(key r := r # waiting d' (key r))"
      "busy d' = insert (key r) (busy d)" "distinct (map key hs)" "busy d = key ` set hs"
      "\<forall>k. filter (\<lambda>r. key r = k) ts @ waiting d k = filter (\<lambda>r. key r = k) ps"
      by (simp_all add: sched_inv_def)
    have "filter (\<lambda>r. key r = k) (ts @ [r]) @ waiting d' k = filter (\<lambda>r. key r = k) ps" for k
      using i(7)[rule_format, of k] unfolding i(3) by (simp split: if_splits)
    then have "sched_inv (d', ps, ts @ [r], hs @ [r])"
      using i by (auto simp: sched_inv_def)
    with 3(2)[OF t[symmetric] Some] t Some show ?thesis by simp
  qed
next
  case (4 k ops d ps ts hs)
  show ?case
  proof (cases "k \<in> key ` set hs")
    case True
    then have "sched_inv (finish k d, ps, ts, filter (\<lambda>r. key r \<noteq> k) hs)"
      using 4(3) finish_busy[of d k] by (auto simp: sched_inv_def distinct_map_filter)
    with 4(1)[OF True] True show ?thesis by simp
  qed (use 4 in simp)
qed simp

end

section \<open>The dispatcher as a scheduler\<close>

definition dp_waiting :: "dispatcher \<Rightarrow> bytes \<Rightarrow> request list" where
  "dp_waiting d k = kq_waiting (key_queue_at k d)"

definition dp_busy :: "dispatcher \<Rightarrow> bytes set" where
  "dp_busy d = {k. kq_working (key_queue_at k d)}"

definition kq_weight :: "bytes \<times> key_queue \<Rightarrow> nat" where
  "kq_weight p = length (kq_waiting (snd p)) + (if kq_working (snd p) then 1 else 0)"

definition dp_wf :: "dispatcher \<Rightarrow> bool" where
  "dp_wf d \<longleftrightarrow> distinct (keys (dp_queues d)) \<and> distinct (dp_ready d) \<and>
     (\<forall>k. k \<in> set (dp_ready d) \<longleftrightarrow> dp_waiting d k \<noteq> [] \<and> k \<notin> dp_busy d) \<and>
     (\<forall>k. \<forall>r\<in>set (dp_waiting d k). rq_session_key r = k) \<and>
     dp_depth d = sum_list (map kq_weight (dp_queues d))"

lemma key_queue_at_update:
  "key_queue_at k (d\<lparr>dp_queues := AList.update j kq (dp_queues d)\<rparr>) = (if k = j then kq else key_queue_at k d)"
  by (simp add: key_queue_at_def)

lemma key_queue_at_delete:
  "key_queue_at k (d\<lparr>dp_queues := AList.delete j qs\<rparr>) =
     (if k = j then \<lparr>kq_waiting = [], kq_working = False\<rparr> else key_queue_at k (d\<lparr>dp_queues := qs\<rparr>))"
  by (simp add: key_queue_at_def)

lemma key_queue_at_frame [simp]:
  "key_queue_at k (d\<lparr>dp_ready := a\<rparr>) = key_queue_at k d" "key_queue_at k (d\<lparr>dp_depth := b\<rparr>) = key_queue_at k d"
  by (simp_all add: key_queue_at_def)

lemma dp_init_wf [simp]: "dp_wf dp_init"
  by (simp add: dp_wf_def dp_init_def dp_waiting_def dp_busy_def key_queue_at_def)

lemma kq_weight_at:
  "distinct (keys (dp_queues d)) \<Longrightarrow> sum_list (map kq_weight (AList.update k kq (dp_queues d))) + kq_weight (k, key_queue_at k d) =
     sum_list (map kq_weight (dp_queues d)) + kq_weight (k, kq)"
  using sum_update[of "dp_queues d" kq_weight k kq]
  by (cases "map_of (dp_queues d) k") (simp_all add: key_queue_at_def kq_weight_def)

lemma dp_waiting_simps [simp]:
  "dp_waiting (d\<lparr>dp_ready := a\<rparr>) = dp_waiting d" "dp_waiting (d\<lparr>dp_depth := b\<rparr>) = dp_waiting d"
  "dp_waiting (d\<lparr>dp_queues := AList.update k kq (dp_queues d)\<rparr>) = (dp_waiting d)(k := kq_waiting kq)"
  by (simp_all add: dp_waiting_def fun_eq_iff key_queue_at_update)

lemma dp_busy_simps [simp]:
  "dp_busy (d\<lparr>dp_ready := a\<rparr>) = dp_busy d" "dp_busy (d\<lparr>dp_depth := b\<rparr>) = dp_busy d"
  "dp_busy (d\<lparr>dp_queues := AList.update k kq (dp_queues d)\<rparr>) =
     (if kq_working kq then insert k (dp_busy d) else dp_busy d - {k})"
  by (auto simp: dp_busy_def key_queue_at_update)

lemma dp_push_cases:
  obtains (full) "dp_depth d \<ge> cap" "dp_push cap (Some r) d = (False, d)"
  | (taken) kq rs where "dp_depth d < cap"
      "kq = (key_queue_at (rq_session_key r) d)\<lparr>kq_waiting := dp_waiting d (rq_session_key r) @ [r]\<rparr>"
      "rs = (if rq_session_key r \<notin> dp_busy d \<and> dp_waiting d (rq_session_key r) = [] then dp_ready d @ [rq_session_key r] else dp_ready d)"
      "dp_push cap (Some r) d = (True, d\<lparr>dp_queues := AList.update (rq_session_key r) kq (dp_queues d),
         dp_depth := dp_depth d + 1, dp_ready := rs\<rparr>)"
proof (cases "dp_depth d \<ge> cap")
  case True
  then show ?thesis by (intro full) (simp_all add: dp_push_def)
next
  case False
  then show ?thesis
    by (intro taken[OF _ refl refl]) (auto simp: dp_push_def Let_def dp_waiting_def dp_busy_def)
qed

lemma dp_push_ok:
  assumes "dp_wf d"
  shows "dp_wf (snd (dp_push cap (Some r) d))"
    and "fst (dp_push cap (Some r) d) \<Longrightarrow> dp_waiting (snd (dp_push cap (Some r) d)) =
        (dp_waiting d)(rq_session_key r := dp_waiting d (rq_session_key r) @ [r]) \<and>
      dp_busy (snd (dp_push cap (Some r) d)) = dp_busy d"
proof (atomize (full), cases rule: dp_push_cases[of cap d r])
  case (taken kq rs)
  let ?k = "rq_session_key r" and ?d = "snd (dp_push cap (Some r) d)"
  have w: "dp_waiting ?d = (dp_waiting d)(?k := dp_waiting d ?k @ [r])" using taken(2) by (simp add: taken(4))
  have "kq_working kq \<longleftrightarrow> ?k \<in> dp_busy d" using taken(2) by (simp add: dp_busy_def)
  then have b: "dp_busy ?d = dp_busy d" by (auto simp: taken(4))
  have "sum_list (map kq_weight (AList.update ?k kq (dp_queues d))) = Suc (dp_depth d)"
    using kq_weight_at[of d ?k kq] taken(2) assms by (simp add: dp_wf_def kq_weight_def dp_waiting_def)
  then have "dp_wf ?d"
    using assms taken(3) unfolding dp_wf_def w b by (auto simp: taken(4))
  with w b show "dp_wf ?d \<and> (fst (dp_push cap (Some r) d) \<longrightarrow> dp_waiting ?d = (dp_waiting d)(?k := dp_waiting d ?k @ [r]) \<and>
      dp_busy ?d = dp_busy d)" by blast
qed (use assms in simp)

lemma dp_take_cases:
  assumes "dp_wf d"
  obtains (none) "dp_ready d = []" "dp_take d = (None, d)"
  | (some) r rs rest kq where "dp_ready d = rq_session_key r # rest" "dp_waiting d (rq_session_key r) = r # rs"
      "rq_session_key r \<notin> dp_busy d" "kq_waiting kq = rs \<and> kq_working kq"
      "dp_take d = (Some r, d\<lparr>dp_ready := rest, dp_queues := AList.update (rq_session_key r) kq (dp_queues d)\<rparr>)"
proof (cases "dp_ready d")
  case Nil
  then show ?thesis by (intro none) (simp_all add: dp_take_def)
next
  case (Cons k rest)
  then have k: "dp_waiting d k \<noteq> []" "k \<notin> dp_busy d" using assms by (auto simp: dp_wf_def)
  then obtain r rs where r: "dp_waiting d k = r # rs" by (cases "dp_waiting d k") auto
  then have "rq_session_key r = k" using assms unfolding dp_wf_def by (metis list.set_intros(1))
  moreover obtain q where q: "map_of (dp_queues d) k = Some q"
    using k(1) by (cases "map_of (dp_queues d) k") (auto simp: dp_waiting_def key_queue_at_def)
  moreover have "kq_waiting q = r # rs" "\<not> kq_working q"
    using r k(2) q by (auto simp: dp_waiting_def dp_busy_def key_queue_at_def)
  ultimately show ?thesis using r k Cons
    by (intro some[of r rest rs "q\<lparr>kq_working := True, kq_waiting := rs\<rparr>"]) (auto simp: dp_take_def)
qed

lemma dp_take_ok:
  assumes "dp_wf d" "dp_take d = (Some r, d')"
  shows "dp_wf d' \<and> rq_session_key r \<notin> dp_busy d \<and>
    dp_waiting d = (dp_waiting d')(rq_session_key r := r # dp_waiting d' (rq_session_key r)) \<and>
    dp_busy d' = insert (rq_session_key r) (dp_busy d)"
  using assms(1)
proof (cases rule: dp_take_cases)
  case (some r' rs rest kq)
  then have r: "r' = r" "d' = d\<lparr>dp_ready := rest, dp_queues := AList.update (rq_session_key r) kq (dp_queues d)\<rparr>"
    using assms(2) by auto
  let ?k = "rq_session_key r"
  have w: "dp_waiting d' = (dp_waiting d)(?k := rs)" "dp_busy d' = insert ?k (dp_busy d)"
    using some(4) r by (simp_all add: dp_waiting_def dp_busy_def key_queue_at_def fun_eq_iff) auto
  have q: "kq_waiting (key_queue_at ?k d) = r # rs" "\<not> kq_working (key_queue_at ?k d)"
    using some r by (auto simp: dp_waiting_def dp_busy_def)
  have "sum_list (map kq_weight (AList.update ?k kq (dp_queues d))) = dp_depth d"
    using kq_weight_at[of d ?k kq] some(4) q assms(1) by (simp add: dp_wf_def kq_weight_def)
  then have "dp_wf d'"
    using assms(1) some(1,2) r(1) unfolding dp_wf_def w by (auto simp: r(2) split: if_splits)
  with w some(2,3) r(1) show ?thesis by (auto simp: fun_eq_iff)
qed (use assms(2) in simp)

lemma dp_take_none:
  assumes "dp_wf d" "dp_take d = (None, d')"
  shows "dp_wf d' \<and> dp_waiting d' = dp_waiting d \<and> dp_busy d' = dp_busy d \<and> (\<forall>k. dp_waiting d k \<noteq> [] \<longrightarrow> k \<in> dp_busy d)"
  using assms(1)
proof (cases rule: dp_take_cases)
  case none
  then show ?thesis using assms by (auto simp: dp_wf_def)
qed (use assms(2) in simp)

lemma dp_finish_ok:
  assumes "dp_wf d" "k \<in> dp_busy d"
  shows "dp_wf (dp_finish k d) \<and> dp_waiting (dp_finish k d) = dp_waiting d \<and> dp_busy (dp_finish k d) = dp_busy d - {k}"
proof -
  from assms(2) obtain q where q: "map_of (dp_queues d) k = Some q" "kq_working q" "key_queue_at k d = q"
    by (auto simp: dp_busy_def key_queue_at_def split: option.splits)
  let ?q = "q\<lparr>kq_working := False\<rparr>" and ?m = "AList.update k (q\<lparr>kq_working := False\<rparr>) (dp_queues d)"
  have sum: "Suc (sum_list (map kq_weight ?m)) = dp_depth d"
    using kq_weight_at[of d k ?q] q assms(1) by (simp add: dp_wf_def kq_weight_def)
  have nr: "k \<notin> set (dp_ready d)" using assms by (simp add: dp_wf_def)
  show ?thesis
  proof (cases "kq_waiting q")
    case Nil
    let ?d = "dp_finish k d"
    have eq: "?d = d\<lparr>dp_queues := AList.delete k ?m, dp_depth := dp_depth d - 1\<rparr>"
      using q Nil sum by (simp add: dp_finish_def Let_def)
    have w: "dp_waiting ?d = dp_waiting d" "dp_busy ?d = dp_busy d - {k}"
      using Nil q by (auto simp: eq dp_waiting_def dp_busy_def key_queue_at_def fun_eq_iff)
    have "sum_list (map kq_weight (AList.delete k ?m)) = dp_depth d - 1"
      using sum_delete[of ?m kq_weight k] sum assms(1) Nil by (simp add: dp_wf_def kq_weight_def distinct_keys_update)
    moreover have "dp_waiting d k = []" using Nil q by (simp add: dp_waiting_def)
    ultimately have "dp_wf ?d"
      using assms(1) unfolding dp_wf_def w by (auto simp: eq)
    with w show ?thesis by blast
  next
    case (Cons r rs)
    let ?d = "dp_finish k d"
    have eq: "?d = d\<lparr>dp_queues := ?m, dp_depth := dp_depth d - 1, dp_ready := dp_ready d @ [k]\<rparr>"
      using q Cons sum by (simp add: dp_finish_def Let_def)
    have w: "dp_waiting ?d = dp_waiting d" "dp_busy ?d = dp_busy d - {k}"
      using q by (auto simp: eq dp_waiting_def dp_busy_def key_queue_at_def fun_eq_iff)
    have "dp_waiting d k \<noteq> []" using Cons q by (simp add: dp_waiting_def)
    then have "dp_wf ?d"
      using assms(1) sum nr unfolding dp_wf_def w by (auto simp: eq)
    with w show ?thesis by blast
  qed
qed

interpretation dp: keyed_scheduler dp_wf dp_waiting dp_busy rq_session_key "\<lambda>cap r. dp_push cap (Some r)" dp_take dp_finish
proof unfold_locales
  show "\<not> fst (dp_push cap (Some r) d) \<Longrightarrow> snd (dp_push cap (Some r) d) = d" for cap r d
    by (auto simp: dp_push_def Let_def split: if_splits)
qed (rule dp_push_ok dp_take_ok dp_take_none dp_finish_ok; assumption)+

lemma sched_inv_init: "dp.sched_inv (dp_init, [], [], [])"
  by (simp add: dp.sched_inv_def dp_busy_def dp_waiting_def key_queue_at_def dp_init_def dp_wf_def)

lemma dp_idle:
  assumes "dp_wf d" "dp_depth d = 0"
  shows "dp_waiting d k = [] \<and> dp_busy d = {}"
proof -
  have "dp_waiting d j = [] \<and> j \<notin> dp_busy d" for j
  proof (cases "map_of (dp_queues d) j")
    case (Some q)
    then have "(j, q) \<in> set (dp_queues d)" by (rule map_of_SomeD)
    with assms have "kq_weight (j, q) = 0" by (simp add: dp_wf_def)
    with Some show ?thesis by (auto simp: dp_waiting_def dp_busy_def key_queue_at_def kq_weight_def split: if_splits)
  qed (simp add: dp_waiting_def dp_busy_def key_queue_at_def)
  then show ?thesis by blast
qed

section \<open>Properties\<close>

text \<open>
  Whatever the service threads submit and however the workers take turns, the requests of one session key are
  handed out in the order they were accepted, none is lost or handed out twice, and no two requests of one key are
  in the hands of workers at the same time.
\<close>

theorem dispatcher_keeps_the_order_of_a_key:
  assumes "dp.sched_run ops (dp_init, [], [], []) = (d, pushed, taken, held)"
  shows "filter (\<lambda>r. rq_session_key r = k) taken @ dp_waiting d k = filter (\<lambda>r. rq_session_key r = k) pushed \<and>
    distinct (map rq_session_key held)"
proof -
  from dp.sched_run_inv[OF sched_inv_init, of ops] show ?thesis by (simp add: assms dp.sched_inv_def)
qed

abbreviation demo_request :: "byte \<Rightarrow> byte \<Rightarrow> request" where
  "demo_request k p \<equiv> request_init\<lparr>rq_session_key := [k], rq_payload := [p]\<rparr>"

abbreviation demo_sched :: "(bytes, request) sched_op list" where
  "demo_sched \<equiv> [SPush 9 (demo_request 1 1), SPush 9 (demo_request 1 2), SPush 9 (demo_request 2 3), STake, STake, STake]"

theorem dispatcher_keeps_the_order_of_a_key_witness:
  "distinct (map rq_session_key (snd (snd (snd (dp.sched_run demo_sched (dp_init, [], [], []))))))"
  using dispatcher_keeps_the_order_of_a_key[of demo_sched] by (cases "dp.sched_run demo_sched (dp_init, [], [], [])") auto

text \<open>
  C15: a request that waits is not forgotten. If \<^verbatim>\<open>take\<close> hands out nothing, every key with a request waiting is being
  worked on, and the \<^verbatim>\<open>finish\<close> of that key makes the next \<^verbatim>\<open>take\<close> possible; and \<^verbatim>\<open>depth\<close> is exactly the number of
  requests that wait or are being worked on, so that an empty count means that every request has been dealt with.
\<close>

theorem waiting_requests_are_not_forgotten:
  assumes "dp.sched_run ops (dp_init, [], [], []) = (d, pushed, taken, held)"
  shows "(fst (dp_take d) = None \<and> dp_waiting d k \<noteq> [] \<longrightarrow>
      k \<in> rq_session_key ` set held \<and> dp_is_ready (dp_finish k d) \<and> fst (dp_take (dp_finish k d)) \<noteq> None) \<and>
    dp_depth d = sum_list (map kq_weight (dp_queues d)) \<and>
    (dp_depth d = 0 \<longrightarrow> dp_waiting d k = [] \<and> held = [])"
proof -
  from dp.sched_run_inv[OF sched_inv_init, of ops] have wf: "dp_wf d" and b: "dp_busy d = rq_session_key ` set held"
    by (simp_all add: assms dp.sched_inv_def)
  have "k \<in> dp_busy d \<and> dp_is_ready (dp_finish k d) \<and> fst (dp_take (dp_finish k d)) \<noteq> None"
    if n: "fst (dp_take d) = None" "dp_waiting d k \<noteq> []"
  proof -
    have k: "k \<in> dp_busy d" using dp_take_none[OF wf, of "snd (dp_take d)"] n by (simp add: prod_eq_iff)
    note f = dp_finish_ok[OF wf k]
    have "fst (dp_take (dp_finish k d)) \<noteq> None"
      using dp_take_none[of "dp_finish k d" "snd (dp_take (dp_finish k d))"] f n(2) by (auto simp: prod_eq_iff)
    moreover have "dp_ready (dp_finish k d) \<noteq> []"
    proof -
      have "k \<in> set (dp_ready (dp_finish k d))" using f n(2) by (simp add: dp_wf_def)
      then show ?thesis by auto
    qed
    ultimately show ?thesis using k by (simp add: dp_is_ready_def)
  qed
  moreover have "held = []" if "dp_depth d = 0" using dp_idle[OF wf that] unfolding b by (cases held) auto
  moreover have "dp_depth d = sum_list (map kq_weight (dp_queues d))" using wf by (simp add: dp_wf_def)
  ultimately show ?thesis using dp_idle[OF wf] b by blast
qed

theorem waiting_requests_are_not_forgotten_witness:
  "dp_depth (fst (dp.sched_run demo_sched (dp_init, [], [], []))) =
     sum_list (map kq_weight (dp_queues (fst (dp.sched_run demo_sched (dp_init, [], [], [])))))"
  using waiting_requests_are_not_forgotten[of demo_sched] by (cases "dp.sched_run demo_sched (dp_init, [], [], [])") auto

end
