(* ===== verification/Worker_Pool.thy ===== *)
theory Worker_Pool
  imports Mysql_Connection Request_Dispatcher Swap_Queue "HOL-Library.Signed_Division"
begin

text \<open>
  \<^verbatim>\<open>src/src/db/db_worker_pool.h\<close> and \<^verbatim>\<open>db_worker_pool.cpp\<close>: the threads that execute the requests. The functions a
  worker runs work on a record of what the worker can reach: its own state, the shared dispatcher, the
  database with the clock, and the responses given to the sink so far. \<^verbatim>\<open>std::hash\<close> is an argument.
\<close>

datatype dispatch_kind = Static | Dynamic

definition parse_dispatch :: "bytes \<Rightarrow> dispatch_kind" where
  "parse_dispatch name = (if name = lit ''dynamic'' then Dynamic else Static)"

definition dispatch_name :: "dispatch_kind \<Rightarrow> string" where
  "dispatch_name d = (if d = Dynamic then ''dynamic'' else ''static'')"

definition kReconnectIntervalMs :: int where "kReconnectIntervalMs = 1000"
definition kIdlePingIntervalMs :: int where "kIdlePingIntervalMs = 3000"
definition kMaxQueuePerWorker :: nat where "kMaxQueuePerWorker = 4096"

definition is_retry_safe :: "request_kind \<Rightarrow> bool" where
  "is_retry_safe k \<longleftrightarrow> k = History \<or> k = Counter"

definition shard_of :: "(bytes \<Rightarrow> nat) \<Rightarrow> bytes \<Rightarrow> nat \<Rightarrow> nat" where
  "shard_of h key workers = h key mod workers"

section \<open>State\<close>

record worker =
  wk_conn :: mysql_connection
  wk_queue :: "request option swap_queue"
  wk_depth :: int
  wk_handled :: u64
  wk_signaled :: bool
  wk_connected :: bool

definition worker_new :: worker where
  "worker_new = \<lparr>wk_conn = mc_new, wk_queue = sq_empty, wk_depth = 0, wk_handled = 0, wk_signaled = False, wk_connected = False\<rparr>"

text \<open>The settings of the pool, which do not change while it runs.\<close>

record pool_config =
  pc_dispatch :: dispatch_kind
  pc_batch_size :: nat

text \<open>The clock answers the \<open>n\<close>-th reading with \<open>ws_clock n\<close>, in microseconds; \<^verbatim>\<open>now_ms\<close> reads the same clock.\<close>

record 'm wstate =
  ws_worker :: worker
  ws_shared :: dispatcher
  ws_db :: 'm
  ws_clock :: "nat \<Rightarrow> int"
  ws_reads :: nat
  ws_out :: "response list"

definition read_us :: "'m wstate \<Rightarrow> int \<times> 'm wstate" where
  "read_us w = (ws_clock w (ws_reads w), w\<lparr>ws_reads := ws_reads w + 1\<rparr>)"

definition read_ms :: "'m wstate \<Rightarrow> int \<times> 'm wstate" where
  "read_ms w = (ws_clock w (ws_reads w) div 1000, w\<lparr>ws_reads := ws_reads w + 1\<rparr>)"

text \<open>An operation of the worker's connection.\<close>

definition the_db :: "'m wstate \<Rightarrow> 'm dbs" where
  "the_db w = (wk_conn (ws_worker w), ws_db w)"

definition set_db :: "'m dbs \<Rightarrow> 'm wstate \<Rightarrow> 'm wstate" where
  "set_db s w = w\<lparr>ws_worker := (ws_worker w)\<lparr>wk_conn := fst s\<rparr>, ws_db := snd s\<rparr>"

definition db_usable :: "'m wstate \<Rightarrow> bool" where
  "db_usable w \<longleftrightarrow> mc_usable (wk_conn (ws_worker w))"

definition set_connected :: "bool \<Rightarrow> 'm wstate \<Rightarrow> 'm wstate" where
  "set_connected b w = w\<lparr>ws_worker := (ws_worker w)\<lparr>wk_connected := b\<rparr>\<rparr>"

definition sink :: "response \<Rightarrow> 'm wstate \<Rightarrow> 'm wstate" where
  "sink res w = w\<lparr>ws_out := ws_out w @ [res]\<rparr>"

section \<open>One request\<close>

definition run_once :: "'m mysql_api \<Rightarrow> request \<Rightarrow> response \<Rightarrow> 'm wstate \<Rightarrow> bool \<times> response \<times> 'm wstate" where
  "run_once A req res w =
     (case rq_kind req of
        Save \<Rightarrow> (case mc_save A (rq_session_key req) (rq_payload req) (the_db w) of
          (ok, i, s) \<Rightarrow> (ok, res\<lparr>rs_log_id := i\<rparr>, set_db s w))
      | History \<Rightarrow> (case mc_history A (rq_session_key req) (rq_limit req) (the_db w) of
          (ok, rows, s) \<Rightarrow> (ok, res\<lparr>rs_rows := rows\<rparr>, set_db s w))
      | Counter \<Rightarrow> (case mc_counter A (rq_session_key req) (rq_request_key req) (the_db w) of
          (ok, n, applied, s) \<Rightarrow> (ok, res\<lparr>rs_hit_count := n, rs_already_applied := applied\<rparr>, set_db s w)))"

definition fail_status :: "'m wstate \<Rightarrow> status" where
  "fail_status w = (if db_usable w then Failed else Unavailable)"

definition past_deadline :: "request \<Rightarrow> 'm wstate \<Rightarrow> bool \<times> 'm wstate" where
  "past_deadline req w =
     (if rq_deadline_us req > 0 then (case read_us w of (now, w) \<Rightarrow> (now > rq_deadline_us req, w)) else (False, w))"

definition handle :: "'m mysql_api \<Rightarrow> request \<Rightarrow> response \<Rightarrow> 'm wstate \<Rightarrow> response \<times> 'm wstate" where
  "handle A req res w =
     (case past_deadline req w of
        (True, w) \<Rightarrow> (res\<lparr>rs_status := Expired\<rparr>, w)
      | (False, w) \<Rightarrow>
          if \<not> db_usable w then (res\<lparr>rs_status := Unavailable\<rparr>, w)
          else case run_once A req res w of
            (True, res, w) \<Rightarrow> (res\<lparr>rs_status := Ok\<rparr>, w)
          | (False, res, w) \<Rightarrow>
              if \<not> db_usable w \<and> is_retry_safe (rq_kind req) then
                (case ensure_usable A (the_db w) of
                   (False, s) \<Rightarrow> (let w = set_db s w in (res\<lparr>rs_status := fail_status w\<rparr>, w))
                 | (True, s) \<Rightarrow>
                     (case run_once A req res (set_connected True (set_db s w)) of
                        (True, res, w) \<Rightarrow> (res\<lparr>rs_status := Ok\<rparr>, w)
                      | (False, res, w) \<Rightarrow> (res\<lparr>rs_status := fail_status w\<rparr>, w)))
              else (res\<lparr>rs_status := fail_status w\<rparr>, w))"

definition response_for :: "request \<Rightarrow> response" where
  "response_for req = response_init\<lparr>rs_kind := rq_kind req, rs_conn_id := rq_conn_id req, rs_submitted_us := rq_submitted_us req\<rparr>"

definition count_handled :: "'m wstate \<Rightarrow> 'm wstate" where
  "count_handled w = w\<lparr>ws_worker := (ws_worker w)\<lparr>wk_handled := wk_handled (ws_worker w) + 1\<rparr>\<rparr>"

definition process :: "'m mysql_api \<Rightarrow> request \<Rightarrow> 'm wstate \<Rightarrow> 'm wstate" where
  "process A req w =
     (let (begin_us, w) = read_us w;
          (res, w) = handle A req (response_for req) w;
          (end_us, w) = read_us w
      in sink (res\<lparr>rs_db_us := end_us - begin_us\<rparr>) (count_handled w))"

definition reject_request :: "request option \<Rightarrow> 'm wstate \<Rightarrow> 'm wstate" where
  "reject_request req w =
     (case req of None \<Rightarrow> w | Some r \<Rightarrow> sink ((response_for r)\<lparr>rs_status := Unavailable\<rparr>) w)"

section \<open>Batches of saves\<close>

definition batchable :: "pool_config \<Rightarrow> request \<Rightarrow> 'm wstate \<Rightarrow> bool \<times> 'm wstate" where
  "batchable P req w =
     (if pc_batch_size P \<le> 1 then (False, w)
      else if rq_kind req \<noteq> Save then (False, w)
      else case past_deadline req w of (late, w) \<Rightarrow> (\<not> late, w))"

definition release :: "pool_config \<Rightarrow> bytes \<Rightarrow> 'm wstate \<Rightarrow> 'm wstate" where
  "release P session_key w =
     (if pc_dispatch P = Dynamic then w\<lparr>ws_shared := dp_finish session_key (ws_shared w)\<rparr>
      else w\<lparr>ws_worker := (ws_worker w)\<lparr>wk_depth := wk_depth (ws_worker w) - 1\<rparr>\<rparr>)"

text \<open>The loop over the saves; \<^verbatim>\<open>log_ids\<close> of those not reached stay 0.\<close>

fun save_each :: "'m mysql_api \<Rightarrow> request list \<Rightarrow> 'm dbs \<Rightarrow> bool \<times> u64 list \<times> 'm dbs" where
  "save_each A [] s = (True, [], s)"
| "save_each A (r # rs) s =
     (case mc_save A (rq_session_key r) (rq_payload r) s of
        (False, i, s) \<Rightarrow> (False, i # map (\<lambda>_. 0) rs, s)
      | (True, i, s) \<Rightarrow> (case save_each A rs s of (ok, ids, s) \<Rightarrow> (ok, i # ids, s)))"

definition save_batch :: "'m mysql_api \<Rightarrow> request list \<Rightarrow> 'm dbs \<Rightarrow> bool \<times> u64 list \<times> 'm dbs" where
  "save_batch A saves s =
     (let (ok, s) = begin_batch A s;
          (ok, ids, s) = (if ok then save_each A saves s else (False, map (\<lambda>_. 0) saves, s));
          (ok, s) = (if ok then commit_batch A s else (False, s));
          s = (if \<not> ok then rollback_batch A s else s)
      in (ok, ids, s))"

definition batch_response :: "bool \<Rightarrow> status \<Rightarrow> int \<Rightarrow> request \<times> u64 \<Rightarrow> response" where
  "batch_response ok st per_us = (\<lambda>(r, i).
     (response_for r)\<lparr>rs_status := st, rs_log_id := (if ok then i else 0), rs_db_us := per_us\<rparr>)"

definition flush_saves :: "'m mysql_api \<Rightarrow> pool_config \<Rightarrow> request list \<Rightarrow> 'm wstate \<Rightarrow> nat \<times> 'm wstate" where
  "flush_saves A P saves w =
     (case saves of
        [] \<Rightarrow> (0, w)
      | [r] \<Rightarrow> (1, release P (rq_session_key r) (process A r w))
      | _ \<Rightarrow>
          let (begin_us, w) = read_us w;
              (ok, ids, s) = save_batch A saves (the_db w);
              w = set_db s w;
              (end_us, w) = read_us w;
              per_us = (end_us - begin_us) sdiv int (length saves);
              st = (if ok then Ok else fail_status w);
              w = fold (\<lambda>p w. sink (batch_response ok st per_us p) (count_handled w)) (zip saves ids) w;
              w = fold (\<lambda>r. release P (rq_session_key r)) saves w
          in (length saves, w))"

section \<open>The loop of a worker\<close>

text \<open>The local variables of \<^verbatim>\<open>run\<close>.\<close>

record run_vars =
  rv_next_retry_ms :: int
  rv_next_ping_ms :: int

text \<open>Before the loop: the first attempt to connect.\<close>

definition worker_begin :: "'m mysql_api \<Rightarrow> connection_config \<Rightarrow> 'm wstate \<Rightarrow> run_vars \<times> 'm wstate" where
  "worker_begin A cfg w =
     (let (now, w) = read_ms w;
          (ok, s) = mc_open A cfg (the_db w);
          w = set_connected ok (set_db s w)
      in if ok then (\<lparr>rv_next_retry_ms = 0, rv_next_ping_ms = now + kIdlePingIntervalMs\<rparr>, w)
         else case read_ms w of (now2, w) \<Rightarrow>
           (\<lparr>rv_next_retry_ms = now2 + kReconnectIntervalMs, rv_next_ping_ms = now + kIdlePingIntervalMs\<rparr>, w))"

definition worker_reconnect :: "'m mysql_api \<Rightarrow> run_vars \<times> 'm wstate \<Rightarrow> run_vars \<times> 'm wstate" where
  "worker_reconnect A = (\<lambda>(v, w).
     if db_usable w then (v, w)
     else case read_ms w of (now, w) \<Rightarrow>
       if now \<ge> rv_next_retry_ms v then
         (case ensure_usable A (the_db w) of
            (True, s) \<Rightarrow> (v, set_connected True (set_db s w))
          | (False, s) \<Rightarrow> (v\<lparr>rv_next_retry_ms := now + kReconnectIntervalMs\<rparr>, set_connected False (set_db s w)))
       else (v, w))"

definition worker_ping :: "'m mysql_api \<Rightarrow> run_vars \<times> 'm wstate \<Rightarrow> run_vars \<times> 'm wstate" where
  "worker_ping A = (\<lambda>(v, w).
     if \<not> db_usable w then (v, w)
     else case read_ms w of (now, w) \<Rightarrow>
       if now \<ge> rv_next_ping_ms v then
         (case read_ms w of (now2, w) \<Rightarrow>
            let v = v\<lparr>rv_next_ping_ms := now2 + kIdlePingIntervalMs\<rparr> in
            case mc_ping A (the_db w) of
              (True, s) \<Rightarrow> (v, set_db s w)
            | (False, s) \<Rightarrow> (v\<lparr>rv_next_retry_ms := 0\<rparr>, set_connected False (set_db s w)))
       else (v, w))"

text \<open>The loop over a batch of the worker's own queue: the saves collected so far, the number done, and the state.\<close>

definition static_item :: "'m mysql_api \<Rightarrow> pool_config \<Rightarrow> request option \<Rightarrow> request list \<times> nat \<times> 'm wstate \<Rightarrow> request list \<times> nat \<times> 'm wstate" where
  "static_item A P req = (\<lambda>(saves, n, w).
     case req of
       None \<Rightarrow> (saves, n, w)
     | Some r \<Rightarrow>
         (case batchable P r w of
            (True, w) \<Rightarrow>
              let saves = saves @ [r] in
              if length saves \<ge> pc_batch_size P then (case flush_saves A P saves w of (k, w) \<Rightarrow> ([], n + k, w))
              else (saves, n, w)
          | (False, w) \<Rightarrow>
              (case flush_saves A P saves w of (k, w) \<Rightarrow>
                 let w = process A r w;
                     w = w\<lparr>ws_worker := (ws_worker w)\<lparr>wk_depth := wk_depth (ws_worker w) - 1\<rparr>\<rparr>
                 in ([], n + k + 1, w))))"

definition static_batch :: "'m mysql_api \<Rightarrow> pool_config \<Rightarrow> request option list \<Rightarrow> 'm wstate \<Rightarrow> nat \<times> 'm wstate" where
  "static_batch A P batch w =
     (case fold (static_item A P) batch ([], 0, w) of (saves, n, w) \<Rightarrow>
        case flush_saves A P saves w of (k, w) \<Rightarrow> (n + k, w))"

text \<open>
  One turn of the loop over the shared dispatcher. The first component says whether the loop goes on: it ends when
  there is nothing to take, and after a turn that has found the pool stopped.
\<close>

definition dynamic_item :: "'m mysql_api \<Rightarrow> pool_config \<Rightarrow> bool \<Rightarrow> request list \<times> nat \<times> 'm wstate \<Rightarrow> bool \<times> request list \<times> nat \<times> 'm wstate" where
  "dynamic_item A P running = (\<lambda>(saves, n, w).
     case dp_take (ws_shared w) of
       (None, d) \<Rightarrow> (False, saves, n, w\<lparr>ws_shared := d\<rparr>)
     | (Some r, d) \<Rightarrow>
         (case batchable P r (w\<lparr>ws_shared := d\<rparr>) of
            (True, w) \<Rightarrow>
              let saves = saves @ [r] in
              if length saves \<ge> pc_batch_size P then (case flush_saves A P saves w of (k, w) \<Rightarrow> (running, [], n + k, w))
              else (running, saves, n, w)
          | (False, w) \<Rightarrow>
              (case flush_saves A P saves w of (k, w) \<Rightarrow>
                 let w = process A r w;
                     w = w\<lparr>ws_shared := dp_finish (rq_session_key r) (ws_shared w)\<rparr>
                 in (running, [], n + k + 1, w))))"

text \<open>
  The loop without other threads in between; \<open>running\<close> gives what \<^verbatim>\<open>running_\<close> holds at the end of each turn. The fuel
  bounds the turns, \<open>None\<close> is a loop that still goes on.
\<close>

fun dynamic_loop :: "'m mysql_api \<Rightarrow> pool_config \<Rightarrow> nat \<Rightarrow> (nat \<Rightarrow> bool) \<Rightarrow> request list \<times> nat \<times> 'm wstate \<Rightarrow> (nat \<times> 'm wstate) option" where
  "dynamic_loop A P 0 running s = None"
| "dynamic_loop A P (Suc fuel) running s =
     (case dynamic_item A P (running fuel) s of (again, s) \<Rightarrow>
        if again then dynamic_loop A P fuel running s
        else case s of (saves, n, w) \<Rightarrow> case flush_saves A P saves w of (k, w) \<Rightarrow> Some (n + k, w))"

text \<open>How long the worker may sleep. The difference of the times is narrowed to an \<^verbatim>\<open>int\<close>.\<close>

definition narrow_int :: "int \<Rightarrow> int" where
  "narrow_int x = sint (word_of_int x :: u32)"

definition wait_ms :: "bool \<Rightarrow> int \<Rightarrow> int \<Rightarrow> int" where
  "wait_ms usable next_retry_ms now =
     (if usable then 50 else min (max 1 (narrow_int (next_retry_ms - now))) kReconnectIntervalMs)"

text \<open>One turn of the outer loop with static assignment, up to the wait.\<close>

definition static_round :: "'m mysql_api \<Rightarrow> pool_config \<Rightarrow> run_vars \<times> 'm wstate \<Rightarrow> run_vars \<times> 'm wstate" where
  "static_round A P s =
     (let (v, w) = s;
          w = w\<lparr>ws_worker := (ws_worker w)\<lparr>wk_signaled := False\<rparr>\<rparr>;
          (v, w) = worker_ping A (worker_reconnect A (v, w));
          (batch, q) = sq_swap (wk_queue (ws_worker w));
          (n, w) = static_batch A P batch (w\<lparr>ws_worker := (ws_worker w)\<lparr>wk_queue := q\<rparr>\<rparr>);
          w = w\<lparr>ws_worker := (ws_worker w)\<lparr>wk_queue := sq_clear_batch (wk_queue (ws_worker w))\<rparr>\<rparr>
      in if n > 0 then (case read_ms w of (now, w) \<Rightarrow> (v\<lparr>rv_next_ping_ms := now + kIdlePingIntervalMs\<rparr>, w)) else (v, w))"

text \<open>The same with dynamic assignment, and the two together; \<open>None\<close> is a turn that still goes on.\<close>

definition dynamic_round :: "'m mysql_api \<Rightarrow> pool_config \<Rightarrow> nat \<Rightarrow> (nat \<Rightarrow> bool) \<Rightarrow> run_vars \<times> 'm wstate \<Rightarrow> (run_vars \<times> 'm wstate) option" where
  "dynamic_round A P fuel running s =
     (let (v, w) = s;
          w = w\<lparr>ws_worker := (ws_worker w)\<lparr>wk_signaled := False\<rparr>\<rparr>;
          (v, w) = worker_ping A (worker_reconnect A (v, w))
      in case dynamic_loop A P fuel running ([], 0, w) of
           None \<Rightarrow> None
         | Some (n, w) \<Rightarrow>
             if n > 0 then (case read_ms w of (now, w) \<Rightarrow> Some (v\<lparr>rv_next_ping_ms := now + kIdlePingIntervalMs\<rparr>, w))
             else Some (v, w))"

definition worker_round :: "'m mysql_api \<Rightarrow> pool_config \<Rightarrow> nat \<Rightarrow> (nat \<Rightarrow> bool) \<Rightarrow> run_vars \<times> 'm wstate \<Rightarrow> (run_vars \<times> 'm wstate) option" where
  "worker_round A P fuel running s =
     (if pc_dispatch P = Static then Some (static_round A P s) else dynamic_round A P fuel running s)"

text \<open>After the loop: what is left in the worker's own queue is answered.\<close>

definition reject_tail :: "request option \<Rightarrow> 'm wstate \<Rightarrow> 'm wstate" where
  "reject_tail req w =
     (case req of
        None \<Rightarrow> w
      | Some _ \<Rightarrow> reject_request req (w\<lparr>ws_worker := (ws_worker w)\<lparr>wk_depth := wk_depth (ws_worker w) - 1\<rparr>\<rparr>))"

definition worker_end :: "pool_config \<Rightarrow> 'm wstate \<Rightarrow> 'm wstate" where
  "worker_end P w =
     (if pc_dispatch P = Static then
        (case sq_swap (wk_queue (ws_worker w)) of (tail, q) \<Rightarrow>
           let w = fold reject_tail tail (w\<lparr>ws_worker := (ws_worker w)\<lparr>wk_queue := q\<rparr>\<rparr>)
           in w\<lparr>ws_worker := (ws_worker w)\<lparr>wk_queue := sq_clear_batch (wk_queue (ws_worker w))\<rparr>\<rparr>)
      else w)"

section \<open>The pool\<close>

record worker_pool =
  pl_workers :: "worker list"
  pl_cfg :: connection_config
  pl_running :: bool
  pl_draining :: bool
  pl_config :: pool_config
  pl_shared :: dispatcher

definition pool_new :: worker_pool where
  "pool_new = \<lparr>pl_workers = [], pl_cfg = config_default, pl_running = False, pl_draining = False,
     pl_config = \<lparr>pc_dispatch = Static, pc_batch_size = 1\<rparr>, pl_shared = dp_init\<rparr>"

text \<open>\<open>has_sink\<close> says whether a sink was given.\<close>

definition pool_start :: "connection_config \<Rightarrow> int \<Rightarrow> bool \<Rightarrow> dispatch_kind \<Rightarrow> int \<Rightarrow> worker_pool \<Rightarrow> bool \<times> worker_pool" where
  "pool_start cfg worker_count has_sink d batch_size p =
     (if pl_running p then (True, p)
      else if \<not> has_sink then (False, p)
      else if worker_count = 0 then (True, p)
      else (True, p\<lparr>pl_cfg := cfg,
              pl_config := \<lparr>pc_dispatch = d, pc_batch_size = nat (max 1 (min 256 batch_size))\<rparr>,
              pl_running := True,
              pl_workers := replicate (nat (max 1 (min 64 worker_count))) worker_new\<rparr>))"

definition pool_enabled :: "worker_pool \<Rightarrow> bool" where
  "pool_enabled p \<longleftrightarrow> pl_workers p \<noteq> []"

definition pool_submit :: "(bytes \<Rightarrow> nat) \<Rightarrow> request option \<Rightarrow> worker_pool \<Rightarrow> bool \<times> worker_pool" where
  "pool_submit h req p =
     (if \<not> pl_running p \<or> pl_workers p = [] then (False, p)
      else if pl_draining p then (False, p)
      else case req of
        None \<Rightarrow> (False, p)
      | Some r \<Rightarrow>
          if pc_dispatch (pl_config p) = Dynamic then
            (case dp_push (kMaxQueuePerWorker * length (pl_workers p)) req (pl_shared p) of
               (False, d) \<Rightarrow> (False, p\<lparr>pl_shared := d\<rparr>)
             | (True, d) \<Rightarrow> (True, p\<lparr>pl_shared := d\<rparr>))
          else
            let i = shard_of h (rq_session_key r) (length (pl_workers p)); w = pl_workers p ! i in
            if wk_depth w \<ge> int kMaxQueuePerWorker then (False, p)
            else (True, p\<lparr>pl_workers := (pl_workers p)[i :=
                    w\<lparr>wk_depth := wk_depth w + 1, wk_queue := sq_push req (wk_queue w), wk_signaled := True\<rparr>]\<rparr>))"

definition pool_queued :: "worker_pool \<Rightarrow> int" where
  "pool_queued p =
     (if pc_dispatch (pl_config p) = Dynamic then int (dp_depth (pl_shared p))
      else sum_list (map wk_depth (pl_workers p)))"

definition pool_connected :: "worker_pool \<Rightarrow> nat" where
  "pool_connected p = length (filter wk_connected (pl_workers p))"

text \<open>
  Running a function of worker \<open>i\<close>: it reaches its own state and the shared dispatcher of the pool, and the
  database, the clock and the sink.
\<close>

record 'm pool_env =
  pe_db :: 'm
  pe_clock :: "nat \<Rightarrow> int"
  pe_reads :: nat
  pe_out :: "response list"

definition enter :: "nat \<Rightarrow> worker_pool \<times> 'm pool_env \<Rightarrow> 'm wstate" where
  "enter i = (\<lambda>(p, e). \<lparr>ws_worker = pl_workers p ! i, ws_shared = pl_shared p, ws_db = pe_db e,
     ws_clock = pe_clock e, ws_reads = pe_reads e, ws_out = pe_out e\<rparr>)"

definition leave :: "nat \<Rightarrow> 'm wstate \<Rightarrow> worker_pool \<times> 'm pool_env \<Rightarrow> worker_pool \<times> 'm pool_env" where
  "leave i w = (\<lambda>(p, e). (p\<lparr>pl_workers := (pl_workers p)[i := ws_worker w], pl_shared := ws_shared w\<rparr>,
     e\<lparr>pe_db := ws_db w, pe_reads := ws_reads w, pe_out := ws_out w\<rparr>))"

text \<open>
  \<^verbatim>\<open>stop\<close>: each worker has left its loop, answers what is in its own queue and closes its connection; then what
  is left in the dispatcher is answered.
\<close>

definition stop_worker :: "'m mysql_api \<Rightarrow> nat \<Rightarrow> worker_pool \<times> 'm pool_env \<Rightarrow> worker_pool \<times> 'm pool_env" where
  "stop_worker A i s =
     (let w = worker_end (pl_config (fst s)) (enter i s);
          w = set_db (mc_close A (the_db w)) w
      in leave i w s)"

definition pool_stop :: "'m mysql_api \<Rightarrow> worker_pool \<times> 'm pool_env \<Rightarrow> worker_pool \<times> 'm pool_env" where
  "pool_stop A = (\<lambda>(p, e).
     if \<not> pl_running p then (p, e)
     else
       let (p, e) = fold (stop_worker A) [0..<length (pl_workers p)] (p\<lparr>pl_running := False\<rparr>, e);
           (p, e) = (if pc_dispatch (pl_config p) = Dynamic then
              (case dp_take_all (pl_shared p) of (rs, d) \<Rightarrow>
                 (p\<lparr>pl_shared := d\<rparr>,
                  e\<lparr>pe_out := pe_out e @ map (\<lambda>r. (response_for r)\<lparr>rs_status := Unavailable\<rparr>) rs\<rparr>))
              else (p, e))
       in (p\<lparr>pl_workers := []\<rparr>, e))"

text \<open>
  \<^verbatim>\<open>drain\<close>: from here on requests are refused; then it polls. Every turn of the loop sees the number of requests left and
  the clock; the clock is read only if some are left.
\<close>

definition pool_begin_drain :: "worker_pool \<Rightarrow> worker_pool" where
  "pool_begin_drain p =
     (if \<not> pl_running p then p
      else p\<lparr>pl_draining := True, pl_workers := map (\<lambda>w. w\<lparr>wk_signaled := True\<rparr>) (pl_workers p)\<rparr>)"

fun pool_drain_loop :: "int \<Rightarrow> (int \<times> int) list \<Rightarrow> bool" where
  "pool_drain_loop deadline [] = False"
| "pool_drain_loop deadline ((left, now) # obs) =
     (if left > 0 \<and> now < deadline then pool_drain_loop deadline obs else True)"

section \<open>One response for every request\<close>

text \<open>What a response has in common with its request.\<close>

definition rtag :: "request \<Rightarrow> request_kind \<times> conn_id \<times> int" where
  "rtag r = (rq_kind r, rq_conn_id r, rq_submitted_us r)"

definition tag :: "response \<Rightarrow> request_kind \<times> conn_id \<times> int" where
  "tag r = (rs_kind r, rs_conn_id r, rs_submitted_us r)"

text \<open>What the work on a request leaves alone.\<close>

definition io_same :: "'m wstate \<Rightarrow> 'm wstate \<Rightarrow> bool" where
  "io_same w w' \<longleftrightarrow> ws_out w' = ws_out w \<and> ws_shared w' = ws_shared w \<and> ws_clock w' = ws_clock w \<and>
     wk_queue (ws_worker w') = wk_queue (ws_worker w) \<and> wk_depth (ws_worker w') = wk_depth (ws_worker w)"

lemma io_same_refl [simp]: "io_same w w"
  by (simp add: io_same_def)

lemma io_same_trans: "io_same a b \<Longrightarrow> io_same b c \<Longrightarrow> io_same a c"
  by (simp add: io_same_def)

lemma io_same_simps [simp]:
  "io_same w (set_db s w') = io_same w w'" "io_same w (set_connected b w') = io_same w w'"
  "io_same w (count_handled w') = io_same w w'" "io_same w (w'\<lparr>ws_reads := n\<rparr>) = io_same w w'"
  "io_same (set_db s w) w' = io_same w w'" "io_same (set_connected b w) w' = io_same w w'"
  by (simp_all add: io_same_def set_db_def set_connected_def count_handled_def)

lemma io_same_reads:
  "read_us w = (t, w') \<Longrightarrow> io_same w w'" "read_ms w = (t, w') \<Longrightarrow> io_same w w'" "past_deadline r w = (b, w') \<Longrightarrow> io_same w w'"
  by (auto simp: read_us_def read_ms_def past_deadline_def split: if_splits)

lemma io_same_run_once: "run_once A r res w = (ok, res', w') \<Longrightarrow> io_same w w' \<and> tag res' = tag res"
  by (auto simp: run_once_def tag_def split: request_kind.splits prod.splits)

lemma io_same_handle: "handle A r res w = (res', w') \<Longrightarrow> io_same w w' \<and> tag res' = tag res"
  by (auto simp: handle_def tag_def Let_def split: prod.splits bool.splits if_splits
      dest!: io_same_run_once io_same_reads(3) intro: io_same_trans io_same_trans[OF io_same_trans])

lemma tag_simps [simp]:
  "tag (r\<lparr>rs_status := a\<rparr>) = tag r" "tag (r\<lparr>rs_db_us := b\<rparr>) = tag r" "tag (r\<lparr>rs_log_id := c\<rparr>) = tag r"
  "tag (response_for q) = rtag q"
  by (simp_all add: tag_def rtag_def response_for_def)

lemma process_out:
  obtains res where "tag res = rtag r" "io_same w ((process A r w)\<lparr>ws_out := ws_out w\<rparr>)" "ws_out (process A r w) = ws_out w @ [res]"
proof -
  obtain t w1 where r1: "read_us w = (t, w1)" by (cases "read_us w")
  obtain res w2 where h: "handle A r (response_for r) w1 = (res, w2)" by (cases "handle A r (response_for r) w1")
  obtain t' w3 where r2: "read_us w2 = (t', w3)" by (cases "read_us w2")
  have same: "io_same w w3" "tag res = rtag r"
    using io_same_reads(1)[OF r1] io_same_reads(1)[OF r2] io_same_handle[OF h] by (auto intro: io_same_trans)
  then show ?thesis
    by (intro that[of "res\<lparr>rs_db_us := t' - t\<rparr>"])
      (simp_all add: process_def r1 h r2 sink_def io_same_def count_handled_def)
qed

lemma length_save_each: "save_each A rs s = (ok, ids, s') \<Longrightarrow> length ids = length rs"
proof (induction rs arbitrary: s ok ids s')
  case (Cons r rs)
  obtain b i s1 where e: "mc_save A (rq_session_key r) (rq_payload r) s = (b, i, s1)"
    by (cases "mc_save A (rq_session_key r) (rq_payload r) s")
  obtain b' ids' s2 where r: "save_each A rs s1 = (b', ids', s2)" by (cases "save_each A rs s1")
  from Cons.prems e r Cons.IH[OF r] show ?case by (cases b) auto
qed simp

lemma length_save_batch: "save_batch A rs s = (ok, ids, s') \<Longrightarrow> length ids = length rs"
  by (auto simp: save_batch_def Let_def dest: length_save_each split: prod.splits if_splits)

lemma fold_sink:
  "ws_out (fold (\<lambda>p w. sink (f p) (count_handled w)) ps w) = ws_out w @ map f ps \<and>
   io_same w ((fold (\<lambda>p w. sink (f p) (count_handled w)) ps w)\<lparr>ws_out := ws_out w\<rparr>)"
proof (induction ps arbitrary: w)
  case (Cons p ps)
  from Cons.IH[of "sink (f p) (count_handled w)"] show ?case
    by (simp add: io_same_def sink_def count_handled_def)
qed (simp add: io_same_def)

lemma fold_release:
  "ws_out (fold (\<lambda>r. release P (rq_session_key r)) rs w) = ws_out w \<and>
   wk_queue (ws_worker (fold (\<lambda>r. release P (rq_session_key r)) rs w)) = wk_queue (ws_worker w) \<and>
   ws_clock (fold (\<lambda>r. release P (rq_session_key r)) rs w) = ws_clock w \<and>
   (if pc_dispatch P = Dynamic
    then ws_shared (fold (\<lambda>r. release P (rq_session_key r)) rs w) = fold (\<lambda>r. dp_finish (rq_session_key r)) rs (ws_shared w) \<and>
      wk_depth (ws_worker (fold (\<lambda>r. release P (rq_session_key r)) rs w)) = wk_depth (ws_worker w)
    else ws_shared (fold (\<lambda>r. release P (rq_session_key r)) rs w) = ws_shared w \<and>
      wk_depth (ws_worker (fold (\<lambda>r. release P (rq_session_key r)) rs w)) = wk_depth (ws_worker w) - int (length rs))"
  by (induction rs arbitrary: w) (simp_all add: release_def)

lemma flush_many:
  "2 \<le> length saves \<Longrightarrow> flush_saves A P saves w =
     (case read_us w of (t, w1) \<Rightarrow> case save_batch A saves (the_db w1) of (ok, ids, s) \<Rightarrow>
        case read_us (set_db s w1) of (t', w2) \<Rightarrow>
          (length saves, fold (\<lambda>r. release P (rq_session_key r)) saves
             (fold (\<lambda>p w. sink (batch_response ok (if ok then Ok else fail_status w2) ((t' - t) sdiv int (length saves)) p) (count_handled w))
                (zip saves ids) w2)))"
  by (cases saves rule: remdups_adj.cases) (simp_all only: flush_saves_def list.case Let_def case_prod_beta, simp_all)

text \<open>
  What flushing does: one response for every save collected, in order, and the requests are released.
\<close>

lemma flush_saves_out:
  assumes "flush_saves A P saves w = (n, w')"
  shows "n = length saves \<and> map tag (ws_out w') = map tag (ws_out w) @ map rtag saves \<and>
    wk_queue (ws_worker w') = wk_queue (ws_worker w) \<and> ws_clock w' = ws_clock w \<and>
    (if pc_dispatch P = Dynamic
     then ws_shared w' = fold (\<lambda>r. dp_finish (rq_session_key r)) saves (ws_shared w) \<and> wk_depth (ws_worker w') = wk_depth (ws_worker w)
     else ws_shared w' = ws_shared w \<and> wk_depth (ws_worker w') = wk_depth (ws_worker w) - int (length saves))"
proof -
  consider "saves = []" | r where "saves = [r]" | r1 r2 rs where "saves = r1 # r2 # rs"
    by (cases saves rule: remdups_adj.cases) auto
  then show ?thesis
  proof cases
    case 1
    then show ?thesis using assms by (simp add: flush_saves_def)
  next
    case (2 r)
    obtain res where res: "tag res = rtag r" "io_same w ((process A r w)\<lparr>ws_out := ws_out w\<rparr>)"
      "ws_out (process A r w) = ws_out w @ [res]" by (rule process_out)
    from assms 2 have "n = 1" "w' = fold (\<lambda>r. release P (rq_session_key r)) [r] (process A r w)"
      by (simp_all add: flush_saves_def)
    with res 2 show ?thesis
      by (auto simp: io_same_def release_def)
  next
    case (3 r1 r2 rs)
    obtain t w1 where r1: "read_us w = (t, w1)" by (cases "read_us w")
    obtain ok ids s where b: "save_batch A saves (the_db w1) = (ok, ids, s)" by (cases "save_batch A saves (the_db w1)")
    obtain t' w2 where r2: "read_us (set_db s w1) = (t', w2)" by (cases "read_us (set_db s w1)")
    define st where "st = (if ok then Ok else fail_status w2)"
    define f where "f = batch_response ok st ((t' - t) sdiv int (length saves))"
    let ?w3 = "fold (\<lambda>p w. sink (f p) (count_handled w)) (zip saves ids) w2"
    have eq: "n = length saves" "w' = fold (\<lambda>r. release P (rq_session_key r)) saves ?w3"
      using assms r1 b r2 flush_many[of saves A P w] 3 by (simp_all add: f_def st_def)
    have "map (tag \<circ> f) (zip saves ids) = map rtag saves"
      using length_save_batch[OF b]
      by (intro nth_equalityI) (simp_all add: f_def batch_response_def)
    moreover have "io_same w w2" using io_same_reads(1)[OF r1] io_same_reads(1)[OF r2] by (simp add: io_same_def set_db_def)
    ultimately show ?thesis
      using fold_sink[of f "zip saves ids" w2] fold_release[of P saves ?w3] eq
      by (cases "pc_dispatch P = Dynamic") (simp_all add: io_same_def)
  qed
qed

text \<open>The requests of a batch; an item may be null.\<close>

definition requests :: "request option list \<Rightarrow> request list" where
  "requests b = List.map_filter (\<lambda>r. r) b"

lemma requests_simps [simp]:
  "requests [] = []" "requests (None # b) = requests b" "requests (Some r # b) = r # requests b"
  by (simp_all add: requests_def map_filter_simps)

lemma io_same_batchable: "batchable P r w = (b, w') \<Longrightarrow> io_same w w'"
  by (auto simp: batchable_def split: if_splits prod.splits dest: io_same_reads(3))

text \<open>What one item of a batch leaves for the saves collected so far: \<open>rs\<close> are the requests answered.\<close>

lemma static_item_out:
  assumes P: "pc_dispatch P = Static" and run: "static_item A P x (saves, n, w) = (saves', n', w')"
  obtains rs where "rs @ saves' = saves @ requests [x]" "map tag (ws_out w') = map tag (ws_out w) @ map rtag rs"
    "n' = n + length rs" "wk_depth (ws_worker w') = wk_depth (ws_worker w) - int (length rs)"
    "wk_queue (ws_worker w') = wk_queue (ws_worker w)"
proof (cases x)
  case None
  then show ?thesis using run by (intro that[of "[]"]) (simp_all add: static_item_def)
next
  case (Some r)
  obtain b w1 where bt: "batchable P r w = (b, w1)" by (cases "batchable P r w")
  note same = io_same_batchable[OF bt]
  consider (stash) "b" "length (saves @ [r]) < pc_batch_size P" | (flush) "b" "length (saves @ [r]) \<ge> pc_batch_size P" | (proc) "\<not> b"
    by linarith
  then show ?thesis
  proof cases
    case stash
    then have "saves' = saves @ [r]" "n' = n" "w' = w1" using run bt Some by (simp_all add: static_item_def)
    then show ?thesis using same Some by (intro that[of "[]"]) (simp_all add: io_same_def)
  next
    case flush
    obtain k w2 where f: "flush_saves A P (saves @ [r]) w1 = (k, w2)" by (cases "flush_saves A P (saves @ [r]) w1")
    have "saves' = []" "n' = n + k" "w' = w2" using run bt Some flush f by (simp_all add: static_item_def)
    then show ?thesis using flush_saves_out[OF f] same Some P
      by (intro that[of "saves @ [r]"]) (simp_all add: io_same_def)
  next
    case proc
    obtain k w2 where f: "flush_saves A P saves w1 = (k, w2)" by (cases "flush_saves A P saves w1")
    obtain res where res: "tag res = rtag r" "io_same w2 ((process A r w2)\<lparr>ws_out := ws_out w2\<rparr>)"
      "ws_out (process A r w2) = ws_out w2 @ [res]" by (rule process_out)
    let ?w3 = "process A r w2"
    have "saves' = []" "n' = n + k + 1" "w' = ?w3\<lparr>ws_worker := (ws_worker ?w3)\<lparr>wk_depth := wk_depth (ws_worker ?w3) - 1\<rparr>\<rparr>"
      using run bt Some proc f by (simp_all add: static_item_def Let_def)
    then show ?thesis using flush_saves_out[OF f] res same Some P
      by (intro that[of "saves @ [r]"]) (simp_all add: io_same_def)
  qed
qed

lemma requests_Cons: "requests (x # b) = requests [x] @ requests b"
  by (cases x) simp_all

lemma fold_static_out:
  assumes P: "pc_dispatch P = Static" and run: "fold (static_item A P) b (saves, n, w) = (saves', n', w')"
  obtains rs where "rs @ saves' = saves @ requests b" "map tag (ws_out w') = map tag (ws_out w) @ map rtag rs"
    "n' = n + length rs" "wk_depth (ws_worker w') = wk_depth (ws_worker w) - int (length rs)"
    "wk_queue (ws_worker w') = wk_queue (ws_worker w)"
  using run
proof (induction b arbitrary: saves n w thesis)
  case Nil
  then show ?case by (intro Nil.prems(1)[of "[]"]) simp_all
next
  case (Cons x b)
  obtain saves1 n1 w1 where i: "static_item A P x (saves, n, w) = (saves1, n1, w1)"
    by (cases "static_item A P x (saves, n, w)")
  obtain rs1 where 1: "rs1 @ saves1 = saves @ requests [x]" "map tag (ws_out w1) = map tag (ws_out w) @ map rtag rs1"
    "n1 = n + length rs1" "wk_depth (ws_worker w1) = wk_depth (ws_worker w) - int (length rs1)"
    "wk_queue (ws_worker w1) = wk_queue (ws_worker w)"
    by (rule static_item_out[OF P i])
  have "fold (static_item A P) b (saves1, n1, w1) = (saves', n', w')" using Cons.prems(2) i by simp
  then obtain rs2 where 2: "rs2 @ saves' = saves1 @ requests b" "map tag (ws_out w') = map tag (ws_out w1) @ map rtag rs2"
    "n' = n1 + length rs2" "wk_depth (ws_worker w') = wk_depth (ws_worker w1) - int (length rs2)"
    "wk_queue (ws_worker w') = wk_queue (ws_worker w1)"
    using Cons.IH by blast
  have "(rs1 @ rs2) @ saves' = saves @ requests (x # b)"
    using 1(1) 2(1) requests_Cons[of x b] by (metis append_assoc)
  then show ?case using 1 2 by (intro Cons.prems(1)[of "rs1 @ rs2"]) simp_all
qed

lemma static_batch_out:
  assumes P: "pc_dispatch P = Static" and run: "static_batch A P b w = (n, w')"
  shows "map tag (ws_out w') = map tag (ws_out w) @ map rtag (requests b) \<and> n = length (requests b) \<and>
    wk_depth (ws_worker w') = wk_depth (ws_worker w) - int (length (requests b)) \<and>
    wk_queue (ws_worker w') = wk_queue (ws_worker w)"
proof -
  obtain saves k w1 where f: "fold (static_item A P) b ([], 0, w) = (saves, k, w1)"
    by (cases "fold (static_item A P) b ([], 0, w)")
  obtain k' w2 where g: "flush_saves A P saves w1 = (k', w2)" by (cases "flush_saves A P saves w1")
  obtain rs where rs: "rs @ saves = [] @ requests b" "map tag (ws_out w1) = map tag (ws_out w) @ map rtag rs"
    "k = 0 + length rs" "wk_depth (ws_worker w1) = wk_depth (ws_worker w) - int (length rs)"
    "wk_queue (ws_worker w1) = wk_queue (ws_worker w)"
    by (rule fold_static_out[OF P f])
  have "n = k + k'" "w' = w2" using run f g by (simp_all add: static_batch_def)
  moreover have req: "requests b = rs @ saves" using rs(1) by simp
  ultimately show ?thesis using rs flush_saves_out[OF g] P unfolding req by simp
qed

lemma io_same_connection:
  "worker_reconnect A (v, w) = (v', w') \<Longrightarrow> io_same w w'" "worker_ping A (v, w) = (v', w') \<Longrightarrow> io_same w w'"
  by (auto simp: worker_reconnect_def worker_ping_def Let_def split: if_splits prod.splits bool.splits
      dest!: io_same_reads(2) intro: io_same_trans)

lemma static_round_out:
  assumes P: "pc_dispatch P = Static" and wf: "sq_wf (wk_queue (ws_worker w))" and run: "static_round A P (v, w) = (v', w')"
  defines "rs \<equiv> requests (sq_filled (wk_queue (ws_worker w)))"
  shows "map tag (ws_out w') = map tag (ws_out w) @ map rtag rs \<and> sq_filled (wk_queue (ws_worker w')) = [] \<and>
    wk_depth (ws_worker w') = wk_depth (ws_worker w) - int (length rs)"
proof -
  let ?w1 = "w\<lparr>ws_worker := (ws_worker w)\<lparr>wk_signaled := False\<rparr>\<rparr>"
  obtain v2 w2 where r: "worker_reconnect A (v, ?w1) = (v2, w2)" by (cases "worker_reconnect A (v, ?w1)")
  obtain v3 w3 where p: "worker_ping A (v2, w2) = (v3, w3)" by (cases "worker_ping A (v2, w2)")
  have same: "io_same ?w1 w3" using io_same_connection(1)[OF r] io_same_connection(2)[OF p] by (rule io_same_trans)
  then have q: "wk_queue (ws_worker w3) = wk_queue (ws_worker w)" by (simp add: io_same_def)
  let ?w4 = "w3\<lparr>ws_worker := (ws_worker w3)\<lparr>wk_queue := snd (sq_swap (wk_queue (ws_worker w)))\<rparr>\<rparr>"
  obtain n w5 where b: "static_batch A P (sq_filled (wk_queue (ws_worker w))) ?w4 = (n, w5)"
    by (cases "static_batch A P (sq_filled (wk_queue (ws_worker w))) ?w4")
  let ?w6 = "w5\<lparr>ws_worker := (ws_worker w5)\<lparr>wk_queue := sq_clear_batch (wk_queue (ws_worker w5))\<rparr>\<rparr>"
  have "w' = ?w6 \<or> w' = snd (read_ms ?w6)"
    using run b r p q wf
    by (auto simp: static_round_def Let_def case_prod_beta sq.swap_batch split: if_splits)
  then have "ws_out w' = ws_out w5" "wk_queue (ws_worker w') = sq_clear_batch (wk_queue (ws_worker w5))"
    "wk_depth (ws_worker w') = wk_depth (ws_worker w5)"
    by (auto simp: read_ms_def)
  then show ?thesis
    using static_batch_out[OF P b] same wf sq.swap_contents[OF wf] by (simp add: io_same_def rs_def)
qed

section \<open>Runs of the pool with dynamic assignment\<close>

text \<open>
  The threads of the pool, cut where the mutex of the dispatcher is released: submitting, taking a request, flushing
  the saves collected, and processing a request that is not batched, in any order between the workers. A request a
  worker holds carries the worker and whether it is a save kept for a batch. \<open>dy_accepted\<close> and \<open>dy_answered\<close> record the
  requests accepted and answered.
\<close>

record 'm dyn_pool =
  dy_pool :: worker_pool
  dy_env :: "'m pool_env"
  dy_held :: "(nat \<times> bool \<times> request) list"
  dy_accepted :: "request list"
  dy_answered :: "request list"

definition saves_of :: "nat \<Rightarrow> (nat \<times> bool \<times> request) list \<Rightarrow> request list" where
  "saves_of i hs = map (\<lambda>x. snd (snd x)) (filter (\<lambda>x. fst x = i \<and> fst (snd x)) hs)"

definition dyn_leave :: "nat \<Rightarrow> 'm wstate \<Rightarrow> 'm dyn_pool \<Rightarrow> 'm dyn_pool" where
  "dyn_leave i w s = (case leave i w (dy_pool s, dy_env s) of (p, e) \<Rightarrow> s\<lparr>dy_pool := p, dy_env := e\<rparr>)"

abbreviation dyn_enter :: "nat \<Rightarrow> 'm dyn_pool \<Rightarrow> 'm wstate" where
  "dyn_enter i s \<equiv> enter i (dy_pool s, dy_env s)"

inductive dyn_step :: "'m mysql_api \<Rightarrow> (bytes \<Rightarrow> nat) \<Rightarrow> 'm dyn_pool \<Rightarrow> 'm dyn_pool \<Rightarrow> bool" for A h where
  submit: "pool_submit h (Some r) (dy_pool s) = (ok, p) \<Longrightarrow>
     dyn_step A h s (s\<lparr>dy_pool := p, dy_accepted := dy_accepted s @ (if ok then [r] else [])\<rparr>)"
| taking: "i < length (pl_workers (dy_pool s)) \<Longrightarrow> dp_take (pl_shared (dy_pool s)) = (Some r, d) \<Longrightarrow>
     batchable (pl_config (dy_pool s)) r ((dyn_enter i s)\<lparr>ws_shared := d\<rparr>) = (b, w) \<Longrightarrow>
     dyn_step A h s ((dyn_leave i w s)\<lparr>dy_held := dy_held s @ [(i, b, r)]\<rparr>)"
| flushing: "i < length (pl_workers (dy_pool s)) \<Longrightarrow>
     flush_saves A (pl_config (dy_pool s)) (saves_of i (dy_held s)) (dyn_enter i s) = (n, w) \<Longrightarrow>
     dyn_step A h s ((dyn_leave i w s)\<lparr>dy_held := filter (\<lambda>x. \<not> (fst x = i \<and> fst (snd x))) (dy_held s),
        dy_answered := dy_answered s @ saves_of i (dy_held s)\<rparr>)"
| processing: "i < length (pl_workers (dy_pool s)) \<Longrightarrow> (i, False, r) \<in> set (dy_held s) \<Longrightarrow> saves_of i (dy_held s) = [] \<Longrightarrow>
     process A r (dyn_enter i s) = w \<Longrightarrow>
     dyn_step A h s ((dyn_leave i (w\<lparr>ws_shared := dp_finish (rq_session_key r) (ws_shared w)\<rparr>) s)
        \<lparr>dy_held := filter (\<lambda>x. \<not> (fst x = i \<and> \<not> fst (snd x) \<and> snd (snd x) = r)) (dy_held s),
         dy_answered := dy_answered s @ [r]\<rparr>)"
| connecting: "i < length (pl_workers (dy_pool s)) \<Longrightarrow> worker_ping A (worker_reconnect A (v, dyn_enter i s)) = (v', w) \<Longrightarrow>
     dyn_step A h s (dyn_leave i w s)"
| draining: "dyn_step A h s (s\<lparr>dy_pool := pool_begin_drain (dy_pool s)\<rparr>)"
| others: "dyn_step A h s (s\<lparr>dy_env := (dy_env s)\<lparr>pe_db := m\<rparr>\<rparr>)"

abbreviation held_requests :: "'m dyn_pool \<Rightarrow> request list" where
  "held_requests s \<equiv> map (\<lambda>x. snd (snd x)) (dy_held s)"

abbreviation of_key :: "bytes \<Rightarrow> request list \<Rightarrow> request list" where
  "of_key k rs \<equiv> filter (\<lambda>r. rq_session_key r = k) rs"

definition dyn_inv :: "'m dyn_pool \<Rightarrow> bool" where
  "dyn_inv s \<longleftrightarrow> pc_dispatch (pl_config (dy_pool s)) = Dynamic \<and> dp_wf (pl_shared (dy_pool s)) \<and>
     distinct (map rq_session_key (held_requests s)) \<and>
     dp_busy (pl_shared (dy_pool s)) = rq_session_key ` set (held_requests s) \<and>
     (\<forall>k. of_key k (dy_answered s) @ of_key k (held_requests s) @ dp_waiting (pl_shared (dy_pool s)) k = of_key k (dy_accepted s)) \<and>
     map tag (pe_out (dy_env s)) = map rtag (dy_answered s)"

text \<open>Of distinct keys, at most one request has a given key, so that taking some out of the list keeps the order.\<close>

lemma of_key_split:
  assumes "distinct (map (\<lambda>x. rq_session_key (snd (snd x))) hs)"
  shows "of_key k (map (\<lambda>x. snd (snd x)) hs) =
    of_key k (map (\<lambda>x. snd (snd x)) (filter Q hs)) @ of_key k (map (\<lambda>x. snd (snd x)) (filter (\<lambda>x. \<not> Q x) hs))"
  using assms
proof (induction hs)
  case (Cons x hs)
  show ?case
  proof (cases "rq_session_key (snd (snd x)) = k \<and> \<not> Q x")
    case True
    have "rq_session_key (snd (snd y)) \<noteq> k" if "y \<in> set hs" for y
    proof -
      have "rq_session_key (snd (snd x)) \<notin> (\<lambda>x. rq_session_key (snd (snd x))) ` set hs" using Cons.prems by simp
      with imageI[OF that, of "\<lambda>x. rq_session_key (snd (snd x))"] True show ?thesis by metis
    qed
    then have "of_key k (map (\<lambda>x. snd (snd x)) (filter Q hs)) = []"
      by (simp add: filter_empty_conv)
    with True Cons show ?thesis by simp
  next
    case False
    with Cons show ?thesis by auto
  qed
qed simp

lemma fold_finish:
  assumes "dp_wf d" "distinct (map rq_session_key rs)" "rq_session_key ` set rs \<subseteq> dp_busy d"
  shows "dp_wf (fold (\<lambda>r. dp_finish (rq_session_key r)) rs d) \<and>
    dp_waiting (fold (\<lambda>r. dp_finish (rq_session_key r)) rs d) = dp_waiting d \<and>
    dp_busy (fold (\<lambda>r. dp_finish (rq_session_key r)) rs d) = dp_busy d - rq_session_key ` set rs"
  using assms
proof (induction rs arbitrary: d)
  case (Cons r rs)
  have f: "dp_wf (dp_finish (rq_session_key r) d)" "dp_waiting (dp_finish (rq_session_key r) d) = dp_waiting d"
    "dp_busy (dp_finish (rq_session_key r) d) = dp_busy d - {rq_session_key r}"
    using dp_finish_ok[OF Cons.prems(1), of "rq_session_key r"] Cons.prems(3) by simp_all
  have "rq_session_key ` set rs \<subseteq> dp_busy (dp_finish (rq_session_key r) d)"
  proof
    fix k assume "k \<in> rq_session_key ` set rs"
    with Cons.prems(2,3) show "k \<in> dp_busy (dp_finish (rq_session_key r) d)" by (cases "k = rq_session_key r") (simp_all add: f(3) subset_iff)
  qed
  from Cons.IH[OF f(1) _ this] Cons.prems(2) f(2,3) show ?case by auto
qed simp

lemma enter_simps [simp]:
  "ws_shared (enter i (p, e)) = pl_shared p" "ws_out (enter i (p, e)) = pe_out e"
  by (simp_all add: enter_def)

lemma dyn_leave_simps [simp]:
  "dy_held (dyn_leave i w s) = dy_held s" "dy_accepted (dyn_leave i w s) = dy_accepted s"
  "dy_answered (dyn_leave i w s) = dy_answered s" "pl_shared (dy_pool (dyn_leave i w s)) = ws_shared w"
  "pl_config (dy_pool (dyn_leave i w s)) = pl_config (dy_pool s)" "pe_out (dy_env (dyn_leave i w s)) = ws_out w"
  by (simp_all add: dyn_leave_def leave_def)

lemma dyn_inv_remove:
  assumes inv: "dyn_inv s" and rs: "rs = map (\<lambda>x. snd (snd x)) (filter Q (dy_held s))"
    and out: "map tag (ws_out w) = map tag (pe_out (dy_env s)) @ map rtag rs"
    and sh: "ws_shared w = fold (\<lambda>r. dp_finish (rq_session_key r)) rs (pl_shared (dy_pool s))"
  shows "dyn_inv ((dyn_leave i w s)\<lparr>dy_held := filter (\<lambda>x. \<not> Q x) (dy_held s), dy_answered := dy_answered s @ rs\<rparr>)"
proof -
  let ?f = "\<lambda>x. rq_session_key (snd (snd x))" and ?rest = "filter (\<lambda>x. \<not> Q x) (dy_held s)"
  have dist: "distinct (map ?f (dy_held s))" using inv by (simp add: dyn_inv_def comp_def)
  have wf: "dp_wf (pl_shared (dy_pool s))" using inv by (simp add: dyn_inv_def)
  have drs: "distinct (map rq_session_key rs)" using dist by (simp add: rs comp_def distinct_map_filter)
  have sub: "rq_session_key ` set rs \<subseteq> dp_busy (pl_shared (dy_pool s))"
    using inv unfolding dyn_inv_def rs by auto
  note ff = fold_finish[OF wf drs sub, folded sh]
  have inj: "inj_on ?f (set (dy_held s))" using dist by (simp add: distinct_map)
  have "?f ` (set (dy_held s) - {x \<in> set (dy_held s). Q x}) = ?f ` set (dy_held s) - ?f ` {x \<in> set (dy_held s). Q x}"
    by (rule inj_on_image_set_diff[OF inj]) auto
  moreover have "set (dy_held s) - {x \<in> set (dy_held s). Q x} = set ?rest" by auto
  ultimately have "dp_busy (ws_shared w) = ?f ` set ?rest"
    using inv ff by (simp add: dyn_inv_def rs image_image)
  moreover have "of_key k (dy_answered s @ rs) @ of_key k (map (\<lambda>x. snd (snd x)) ?rest) @ dp_waiting (ws_shared w) k =
      of_key k (dy_accepted s)" for k
  proof -
    have "of_key k (held_requests s) = of_key k rs @ of_key k (map (\<lambda>x. snd (snd x)) ?rest)"
      unfolding rs by (rule of_key_split[OF dist])
    moreover have "of_key k (dy_answered s) @ of_key k (held_requests s) @ dp_waiting (pl_shared (dy_pool s)) k = of_key k (dy_accepted s)"
      using inv unfolding dyn_inv_def by blast
    ultimately show ?thesis using ff by simp
  qed
  moreover have "distinct (map ?f ?rest)" using dist by (rule distinct_map_filter)
  ultimately show ?thesis
    using inv ff out by (simp add: dyn_inv_def comp_def image_image)
qed

lemma filter_eq_single: "distinct xs \<Longrightarrow> x \<in> set xs \<Longrightarrow> filter (\<lambda>y. y = x) xs = [x]"
  by (induction xs) (auto simp: filter_empty_conv)

lemma dyn_inv_submit:
  assumes inv: "dyn_inv s" and sub: "pool_submit h (Some r) (dy_pool s) = (ok, p)"
  shows "dyn_inv (s\<lparr>dy_pool := p, dy_accepted := dy_accepted s @ (if ok then [r] else [])\<rparr>)"
proof -
  let ?d = "pl_shared (dy_pool s)" and ?cap = "kMaxQueuePerWorker * length (pl_workers (dy_pool s))"
  have dyn: "pc_dispatch (pl_config (dy_pool s)) = Dynamic" and wf: "dp_wf ?d" using inv by (simp_all add: dyn_inv_def)
  obtain b d where push: "dp_push ?cap (Some r) ?d = (b, d)" by (cases "dp_push ?cap (Some r) ?d")
  have full: "d = ?d" if "\<not> b" using dp.push_full[of ?cap r ?d] that push by simp
  consider "\<not> ok" "p = dy_pool s" | "ok" "b" "p = (dy_pool s)\<lparr>pl_shared := d\<rparr>"
  proof (cases "\<not> pl_running (dy_pool s) \<or> pl_workers (dy_pool s) = [] \<or> pl_draining (dy_pool s)")
    case True
    then show ?thesis using sub by (intro that(1)) (auto simp: pool_submit_def split: if_splits)
  next
    case False
    then have "(ok, p) = (b, (dy_pool s)\<lparr>pl_shared := d\<rparr>)"
      using sub dyn push by (cases b) (simp_all add: pool_submit_def)
    then show ?thesis using full that by (cases b) simp_all
  qed
  then show ?thesis
  proof cases
    case 1
    then show ?thesis using inv by (simp add: dyn_inv_def)
  next
    case 2
    have d: "dp_wf d" "dp_waiting d = (dp_waiting ?d)(rq_session_key r := dp_waiting ?d (rq_session_key r) @ [r])" "dp_busy d = dp_busy ?d"
      using dp_push_ok[OF wf, of ?cap r] 2(2) push by simp_all
    have "of_key k (dy_answered s) @ of_key k (held_requests s) @ dp_waiting d k = of_key k (dy_accepted s @ [r])" for k
    proof -
      have "of_key k (dy_answered s) @ of_key k (held_requests s) @ dp_waiting ?d k = of_key k (dy_accepted s)"
        using inv unfolding dyn_inv_def by blast
      then show ?thesis unfolding d(2) by (auto simp flip: append_assoc)
    qed
    with inv d 2 show ?thesis by (simp add: dyn_inv_def)
  qed
qed

lemma dyn_inv_take:
  assumes inv: "dyn_inv s" and take: "dp_take (pl_shared (dy_pool s)) = (Some r, d)"
    and w: "ws_shared w = d" "ws_out w = pe_out (dy_env s)"
  shows "dyn_inv ((dyn_leave i w s)\<lparr>dy_held := dy_held s @ [(i, b, r)]\<rparr>)"
proof -
  have "dp_wf (pl_shared (dy_pool s))" using inv by (simp add: dyn_inv_def)
  note t = dp_take_ok[OF this take]
  have "of_key k (dy_answered s) @ of_key k (held_requests s @ [r]) @ dp_waiting d k = of_key k (dy_accepted s)" for k
  proof -
    have "of_key k [r] @ dp_waiting d k = dp_waiting (pl_shared (dy_pool s)) k" using t by simp
    moreover have "of_key k (dy_answered s) @ of_key k (held_requests s) @ dp_waiting (pl_shared (dy_pool s)) k = of_key k (dy_accepted s)"
      using inv unfolding dyn_inv_def by blast
    ultimately show ?thesis by (simp only: filter_append append_assoc)
  qed
  moreover have "rq_session_key r \<notin> rq_session_key ` set (held_requests s)" using inv t by (simp add: dyn_inv_def)
  moreover have "dp_wf d" "dp_busy d = insert (rq_session_key r) (dp_busy (pl_shared (dy_pool s)))" using t by blast+
  ultimately show ?thesis using inv w by (simp add: dyn_inv_def image_image comp_def)
qed

lemma dyn_inv_step: "dyn_step A h s s' \<Longrightarrow> dyn_inv s \<Longrightarrow> dyn_inv s'"
proof (induction rule: dyn_step.induct)
  case (submit r s ok p)
  then show ?case by (intro dyn_inv_submit)
next
  case (taking i s r d b w)
  have "ws_shared w = d" "ws_out w = pe_out (dy_env s)"
    using io_same_batchable[OF taking(3)] by (simp_all add: io_same_def)
  then show ?case by (rule dyn_inv_take[OF taking(4,2)])
next
  case (flushing i s n w)
  have "pc_dispatch (pl_config (dy_pool s)) = Dynamic" using flushing(3) by (simp add: dyn_inv_def)
  with flush_saves_out[OF flushing(2)] show ?case
    by (intro dyn_inv_remove[OF flushing(3)]) (simp_all add: saves_of_def)
next
  case (processing i s r w)
  let ?Q = "\<lambda>x. fst x = i \<and> \<not> fst (snd x) \<and> snd (snd x) = r"
  have dist: "distinct (dy_held s)" using processing(5) by (simp add: dyn_inv_def distinct_map)
  have q: "?Q = (\<lambda>x. x = (i, False, r))" by (auto simp: fun_eq_iff)
  have single: "[r] = map (\<lambda>x. snd (snd x)) (filter ?Q (dy_held s))"
    unfolding q filter_eq_single[OF dist processing(2)] by simp
  obtain res where "tag res = rtag r" "io_same (dyn_enter i s) ((process A r (dyn_enter i s))\<lparr>ws_out := ws_out (dyn_enter i s)\<rparr>)"
    "ws_out (process A r (dyn_enter i s)) = ws_out (dyn_enter i s) @ [res]" by (rule process_out)
  then show ?case
    unfolding processing(4)[symmetric]
    by (intro dyn_inv_remove[OF processing(5) single]) (simp_all add: io_same_def)
next
  case (connecting i s v v' w)
  obtain v1 w1 where r: "worker_reconnect A (v, dyn_enter i s) = (v1, w1)" by (cases "worker_reconnect A (v, dyn_enter i s)")
  then have "io_same (dyn_enter i s) w" using connecting(2) io_same_connection by (metis io_same_trans)
  then show ?case using connecting(3) by (simp add: dyn_inv_def io_same_def)
next
  case (draining s)
  then show ?case by (simp add: dyn_inv_def pool_begin_drain_def)
next
  case (others s m)
  then show ?case by (simp add: dyn_inv_def)
qed

section \<open>The loop over the dispatcher ends\<close>

definition dp_total :: "dispatcher \<Rightarrow> nat" where
  "dp_total d = sum_list (map (\<lambda>p. length (kq_waiting (snd p))) (dp_queues d))"

lemma total_take:
  assumes "dp_wf d" "dp_take d = (Some r, d')"
  shows "dp_total d = Suc (dp_total d')"
  using assms(1)
proof (cases rule: dp_take_cases)
  case (some r' rs rest kq)
  let ?k = "rq_session_key r'" and ?f = "\<lambda>p. length (kq_waiting (snd p))"
  have d': "d' = d\<lparr>dp_ready := rest, dp_queues := AList.update ?k kq (dp_queues d)\<rparr>" using some(5) assms(2) by simp
  have "distinct (keys (dp_queues d))" using assms(1) by (simp add: dp_wf_def)
  from sum_update[OF this, of ?f ?k kq] some(2,4)
  show ?thesis
    by (cases "map_of (dp_queues d) ?k") (simp_all add: d' dp_total_def dp_waiting_def key_queue_at_def)
qed (use assms(2) in simp)

lemma total_finish:
  assumes "dp_wf d"
  shows "dp_total (dp_finish k d) = dp_total d"
proof (cases "map_of (dp_queues d) k")
  case None
  then show ?thesis by (simp add: dp_finish_def)
next
  case (Some q)
  let ?f = "\<lambda>p. length (kq_waiting (snd p))" and ?m = "AList.update k (q\<lparr>kq_working := False\<rparr>) (dp_queues d)"
  have dist: "distinct (keys (dp_queues d))" "distinct (keys ?m)" using assms by (simp_all add: dp_wf_def distinct_keys_update)
  have "sum_list (map ?f ?m) = sum_list (map ?f (dp_queues d))"
    using sum_update[OF dist(1), of ?f k "q\<lparr>kq_working := False\<rparr>"] Some by simp
  moreover have "sum_list (map ?f (AList.delete k ?m)) = sum_list (map ?f ?m)" if "kq_waiting q = []"
    using sum_delete[OF dist(2), of ?f k] that by simp
  ultimately show ?thesis using Some by (auto simp: dp_finish_def dp_total_def Let_def)
qed

text \<open>What a worker knows of the dispatcher while it is alone with it: it holds exactly the saves it has collected.\<close>

definition alone :: "request list \<Rightarrow> dispatcher \<Rightarrow> bool" where
  "alone saves d \<longleftrightarrow> dp_wf d \<and> distinct (map rq_session_key saves) \<and> dp_busy d = rq_session_key ` set saves"

lemma alone_finish:
  assumes "alone saves d"
  shows "alone [] (fold (\<lambda>r. dp_finish (rq_session_key r)) saves d)"
    and "dp_total (fold (\<lambda>r. dp_finish (rq_session_key r)) saves d) = dp_total d"
proof -
  show "alone [] (fold (\<lambda>r. dp_finish (rq_session_key r)) saves d)"
    using fold_finish[of d saves] assms by (simp add: alone_def)
  have "dp_wf d \<Longrightarrow> distinct (map rq_session_key saves) \<Longrightarrow> rq_session_key ` set saves \<subseteq> dp_busy d \<Longrightarrow>
      dp_total (fold (\<lambda>r. dp_finish (rq_session_key r)) saves d) = dp_total d"
  proof (induction saves arbitrary: d)
    case (Cons r rs)
    from fold_finish[OF Cons.prems(1), of "[r]"] Cons.prems
    have f: "dp_wf (dp_finish (rq_session_key r) d)" "dp_busy (dp_finish (rq_session_key r) d) = dp_busy d - {rq_session_key r}"
      by simp_all
    have "rq_session_key ` set rs \<subseteq> dp_busy (dp_finish (rq_session_key r) d)"
    proof
      fix k assume "k \<in> rq_session_key ` set rs"
      with Cons.prems(2,3) show "k \<in> dp_busy (dp_finish (rq_session_key r) d)" by (cases "k = rq_session_key r") (simp_all add: f(2) subset_iff)
    qed
    from Cons.IH[OF f(1) _ this] Cons.prems(2) total_finish[OF Cons.prems(1)] show ?case by simp
  qed simp
  then show "dp_total (fold (\<lambda>r. dp_finish (rq_session_key r)) saves d) = dp_total d"
    using assms by (simp add: alone_def)
qed

lemma dynamic_item_progress:
  assumes P: "pc_dispatch P = Dynamic" and al: "alone saves (ws_shared w)"
    and run: "dynamic_item A P running (saves, n, w) = (True, saves', n', w')"
  shows "alone saves' (ws_shared w') \<and> dp_total (ws_shared w) = Suc (dp_total (ws_shared w'))"
proof -
  let ?d = "ws_shared w"
  have wf: "dp_wf ?d" using al by (simp add: alone_def)
  from run obtain r d where t: "dp_take ?d = (Some r, d)"
    by (cases "dp_take ?d") (auto simp: dynamic_item_def split: option.splits)
  have d: "dp_wf d" "rq_session_key r \<notin> dp_busy ?d" "dp_busy d = insert (rq_session_key r) (dp_busy ?d)"
    using dp_take_ok[OF wf t] by blast+
  then have al2: "alone (saves @ [r]) d" "alone (r # saves) d" using al by (auto simp: alone_def)
  have tot: "dp_total ?d = Suc (dp_total d)" by (rule total_take[OF wf t])
  obtain b w1 where bt: "batchable P r (w\<lparr>ws_shared := d\<rparr>) = (b, w1)" by (cases "batchable P r (w\<lparr>ws_shared := d\<rparr>)")
  have w1: "ws_shared w1 = d" using io_same_batchable[OF bt] by (simp add: io_same_def)
  consider (stash) "b" "length (saves @ [r]) < pc_batch_size P" | (flush) "b" "length (saves @ [r]) \<ge> pc_batch_size P" | (proc) "\<not> b"
    by linarith
  then show ?thesis
  proof cases
    case stash
    then have "saves' = saves @ [r]" "w' = w1" using run t bt by (simp_all add: dynamic_item_def)
    then show ?thesis using al2(1) tot w1 by simp
  next
    case flush
    obtain k w2 where f: "flush_saves A P (saves @ [r]) w1 = (k, w2)" by (cases "flush_saves A P (saves @ [r]) w1")
    have "saves' = []" "w' = w2" using run t bt flush f by (simp_all add: dynamic_item_def)
    moreover have "ws_shared w2 = fold (\<lambda>r. dp_finish (rq_session_key r)) (saves @ [r]) d"
      using flush_saves_out[OF f] P w1 by simp
    ultimately show ?thesis using alone_finish[OF al2(1)] tot by simp
  next
    case proc
    obtain k w2 where f: "flush_saves A P saves w1 = (k, w2)" by (cases "flush_saves A P saves w1")
    obtain res where "io_same w2 ((process A r w2)\<lparr>ws_out := ws_out w2\<rparr>)" by (rule process_out)
    then have sh: "ws_shared (process A r w2) = ws_shared w2" by (simp add: io_same_def)
    have "saves' = []" "ws_shared w' = dp_finish (rq_session_key r) (ws_shared w2)"
      using run t bt proc f sh by (auto simp: dynamic_item_def Let_def)
    moreover have "ws_shared w2 = fold (\<lambda>r. dp_finish (rq_session_key r)) saves d"
      using flush_saves_out[OF f] P w1 by simp
    ultimately have "saves' = []" "ws_shared w' = fold (\<lambda>r. dp_finish (rq_session_key r)) (saves @ [r]) d" by simp_all
    then show ?thesis using alone_finish[OF al2(1)] tot by simp
  qed
qed

lemma dynamic_loop_ends:
  assumes P: "pc_dispatch P = Dynamic" and "alone saves (ws_shared w)" "dp_total (ws_shared w) < fuel"
  shows "\<exists>r. dynamic_loop A P fuel running (saves, n, w) = Some r"
  using assms(2,3)
proof (induction fuel arbitrary: saves n w)
  case (Suc fuel)
  obtain again saves' n' w' where i: "dynamic_item A P (running fuel) (saves, n, w) = (again, saves', n', w')"
    by (cases "dynamic_item A P (running fuel) (saves, n, w)") auto
  show ?case
  proof (cases again)
    case True
    with i have "dynamic_item A P (running fuel) (saves, n, w) = (True, saves', n', w')" by simp
    from dynamic_item_progress[OF P Suc.prems(1) this] Suc.prems(2) Suc.IH[of saves' w' n'] i True
    show ?thesis by simp
  qed (simp add: i case_prod_beta)
qed simp

section \<open>Stopping\<close>

abbreviation unavailable :: "request \<Rightarrow> response" where
  "unavailable r \<equiv> (response_for r)\<lparr>rs_status := Unavailable\<rparr>"

lemma fold_reject_tail:
  "ws_out (fold reject_tail b w) = ws_out w @ map unavailable (requests b) \<and> ws_shared (fold reject_tail b w) = ws_shared w"
proof (induction b arbitrary: w)
  case (Cons x b)
  then show ?case by (cases x) (simp_all add: reject_tail_def reject_request_def sink_def)
qed simp

lemma worker_end_out:
  assumes "sq_wf (wk_queue (ws_worker w))"
  shows "ws_out (worker_end P w) = ws_out w @
      (if pc_dispatch P = Static then map unavailable (requests (sq_filled (wk_queue (ws_worker w)))) else []) \<and>
    ws_shared (worker_end P w) = ws_shared w"
  by (simp add: worker_end_def Let_def case_prod_beta sq.swap_batch[OF assms] fold_reject_tail)

lemma stop_worker_out:
  assumes "i < length (pl_workers p)" "sq_wf (wk_queue (pl_workers p ! i))" "stop_worker A i (p, e) = (p', e')"
  shows "pe_out e' = pe_out e @
      (if pc_dispatch (pl_config p) = Static then map unavailable (requests (sq_filled (wk_queue (pl_workers p ! i)))) else []) \<and>
    pl_config p' = pl_config p \<and> pl_shared p' = pl_shared p \<and> pl_running p' = pl_running p \<and> length (pl_workers p') = length (pl_workers p) \<and>
    (\<forall>j. j \<noteq> i \<longrightarrow> pl_workers p' ! j = pl_workers p ! j)"
  using assms worker_end_out[of "enter i (p, e)" "pl_config p"]
  by (auto simp: stop_worker_def leave_def Let_def set_db_def) (simp_all add: enter_def)

lemma fold_stop_workers:
  assumes "\<forall>i\<in>set is. i < length (pl_workers p) \<and> sq_wf (wk_queue (pl_workers p ! i))" "distinct is"
    and "fold (stop_worker A) is (p, e) = (p', e')"
  shows "pe_out e' = pe_out e @
      (if pc_dispatch (pl_config p) = Static
       then concat (map (\<lambda>i. map unavailable (requests (sq_filled (wk_queue (pl_workers p ! i))))) is) else []) \<and>
    pl_config p' = pl_config p \<and> pl_shared p' = pl_shared p \<and> pl_running p' = pl_running p"
  using assms
proof (induction "is" arbitrary: p e)
  case (Cons i js)
  obtain p1 e1 where s: "stop_worker A i (p, e) = (p1, e1)" by (cases "stop_worker A i (p, e)")
  have i: "i < length (pl_workers p)" "sq_wf (wk_queue (pl_workers p ! i))" using Cons.prems(1) by simp_all
  note one = stop_worker_out[OF i s]
  have same: "pl_workers p1 ! j = pl_workers p ! j" if "j \<in> set js" for j using one Cons.prems(2) that by auto
  have "\<forall>j\<in>set js. j < length (pl_workers p1) \<and> sq_wf (wk_queue (pl_workers p1 ! j))"
    using Cons.prems(1) one same by simp
  from Cons.IH[OF this _ ] Cons.prems(2,3) s
  have "pe_out e' = pe_out e1 @
      (if pc_dispatch (pl_config p1) = Static
       then concat (map (\<lambda>i. map unavailable (requests (sq_filled (wk_queue (pl_workers p1 ! i))))) js) else []) \<and>
    pl_config p' = pl_config p1 \<and> pl_shared p' = pl_shared p1 \<and> pl_running p' = pl_running p1" by simp
  then show ?case using one same by (auto cong: map_cong)
qed simp

text \<open>The requests that wait in the queues of a pool.\<close>

definition waiting_requests :: "worker_pool \<Rightarrow> request list" where
  "waiting_requests p =
     (if pc_dispatch (pl_config p) = Static then concat (map (\<lambda>w. requests (sq_filled (wk_queue w))) (pl_workers p))
      else concat (map (\<lambda>(k, kq). kq_waiting kq) (dp_queues (pl_shared p))))"

lemma pool_stop_out:
  assumes "pl_running p" "\<forall>w\<in>set (pl_workers p). sq_wf (wk_queue w)" "pool_stop A (p, e) = (p', e')"
  shows "pe_out e' = pe_out e @ map unavailable (waiting_requests p) \<and> pl_workers p' = [] \<and> \<not> pl_running p'"
proof -
  let ?p = "p\<lparr>pl_running := False\<rparr>" and ?is = "[0..<length (pl_workers p)]"
  obtain p1 e1 where f: "fold (stop_worker A) ?is (?p, e) = (p1, e1)" by (cases "fold (stop_worker A) ?is (?p, e)")
  have "\<forall>i\<in>set ?is. i < length (pl_workers ?p) \<and> sq_wf (wk_queue (pl_workers ?p ! i))" using assms(2) by simp
  note all = fold_stop_workers[OF this _ f]
  have "map (\<lambda>i. map unavailable (requests (sq_filled (wk_queue (pl_workers p ! i))))) ?is =
      map (\<lambda>w. map unavailable (requests (sq_filled (wk_queue w)))) (pl_workers p)"
    by (rule nth_equalityI) simp_all
  then have c: "concat (map (\<lambda>i. map unavailable (requests (sq_filled (wk_queue (pl_workers p ! i))))) ?is) =
      map unavailable (concat (map (\<lambda>w. requests (sq_filled (wk_queue w))) (pl_workers p)))"
    by (simp add: map_concat comp_def)
  show ?thesis
  proof (cases "pc_dispatch (pl_config p)")
    case Static
    then show ?thesis using assms(1,3) f all c by (auto simp: pool_stop_def waiting_requests_def)
  next
    case Dynamic
    then show ?thesis using assms(1,3) f all by (auto simp: pool_stop_def waiting_requests_def dp_take_all_def Let_def)
  qed
qed


section \<open>Properties\<close>

text \<open>
  A round of a worker with static assignment answers every request that waited in its queue, once each and in the
  order they were queued, whether they were batched or not and whatever the database and the clock do; the queue is
  empty afterwards and its depth has been lowered by as many.
\<close>

theorem static_worker_answers_in_order:
  assumes "pc_dispatch P = Static" "sq_wf (wk_queue (ws_worker w))"
    and "requests (sq_filled (wk_queue (ws_worker w))) = rs"
  shows "map tag (ws_out (snd (static_round A P (v, w)))) = map tag (ws_out w) @ map rtag rs \<and>
    sq_filled (wk_queue (ws_worker (snd (static_round A P (v, w))))) = [] \<and>
    wk_depth (ws_worker (snd (static_round A P (v, w)))) = wk_depth (ws_worker w) - int (length rs)"
  using static_round_out[OF assms(1,2), of A v "fst (static_round A P (v, w))" "snd (static_round A P (v, w))"] assms(3)
  by simp

abbreviation demo_worker :: "request list \<Rightarrow> bool wstate" where
  "demo_worker rs \<equiv> \<lparr>ws_worker = worker_new\<lparr>wk_queue := fold (\<lambda>r. sq_push (Some r)) rs sq_empty, wk_depth := int (length rs)\<rparr>,
     ws_shared = dp_init, ws_db = False, ws_clock = (\<lambda>n. int n), ws_reads = 0, ws_out = []\<rparr>"

theorem static_worker_answers_in_order_witness:
  "map tag (ws_out (snd (static_round (demo_api False) \<lparr>pc_dispatch = Static, pc_batch_size = 4\<rparr>
     (\<lparr>rv_next_retry_ms = 0, rv_next_ping_ms = 0\<rparr>, demo_worker [demo_request 1 1, demo_request 1 2])))) =
   [rtag (demo_request 1 1), rtag (demo_request 1 2)]"
  using static_worker_answers_in_order[of "\<lparr>pc_dispatch = Static, pc_batch_size = 4\<rparr>"
      "demo_worker [demo_request 1 1, demo_request 1 2]" "[demo_request 1 1, demo_request 1 2]" "demo_api False"]
  by (simp add: worker_new_def sq_empty_def sq_push_def sq_wf_def sq_filled_def)

text \<open>
  C4: with dynamic assignment, in every interleaving of submitting threads and workers, the requests of a session key
  are answered in the order they were accepted, each at most once, and no two requests of a key are in the hands of
  workers at the same time; when the pool counts nothing as queued, every accepted request has been answered. The
  responses given to the sink are those of the answered requests.
\<close>

definition dyn_start :: "connection_config \<Rightarrow> int \<Rightarrow> int \<Rightarrow> 'm pool_env \<Rightarrow> 'm dyn_pool" where
  "dyn_start cfg n b e = \<lparr>dy_pool = snd (pool_start cfg n True Dynamic b pool_new), dy_env = e\<lparr>pe_out := []\<rparr>,
     dy_held = [], dy_accepted = [], dy_answered = []\<rparr>"

lemma dyn_inv_start: "n \<noteq> 0 \<Longrightarrow> dyn_inv (dyn_start cfg n b e)"
  by (simp add: dyn_inv_def dyn_start_def pool_start_def pool_new_def dp_init_def dp_wf_def dp_busy_def dp_waiting_def
      key_queue_at_def)

lemma dyn_inv_run: "(dyn_step A h)\<^sup>*\<^sup>* s s' \<Longrightarrow> dyn_inv s \<Longrightarrow> dyn_inv s'"
  by (induction rule: rtranclp_induct) (auto intro: dyn_inv_step)

theorem dynamic_pool_keeps_the_order_of_a_key:
  assumes "n \<noteq> 0" "(dyn_step A h)\<^sup>*\<^sup>* (dyn_start cfg n b e) s"
  shows "(\<exists>left. of_key k (dy_answered s) @ left = of_key k (dy_accepted s) \<and> (pool_queued (dy_pool s) = 0 \<longrightarrow> left = [])) \<and>
    map tag (pe_out (dy_env s)) = map rtag (dy_answered s) \<and> distinct (map rq_session_key (held_requests s))"
proof -
  have inv: "dyn_inv s" using dyn_inv_run[OF assms(2) dyn_inv_start[OF assms(1)]] .
  have "of_key k (dy_answered s) @ (of_key k (held_requests s) @ dp_waiting (pl_shared (dy_pool s)) k) = of_key k (dy_accepted s)"
    using inv unfolding dyn_inv_def by blast
  moreover have "of_key k (held_requests s) @ dp_waiting (pl_shared (dy_pool s)) k = []" if "pool_queued (dy_pool s) = 0"
  proof -
    have "dp_depth (pl_shared (dy_pool s)) = 0" using that inv by (simp add: dyn_inv_def pool_queued_def)
    with dp_idle[of "pl_shared (dy_pool s)" k] inv show ?thesis by (simp add: dyn_inv_def)
  qed
  ultimately show ?thesis using inv unfolding dyn_inv_def by blast
qed


abbreviation demo_env :: "bool pool_env" where
  "demo_env \<equiv> \<lparr>pe_db = False, pe_clock = (\<lambda>n. int n), pe_reads = 0, pe_out = []\<rparr>"

theorem dynamic_pool_keeps_the_order_of_a_key_witness:
  "\<exists>s :: bool dyn_pool. dy_accepted s = [demo_request 1 1] \<and> map tag (pe_out (dy_env s)) = map rtag (dy_answered s)"
proof -
  let ?s = "dyn_start config_default 2 8 demo_env :: bool dyn_pool"
  obtain ok p where sub: "pool_submit (\<lambda>_. 0) (Some (demo_request 1 1)) (dy_pool ?s) = (ok, p)" by fastforce
  have ok by (use sub in \<open>simp add: pool_submit_def dyn_start_def pool_start_def pool_new_def dp_push_def dp_init_def
    kMaxQueuePerWorker_def key_queue_at_def Let_def\<close>)
  from dyn_step.submit[OF sub, of "demo_api False"]
  have "(dyn_step (demo_api False) (\<lambda>_. 0))\<^sup>*\<^sup>* ?s (?s\<lparr>dy_pool := p, dy_accepted := dy_accepted ?s @ (if ok then [demo_request 1 1] else [])\<rparr>)"
    by (rule r_into_rtranclp)
  from dynamic_pool_keeps_the_order_of_a_key[OF _ this] \<open>ok\<close> show ?thesis
    by (intro exI[of _ "?s\<lparr>dy_pool := p, dy_accepted := dy_accepted ?s @ (if ok then [demo_request 1 1] else [])\<rparr>"])
      (simp add: dyn_start_def)
qed

text \<open>
  C30: a save is executed at most once. If its deadline has passed or the connection is not usable, the database is not
  touched and the answer says so; otherwise the procedure runs exactly once, and the answer is \<^verbatim>\<open>Ok\<close>, with the log id
  it gave, exactly if it succeeded. A lost connection is not a reason to run it again.
\<close>

theorem save_runs_at_most_once:
  assumes "rq_kind r = Save" "handle A r (response_for r) w = (res, w')"
    and "mc_save A (rq_session_key r) (rq_payload r) (the_db w) = (ok, i, s)"
  shows "if rq_deadline_us r > 0 \<and> ws_clock w (ws_reads w) > rq_deadline_us r
    then rs_status res = Expired \<and> the_db w' = the_db w
    else if \<not> db_usable w then rs_status res = Unavailable \<and> the_db w' = the_db w
    else the_db w' = s \<and> (rs_status res = Ok \<longleftrightarrow> ok) \<and> rs_log_id res = i \<and> rs_status res \<noteq> Expired"
proof -
  obtain late w1 where pd: "past_deadline r w = (late, w1)" by (cases "past_deadline r w")
  then have late: "late \<longleftrightarrow> rq_deadline_us r > 0 \<and> ws_clock w (ws_reads w) > rq_deadline_us r"
    and same: "the_db w1 = the_db w" "db_usable w1 = db_usable w"
    by (auto simp: past_deadline_def read_us_def the_db_def db_usable_def split: if_splits)
  have run: "run_once A r (response_for r) w1 = (ok, (response_for r)\<lparr>rs_log_id := i\<rparr>, set_db s w1)"
    using assms(1,3) same by (simp add: run_once_def)
  consider "late" | "\<not> late" "\<not> db_usable w" | "\<not> late" "db_usable w" by blast
  then show ?thesis
  proof cases
    case 3
    then have "rs_log_id res = i \<and> w' = set_db s w1 \<and> rs_status res = (if ok then Ok else fail_status (set_db s w1))"
      using assms(1,2) pd same run by (cases ok) (auto simp: handle_def is_retry_safe_def)
    then show ?thesis using 3 late by (auto simp: the_db_def set_db_def fail_status_def)
  qed (use assms(2) pd late same in \<open>auto simp: handle_def\<close>)
qed

theorem save_runs_at_most_once_witness:
  "rs_status (fst (handle (demo_api False) (demo_request 1 1) (response_for (demo_request 1 1)) (demo_worker []))) = Unavailable"
proof -
  obtain res w' where h: "handle (demo_api False) (demo_request 1 1) (response_for (demo_request 1 1)) (demo_worker []) = (res, w')"
    by (metis surj_pair)
  obtain ok i s where m: "mc_save (demo_api False) (rq_session_key (demo_request 1 1)) (rq_payload (demo_request 1 1)) (the_db (demo_worker [])) = (ok, i, s)"
    by (metis surj_pair)
  have kind: "rq_kind (demo_request 1 1) = Save" "rq_deadline_us (demo_request 1 1) = 0" by (simp_all add: request_init_def)
  have "\<not> db_usable (demo_worker [])" by (simp add: db_usable_def worker_new_def mc_usable_def mc_new_def)
  with save_runs_at_most_once[OF kind(1) h m] kind(2) have "rs_status res = Unavailable" by simp
  with h show ?thesis by (simp only: fst_conv)
qed

text \<open>
  The inner loop of a worker with dynamic assignment ends: left alone with a dispatcher that came about in any way and
  from which no request is in the hands of a worker, it returns after fewer turns than the requests counted, plus one.
\<close>

theorem dynamic_loop_returns:
  assumes "pc_dispatch P = Dynamic" "dp.sched_run ops (dp_init, [], [], []) = (ws_shared w, pushed, taken, [])"
    and "dp_depth (ws_shared w) < fuel"
  shows "\<exists>n w'. dynamic_loop A P fuel running ([], 0, w) = Some (n, w')"
proof -
  from dp.sched_run_inv[OF sched_inv_init, of ops] have al: "alone [] (ws_shared w)"
    by (simp add: assms(2) dp.sched_inv_def alone_def)
  have "dp_total (ws_shared w) \<le> dp_depth (ws_shared w)"
    using al by (simp add: alone_def dp_wf_def dp_total_def kq_weight_def sum_list_mono)
  with dynamic_loop_ends[OF assms(1) al, of fuel A running 0] assms(3) show ?thesis by auto
qed

theorem dynamic_loop_returns_witness:
  "\<exists>n w'. dynamic_loop (demo_api False) \<lparr>pc_dispatch = Dynamic, pc_batch_size = 4\<rparr> 1 (\<lambda>_. True) ([], 0, demo_worker []) = Some (n, w')"
  using dynamic_loop_returns[of "\<lparr>pc_dispatch = Dynamic, pc_batch_size = 4\<rparr>" "[]" "demo_worker []" "[]" "[]" 1]
  by (simp add: dp_init_def)

text \<open>
  Stopping the pool answers every request that still waits, in the queues of the workers or in the dispatcher, with
  \<^verbatim>\<open>Unavailable\<close>, once each and after everything answered before; no worker is left.
\<close>

theorem stop_answers_all_waiting:
  assumes "pl_running p" "\<forall>w\<in>set (pl_workers p). sq_wf (wk_queue w)"
  shows "pe_out (snd (pool_stop A (p, e))) = pe_out e @ map unavailable (waiting_requests p) \<and>
    pl_workers (fst (pool_stop A (p, e))) = [] \<and> \<not> pl_running (fst (pool_stop A (p, e)))"
  using pool_stop_out[OF assms, of A e "fst (pool_stop A (p, e))" "snd (pool_stop A (p, e))"] by simp

theorem stop_answers_all_waiting_witness:
  "pe_out (snd (pool_stop (demo_api False) (pool_new\<lparr>pl_running := True, pl_workers := [ws_worker (demo_worker [demo_request 1 1])]\<rparr>, demo_env))) =
    [unavailable (demo_request 1 1)]"
  using stop_answers_all_waiting[of "pool_new\<lparr>pl_running := True, pl_workers := [ws_worker (demo_worker [demo_request 1 1])]\<rparr>" "demo_api False" demo_env]
  by (simp add: worker_new_def sq_empty_def sq_push_def sq_wf_def sq_filled_def waiting_requests_def pool_new_def)

text \<open>
  The wait of a worker whose connection is lost is between one millisecond and a second; but the difference of the times is
  narrowed to an \<^verbatim>\<open>int\<close> first, so that a retry that is overdue by more than \<open>2 ^ 31\<close> milliseconds is not made at once.
\<close>

lemma wait_bounds: "1 \<le> wait_ms usable next_retry now \<and> wait_ms usable next_retry now \<le> 1000"
  by (simp add: wait_ms_def kReconnectIntervalMs_def)

lemma wait_of_overdue_retry: "wait_ms False 0 (2 ^ 31 + 5000) = 1000"
  by (simp add: wait_ms_def kReconnectIntervalMs_def narrow_int_def)

end
