(* ===== verification/Delivery.thy ===== *)
theory Delivery
  imports Connection_Run
begin

text \<open>
  What a connection hands to its message handler over a whole run, with pauses and resumes: the frames of
  \<^verbatim>\<open>Connection::drain_frames\<close> the handler has taken, compared with the bytes that have arrived.
\<close>

section \<open>Frames the handler takes\<close>

text \<open>The loop of \<^verbatim>\<open>drain_frames\<close> once more; it collects the frames for which the handler answers \<^verbatim>\<open>true\<close>.\<close>

function taken_frames :: "'a conn_hooks \<Rightarrow> conn \<Rightarrow> 'a io_env \<Rightarrow> (u16 \<times> bytes) list" where
  "taken_frames H c e =
     (case peek_frame (rb_readable (c_recv_buf c)) (readable_size (c_recv_buf c)) of
        Incomplete \<Rightarrow> []
      | TooLarge \<Rightarrow> []
      | FrameOk view consumed \<Rightarrow>
          (case h_on_message H view c e of (accepted, c1, e1) \<Rightarrow>
             if \<not> accepted then []
             else (fv_msg_id view, fv_body view) #
               (if c_closed c1 then []
                else taken_frames H (c1\<lparr>c_recv_buf := rb_consume consumed (c_recv_buf c)\<rparr>) e1)))"
  by pat_completeness auto

termination taken_frames
  by (relation "measure (\<lambda>(H, c, e). nat (readable_size (c_recv_buf c)))")
    (auto dest!: peek_frame_consumed simp: readable_size_def rb_consume_def)

declare taken_frames.simps [simp del]

definition received_frames :: "'a conn_hooks \<Rightarrow> bytes \<Rightarrow> 'a cstate \<Rightarrow> (u16 \<times> bytes) list" where
  "received_frames H data = (\<lambda>(c, e).
     let c1 = conn_touch (e_now e) c
     in taken_frames H (c1\<lparr>c_recv_buf := rb_receive data (c_recv_buf c1)\<rparr>) e)"

definition resumed_frames :: "'a conn_hooks \<Rightarrow> 'a cstate \<Rightarrow> (u16 \<times> bytes) list" where
  "resumed_frames H = (\<lambda>(c, e). taken_frames H (c\<lparr>c_recv_paused := False, c_resume_queued := False\<rparr>) e)"

text \<open>A handler that refuses a frame only after it has paused or closed the connection.\<close>

locale pausing_handler = message_handler +
  assumes pauses: "h_on_message H v c e = (False, c', e') \<Longrightarrow> c_recv_paused c' \<or> c_closed c'"
begin

lemma drain_takes:
  assumes "rb_wf (c_recv_buf c)" "conn_drain_frames H c e = (c', e')"
  shows "parse_stream (rb_readable (c_recv_buf c)) = prepend (taken_frames H c e) (parse_stream (rb_readable (c_recv_buf c'))) \<and>
    (\<not> c_closed c' \<longrightarrow> \<not> c_recv_paused c' \<longrightarrow> fst (parse_stream (rb_readable (c_recv_buf c'))) = [])"
  using assms
proof (induction c e rule: drain_induct[where H = H])
  case (step c e)
  note ps = parse_stream_peek[OF rb_readable_small(1)[OF step(2)], folded rb_readable_small(2)[OF step(2)]]
  note tk = taken_frames.simps[of H c e]
  show ?case
  proof (cases rule: drain_cases[of c H e])
    case partial
    then show ?thesis using step(3) ps tk by simp
  next
    case malformed
    then show ?thesis using step(3) ps tk by (auto simp: conn_close_eq split: if_splits)
  next
    case (refused v n c1 e1)
    then show ?thesis using step(3) ps tk pauses[OF refused(2)] by auto
  next
    case (stopped v n c1 e1)
    then show ?thesis using step(3) ps tk next_frame_bounds[OF step(2) stopped(1)] step(2)
      by (auto simp: rb_readable_consume)
  next
    case (taken v n c1 e1)
    note b = next_frame_bounds[OF step(2) taken(1)]
    show ?thesis using step(1)[OF taken(1-3)] taken tk ps b step(2,3)
      by (auto simp: rb_wf_consume rb_readable_consume)
  qed
qed

end

section \<open>Runs\<close>

text \<open>
  The steps of \<open>astep\<close>, with the bytes that have arrived and the frames that have been taken. What is not the completion of a
  receive or of a resume notification delivers nothing.
\<close>

inductive quiet_step :: "'a conn_hooks \<Rightarrow> 'a cstate \<Rightarrow> 'a cstate \<Rightarrow> bool" for H :: "'a conn_hooks" where
  q_receive_end: "ReqRecv w \<in> set (c_out c) \<Longrightarrow> int (length data) \<le> w \<Longrightarrow> \<not> ok \<or> data = [] \<Longrightarrow>
     quiet_step H (c, e) (conn_on_receive_done H data ok (take_out (ReqRecv w) c, e))"
| q_sent: "ReqSend (c_send_staging c) \<in> set (c_out c) \<Longrightarrow> n \<le> length (c_send_staging c) \<Longrightarrow>
     quiet_step H (c, e) (conn_on_send_done H (int n) ok (report_sent n c, e))"
| q_flush: "ReqFlush \<in> set (c_out c) \<Longrightarrow> quiet_step H (c, e) (conn_on_flush H (take_out ReqFlush c, e))"
| q_call_send: "quiet_step H (c, e) (conn_send H m body sz (c, e))"
| q_call_close: "quiet_step H (c, e) (conn_close H (c, e))"
| q_call_resume: "quiet_step H (c, e) (conn_resume_receive H (c, e))"
| q_others: "quiet_step H (c, e) (c, e')"

inductive delivery :: "'a conn_hooks \<Rightarrow> 'a cstate \<Rightarrow> bytes \<Rightarrow> (u16 \<times> bytes) list \<Rightarrow> 'a cstate \<Rightarrow> bool"
  for H :: "'a conn_hooks" and s0 :: "'a cstate" where
  d_start: "delivery H s0 [] [] s0"
| d_receive: "delivery H s0 stream fs (c, e) \<Longrightarrow> ReqRecv w \<in> set (c_out c) \<Longrightarrow> data \<noteq> [] \<Longrightarrow> int (length data) \<le> w \<Longrightarrow>
     delivery H s0 (stream @ data) (fs @ received_frames H data (take_out (ReqRecv w) c, e))
       (conn_on_receive_done H data True (take_out (ReqRecv w) c, e))"
| d_resume: "delivery H s0 stream fs (c, e) \<Longrightarrow> ReqResume \<in> set (c_out c) \<Longrightarrow>
     delivery H s0 stream (fs @ resumed_frames H (take_out ReqResume c, e)) (conn_on_resume H (take_out ReqResume c, e))"
| d_quiet: "delivery H s0 stream fs s \<Longrightarrow> quiet_step H s s' \<Longrightarrow> delivery H s0 stream fs s'"

lemma quiet_astep: "quiet_step H s s' \<Longrightarrow> astep H s s'"
  by (induction rule: quiet_step.induct) (auto intro: astep.intros)

lemma delivery_areach: "delivery H s0 stream fs s \<Longrightarrow> areach H s0 s"
  by (induction rule: delivery.induct) (auto intro: areach.intros astep.intros quiet_astep)

definition input_delivered :: "bytes \<Rightarrow> (u16 \<times> bytes) list \<Rightarrow> conn \<Rightarrow> bool" where
  "input_delivered stream fs c \<longleftrightarrow>
     parse_stream stream = prepend fs (parse_stream (rb_readable (c_recv_buf c))) \<and>
     (\<not> c_closed c \<longrightarrow> \<not> c_recv_paused c \<longrightarrow> fst (parse_stream (rb_readable (c_recv_buf c))) = [])"

lemma parse_stream_arrive:
  assumes "parse_stream stream = prepend fs (parse_stream b)"
  shows "parse_stream (stream @ d) = prepend fs (parse_stream (b @ d))"
  using assms parse_stream_append[of stream d] parse_stream_append[of b d]
  by (cases "parse_stream b") (auto split: stream_end.splits)

lemma repost_keeps:
  assumes "rb_wf (c_recv_buf c)" "conn_repost H (c, e) = (c', e')"
  shows "rb_readable (c_recv_buf c') = rb_readable (c_recv_buf c) \<and> c_recv_paused c' = c_recv_paused c \<and> (c_closed c \<longrightarrow> c_closed c')"
proof (cases "c_closed c \<or> c_recv_paused c")
  case True
  then show ?thesis using assms by (auto simp: conn_repost_def)
next
  case False
  show ?thesis
    by (cases rule: conn_post_receive_cases[of H c e])
      (use False assms rb_reserve_free_props[OF assms(1)] in \<open>auto simp: conn_repost_def conn_close_eq\<close>)
qed

definition keeps_input :: "conn \<Rightarrow> conn \<Rightarrow> bool" where
  "keeps_input c c' \<longleftrightarrow> c_recv_buf c' = c_recv_buf c \<and> c_recv_paused c' = c_recv_paused c \<and> (c_closed c \<longrightarrow> c_closed c')"

lemma keeps_input_rest: "same_rest c c' \<Longrightarrow> c_recv_paused c' = c_recv_paused c \<Longrightarrow> keeps_input c c'"
  by (simp add: keeps_input_def same_rest_def)

lemma sent_keeps_closed: "c_closed c \<Longrightarrow> c_closed (fst (conn_on_send_done H n ok (c, e)))"
  by (simp add: conn_on_send_done_def Let_def conn_close_eq)

lemma quiet_keeps: "quiet_step H s s' \<Longrightarrow> conn_inv 0 (fst s) \<Longrightarrow> keeps_input (fst s) (fst s')"
proof (induction rule: quiet_step.induct)
  case (q_receive_end w c data ok e)
  then show ?case by (simp add: conn_on_receive_done_def conn_close_eq take_out_def keeps_input_def)
next
  case (q_sent c n e ok)
  then have "c_sending c" using sending_iff[of 0 c] by auto
  then have "c_send_staging c \<noteq> []" using q_sent by (simp add: conn_inv_def conn_core_defs)
  from recv_same_sent[OF q_sent(2) this, where H = H and e = e and ok = ok]
    sent_keeps_closed[of "report_sent n c" H "int n" ok e]
  show ?case by (simp add: keeps_input_def recv_same_def report_sent_def take_out_def)
next
  case (q_flush c e)
  have "keeps_input ((take_out ReqFlush c)\<lparr>c_flush_queued := False\<rparr>)
      (fst (conn_post_send H ((take_out ReqFlush c)\<lparr>c_flush_queued := False\<rparr>, e)))"
    by (intro keeps_input_rest conn_post_send_rest)
  then show ?case by (simp add: keeps_input_def conn_on_flush_def case_prod_beta take_out_def)
next
  case (q_call_send c e m body sz)
  show ?case unfolding fst_conv by (intro keeps_input_rest conn_send_rest)
next
  case (q_call_close c e)
  show ?case unfolding fst_conv by (intro keeps_input_rest conn_close_rest)
next
  case (q_call_resume c e)
  show ?case by (simp add: keeps_input_def conn_resume_receive_def syscall_def Let_def)
next
  case (q_others c e e')
  show ?case by (simp add: keeps_input_def)
qed

context pausing_handler
begin

lemma delivered_drain:
  assumes "rb_wf (c_recv_buf c)" "parse_stream stream = prepend fs (parse_stream (rb_readable (c_recv_buf c)))"
    and "conn_repost H (conn_drain_frames H c e) = (c', e')"
  shows "input_delivered stream (fs @ taken_frames H c e) c'"
proof -
  obtain c1 e1 where dr: "conn_drain_frames H c e = (c1, e1)" by fastforce
  have "rb_wf (c_recv_buf c1)" using drain_wf[OF assms(1), of e] dr by simp
  from repost_keeps[OF this assms(3)[unfolded dr]] drain_takes[OF assms(1) dr] assms(2)
  show ?thesis by (auto simp: input_delivered_def)
qed

lemma delivery_delivered:
  assumes "delivery H s0 stream fs s" "conn_inv 0 (fst s0)" "recv_inv (fst s0)" "input_delivered [] [] (fst s0)"
  shows "input_delivered stream fs (fst s)"
  using assms
proof (induction rule: delivery.induct)
  case (d_receive stream fs c e w data)
  note inv = areach_inv[OF delivery_areach[OF d_receive(1)]]
  have r: "recv_inv c" "input_delivered stream fs c" using inv d_receive by simp_all
  let ?c1 = "conn_touch (e_now e) (take_out (ReqRecv w) c)"
  have b: "c_recv_buf ?c1 = c_recv_buf c" by (simp add: conn_touch_def take_out_def)
  have len: "int (length data) \<le> writable_size (c_recv_buf c)" "rb_wf (c_recv_buf c)"
    using recv_taken(2)[OF r(1) d_receive(2)] d_receive(4) r(1) by (simp_all add: recv_inv_def)
  obtain c' e' where eq: "conn_on_receive_done H data True (take_out (ReqRecv w) c, e) = (c', e')" by fastforce
  have "input_delivered (stream @ data) (fs @ taken_frames H (?c1\<lparr>c_recv_buf := rb_receive data (c_recv_buf ?c1)\<rparr>) e) c'"
  proof (rule delivered_drain)
    show "rb_wf (c_recv_buf (?c1\<lparr>c_recv_buf := rb_receive data (c_recv_buf ?c1)\<rparr>))"
      using len b by (simp add: rb_wf_receive)
    show "parse_stream (stream @ data) =
        prepend fs (parse_stream (rb_readable (c_recv_buf (?c1\<lparr>c_recv_buf := rb_receive data (c_recv_buf ?c1)\<rparr>))))"
      using parse_stream_arrive[of stream fs "rb_readable (c_recv_buf c)" data] r(2) len b
      by (simp add: input_delivered_def rb_readable_receive)
    show "conn_repost H (conn_drain_frames H (?c1\<lparr>c_recv_buf := rb_receive data (c_recv_buf ?c1)\<rparr>) e) = (c', e')"
      using eq d_receive(3) by (simp add: conn_on_receive_done_def receive_part_def Let_def)
  qed
  then show ?case by (simp add: eq received_frames_def Let_def)
next
  case (d_resume stream fs c e)
  note inv = areach_inv[OF delivery_areach[OF d_resume(1)]]
  let ?c1 = "(take_out ReqResume c)\<lparr>c_recv_paused := False, c_resume_queued := False\<rparr>"
  have r: "rb_wf (c_recv_buf ?c1)" "parse_stream stream = prepend fs (parse_stream (rb_readable (c_recv_buf ?c1)))"
    using inv d_resume by (simp_all add: recv_inv_def input_delivered_def take_out_def)
  obtain c' e' where eq: "conn_on_resume H (take_out ReqResume c, e) = (c', e')" by fastforce
  from delivered_drain[OF r, of e c' e'] eq show ?case
    by (simp add: conn_on_resume_def resume_part_def resumed_frames_def)
next
  case (d_quiet stream fs s s')
  note inv = areach_inv[OF delivery_areach[OF d_quiet(1)]]
  from quiet_keeps[OF d_quiet(2)] inv d_quiet show ?case by (auto simp: input_delivered_def keeps_input_def)
qed simp_all

end

lemma delivered_start:
  "input_delivered [] [] (fst (snd (conn_start H (conn_configure rate burst limit direct (conn_new i peer now), e))))"
proof -
  let ?f = "conn_configure rate burst limit direct (conn_new i peer now)"
  have f: "rb_readable (c_recv_buf ?f) = []" "rb_wf (c_recv_buf ?f)" "parse_stream [] = ([], [], NeedMore)"
    by (simp_all add: conn_configure_def conn_new_def parse_stream_cases(1), simp add: rb_readable_def rb_init_def)
  have "rb_readable (c_recv_buf (fst (snd (conn_start H (?f, e))))) = []" unfolding conn_start_def
    by (cases rule: conn_post_receive_cases[of H ?f e])
      (use f rb_reserve_free_props[OF f(2)] in \<open>auto simp: conn_close_eq\<close>)
  with f show ?thesis by (simp add: input_delivered_def)
qed

end
