(* ===== verification/Server.thy ===== *)
theory Server
  imports Delivery Service_Router
begin

text \<open>
  The message path of \<^verbatim>\<open>src/src/main.cpp\<close>: the two callbacks \<^verbatim>\<open>main\<close> installs on every connection, and what it does for a new
  one. They join the connection, whose handlers run on the worker threads, with the router and its services.
  The application behind the connections is the router with the clock its events are stamped with.
\<close>

section \<open>The callbacks\<close>

record 'p server_app =
  sa_router :: "'p router"
  sa_us :: int

text \<open>The effects of \<^verbatim>\<open>post_message\<close> are calls on the connection it was given.\<close>

fun perform :: "'a conn_hooks \<Rightarrow> effect \<Rightarrow> 'a cstate \<Rightarrow> 'a cstate" where
  "perform H (Send i m body sz) s = conn_send H m body sz s"
| "perform H (Close i) s = conn_close H s"
| "perform H (Pause i) s = (conn_pause_receive (fst s), snd s)"
| "perform H (Resume i) s = s"
| "perform H (Relay m) s = s"

definition server_on_close :: "conn_id \<Rightarrow> 'p server_app \<Rightarrow> 'p server_app" where
  "server_on_close i a = a\<lparr>sa_router := rt_post_disconnected (sa_us a) i (sa_router a)\<rparr>"

definition server_base :: "(nat \<Rightarrow> bool) \<Rightarrow> 'p server_app conn_hooks" where
  "server_base os = \<lparr>h_os = os, h_on_message = (\<lambda>v c e. (True, c, e)), h_on_close = server_on_close\<rparr>"

definition server_on_message :: "(nat \<Rightarrow> bool) \<Rightarrow> frame_view \<Rightarrow> conn \<Rightarrow> 'p server_app io_env \<Rightarrow> bool \<times> conn \<times> 'p server_app io_env" where
  "server_on_message os v c e =
     (case conn_allow_message (e_now e) c of (allowed, c1) \<Rightarrow>
        if \<not> allowed then
          (True, fold (perform (server_base os)) (send_error (c_id c1) (fv_msg_id v) ServerBusy ''rate limit'')
             (c1, e\<lparr>e_throttled := e_throttled e + 1\<rparr>))
        else
          case rt_post_message (sa_us (e_app e)) (c_id c1) v (sa_router (e_app e)) of (consumed, rt, fx) \<Rightarrow>
            (consumed, fold (perform (server_base os)) fx (c1, e\<lparr>e_app := (e_app e)\<lparr>sa_router := rt\<rparr>\<rparr>)))"

definition server_hooks :: "(nat \<Rightarrow> bool) \<Rightarrow> 'p server_app conn_hooks" where
  "server_hooks os = (server_base os)\<lparr>h_on_message := server_on_message os\<rparr>"

text \<open>What the acceptor hands to \<^verbatim>\<open>adopt\<close> to be done with a new connection.\<close>

definition server_on_adopt :: "conn_id \<Rightarrow> 'p server_app \<Rightarrow> 'p server_app" where
  "server_on_adopt i a = a\<lparr>sa_router := rt_post_connected (sa_us a) (Some i) (sa_router a)\<rparr>"

section \<open>The callbacks keep the contract of a handler\<close>

lemma server_hooks_sel [simp]:
  "h_os (server_hooks os) = os" "h_on_message (server_hooks os) = server_on_message os" "h_on_close (server_hooks os) = server_on_close"
  "h_os (server_base os) = os" "h_on_close (server_base os) = server_on_close"
  by (simp_all add: server_hooks_def server_base_def)

text \<open>Sending and closing do not call the message handler.\<close>

lemma conn_close_hooks:
  assumes "h_on_close H = h_on_close H'"
  shows "conn_close H = conn_close H'"
  unfolding conn_close_def assms ..

lemma conn_post_send_hooks:
  assumes "h_os H = h_os H'" "h_on_close H = h_on_close H'"
  shows "conn_post_send H = conn_post_send H'"
  unfolding conn_post_send_def syscall_def assms conn_close_hooks[OF assms(2)] ..

lemma conn_send_hooks:
  assumes "h_os H = h_os H'" "h_on_close H = h_on_close H'"
  shows "conn_send H = conn_send H'"
  by (intro ext, unfold conn_send_def conn_send_locked_def syscall_def assms conn_close_hooks[OF assms(2)] conn_post_send_hooks[OF assms]) (rule refl)

lemma perform_base: "perform (server_base os) = perform (server_hooks os)"
proof (intro ext)
  fix f and s :: "'a server_app cstate"
  have "conn_send (server_base os :: 'a server_app conn_hooks) = conn_send (server_hooks os)"
    "conn_close (server_base os :: 'a server_app conn_hooks) = conn_close (server_hooks os)"
    by (rule conn_send_hooks conn_close_hooks; simp)+
  then show "perform (server_base os) f s = perform (server_hooks os) f s" by (cases f) simp_all
qed

lemma perform_ops: "handler_ops H c e c1 e1 \<Longrightarrow> perform H f (c1, e1) = (c2, e2) \<Longrightarrow> handler_ops H c e c2 e2"
  by (cases f) (auto intro: handler_ops.intros)

lemma performs_ops:
  "handler_ops H c e c1 e1 \<Longrightarrow> fold (perform H) fx (c1, e1) = (c2, e2) \<Longrightarrow> handler_ops H c e c2 e2"
proof (induction fx arbitrary: c1 e1)
  case (Cons f fx)
  obtain c3 e3 where s: "perform H f (c1, e1) = (c3, e3)" by fastforce
  show ?case using Cons.IH[OF perform_ops[OF Cons.prems(1) s]] Cons.prems(2) s by simp
qed simp

lemma sv_refuses: "sv_post_message now c f sv = (False, sv', fx) \<Longrightarrow> fx = [Pause c]"
  by (auto simp: sv_post_message_def Let_def split: if_splits prod.splits)

lemma rt_refuses: "rt_post_message now c f rt = (False, rt', fx) \<Longrightarrow> fx = [Pause c]"
  by (auto simp: rt_post_message_def dest: sv_refuses split: option.splits service_id.splits prod.splits)

interpretation server: pausing_handler "server_hooks os" for os :: "nat \<Rightarrow> bool"
proof (unfold_locales, goal_cases)
  case (1 v c e b c' e')
  obtain allowed c1 where al: "conn_allow_message (e_now e) c = (allowed, c1)" by fastforce
  then have c1: "c1 = snd (conn_allow_message (e_now e) c)" by simp
  have ops: "handler_ops (server_hooks os) c e c1 e1" for e1
    unfolding c1 by (rule h_allow, rule h_env, rule h_done)
  show ?case
    using 1 al performs_ops[OF ops]
    by (auto simp: server_on_message_def perform_base split: if_splits prod.splits)
next
  case (2 v c e c' e')
  then show ?case
    by (auto simp: server_on_message_def conn_pause_receive_def dest!: rt_refuses split: if_splits prod.splits)
qed

section \<open>What becomes of a frame\<close>

definition has_room :: "conn_id \<Rightarrow> 's service \<Rightarrow> bool" where
  "has_room c sv \<longleftrightarrow> length (sq_filled (ln_inbound (sv_lanes sv ! lane_of c sv))) < sv_cap sv"

datatype fate = Throttled | Unrouted | Queued service_id | Refused service_id | Held service_id

definition service_fate :: "service_id \<Rightarrow> conn_id \<Rightarrow> 's service \<Rightarrow> fate" where
  "service_fate i c sv = (if has_room c sv then Queued i else if sv_policy sv = Backpressure then Held i else Refused i)"

definition frame_fate :: "frame_view \<Rightarrow> conn \<Rightarrow> 'p server_app io_env \<Rightarrow> fate" where
  "frame_fate v c e =
     (if \<not> fst (conn_allow_message (e_now e) c) then Throttled
      else case rt_route (fv_msg_id v) (sa_router (e_app e)) of
        None \<Rightarrow> Unrouted
      | Some Game \<Rightarrow> service_fate Game (c_id c) (rt_game (sa_router (e_app e)))
      | Some Chat \<Rightarrow> service_fate Chat (c_id c) (rt_chat (sa_router (e_app e))))"

fun fate_reply :: "conn_id \<Rightarrow> u16 \<Rightarrow> fate \<Rightarrow> effect list" where
  "fate_reply c m Throttled = send_body c kErrorAck (error_body m ServerBusy ''rate limit'')"
| "fate_reply c m Unrouted = send_body c kErrorAck (error_body m UnknownMessage ''unknown id'') @ [Close c]"
| "fate_reply c m (Refused i) = send_body c kErrorAck (error_body m ServerBusy ''inbound queue full'')"
| "fate_reply c m (Held i) = [Pause c]"
| "fate_reply c m (Queued i) = []"

text \<open>The messages that wait for a service in the lane of a connection.\<close>

fun inbox :: "service_id \<Rightarrow> conn_id \<Rightarrow> 'p router \<Rightarrow> inbound_event list" where
  "inbox Game c rt = messages (sq_filled (ln_inbound (sv_lanes (rt_game rt) ! lane_of c (rt_game rt))))"
| "inbox Chat c rt = messages (sq_filled (ln_inbound (sv_lanes (rt_chat rt) ! lane_of c (rt_chat rt))))"

definition router_inv :: "'p router \<Rightarrow> bool" where
  "router_inv rt \<longleftrightarrow> sv_inv (rt_game rt) \<and> sv_inv (rt_chat rt)"

lemma busy_error: "send_error c m ServerBusy d = send_body c kErrorAck (error_body m ServerBusy d)"
  by (simp add: send_error_eq send_body_def is_fatal_def)

lemma service_post:
  assumes "sv_inv sv" "sv_post_message now c v sv = (b, sv', fx)"
  shows "fx = fate_reply c (fv_msg_id v) (service_fate i c sv) \<and> (b \<longleftrightarrow> service_fate i c sv \<noteq> Held i) \<and>
    messages (sq_filled (ln_inbound (sv_lanes sv' ! lane_of c sv'))) =
      messages (sq_filled (ln_inbound (sv_lanes sv ! lane_of c sv))) @ (if service_fate i c sv = Queued i then [message_event now c v] else [])"
proof -
  have ne: "sv_lanes sv \<noteq> []" using assms(1) by (auto simp: sv_inv_def)
  have wf: "sq_wf (ln_inbound (sv_lanes sv ! lane_of c sv))" using assms(1) ne by (simp add: sv_inv_def lane_inv_def lane_wf_def)
  show ?thesis
    using assms(2) ne wf
    by (auto simp: sv_post_message_def sq.try_push_eq sq.push_contents Let_def wake_def messages_def busy_error
        service_fate_def has_room_def split: if_splits)
qed

lemma router_post:
  assumes "router_inv rt" "rt_post_message now c v rt = (b, rt', fx)"
    and "fate = (case rt_route (fv_msg_id v) rt of None \<Rightarrow> Unrouted
      | Some Game \<Rightarrow> service_fate Game c (rt_game rt) | Some Chat \<Rightarrow> service_fate Chat c (rt_chat rt))"
  shows "fx = fate_reply c (fv_msg_id v) fate \<and> (b \<longleftrightarrow> (\<forall>i. fate \<noteq> Held i)) \<and>
    (\<forall>i. inbox i c rt' = inbox i c rt @ (if fate = Queued i then [message_event now c v] else []))"
proof (cases "rt_route (fv_msg_id v) rt")
  case None
  then have r: "b" "rt' = rt\<lparr>rt_unknown := rt_unknown rt + 1\<rparr>" "fate = Unrouted"
    "fx = send_error c (fv_msg_id v) UnknownMessage ''unknown id''"
    using assms(2,3) by (auto simp: rt_post_message_def)
  have "inbox i c rt' = inbox i c rt" for i using r(2) by (cases i) simp_all
  with r show ?thesis by (simp add: send_error_eq send_body_def is_fatal_def)
next
  case (Some j)
  show ?thesis
  proof (cases j)
    case Game
    obtain sv where p: "sv_post_message now c v (rt_game rt) = (b, sv, fx)" "rt' = rt\<lparr>rt_game := sv\<rparr>"
      using assms(2) Some Game by (auto simp: rt_post_message_def split: prod.splits)
    have f: "fate = service_fate Game c (rt_game rt)" using assms(3) Some Game by simp
    have "inbox i c rt' = inbox i c rt @ (if fate = Queued i then [message_event now c v] else [])" for i
      using service_post[OF _ p(1), of Game] assms(1) f p(2) by (cases i) (auto simp: router_inv_def service_fate_def)
    with service_post[OF _ p(1), of Game] assms(1) f show ?thesis by (auto simp: router_inv_def service_fate_def)
  next
    case Chat
    obtain sv where p: "sv_post_message now c v (rt_chat rt) = (b, sv, fx)" "rt' = rt\<lparr>rt_chat := sv\<rparr>"
      using assms(2) Some Chat by (auto simp: rt_post_message_def split: prod.splits)
    have f: "fate = service_fate Chat c (rt_chat rt)" using assms(3) Some Chat by simp
    have "inbox i c rt' = inbox i c rt @ (if fate = Queued i then [message_event now c v] else [])" for i
      using service_post[OF _ p(1), of Chat] assms(1) f p(2) by (cases i) (auto simp: router_inv_def service_fate_def)
    with service_post[OF _ p(1), of Chat] assms(1) f show ?thesis by (auto simp: router_inv_def service_fate_def)
  qed
qed

text \<open>The replies touch the services only through the notice that the connection has been closed.\<close>

definition same_messages :: "'p server_app \<Rightarrow> 'p server_app \<Rightarrow> bool" where
  "same_messages a a' \<longleftrightarrow> router_inv (sa_router a') \<and> (\<forall>i k. inbox i k (sa_router a') = inbox i k (sa_router a))"

lemma service_disconnected:
  assumes "sv_inv sv"
  shows "sv_inv (sv_post_disconnected now i sv)" "lane_of k (sv_post_disconnected now i sv) = lane_of k sv"
    "messages (sq_filled (ln_inbound (sv_lanes (sv_post_disconnected now i sv) ! j))) = messages (sq_filled (ln_inbound (sv_lanes sv ! j)))"
proof -
  have ne: "sv_lanes sv \<noteq> []" using assms by (auto simp: sv_inv_def)
  have wf: "sq_wf (ln_inbound (sv_lanes sv ! lane_of i sv))" using assms ne by (simp add: sv_inv_def lane_inv_def lane_wf_def)
  show "sv_inv (sv_post_disconnected now i sv)" using assms by (rule sv_inv_step[OF sv_step.disconnected])
  show "lane_of k (sv_post_disconnected now i sv) = lane_of k sv"
    "messages (sq_filled (ln_inbound (sv_lanes (sv_post_disconnected now i sv) ! j))) = messages (sq_filled (ln_inbound (sv_lanes sv ! j)))"
    using ne wf by (auto simp: sv_post_disconnected_def sq_emplace_push sq.push_contents messages_def disconnected_event_def wake_def)
qed

lemma close_same_messages:
  assumes "router_inv (sa_router a)"
  shows "same_messages a (server_on_close i a)"
proof -
  have eq: "rt_post_disconnected now i rt = rt\<lparr>rt_game := sv_post_disconnected now i (rt_game rt), rt_chat := sv_post_disconnected now i (rt_chat rt)\<rparr>"
    for now and rt :: "'a router"
    by (simp add: rt_post_disconnected_def kServiceCount_def numeral_2_eq_2 rt_service_at_def rt_disconnect_one_def)
  have "inbox j k (sa_router (server_on_close i a)) = inbox j k (sa_router a)" for j k
    using assms by (cases j) (simp_all add: server_on_close_def eq router_inv_def service_disconnected)
  then show ?thesis
    using assms by (simp add: same_messages_def server_on_close_def eq router_inv_def service_disconnected)
qed

lemma close_app:
  "e_app (snd (conn_close (server_hooks os) s)) = e_app (snd s) \<or>
   e_app (snd (conn_close (server_hooks os) s)) = server_on_close (c_id (fst s)) (e_app (snd s))"
  by (cases s) (simp add: conn_close_eq)

lemma post_send_app:
  "conn_post_send (server_hooks os) (c, e) = (c', e') \<Longrightarrow>
     c_id c' = c_id c \<and> (e_app e' = e_app e \<or> e_app e' = server_on_close (c_id c) (e_app e))"
  by (auto simp: conn_post_send_def syscall_def Let_def conn_close_eq split: if_splits)

lemma send_locked_app:
  assumes "conn_send_locked (server_hooks os) m body sz (c, e) = (ov, c', e')"
  shows "c_id c' = c_id c \<and> (e_app e' = e_app e \<or> \<not> ov \<and> e_app e' = server_on_close (c_id c) (e_app e))"
proof -
  have id: "c_id c' = c_id c" using assms conn_send_locked_rest(1)[of c "server_hooks os" m body sz e] by (simp add: same_rest_def)
  have "ov \<Longrightarrow> e' = e" using assms by (auto simp: conn_send_locked_def Let_def syscall_def split: if_splits prod.splits)
  moreover have "\<not> ov \<Longrightarrow> e_app e' = e_app e \<or> e_app e' = server_on_close (c_id c) (e_app e)"
    using assms by (auto simp: conn_send_locked_def Let_def syscall_def dest!: post_send_app split: if_splits prod.splits)
  ultimately show ?thesis using id by auto
qed

lemma send_app:
  "e_app (snd (conn_send (server_hooks os) m body sz (c, e))) = e_app e \<or>
   e_app (snd (conn_send (server_hooks os) m body sz (c, e))) = server_on_close (c_id c) (e_app e)"
proof -
  obtain ov c1 e1 where l: "conn_send_locked (server_hooks os) m body sz (c, e) = (ov, c1, e1)"
    by (cases "conn_send_locked (server_hooks os) m body sz (c, e)")
  from send_locked_app[OF l] l show ?thesis by (auto simp: conn_send_def conn_close_eq)
qed

lemma same_messages_refl: "router_inv (sa_router a) \<Longrightarrow> same_messages a a"
  by (simp add: same_messages_def)

lemma same_messages_trans: "same_messages a b \<Longrightarrow> same_messages b d \<Longrightarrow> same_messages a d"
  by (simp add: same_messages_def)

lemma perform_same_messages:
  assumes "router_inv (sa_router (e_app (snd s)))"
  shows "same_messages (e_app (snd s)) (e_app (snd (perform (server_hooks os) f s)))"
proof -
  obtain c e where s: "s = (c, e)" by (cases s)
  have r: "same_messages (e_app e) a" if "a = e_app e \<or> a = server_on_close (c_id c) (e_app e)" for a
    using that assms s by (auto intro: same_messages_refl close_same_messages)
  show ?thesis
  proof (cases f)
    case (Send i m body sz)
    then show ?thesis using r[OF send_app] s by simp
  next
    case (Close i)
    then show ?thesis using r close_app[of os s] s by simp
  qed (use r s in simp_all)
qed

lemma performs_same_messages:
  assumes "router_inv (sa_router (e_app (snd s)))"
  shows "same_messages (e_app (snd s)) (e_app (snd (fold (perform (server_hooks os)) fx s)))"
  using assms
proof (induction fx arbitrary: s)
  case (Cons f fx)
  have one: "same_messages (e_app (snd s)) (e_app (snd (perform (server_hooks os) f s)))"
    by (rule perform_same_messages[OF Cons.prems])
  moreover have "router_inv (sa_router (e_app (snd (perform (server_hooks os) f s))))"
    using one by (simp add: same_messages_def)
  ultimately show ?case using Cons.IH[of "perform (server_hooks os) f s"] by (simp add: same_messages_trans[OF one])
qed (simp add: same_messages_refl)

lemma router_post_inv: "router_inv rt \<Longrightarrow> router_inv (fst (snd (rt_post_message now c v rt)))"
  using sv_inv_message[of "rt_game rt" now c v] sv_inv_message[of "rt_chat rt" now c v]
  by (auto simp: router_inv_def rt_post_message_def split: option.splits service_id.splits prod.splits)

lemma held_frame:
  assumes "router_inv (sa_router (e_app e))" "frame_fate v c e = Held j" "server_on_message os v c e = (consumed, c', e')"
  shows "\<not> consumed \<and> c' = conn_pause_receive (snd (conn_allow_message (e_now e) c)) \<and> fst (conn_allow_message (e_now e) c)"
proof -
  obtain allowed c1 where al: "conn_allow_message (e_now e) c = (allowed, c1)" by fastforce
  have id: "c_id c1 = c_id c" using al by (auto simp: conn_allow_message_def split: if_splits prod.splits)
  have a: "allowed" using assms(2) al by (simp add: frame_fate_def split: if_splits)
  obtain b rt fx where p: "rt_post_message (sa_us (e_app e)) (c_id c) v (sa_router (e_app e)) = (b, rt, fx)"
    by (cases "rt_post_message (sa_us (e_app e)) (c_id c) v (sa_router (e_app e))")
  have "Held j = (case rt_route (fv_msg_id v) (sa_router (e_app e)) of None \<Rightarrow> Unrouted
      | Some Game \<Rightarrow> service_fate Game (c_id c) (rt_game (sa_router (e_app e)))
      | Some Chat \<Rightarrow> service_fate Chat (c_id c) (rt_chat (sa_router (e_app e))))"
    using assms(2) al a by (simp add: frame_fate_def)
  from router_post[OF assms(1) p this] assms(3) al a id p show ?thesis by (auto simp: server_on_message_def)
qed

text \<open>A router that has been started keeps its invariant, and has room in every lane.\<close>

lemma router_inv_start:
  assumes "rt_start D pool opt router_new = (True, rt)"
  shows "router_inv rt"
proof -
  obtain gopt copt where g: "sv_start (game_ops D (router_config opt) pool) gopt service_new = (True, rt_game rt)"
    and c: "sv_start chat_ops copt service_new = (True, rt_chat rt)"
    using assms by (auto simp: rt_start_def router_new_def Let_def split: prod.splits if_splits)
  have "sv_inv (rt_game rt)"
    by (rule sv_inv_start[OF g]) (auto simp: service_new_def game_ops_def game_on_created_def split: if_splits)
  moreover have "sv_inv (rt_chat rt)"
    by (rule sv_inv_start[OF c]) (auto simp: service_new_def chat_ops_def chat_on_created_def split: if_splits)
  ultimately show ?thesis by (simp add: router_inv_def)
qed

section \<open>Properties\<close>

text \<open>
  C7: every frame of a client has exactly one fate. It is queued once in the lane its connection belongs to, or answered with
  one error, or left to its connection, which has been paused; and it counts as consumed exactly unless it was left. The rate
  limit comes before the routing, and the routing before the question for room.
\<close>

theorem every_frame_has_one_fate:
  assumes "router_inv (sa_router (e_app e))"
    and "server_on_message os v c e = (consumed, c', e')"
    and "fate = frame_fate v c e"
  shows "(consumed \<longleftrightarrow> (\<forall>i. fate \<noteq> Held i)) \<and>
    (\<forall>i. inbox i (c_id c) (sa_router (e_app e')) =
       inbox i (c_id c) (sa_router (e_app e)) @ (if fate = Queued i then [message_event (sa_us (e_app e)) (c_id c) v] else [])) \<and>
    (\<exists>e1. (c', e') = fold (perform (server_hooks os)) (fate_reply (c_id c) (fv_msg_id v) fate)
       (snd (conn_allow_message (e_now e) c), e1)) \<and>
    router_inv (sa_router (e_app e'))"
proof -
  obtain allowed c1 where al: "conn_allow_message (e_now e) c = (allowed, c1)" by fastforce
  have id: "c_id c1 = c_id c" using al by (auto simp: conn_allow_message_def split: if_splits prod.splits)
  let ?rt = "sa_router (e_app e)" and ?m = "fv_msg_id v" and ?us = "sa_us (e_app e)"
  show ?thesis
  proof (cases allowed)
    case False
    define e1 where "e1 = e\<lparr>e_throttled := e_throttled e + 1\<rparr>"
    have f: "fate = Throttled" using assms(3) al False by (simp add: frame_fate_def)
    then have r: "consumed" "(c', e') = fold (perform (server_hooks os)) (fate_reply (c_id c) ?m fate) (c1, e1)"
      using assms(2) al False id by (auto simp: server_on_message_def perform_base busy_error e1_def)
    have "same_messages (e_app e) (e_app e')"
      using performs_same_messages[of "(c1, e1)" os "fate_reply (c_id c) ?m fate"] assms(1) arg_cong[OF r(2), of snd] by (simp add: e1_def)
    with f r al show ?thesis by (auto simp: same_messages_def)
  next
    case True
    obtain b rt fx where p: "rt_post_message ?us (c_id c) v ?rt = (b, rt, fx)" by (cases "rt_post_message ?us (c_id c) v ?rt")
    define e1 where "e1 = e\<lparr>e_app := (e_app e)\<lparr>sa_router := rt\<rparr>\<rparr>"
    have "fate = (case rt_route ?m ?rt of None \<Rightarrow> Unrouted
      | Some Game \<Rightarrow> service_fate Game (c_id c) (rt_game ?rt) | Some Chat \<Rightarrow> service_fate Chat (c_id c) (rt_chat ?rt))"
      using assms(3) al True by (simp add: frame_fate_def)
    note post = router_post[OF assms(1) p this]
    have r: "consumed = b" "(c', e') = fold (perform (server_hooks os)) (fate_reply (c_id c) ?m fate) (c1, e1)"
      using assms(2) al True id p post by (auto simp: server_on_message_def perform_base e1_def)
    have "router_inv rt" using router_post_inv[OF assms(1), of ?us "c_id c" v] p by simp
    then have "same_messages (e_app e1) (e_app e')"
      using performs_same_messages[of "(c1, e1)" os "fate_reply (c_id c) ?m fate"] arg_cong[OF r(2), of snd] by (simp add: e1_def)
    then have "inbox i (c_id c) (sa_router (e_app e')) = inbox i (c_id c) rt" "router_inv (sa_router (e_app e'))" for i
      by (simp_all add: same_messages_def e1_def)
    with post r al show ?thesis by auto
  qed
qed

abbreviation demo_app :: "unit server_app" where
  "demo_app \<equiv> \<lparr>sa_router = snd (rt_start None () demo_router_options router_new), sa_us = 5\<rparr>"

abbreviation demo_echo :: frame_view where
  "demo_echo \<equiv> \<lparr>fv_msg_id = kEchoReq, fv_body = [0, 0], fv_size = 2\<rparr>"

lemma demo_router_inv: "router_inv (sa_router demo_app)"
  using router_inv_start[OF demo_router_start] by simp

lemma demo_inbox: "inbox Game 1 (sa_router demo_app) = []" "has_room 1 (rt_game (sa_router demo_app))"
  by (simp_all add: rt_start_def router_new_def service_new_def sv_start_def game_ops_def chat_ops_def game_on_created_def
      chat_on_created_def lane_init_def lane_of_def has_room_def messages_def sq_empty_def sq_filled_def Let_def)

lemma demo_fate: "frame_fate demo_echo direct_conn (env_init demo_app) = Queued Game"
  using demo_inbox(2) rt_start_table[OF demo_router_start, of kEchoReq]
  by (simp add: frame_fate_def env_init_def service_fate_def conn_allow_message_def rl_enabled_def rl_configure_def
      conn_configure_def conn_new_def rl_init_def Let_def)

theorem every_frame_has_one_fate_witness:
  "inbox Game 1 (sa_router (e_app (snd (snd (server_on_message (\<lambda>_. True) demo_echo direct_conn (env_init demo_app)))))) =
     [message_event 5 1 demo_echo]"
proof -
  obtain b c e where r: "server_on_message (\<lambda>_. True) demo_echo direct_conn (env_init demo_app) = (b, c, e)"
    by (cases "server_on_message (\<lambda>_. True) demo_echo direct_conn (env_init demo_app)")
  have inv: "router_inv (sa_router (e_app (env_init demo_app)))" using demo_router_inv by (simp add: env_init_def)
  from every_frame_has_one_fate[OF inv r refl] demo_fate demo_inbox r show ?thesis
    by (simp add: env_init_def conn_configure_def conn_new_def)
qed



text \<open>
  C22: a frame that has to wait is charged twice by the rate limit. A client with a limit of one message a second sends its
  very first message while the queue of the service is full; the frame stays in the buffer and the connection is paused, but
  the token is gone. When the connection is resumed, the same frame has none, and it is answered with an error although the client
  has kept to its rate; it never reaches the service.
\<close>

theorem held_frame_is_charged_twice:
  assumes "0 < rate" "rate < 2 ^ 31" "c_limiter c = rl_configure rate 1 l"
    and "frame_fate v c e = Held j" "router_inv (sa_router (e_app e))"
    and "server_on_message os v c e = (consumed, c1, e1)" "e_now e2 = e_now e"
  shows "\<not> consumed \<and> c_recv_paused c1 \<and>
    frame_fate v (c1\<lparr>c_recv_paused := False, c_resume_queued := False\<rparr>) e2 = Throttled"
proof -
  note held = held_frame[OF assms(5,4,6)]
  have l: "rl_rate (c_limiter c) > 0" "rl_last_ms (c_limiter c) = 0" "rl_tokens (c_limiter c) = of_nat 1"
    using assms(1,2) rl_configure_sel[of rate 1 l] by (simp_all add: assms(3) rl_configure_def Let_def double_of_int)
  let ?l = "(c_limiter c)\<lparr>rl_last_ms := e_now e, rl_tokens := of_nat 0\<rparr>"
  have "rl_allow (e_now e) (c_limiter c) = (True, ?l)" using rl_allow_same_ms[of "c_limiter c" "e_now e" 1] l by simp
  then have c1: "c1 = conn_pause_receive (c\<lparr>c_limiter := ?l\<rparr>)"
    using held l by (simp add: conn_allow_message_def rl_enabled_def)
  have "\<not> fst (rl_allow (e_now e) ?l)" using rl_allow_same_ms[of ?l "e_now e" 0] l by simp
  then have "\<not> fst (conn_allow_message (e_now e2) (c1\<lparr>c_recv_paused := False, c_resume_queued := False\<rparr>))"
    using l assms(7) by (auto simp: c1 conn_allow_message_def rl_enabled_def conn_pause_receive_def split: prod.splits)
  with held c1 show ?thesis by (simp add: frame_fate_def conn_pause_receive_def)
qed

lemma route_table_only: "rt_route m (rt\<lparr>rt_game := g\<rparr>) = rt_route m rt"
  by (simp add: rt_route_def)

abbreviation full_router :: "unit router" where
  "full_router \<equiv> (snd (rt_start None () demo_router_options router_new))\<lparr>rt_game := \<lparr>sv_lanes =
     [(lane_init 0 \<lparr>gs_ctx = ctx_init (), gs_db_inbox = sq_empty\<rparr>)\<lparr>ln_signaled := True,
       ln_inbound := \<lparr>sq_buffers = [replicate 64 (message_event 0 1 demo_echo), []], sq_write = 0\<rparr>\<rparr>],
     sv_cap = 64, sv_policy = Backpressure\<rparr>\<rparr>"

lemma full_router_inv: "router_inv full_router"
  using demo_router_inv
  by (simp add: router_inv_def sv_inv_def lane_inv_def lane_wf_def sq_wf_def messages_def lane_init_def sq_filled_def sq_empty_def)

theorem held_frame_is_charged_twice_witness:
  "let c = fresh 1 1 0 False 1 [] 0; e = env_init \<lparr>sa_router = full_router, sa_us = 5\<rparr>;
       c1 = fst (snd (server_on_message (\<lambda>_. True) demo_echo c e))
   in frame_fate demo_echo c e = Held Game \<and>
      frame_fate demo_echo (c1\<lparr>c_recv_paused := False, c_resume_queued := False\<rparr>) (env_init demo_app) = Throttled"
proof -
  let ?c = "fresh 1 1 0 False 1 [] 0" and ?e = "env_init \<lparr>sa_router = full_router, sa_us = 5\<rparr>"
  have l: "c_limiter ?c = rl_configure 1 1 rl_init" by (simp add: conn_configure_def conn_new_def)
  have "rt_route kEchoReq full_router = Some Game"
    using rt_start_table[OF demo_router_start, of kEchoReq] by (simp add: route_table_only)
  moreover have "fst (conn_allow_message 0 ?c)"
  proof -
    have "fst (rl_allow 0 (rl_configure 1 1 rl_init))"
      using rl_allow_same_ms[of "rl_configure 1 1 rl_init" 0 1] rl_configure_sel[of 1 1 rl_init]
      by (simp add: rl_configure_def Let_def double_of_int)
    then show ?thesis by (simp add: conn_allow_message_def l case_prod_beta)
  qed
  ultimately have f: "frame_fate demo_echo ?c ?e = Held Game"
    by (simp add: frame_fate_def service_fate_def has_room_def lane_of_def sq_filled_def env_init_def)
  obtain b c1 e1 where r: "server_on_message (\<lambda>_. True) demo_echo ?c ?e = (b, c1, e1)"
    by (cases "server_on_message (\<lambda>_. True) demo_echo ?c ?e")
  have "router_inv (sa_router (e_app ?e))" using full_router_inv by (simp add: env_init_def)
  from held_frame_is_charged_twice[OF _ _ l f this r, of "env_init demo_app"] f r show ?thesis
    by (simp add: Let_def env_init_def)
qed

end
