(* ===== verification/Admin_Server.thy ===== *)
theory Admin_Server
  imports Text_Format "HOL-Library.Sublist"
begin

text \<open>
  \<^verbatim>\<open>src/src/net/admin_server.h\<close> and \<^verbatim>\<open>admin_server.cpp\<close>: the port that answers load balancers and monitoring. What
  \<^verbatim>\<open>recv\<close> and \<^verbatim>\<open>send\<close> give, call by call, and whether the sockets can be made are arguments; so are the two functions
  the port asks, which may be unset.
\<close>

definition kRequestMax :: nat where "kRequestMax = 2048"
definition kChunkMax :: nat where "kChunkMax = 512"
definition kHeaderMax :: nat where "kHeaderMax = 256"

section \<open>Requests and responses\<close>

abbreviation crlf :: bytes where
  "crlf \<equiv> [13, 10]"

definition response_header :: "bytes \<Rightarrow> nat \<Rightarrow> bytes" where
  "response_header status body_size =
     lit ''HTTP/1.1 '' @ status @ crlf @ lit ''Content-Type: text/plain; version=0.0.4; charset=utf-8'' @ crlf @
     lit ''Content-Length: '' @ dec body_size @ crlf @ lit ''Connection: close'' @ crlf @ crlf"

text \<open>\<open>None\<close> stands for a header that does not fit its buffer, past the end of which the code would read.\<close>

definition http_response :: "bytes \<Rightarrow> bytes \<Rightarrow> bytes option" where
  "http_response status body =
     (case snprintf kHeaderMax (response_header status (length body)) of (n, header) \<Rightarrow>
        if n \<le> 0 then Some []
        else if n \<ge> int kHeaderMax then None
        else Some (take (nat n) header @ body))"

definition request_path :: "bytes \<Rightarrow> bytes" where
  "request_path request =
     (case find_from 32 0 request of
        None \<Rightarrow> []
      | Some first \<Rightarrow>
          (case find_from 32 (first + 1) request of
             None \<Rightarrow> []
           | Some second \<Rightarrow> take (second - first - 1) (drop (first + 1) request)))"

text \<open>What goes out when \<^verbatim>\<open>send\<close> returns the numbers of the list; it never returns more than it was given.\<close>

fun send_all :: "int list \<Rightarrow> bytes \<Rightarrow> bytes" where
  "send_all [] d = []"
| "send_all (n # ns) d = (if d = [] \<or> n \<le> 0 then [] else take (nat n) d @ send_all ns (drop (nat n) d))"

section \<open>Serving one client\<close>

text \<open>
  The loop of \<^verbatim>\<open>serve\<close>: every chunk is what one \<^verbatim>\<open>recv\<close> has given, an empty one is its end or its time-out. The flag says
  that the request has grown too large; \<open>None\<close> is a loop that goes on.
\<close>

definition has_line_end :: "bytes \<Rightarrow> bool" where
  "has_line_end request \<longleftrightarrow> sublist (crlf @ crlf) request \<or> 10 \<in> set request"

fun read_request :: "bytes \<Rightarrow> bytes list \<Rightarrow> (bool \<times> bytes) option" where
  "read_request request [] = None"
| "read_request request (chunk # chunks) =
     (if chunk = [] then Some (False, request)
      else if has_line_end (request @ chunk) then Some (False, request @ chunk)
      else if length (request @ chunk) \<ge> kRequestMax then Some (True, request @ chunk)
      else read_request (request @ chunk) chunks)"

definition health_response :: "bool option \<Rightarrow> bytes option" where
  "health_response health =
     (if (case health of None \<Rightarrow> True | Some ok \<Rightarrow> ok) then http_response (lit ''200 OK'') (lit ''ok'' @ [10])
      else http_response (lit ''503 Service Unavailable'') (lit ''unavailable'' @ [10]))"

definition metrics_response :: "bytes option \<Rightarrow> bytes option" where
  "metrics_response metrics = http_response (lit ''200 OK'') (case metrics of None \<Rightarrow> [] | Some body \<Rightarrow> body)"

definition answer_path :: "bool option \<Rightarrow> bytes option \<Rightarrow> bytes \<Rightarrow> bytes option" where
  "answer_path health metrics path =
     (if path = lit ''/health'' then health_response health
      else if path = lit ''/metrics'' then metrics_response metrics
      else http_response (lit ''404 Not Found'') (lit ''not found'' @ [10]))"

text \<open>The bytes handed to \<^verbatim>\<open>send_all\<close>; a client that sends nothing gets nothing.\<close>

definition serve :: "bool option \<Rightarrow> bytes option \<Rightarrow> bytes list \<Rightarrow> bytes option option" where
  "serve health metrics chunks =
     (case read_request [] chunks of
        None \<Rightarrow> None
      | Some (True, request) \<Rightarrow> Some (http_response (lit ''431 Request Header Fields Too Large'') (lit ''too large'' @ [10]))
      | Some (False, request) \<Rightarrow>
          Some (if request = [] then Some [] else answer_path health metrics (request_path request)))"

section \<open>Starting and stopping\<close>

record admin =
  ad_listen :: bool
  ad_running :: bool
  ad_thread :: bool

definition admin_new :: admin where
  "admin_new = \<lparr>ad_listen = False, ad_running = False, ad_thread = False\<rparr>"

definition admin_start :: "bool \<Rightarrow> bool \<Rightarrow> bool \<Rightarrow> u16 \<Rightarrow> admin \<Rightarrow> bool \<times> admin" where
  "admin_start socket_ok bind_ok listen_ok port a =
     (if port = 0 \<or> ad_running a then (True, a)
      else if \<not> socket_ok \<or> \<not> bind_ok \<or> \<not> listen_ok then (False, a)
      else (True, a\<lparr>ad_listen := True, ad_running := True, ad_thread := True\<rparr>))"

definition admin_stop :: "admin \<Rightarrow> admin" where
  "admin_stop a = (if \<not> ad_running a then a else a\<lparr>ad_running := False, ad_listen := False, ad_thread := False\<rparr>)"

text \<open>A turn of the loop of the thread, after \<^verbatim>\<open>accept\<close> has returned: whether it goes on, and whether it serves a client.\<close>

definition admin_turn :: "bool \<Rightarrow> admin \<Rightarrow> bool \<times> bool" where
  "admin_turn accepted a =
     (if \<not> ad_running a \<or> \<not> ad_listen a then (False, False) else if \<not> accepted then (ad_running a, False) else (True, True))"

section \<open>Lemmas\<close>

lemma response_fits:
  assumes "length status \<le> 40" "length body < 2 ^ 63"
  shows "http_response status body = Some (response_header status (length body) @ body)"
proof -
  have "length (dec (length body)) \<le> 19" by (rule length_dec) (use assms(2) in simp_all)
  then have "length (response_header status (length body)) \<le> 255" using assms(1) by (simp add: response_header_def)
  moreover have "response_header status (length body) \<noteq> []" by (simp add: response_header_def)
  ultimately show ?thesis by (simp add: http_response_def snprintf_def kHeaderMax_def)
qed

lemma read_line:
  assumes "prefix request line" "10 \<notin> set line" "length line < kRequestMax"
    and "request @ concat chunks = line @ 10 # rest" "\<forall>c\<in>set chunks. c \<noteq> []"
  shows "\<exists>tail. read_request request (chunks @ later) = Some (False, line @ 10 # tail)"
  using assms
proof (induction chunks arbitrary: request)
  case Nil
  then have "10 \<in> set request" by simp
  then show ?case using Nil by (auto dest: set_mono_prefix)
next
  case (Cons c chunks)
  have eq: "(request @ c) @ concat chunks = line @ 10 # rest" using Cons.prems(4) by simp
  then have pre: "prefix (request @ c) (line @ 10 # rest)" by (metis prefixI)
  show ?case
  proof (cases "length (request @ c) \<le> length line")
    case True
    have p: "prefix (request @ c) line" by (rule prefix_length_prefix[OF pre _ True]) simp
    then have "10 \<notin> set (request @ c)" using Cons.prems(2) set_mono_prefix by fastforce
    moreover then have "\<not> sublist (crlf @ crlf) (request @ c)" by (auto dest!: set_mono_sublist)
    ultimately have "\<not> has_line_end (request @ c)" by (simp add: has_line_end_def)
    moreover have "length (request @ c) < kRequestMax" using True Cons.prems(3) by simp
    ultimately show ?thesis using Cons.IH[OF p Cons.prems(2,3) eq] Cons.prems(5) by simp
  next
    case False
    then have "length (line @ [10]) \<le> length (request @ c)" by simp
    from prefix_length_prefix[OF _ pre this] have "prefix (line @ [10]) (request @ c)" by simp
    then obtain tail where "request @ c = line @ 10 # tail" by (auto simp: prefix_def)
    then show ?thesis using Cons.prems(5) by (auto simp: has_line_end_def)
  qed
qed

lemma request_path_line:
  assumes "find_from 32 0 line = Some i" "find_from 32 (i + 1) line = Some j"
  shows "request_path (line @ tail) = request_path line"
proof -
  have "j < length line" using assms(2) by (simp add: find_from_Some)
  then show ?thesis using assms find_from_append[OF assms(1), of tail] find_from_append[OF assms(2), of tail]
    by (simp add: request_path_def)
qed

lemma path_of_line:
  assumes "32 \<notin> set m" "32 \<notin> set path"
  shows "request_path (m @ 32 # path @ 32 # version) = path"
    "find_from 32 0 (m @ 32 # path @ 32 # version) = Some (length m)"
    "find_from 32 (length m + 1) (m @ 32 # path @ 32 # version) = Some (length m + 1 + length path)"
proof -
  show f: "find_from 32 0 (m @ 32 # path @ 32 # version) = Some (length m)"
    using assms(1) by (auto simp: find_from_Some nth_append dest: nth_mem)
  show s: "find_from 32 (length m + 1) (m @ 32 # path @ 32 # version) = Some (length m + 1 + length path)"
    using assms(2) by (auto simp: find_from_Some nth_append nth_Cons' dest: nth_mem)
  show "request_path (m @ 32 # path @ 32 # version) = path" by (simp add: request_path_def f s[simplified])
qed

lemma read_ends:
  "\<forall>c\<in>set chunks. c \<noteq> [] \<Longrightarrow> kRequestMax \<le> length request + length chunks \<Longrightarrow> length request < kRequestMax \<Longrightarrow>
     read_request request chunks \<noteq> None"
proof (induction chunks arbitrary: request)
  case (Cons c chunks)
  have "1 \<le> length c" using Cons.prems(1) by (cases c) simp_all
  with Cons show ?case by (auto simp: not_le)
qed simp

lemma read_bounded:
  "read_request request chunks = Some (big, r) \<Longrightarrow> \<forall>c\<in>set chunks. length c \<le> kChunkMax \<Longrightarrow> length request < kRequestMax \<Longrightarrow>
     length r < kRequestMax + kChunkMax"
  by (induction request chunks rule: read_request.induct) (fastforce simp: not_le split: if_splits)+

text \<open>A request line decides the answer, however it is cut.\<close>

lemma serve_line:
  assumes "line = m @ 32 # path @ 32 # version" "32 \<notin> set m" "32 \<notin> set path" "10 \<notin> set line" "length line < kRequestMax"
    and "concat chunks = line @ 10 # rest" "\<forall>c\<in>set chunks. c \<noteq> []"
  shows "serve health metrics (chunks @ later) = Some (answer_path health metrics path)"
proof -
  have "prefix [] line" by simp
  from read_line[OF this assms(4,5) _ assms(7), of rest later] assms(6) obtain tail where
    r: "read_request [] (chunks @ later) = Some (False, line @ 10 # tail)" by auto
  have "request_path (line @ 10 # tail) = path"
    using request_path_line[of line "length m" _ "10 # tail"] path_of_line[OF assms(2,3), of version] assms(1) by simp
  then show ?thesis using r by (simp add: serve_def)
qed

text \<open>
  However slowly a client sends, the loop has ended after \<^verbatim>\<open>kRequestMax\<close> calls of \<^verbatim>\<open>recv\<close>, and it has kept less than
  \<^verbatim>\<open>kRequestMax\<close> bytes and one chunk.
\<close>

theorem serving_ends:
  assumes "\<forall>c\<in>set chunks. c \<noteq> [] \<and> length c \<le> kChunkMax"
  shows "(kRequestMax \<le> length chunks \<longrightarrow> serve health metrics chunks \<noteq> None) \<and>
    (\<forall>big request. read_request [] chunks = Some (big, request) \<longrightarrow> length request < kRequestMax + kChunkMax)"
proof -
  have z: "length ([] :: bytes) < kRequestMax" by (simp add: kRequestMax_def)
  have "kRequestMax \<le> length chunks \<longrightarrow> read_request [] chunks \<noteq> None" using read_ends[of chunks "[]"] assms z by auto
  moreover have "serve health metrics chunks \<noteq> None \<longleftrightarrow> read_request [] chunks \<noteq> None"
    by (auto simp: serve_def split: option.splits prod.splits bool.splits)
  ultimately show ?thesis using read_bounded[of "[]" chunks] assms z by blast
qed

text \<open>
  What a client gets does not depend on how the network cuts its request. A request line of less than 2 KiB that has a path
  between two spaces is answered by that path alone, whatever follows it and in whatever pieces it comes: \<^verbatim>\<open>/health\<close> with 200
  unless the server says it is unhealthy, \<^verbatim>\<open>/metrics\<close> with the page, anything else with 404. The header is complete and gives
  the length of the body.
\<close>

theorem request_is_answered_by_its_path:
  assumes "line = m @ 32 # path @ 32 # version" "32 \<notin> set m" "32 \<notin> set path" "10 \<notin> set line" "length line < kRequestMax"
    and "concat chunks = line @ 10 # rest" "\<forall>c\<in>set chunks. c \<noteq> []"
    and "(case metrics of None \<Rightarrow> True | Some page \<Rightarrow> length page < 2 ^ 63)"
  shows "\<exists>status body. serve health metrics (chunks @ later) = Some (Some (response_header status (length body) @ body)) \<and>
    (status, body) =
      (if path = lit ''/health'' then
         if health = Some False then (lit ''503 Service Unavailable'', lit ''unavailable'' @ [10]) else (lit ''200 OK'', lit ''ok'' @ [10])
       else if path = lit ''/metrics'' then (lit ''200 OK'', case metrics of None \<Rightarrow> [] | Some page \<Rightarrow> page)
       else (lit ''404 Not Found'', lit ''not found'' @ [10]))"
proof -
  have "serve health metrics (chunks @ later) = Some (answer_path health metrics path)" by (rule serve_line) fact+
  moreover have "lit ''/health'' \<noteq> lit ''/metrics''" by (simp add: lit_def)
  moreover have "answer_path health metrics path =
      Some (let (status, body) = (if path = lit ''/health'' then
         if health = Some False then (lit ''503 Service Unavailable'', lit ''unavailable'' @ [10]) else (lit ''200 OK'', lit ''ok'' @ [10])
       else if path = lit ''/metrics'' then (lit ''200 OK'', case metrics of None \<Rightarrow> [] | Some page \<Rightarrow> page)
       else (lit ''404 Not Found'', lit ''not found'' @ [10])) in response_header status (length body) @ body)"
    using assms(8)
    by (auto simp: answer_path_def health_response_def metrics_response_def response_fits split: option.splits bool.splits)
  ultimately show ?thesis by (auto simp: Let_def split: prod.splits)
qed

theorem request_is_answered_by_its_path_witness:
  "serve (Some True) None [lit ''GE'', lit ''T /health HTTP/1.0'' @ [10], lit ''x''] =
     Some (Some (response_header (lit ''200 OK'') 3 @ lit ''ok'' @ [10]))"
proof -
  have "lit ''GET /health HTTP/1.0'' = lit ''GET'' @ 32 # lit ''/health'' @ 32 # lit ''HTTP/1.0''" by (simp add: lit_def)
  from request_is_answered_by_its_path[OF this, of "[lit ''GE'', lit ''T /health HTTP/1.0'' @ [10]]" "[]" None "Some True" "[lit ''x'']"]
  show ?thesis by (simp add: lit_def kRequestMax_def numeral_3_eq_3)
qed

end
