(* ===== verification/Metrics.thy ===== *)
theory Metrics
  imports Io_Service Server Worker_Pool Admin_Server "HOL-Library.Signed_Division"
begin

text \<open>
  \<^verbatim>\<open>src/src/app/metrics.h\<close> and \<^verbatim>\<open>metrics.cpp\<close>: the page with the counters of all other components that the admin port gives to
  monitoring tools. The counters are atomics read one after the other; here they are the ones of one moment. A text that does
  not fit its buffer would make the code read past the end of it; that is \<open>None\<close>.
\<close>

section \<open>The page\<close>

text \<open>The help texts are Korean; \<open>hexs\<close> gives the bytes of their UTF-8 encoding.\<close>

definition hex_value :: "char \<Rightarrow> nat" where
  "hex_value c = (if of_char c < (58 :: nat) then of_char c - 48 else of_char c - 87)"

fun hexs :: "string \<Rightarrow> bytes" where
  "hexs (a # b # s) = word_of_nat (16 * hex_value a + hex_value b) # hexs s"
| "hexs _ = []"

definition kLineBuffer :: nat where "kLineBuffer = 512"
definition kQuantileBuffer :: nat where "kQuantileBuffer = 768"

definition append_text :: "nat \<Rightarrow> bytes \<Rightarrow> bytes option \<Rightarrow> bytes option" where
  "append_text cap text out =
     (case out of
        None \<Rightarrow> None
      | Some page \<Rightarrow>
          (case snprintf cap text of (n, buffer) \<Rightarrow>
             if n \<le> 0 then Some page else if n \<ge> int cap then None else Some (page @ take (nat n) buffer)))"

definition number :: "u64 \<Rightarrow> bytes" where
  "number v = dec (unat v)"

definition metric :: "bytes \<Rightarrow> bytes \<Rightarrow> bytes \<Rightarrow> u64 \<Rightarrow> bytes option \<Rightarrow> bytes option" where
  "metric name help kind value =
     append_text kLineBuffer
       (lit ''# HELP '' @ name @ [32] @ help @ [10] @ lit ''# TYPE '' @ name @ [32] @ kind @ [10] @ name @ [32] @ number value @ [10])"

definition counter :: "bytes \<Rightarrow> bytes \<Rightarrow> u64 \<Rightarrow> bytes option \<Rightarrow> bytes option" where
  "counter name help value = metric name help (lit ''counter'') value"

definition gauge :: "bytes \<Rightarrow> bytes \<Rightarrow> u64 \<Rightarrow> bytes option \<Rightarrow> bytes option" where
  "gauge name help value = metric name help (lit ''gauge'') value"

definition quoted :: "bytes \<Rightarrow> bytes" where
  "quoted s = 34 # s @ [34]"

definition shown :: "int \<Rightarrow> bytes" where
  "shown i = dec_int (sint (word_of_int i :: u64))"

text \<open>\<open>p99\<close> is the double next to 0.99.\<close>

definition p99 :: rat where
  "p99 = rnd (99 / 100)"

definition quantiles :: "bytes \<Rightarrow> bytes \<Rightarrow> histogram \<Rightarrow> bytes option \<Rightarrow> bytes option" where
  "quantiles name service lat =
     append_text kQuantileBuffer
       (name @ lit ''{service='' @ quoted service @ lit '',quantile='' @ quoted (lit ''0.5'') @ lit ''} '' @ shown (lat_percentile (1 / 2) lat) @ [10] @
        name @ lit ''{service='' @ quoted service @ lit '',quantile='' @ quoted (lit ''0.99'') @ lit ''} '' @ shown (lat_percentile p99 lat) @ [10] @
        name @ lit ''_samples{service='' @ quoted service @ lit ''} '' @ number (lat_count lat) @ [10])"

definition quantile_head :: "bytes \<Rightarrow> bytes \<Rightarrow> bytes option \<Rightarrow> bytes option" where
  "quantile_head name help =
     append_text kLineBuffer
       (lit ''# HELP '' @ name @ [32] @ help @ [10] @ lit ''# TYPE '' @ name @ lit '' gauge'' @ [10] @
        lit ''# HELP '' @ name @ lit ''_samples '' @ hexs ''eba788eca780eba78920eab8b0eba19d20eca3bceab8b0ec9d9820ed919cebb3b820ec8898'' @ [10] @
        lit ''# TYPE '' @ name @ lit ''_samples gauge'' @ [10])"

definition render_metrics :: "'a io_service \<Rightarrow> 'p router \<Rightarrow> worker_pool \<Rightarrow> int \<Rightarrow> u64 \<Rightarrow> bytes option" where
  "render_metrics io services db uptime_ms dropped =
     (let s = rt_stats services;
          out = Some [];
          out = gauge (lit ''echo_uptime_seconds'') (hexs ''eab8b0eb8f9920ed9b8420eab2bdeab3bc20ec8b9ceab084'') (word_of_int (uptime_ms sdiv 1000)) out;
          out = gauge (lit ''echo_connections'') (hexs ''ed9884ec9eac20eca091ec868d20ec8898'') (word_of_nat (io_count io)) out;
          out = counter (lit ''echo_connections_refused_total'') (hexs ''ec8381ed959cec979020eab1b8eba0a420eb9098eb8f8ceba6b020eca091ec868d20ec8898'') (io_refused io) out;
          out = gauge (lit ''echo_sessions'') (hexs ''ec849cebb984ec8aa4eab08020eb93a4eab3a020ec9e88eb8a9420ed95adebaaa920ec8898ec9d9820ed95a9'') (st_entries s) out;
          out = counter (lit ''echo_messages_handled_total'') (hexs ''ecb298eba6aced959c20eba994ec8b9ceca78020ec8898'') (st_handled s) out;
          out = counter (lit ''echo_messages_rejected_total'') (hexs ''ec98a4eba598eba19c20ec9d91eb8bb5ed959c20eba994ec8b9ceca78020ec8898'') (st_rejected s) out;
          out = counter (lit ''echo_inbound_overflow_total'') (hexs ''ec8898ec8ba020ed819020ec8381ed959cec979020eab1b8eba0a420eab1b0eca088ed959c20eba994ec8b9ceca78020ec8898'') (st_overflow s) out;
          out = counter (lit ''echo_messages_throttled_total'') (hexs ''ec868deb8f8420eca09ced959cec979020eab1b8eba6b020eba994ec8b9ceca78020ec8898'') (e_throttled (io_env io)) out;
          out = counter (lit ''echo_send_overflow_total'') (hexs ''ec86a1ec8ba020eb8884eca08120ec8381ed959cec979020eab1b8eba0a420eb818aec9d8020ec97b0eab2b020ec8898'') (e_send_overflow (io_env io)) out;
          out = counter (lit ''echo_flush_posts_total'') (hexs ''ebb09ced968920ed86b5eca78020ec8898'') (e_flush_posts (io_env io)) out;
          out = counter (lit ''echo_send_issues_total'') (hexs ''ec8ba4eca09c20ebb09ced96892857534153656e642920ec8898'') (e_send_issues (io_env io)) out;
          out = counter (lit ''echo_send_messages_total'') (hexs ''ebb09ced9689ec979020ec8ba4eba0a420eb8298eab08420eba994ec8b9ceca78020ec8898'') (e_send_messages (io_env io)) out;
          out = counter (lit ''echo_partial_sends_total'') (hexs ''eca084eb9f89ec9db420eb8298eab080eca78020ebaabbed95b420eb82a8ec9d8020eab5aceab084ec9d8420eb8ba4ec8b9c20ec8ba4ec9d8020ed9a9fec8898'') (e_partial_sends (io_env io)) out;
          out = counter (lit ''echo_handler_faults_total'') (hexs ''ecb298eba6ac20eca49120ec9888ec99b8eba19c20eb818aec9d8020ec97b0eab2b020ec8898'') (st_faults s) out;
          out = counter (lit ''echo_db_requests_total'') (hexs ''444220ec9a94ecb2ad20ec8898'') (st_db_requests s) out;
          out = counter (lit ''echo_db_responses_total'') (hexs ''444220ec9d91eb8bb520ec8898'') (st_db_responses s) out;
          out = counter (lit ''echo_db_failures_total'') (hexs ''ec8ba4ed8ca8eba19c20eb819deb829c20444220ec9a94ecb2ad20ec8898'') (st_db_failures s) out;
          out = counter (lit ''echo_db_expired_total'') (hexs ''eab8b0ed959cec9d8420eb8498eab2a820ec8ba4ed9689ed9598eca78020ec958aec9d8020444220ec9a94ecb2ad20ec8898'') (st_db_expired s) out;
          out = gauge (lit ''echo_db_queued'') (hexs ''444220ed8190ec979020eb82a8ec9d8020ec9a94ecb2ad20ec8898'') (word_of_int (pool_queued db)) out;
          out = gauge (lit ''echo_db_workers'') (hexs ''444220ec9b8cecbba420ec8898'') (word_of_nat (length (pl_workers db))) out;
          out = gauge (lit ''echo_db_workers_connected'') (hexs ''ecbba4eb84a5ec8598ec9db420ec82b4ec958420ec9e88eb8a9420444220ec9b8cecbba420ec8898'') (word_of_nat (pool_connected db)) out;
          out = counter (lit ''echo_broadcasts_total'') (hexs ''ebb88ceba19ceb939cecba90ec8aa4ed8ab820ed9a9fec8898'') (st_broadcasts s) out;
          out = counter (lit ''echo_broadcast_sends_total'') (hexs ''ebb88ceba19ceb939cecba90ec8aa4ed8ab8eab08020ebb680eba5b820ec86a1ec8ba020ed9a9fec8898'') (st_broadcast_sends s) out;
          out = counter (lit ''echo_service_relays_total'') (hexs ''ec849cebb984ec8aa420eab08420eca084eb8baceba19c20ebb09bec9d8020ed95adebaaa920ec8898'') (st_relay_messages s) out;
          game = sv_stats (rt_game services);
          chat = sv_stats (rt_chat services);
          out = quantile_head (lit ''echo_process_nanoseconds'') (hexs ''ed95adebaaa920ed9598eb8298eba5bc20ecb298eba6aced959c20ec8b9ceab084'') out;
          out = quantiles (lit ''echo_process_nanoseconds'') (lit ''game'') (st_process_dist game) out;
          out = quantiles (lit ''echo_process_nanoseconds'') (lit ''chat'') (st_process_dist chat) out;
          out = quantile_head (lit ''echo_queue_wait_microseconds'') (hexs ''eca081ec9eacebb680ed84b020ec868cebb984eab98ceca78020eab8b0eb8ba4eba6b020ec8b9ceab084'') out;
          out = quantiles (lit ''echo_queue_wait_microseconds'') (lit ''game'') (st_queue_dist game) out;
          out = quantiles (lit ''echo_queue_wait_microseconds'') (lit ''chat'') (st_queue_dist chat) out;
          out = quantile_head (lit ''echo_service_relay_microseconds'') (hexs ''ec849cebb984ec8aa420eab08420eca084eb8bacec979020eb93a020ec8b9ceab084'') out;
          out = quantiles (lit ''echo_service_relay_microseconds'') (lit ''game'') (st_relay_dist game) out;
          out = quantiles (lit ''echo_service_relay_microseconds'') (lit ''chat'') (st_relay_dist chat) out;
          out = quantile_head (lit ''echo_db_roundtrip_microseconds'') (hexs ''444220ec9a94ecb2ad20eca09cecb69cebb680ed84b020ec9d91eb8bb5eab98ceca780'') out;
          out = quantiles (lit ''echo_db_roundtrip_microseconds'') (lit ''game'') (st_db_round_dist game) out;
          out = quantile_head (lit ''echo_broadcast_microseconds'') (hexs ''ebb88ceba19ceb939cecba90ec8aa4ed8ab820ed959c20ebb288ec979020eb93a020ec8b9ceab084'') out;
          out = quantiles (lit ''echo_broadcast_microseconds'') (lit ''chat'') (st_broadcast_dist chat) out;
          out = counter (lit ''echo_log_dropped_total'') (hexs ''ed8190eab08020eab080eb939d20ecb0a820ebb284eba6b020eba19ceab7b820eca48420ec8898'') (dropped) out
      in out)"

section \<open>Reading the page\<close>

text \<open>How a monitoring tool reads it: by lines; those that begin with \<open>#\<close> describe, the others are a name and a value.\<close>

definition samples :: "bytes \<Rightarrow> (bytes \<times> bytes) list" where
  "samples page = map (\<lambda>l. (takeWhile (\<lambda>c. c \<noteq> 32) l, drop 1 (dropWhile (\<lambda>c. c \<noteq> 32) l)))
     (filter (\<lambda>l. l \<noteq> [] \<and> hd l \<noteq> 35) (lines_from [] page))"

definition type_mark :: bytes where
  "type_mark = lit ''# TYPE ''"

definition described :: "bytes \<Rightarrow> bytes list" where
  "described page = map (\<lambda>l. takeWhile (\<lambda>c. c \<noteq> 32) (drop 7 l)) (filter (\<lambda>l. take 7 l = type_mark) (lines_from [] page))"

definition family_name :: "bytes \<Rightarrow> bytes" where
  "family_name name = takeWhile (\<lambda>c. c \<noteq> 123) name"

text \<open>The rows of a distribution.\<close>

definition ranked :: "bytes \<Rightarrow> bytes \<Rightarrow> histogram \<Rightarrow> (bytes \<times> bytes) list" where
  "ranked name service lat =
     [(name @ lit ''{service='' @ quoted service @ lit '',quantile='' @ quoted (lit ''0.5'') @ lit ''}'', shown (lat_percentile (1 / 2) lat)),
      (name @ lit ''{service='' @ quoted service @ lit '',quantile='' @ quoted (lit ''0.99'') @ lit ''}'', shown (lat_percentile p99 lat)),
      (name @ lit ''_samples{service='' @ quoted service @ lit ''}'', number (lat_count lat))]"

text \<open>Every counter under its name.\<close>

definition rows_of :: "'a io_service \<Rightarrow> service_stats \<Rightarrow> service_stats \<Rightarrow> service_stats \<Rightarrow> worker_pool \<Rightarrow> int \<Rightarrow> u64 \<Rightarrow> (bytes \<times> bytes) list" where
  "rows_of io s game chat db uptime_ms dropped =
     [(lit ''echo_uptime_seconds'', number (word_of_int (uptime_ms sdiv 1000))),
       (lit ''echo_connections'', number (word_of_nat (io_count io))),
       (lit ''echo_connections_refused_total'', number (io_refused io)),
       (lit ''echo_sessions'', number (st_entries s)),
       (lit ''echo_messages_handled_total'', number (st_handled s)),
       (lit ''echo_messages_rejected_total'', number (st_rejected s)),
       (lit ''echo_inbound_overflow_total'', number (st_overflow s)),
       (lit ''echo_messages_throttled_total'', number (e_throttled (io_env io))),
       (lit ''echo_send_overflow_total'', number (e_send_overflow (io_env io))),
       (lit ''echo_flush_posts_total'', number (e_flush_posts (io_env io))),
       (lit ''echo_send_issues_total'', number (e_send_issues (io_env io))),
       (lit ''echo_send_messages_total'', number (e_send_messages (io_env io))),
       (lit ''echo_partial_sends_total'', number (e_partial_sends (io_env io))),
       (lit ''echo_handler_faults_total'', number (st_faults s)),
       (lit ''echo_db_requests_total'', number (st_db_requests s)),
       (lit ''echo_db_responses_total'', number (st_db_responses s)),
       (lit ''echo_db_failures_total'', number (st_db_failures s)),
       (lit ''echo_db_expired_total'', number (st_db_expired s)),
       (lit ''echo_db_queued'', number (word_of_int (pool_queued db))),
       (lit ''echo_db_workers'', number (word_of_nat (length (pl_workers db)))),
       (lit ''echo_db_workers_connected'', number (word_of_nat (pool_connected db))),
       (lit ''echo_broadcasts_total'', number (st_broadcasts s)),
       (lit ''echo_broadcast_sends_total'', number (st_broadcast_sends s)),
       (lit ''echo_service_relays_total'', number (st_relay_messages s))] @
      ranked (lit ''echo_process_nanoseconds'') (lit ''game'') (st_process_dist game) @
      ranked (lit ''echo_process_nanoseconds'') (lit ''chat'') (st_process_dist chat) @
      ranked (lit ''echo_queue_wait_microseconds'') (lit ''game'') (st_queue_dist game) @
      ranked (lit ''echo_queue_wait_microseconds'') (lit ''chat'') (st_queue_dist chat) @
      ranked (lit ''echo_service_relay_microseconds'') (lit ''game'') (st_relay_dist game) @
      ranked (lit ''echo_service_relay_microseconds'') (lit ''chat'') (st_relay_dist chat) @
      ranked (lit ''echo_db_roundtrip_microseconds'') (lit ''game'') (st_db_round_dist game) @
      ranked (lit ''echo_broadcast_microseconds'') (lit ''chat'') (st_broadcast_dist chat) @
      [(lit ''echo_log_dropped_total'', number dropped)]"

section \<open>Lines\<close>

datatype page_line = HelpLine bytes bytes | TypeLine bytes bytes | ValueLine bytes bytes

fun line_bytes :: "page_line \<Rightarrow> bytes" where
  "line_bytes (HelpLine name help) = lit ''# HELP '' @ name @ [32] @ help"
| "line_bytes (TypeLine name kind) = lit ''# TYPE '' @ name @ [32] @ kind"
| "line_bytes (ValueLine name v) = name @ [32] @ v"

definition page_bytes :: "page_line list \<Rightarrow> bytes" where
  "page_bytes ls = concat (map (\<lambda>l. line_bytes l @ [10]) ls)"

text \<open>Names without blanks that do not begin a comment.\<close>

definition plain_name :: "bytes \<Rightarrow> bool" where
  "plain_name n \<longleftrightarrow> n \<noteq> [] \<and> hd n \<noteq> 35 \<and> 10 \<notin> set n \<and> 32 \<notin> set n"

fun plain_line :: "page_line \<Rightarrow> bool" where
  "plain_line (HelpLine name help) \<longleftrightarrow> 10 \<notin> set name \<and> 10 \<notin> set help"
| "plain_line (TypeLine name kind) \<longleftrightarrow> plain_name name \<and> 10 \<notin> set kind"
| "plain_line (ValueLine name v) \<longleftrightarrow> plain_name name \<and> 10 \<notin> set v"

lemma page_bytes_simps [simp]:
  "page_bytes [] = []" "page_bytes (l # ls) = line_bytes l @ 10 # page_bytes ls" "page_bytes (ls @ ls') = page_bytes ls @ page_bytes ls'"
  by (simp_all add: page_bytes_def)

lemma lines_of_page: "list_all plain_line ls \<Longrightarrow> lines_from [] (page_bytes ls) = map line_bytes ls"
proof (induction ls)
  case (Cons l ls)
  have "10 \<notin> set (line_bytes l)" using Cons.prems by (cases l) (auto simp: plain_name_def lit_def)
  from lines_from_line[OF this, of "[]" "page_bytes ls"] Cons show ?case by simp
qed simp

fun sample_of :: "page_line \<Rightarrow> (bytes \<times> bytes) option" where
  "sample_of (ValueLine name v) = Some (name, v)"
| "sample_of _ = None"

fun typed_of :: "page_line \<Rightarrow> bytes option" where
  "typed_of (TypeLine name kind) = Some name"
| "typed_of _ = None"

lemma name_ends:
  fixes name :: bytes
  assumes "x \<notin> set name"
  shows "takeWhile (\<lambda>c. c \<noteq> x) (name @ x # v) = name" "dropWhile (\<lambda>c. c \<noteq> x) (name @ x # v) = x # v"
  using assms by (induction name) auto

lemma length_type_mark: "length type_mark = 7"
  by (simp add: type_mark_def)

lemma samples_of_page: "list_all plain_line ls \<Longrightarrow> samples (page_bytes ls) = List.map_filter sample_of ls"
proof -
  assume a: "list_all plain_line ls"
  have "map (\<lambda>l. (takeWhile (\<lambda>c. c \<noteq> 32) l, drop 1 (dropWhile (\<lambda>c. c \<noteq> 32) l)))
      (filter (\<lambda>l. l \<noteq> [] \<and> hd l \<noteq> 35) (map line_bytes ls)) = List.map_filter sample_of ls"
    using a
  proof (induction ls)
    case (Cons l ls)
    then show ?case by (cases l) (auto simp: plain_name_def lit_def map_filter_simps name_ends)
  qed (simp add: map_filter_simps)
  then show ?thesis by (simp add: samples_def lines_of_page[OF a])
qed

lemma described_of_page: "list_all plain_line ls \<Longrightarrow> described (page_bytes ls) = List.map_filter typed_of ls"
proof -
  assume a: "list_all plain_line ls"
  have "map (\<lambda>l. takeWhile (\<lambda>c. c \<noteq> 32) (drop 7 l)) (filter (\<lambda>l. take 7 l = type_mark) (map line_bytes ls)) =
      List.map_filter typed_of ls"
    using a
  proof (induction ls)
    case (Cons l ls)
    show ?case
    proof (cases l)
      case (HelpLine n h)
      then have "take 7 (line_bytes l) \<noteq> type_mark" by (simp add: lit_def type_mark_def)
      with Cons HelpLine show ?thesis by (simp add: map_filter_simps)
    next
      case (TypeLine n k)
      then have "line_bytes l = type_mark @ n @ 32 # k" by (simp add: type_mark_def)
      then have "take 7 (line_bytes l) = type_mark" "drop 7 (line_bytes l) = n @ 32 # k" by (simp_all add: length_type_mark)
      with Cons TypeLine show ?thesis by (simp add: map_filter_simps name_ends plain_name_def del: line_bytes.simps)
    next
      case (ValueLine n v)
      then have "n \<noteq> []" "hd n \<noteq> 35" using Cons.prems by (simp_all add: plain_name_def)
      then have "hd (take 7 (line_bytes l)) \<noteq> 35" using ValueLine by (cases n) simp_all
      moreover have "hd type_mark = 35" by (simp add: lit_def type_mark_def)
      ultimately have "take 7 (line_bytes l) \<noteq> type_mark" by metis
      with Cons ValueLine show ?thesis by (simp add: map_filter_simps)
    qed
  qed (simp add: map_filter_simps)
  then show ?thesis by (simp add: described_def lines_of_page[OF a])
qed

section \<open>The calls, one after the other\<close>

text \<open>What has been written so far: its rows and the names it has described.\<close>

definition page_ok :: "bytes option \<Rightarrow> (bytes \<times> bytes) list \<Rightarrow> bytes list \<Rightarrow> bool" where
  "page_ok out rows types \<longleftrightarrow>
     (\<exists>ls. out = Some (page_bytes ls) \<and> list_all plain_line ls \<and> List.map_filter sample_of ls = rows \<and> List.map_filter typed_of ls = types \<and>
        length (page_bytes ls) \<le> 1000 * (length rows + length types))"

lemma map_filter_append: "List.map_filter f (xs @ ys) = List.map_filter f xs @ List.map_filter f ys"
  by (simp add: List.map_filter_def)

lemma append_ok:
  assumes "page_ok out rows types" "text = page_bytes ls" "list_all plain_line ls" "ls \<noteq> []" "length text < cap"
    and "cap \<le> 1000" "1 \<le> length (List.map_filter sample_of ls) + length (List.map_filter typed_of ls)"
  shows "page_ok (append_text cap text out) (rows @ List.map_filter sample_of ls) (types @ List.map_filter typed_of ls)"
proof -
  obtain ls0 where l: "out = Some (page_bytes ls0)" "list_all plain_line ls0" "List.map_filter sample_of ls0 = rows"
    "List.map_filter typed_of ls0 = types" "length (page_bytes ls0) \<le> 1000 * (length rows + length types)" using assms(1) by (auto simp: page_ok_def)
  have "page_bytes ls \<noteq> []" using assms(4) by (cases ls) simp_all
  then have "append_text cap text out = Some (page_bytes (ls0 @ ls))"
    using assms(2,5) l(1) by (simp add: append_text_def snprintf_def)
  with l assms(2,3,5-7) show ?thesis unfolding page_ok_def by (intro exI[of _ "ls0 @ ls"]) (simp add: map_filter_append)
qed

lemma digits_plain: "10 \<notin> set (dec n)"
proof (induction n rule: dec.induct)
  case (1 n)
  have d: "digit k \<noteq> 10" if "k < 10" for k
  proof -
    have "unat (digit k) = 48 + k" using that by (simp add: digit_def unat_word_ariths unat_of_nat)
    then show ?thesis by auto
  qed
  show ?case
  proof (cases "n < 10")
    case True
    then show ?thesis using d[of n] by (subst dec.simps) simp
  next
    case False
    then show ?thesis using 1 d[of "n mod 10"] by (subst dec.simps) simp
  qed
qed

lemma number_plain [simp]: "10 \<notin> set (number v)"
  by (simp add: number_def digits_plain)

lemma shown_plain [simp]: "10 \<notin> set (shown i)"
  by (simp add: shown_def dec_int_def digits_plain lit_def)

lemma length_number: "length (number v) \<le> 20"
  by (simp add: number_def length_dec_u64)

lemma length_shown: "length (shown i) \<le> 20"
proof -
  let ?s = "sint (word_of_int i :: u64)"
  have "- (2 ^ 63) \<le> ?s" "?s < 2 ^ 63"
    using sint_greater_eq[of "word_of_int i :: u64"] sint_less[of "word_of_int i :: u64"] by simp_all
  then have "length (dec (nat ?s)) \<le> 19" "length (dec (nat (- ?s))) \<le> 19"
    by (auto intro!: length_dec)
  then show ?thesis by (simp add: shown_def dec_int_def)
qed

lemma length_hexs: "length (hexs s) = length s div 2"
  by (induction s rule: hexs.induct) simp_all

lemma counter_ok:
  assumes "page_ok out rows types" "plain_name name" "10 \<notin> set help" "length name \<le> 60" "length help \<le> 120"
  shows "page_ok (counter name help v out) (rows @ [(name, number v)]) (types @ [name])"
proof -
  have "page_ok (counter name help v out)
      (rows @ List.map_filter sample_of [HelpLine name help, TypeLine name (lit ''counter''), ValueLine name (number v)])
      (types @ List.map_filter typed_of [HelpLine name help, TypeLine name (lit ''counter''), ValueLine name (number v)])"
    unfolding counter_def metric_def using assms length_number[of v]
    by (intro append_ok) (auto simp: plain_name_def kLineBuffer_def lit_def map_filter_simps)
  then show ?thesis by (simp add: map_filter_simps)
qed

lemma gauge_ok:
  assumes "page_ok out rows types" "plain_name name" "10 \<notin> set help" "length name \<le> 60" "length help \<le> 120"
  shows "page_ok (gauge name help v out) (rows @ [(name, number v)]) (types @ [name])"
proof -
  have "page_ok (gauge name help v out)
      (rows @ List.map_filter sample_of [HelpLine name help, TypeLine name (lit ''gauge''), ValueLine name (number v)])
      (types @ List.map_filter typed_of [HelpLine name help, TypeLine name (lit ''gauge''), ValueLine name (number v)])"
    unfolding gauge_def metric_def using assms length_number[of v]
    by (intro append_ok) (auto simp: plain_name_def kLineBuffer_def lit_def map_filter_simps)
  then show ?thesis by (simp add: map_filter_simps)
qed

text \<open>Names and help texts of the code.\<close>

lemma of_char_byte: "(of_char c :: byte) = of_char d \<longleftrightarrow> c = d"
proof
  assume "(of_char c :: byte) = of_char d"
  then have "unat (of_nat (of_char c) :: byte) = unat (of_nat (of_char d) :: byte)" by (simp only: of_nat_of_char)
  moreover have "of_char c < (256 :: nat)" "of_char d < (256 :: nat)" by (rule nat_of_char_less_256)+
  ultimately have "(of_char c :: nat) = of_char d" by (simp only: unat_of_nat take_bit_eq_mod) simp
  then show "c = d" by simp
qed simp

lemma set_lit: "of_char c \<in> set (lit s) \<longleftrightarrow> c \<in> set s"
  by (auto simp: lit_def of_char_byte)

lemma lit_eq: "lit s = lit t \<longleftrightarrow> s = t"
  by (auto simp: lit_def inj_map_eq_map inj_def of_char_byte)

lemma plain_name_lit:
  "plain_name (lit s) \<longleftrightarrow> s \<noteq> [] \<and> hd s \<noteq> CHR ''#'' \<and> CHR 0x0A \<notin> set s \<and> CHR '' '' \<notin> set s"
  using set_lit[of "CHR 0x0A" s] set_lit[of "CHR '' ''" s] of_char_byte[of "hd s" "CHR ''#''"]
  by (cases s) (simp_all add: plain_name_def lit_def)

lemma quantiles_ok:
  assumes "page_ok out rows types" "plain_name name" "plain_name service" "length name \<le> 60" "length service \<le> 20"
  shows "page_ok (quantiles name service d out) (rows @ ranked name service d) types"
proof -
  let ?ls = "map (\<lambda>(n, v). ValueLine n v) (ranked name service d)"
  have "page_ok (quantiles name service d out) (rows @ List.map_filter sample_of ?ls) (types @ List.map_filter typed_of ?ls)"
    unfolding quantiles_def using assms length_number[of "lat_count d"] length_shown[of "lat_percentile (1 / 2) d"] length_shown[of "lat_percentile p99 d"]
    by (intro append_ok) (auto simp: plain_name_def kQuantileBuffer_def lit_def map_filter_simps ranked_def quoted_def)
  then show ?thesis by (simp add: map_filter_simps ranked_def)
qed

lemma quantile_head_ok:
  assumes "page_ok out rows types" "plain_name name" "10 \<notin> set help" "length name \<le> 60" "length help \<le> 120"
  shows "page_ok (quantile_head name help out) rows (types @ [name, name @ lit ''_samples''])"
proof -
  define help2 where "help2 = hexs ''eba788eca780eba78920eab8b0eba19d20eca3bceab8b0ec9d9820ed919cebb3b820ec8898''"
  have h: "10 \<notin> set help2" "length help2 \<le> 50" by (simp_all add: help2_def hex_value_def)
  let ?ls = "[HelpLine name help, TypeLine name (lit ''gauge''), HelpLine (name @ lit ''_samples'') help2,
    TypeLine (name @ lit ''_samples'') (lit ''gauge'')]"
  have "page_ok (quantile_head name help out) (rows @ List.map_filter sample_of ?ls) (types @ List.map_filter typed_of ?ls)"
    unfolding quantile_head_def help2_def[symmetric] using assms h
    by (intro append_ok) (auto simp: plain_name_def kLineBuffer_def lit_def map_filter_simps)
  then show ?thesis by (simp add: map_filter_simps)
qed

section \<open>Properties\<close>

lemma help_simps: "hexs [] = []" "hexs (a # b # s) = word_of_nat (16 * hex_value a + hex_value b) # hexs s"
  by simp_all

lemma family_of_lit: "CHR ''{'' \<notin> set s \<Longrightarrow> family_name (lit s) = lit s"
  using set_lit[of "CHR ''{''" s] by (auto simp: family_name_def)

lemma family_of_ranked:
  assumes "123 \<notin> set name"
  shows "map (\<lambda>r. family_name (fst r)) (ranked name service d) = [name, name, name @ lit ''_samples'']"
proof -
  have "123 \<notin> set (lit ''_samples'')" using set_lit[of "CHR ''{''" "''_samples''"] by simp
  then have s: "123 \<notin> set (name @ lit ''_samples'')" using assms by simp
  have l: "lit ''{service='' = 123 # lit ''service=''" "lit ''_samples{service='' = lit ''_samples'' @ 123 # lit ''service=''"
    by (simp_all add: lit_def)
  show ?thesis using name_ends(1)[OF assms] name_ends(1)[OF s] by (simp add: ranked_def family_name_def l)
qed

lemma page_ok_eq: "page_ok out rows types \<Longrightarrow> rows = rows' \<Longrightarrow> types = types' \<Longrightarrow> page_ok out rows' types'"
  by simp

lemma lit_append: "lit s @ lit t = lit (s @ t)"
  by (simp add: lit_def)

lemma lit_brace: "123 \<notin> set (lit s) \<longleftrightarrow> CHR ''{'' \<notin> set s"
  using set_lit[of "CHR ''{''" s] by simp

lemma page_start: "page_ok (Some []) [] []"
  by (auto simp: page_ok_def map_filter_simps intro: exI[of _ "[]"])

definition described_names :: "bytes list" where
  "described_names = [lit ''echo_uptime_seconds'',
      lit ''echo_connections'',
      lit ''echo_connections_refused_total'',
      lit ''echo_sessions'',
      lit ''echo_messages_handled_total'',
      lit ''echo_messages_rejected_total'',
      lit ''echo_inbound_overflow_total'',
      lit ''echo_messages_throttled_total'',
      lit ''echo_send_overflow_total'',
      lit ''echo_flush_posts_total'',
      lit ''echo_send_issues_total'',
      lit ''echo_send_messages_total'',
      lit ''echo_partial_sends_total'',
      lit ''echo_handler_faults_total'',
      lit ''echo_db_requests_total'',
      lit ''echo_db_responses_total'',
      lit ''echo_db_failures_total'',
      lit ''echo_db_expired_total'',
      lit ''echo_db_queued'',
      lit ''echo_db_workers'',
      lit ''echo_db_workers_connected'',
      lit ''echo_broadcasts_total'',
      lit ''echo_broadcast_sends_total'',
      lit ''echo_service_relays_total'',
      lit ''echo_process_nanoseconds'',
      lit ''echo_process_nanoseconds'' @ lit ''_samples'',
      lit ''echo_queue_wait_microseconds'',
      lit ''echo_queue_wait_microseconds'' @ lit ''_samples'',
      lit ''echo_service_relay_microseconds'',
      lit ''echo_service_relay_microseconds'' @ lit ''_samples'',
      lit ''echo_db_roundtrip_microseconds'',
      lit ''echo_db_roundtrip_microseconds'' @ lit ''_samples'',
      lit ''echo_broadcast_microseconds'',
      lit ''echo_broadcast_microseconds'' @ lit ''_samples'',
      lit ''echo_log_dropped_total'']"

lemma render_ok:
  "page_ok (render_metrics io services db uptime_ms dropped)
     (rows_of io (rt_stats services) (sv_stats (rt_game services)) (sv_stats (rt_chat services)) db uptime_ms dropped) described_names"
  unfolding render_metrics_def Let_def
  by (rule page_ok_eq, (rule counter_ok gauge_ok quantiles_ok quantile_head_ok page_start)+)
    (simp_all add: plain_name_lit length_hexs hex_value_def rows_of_def described_names_def)

lemma described_distinct: "distinct described_names"
  by (simp add: described_names_def lit_eq lit_append)

lemma families: "set (map (\<lambda>r. family_name (fst r)) (rows_of io s game chat db uptime_ms dropped)) \<subseteq> set described_names"
  by (simp add: rows_of_def described_names_def family_of_lit family_of_ranked lit_brace)

lemma rows_and_names: "length (rows_of io s game chat db uptime_ms dropped) = 49" "length described_names = 35"
  by (simp_all add: rows_of_def ranked_def described_names_def)

text \<open>
  C24: a monitoring tool that asks the admin port for \<^verbatim>\<open>/metrics\<close> reads every counter of the server. However its request is cut, it
  gets one complete answer, whose length is right; no text has been cut at the end of its buffer; read line by line, the page
  gives each counter of the components exactly once under its name; each name has been described exactly once, and none is
  missing a description.
\<close>

theorem monitoring_reads_every_counter:
  assumes "concat chunks = lit ''GET /metrics HTTP/1.1'' @ [13, 10] @ rest" "[] \<notin> set chunks"
  shows "\<exists>page. render_metrics io services db uptime_ms dropped = Some page \<and>
    serve health (Some page) (chunks @ later) = Some (Some (response_header (lit ''200 OK'') (length page) @ page)) \<and>
    samples page = rows_of io (rt_stats services) (sv_stats (rt_game services)) (sv_stats (rt_chat services)) db uptime_ms dropped \<and>
    distinct (described page) \<and>
    set (map (\<lambda>r. family_name (fst r)) (samples page)) \<subseteq> set (described page)"
proof -
  let ?rows = "rows_of io (rt_stats services) (sv_stats (rt_game services)) (sv_stats (rt_chat services)) db uptime_ms dropped"
  obtain ls where l: "render_metrics io services db uptime_ms dropped = Some (page_bytes ls)" "list_all plain_line ls"
    "List.map_filter sample_of ls = ?rows" "List.map_filter typed_of ls = described_names"
    "length (page_bytes ls) \<le> 1000 * (length ?rows + length described_names)"
    using render_ok[of io services db uptime_ms dropped] unfolding page_ok_def by blast
  let ?line = "lit ''GET'' @ 32 # lit ''/metrics'' @ 32 # (lit ''HTTP/1.1'' @ [13])"
  have "serve health (Some (page_bytes ls)) (chunks @ later) = Some (answer_path health (Some (page_bytes ls)) (lit ''/metrics''))"
    by (rule serve_line[of ?line "lit ''GET''" _ "lit ''HTTP/1.1'' @ [13]" chunks rest]) (use assms in \<open>auto simp: lit_def kRequestMax_def\<close>)
  moreover have "length (page_bytes ls) < 2 ^ 63" using l(5) by (simp add: rows_and_names)
  then have "answer_path health (Some (page_bytes ls)) (lit ''/metrics'') =
      Some (response_header (lit ''200 OK'') (length (page_bytes ls)) @ page_bytes ls)"
    by (simp add: answer_path_def metrics_response_def response_fits lit_eq)
  ultimately show ?thesis
    using l families[of io "rt_stats services"] described_distinct by (simp add: samples_of_page described_of_page)
qed

abbreviation demo_services :: "unit router" where
  "demo_services \<equiv> sa_router demo_app"

theorem monitoring_reads_every_counter_witness:
  "\<exists>page. render_metrics (io_new ()) demo_services pool_new 61000 3 = Some page \<and>
     (lit ''echo_uptime_seconds'', lit ''61'') \<in> set (samples page)"
proof -
  let ?c = "[lit ''GET /met'', lit ''rics HTTP/1.1'' @ [13, 10]]"
  have "concat ?c = lit ''GET /metrics HTTP/1.1'' @ [13, 10] @ []" "[] \<notin> set ?c" by (simp_all add: lit_def)
  from monitoring_reads_every_counter[OF this, of "io_new ()" demo_services pool_new 61000 3]
  obtain page where p: "render_metrics (io_new ()) demo_services pool_new 61000 3 = Some page"
    "samples page = rows_of (io_new ()) (rt_stats demo_services) (sv_stats (rt_game demo_services)) (sv_stats (rt_chat demo_services)) pool_new 61000 3"
    by blast
  have "number (word_of_int (61000 sdiv 1000)) = lit ''61''" by (simp add: number_def dec.simps digit_def lit_def signed_divide_int_def)
  with p show ?thesis by (simp add: rows_of_def)
qed

end
