(* ===== verification/Server_Config.thy ===== *)
theory Server_Config
  imports Ini_Reader Service_Router Io_Service Worker_Pool Metrics
begin

text \<open>
  The first part of \<^verbatim>\<open>src/src/main.cpp\<close>: the arguments of the command line, the configuration file and the options that are made from
  them. \<^verbatim>\<open>argv\<close> is the list of arguments, the file system a function from paths to contents.
\<close>

section \<open>Arguments and numbers\<close>

definition arg_value :: "bytes list \<Rightarrow> bytes \<Rightarrow> bytes option" where
  "arg_value argv name =
     (case find (\<lambda>i. argv ! i = name) [1..<length argv - 1] of None \<Rightarrow> None | Some i \<Rightarrow> Some (argv ! (i + 1)))"

text \<open>\<^verbatim>\<open>atoi\<close> of the library of Windows: 0 without digits, cut to the range of \<^verbatim>\<open>int\<close>.\<close>

definition atoi :: "bytes \<Rightarrow> int" where
  "atoi s =
     (let s = dropWhile (\<lambda>c. c = 32 \<or> 9 \<le> c \<and> c \<le> 13) s;
          minus = (s \<noteq> [] \<and> hd s = 45);
          s = (if s \<noteq> [] \<and> (hd s = 45 \<or> hd s = 43) then tl s else s);
          v = digits_value (takeWhile is_digit s);
          v = (if minus then - v else v)
      in max (- (2 ^ 31)) (min (2 ^ 31 - 1) v))"

definition to_u16 :: "int \<Rightarrow> u16" where
  "to_u16 i = word_of_int i"

definition to_u32 :: "int \<Rightarrow> u32" where
  "to_u32 i = word_of_int i"

text \<open>The product of two \<^verbatim>\<open>int\<close>s, which wraps.\<close>

definition int_times :: "int \<Rightarrow> int \<Rightarrow> int" where
  "int_times a b = sint (word_of_int (a * b) :: u32)"

section \<open>Options\<close>

record server_config =
  sc_log_max_bytes :: int
  sc_log_keep :: int
  sc_db :: connection_config
  sc_db_workers :: int
  sc_db_dispatch :: dispatch_kind
  sc_db_batch_size :: int
  sc_drain_ms :: int
  sc_admin_port :: u16
  sc_admin_required :: bool
  sc_port :: u16
  sc_io :: io_options
  sc_services :: router_options

definition read_db :: "ini_reader \<Rightarrow> connection_config" where
  "read_db ini =
     \<lparr>cf_host = ini_get (lit ''mysql'') (lit ''host'') (lit ''127.0.0.1'') ini,
      cf_port = to_u32 (ini_get_int (lit ''mysql'') (lit ''port'') 3306 ini),
      cf_user = ini_get (lit ''mysql'') (lit ''user'') (lit ''echo'') ini,
      cf_password = ini_get (lit ''mysql'') (lit ''password'') [] ini,
      cf_schema = ini_get (lit ''mysql'') (lit ''schema'') (lit ''echodb'') ini,
      cf_timeout_ms = to_u32 (ini_get_int (lit ''mysql'') (lit ''timeout_ms'') 5000 ini),
      cf_use_procedures = (ini_get_int (lit ''mysql'') (lit ''use_procedures'') 0 ini \<noteq> 0)\<rparr>"

definition read_port :: "bytes list \<Rightarrow> bytes \<Rightarrow> int \<Rightarrow> u16" where
  "read_port argv name configured =
     (case arg_value argv name of None \<Rightarrow> to_u16 configured | Some a \<Rightarrow> to_u16 (atoi a))"

definition read_io :: "ini_reader \<Rightarrow> io_options" where
  "read_io ini =
     \<lparr>op_worker_count = ini_get_int (lit ''server'') (lit ''io_worker_count'') 0 ini,
      op_heartbeat_timeout_ms = ini_get_int (lit ''server'') (lit ''heartbeat_timeout_ms'') 30000 ini,
      op_sweep_interval_ms = 1000,
      op_max_connections = ini_get_int (lit ''server'') (lit ''max_connections'') 8192 ini,
      op_message_rate_limit = ini_get_int (lit ''server'') (lit ''message_rate_limit'') 0 ini,
      op_message_burst = ini_get_int (lit ''server'') (lit ''message_burst'') 0 ini,
      op_send_buffer_limit = int_times (ini_get_int (lit ''server'') (lit ''send_buffer_limit_kb'') 256 ini) 1024,
      op_direct_send = (ini_get (lit ''server'') (lit ''send_mode'') (lit ''notify'') ini = lit ''direct'')\<rparr>"

definition read_services :: "ini_reader \<Rightarrow> router_options" where
  "read_services ini =
     \<lparr>ro_game_lane_count = ini_get_int (lit ''server'') (lit ''game_lane_count'') 0 ini,
      ro_stats_interval_ms = 5000,
      ro_inbound_queue_cap = ini_get_int (lit ''server'') (lit ''inbound_queue_cap'') 8192 ini,
      ro_db_request_timeout_ms = ini_get_int (lit ''mysql'') (lit ''request_timeout_ms'') 3000 ini,
      ro_overflow_policy = parse_policy (ini_get (lit ''server'') (lit ''inbound_full_policy'') (lit ''reject'') ini),
      ro_session_guard = parse_guard (ini_get (lit ''server'') (lit ''session_table_guard'') (lit ''owner'') ini)\<rparr>"

definition read_config :: "bytes list \<Rightarrow> ini_reader \<Rightarrow> server_config" where
  "read_config argv ini =
     \<lparr>sc_log_max_bytes = ini_get_int (lit ''log'') (lit ''max_mb'') 64 ini * 1024 * 1024,
      sc_log_keep = ini_get_int (lit ''log'') (lit ''keep_files'') 10 ini,
      sc_db = read_db ini,
      sc_db_workers = ini_get_int (lit ''mysql'') (lit ''worker_count'') 4 ini,
      sc_db_dispatch = parse_dispatch (ini_get (lit ''mysql'') (lit ''dispatch'') (lit ''static'') ini),
      sc_db_batch_size = ini_get_int (lit ''mysql'') (lit ''batch_size'') 1 ini,
      sc_drain_ms = ini_get_int (lit ''server'') (lit ''shutdown_drain_ms'') 5000 ini,
      sc_admin_port = read_port argv (lit ''--admin-port'') (ini_get_int (lit ''server'') (lit ''admin_port'') 9100 ini),
      sc_admin_required = (ini_get_int (lit ''server'') (lit ''admin_port_required'') 0 ini \<noteq> 0),
      sc_port = read_port argv (lit ''--port'') (ini_get_int (lit ''server'') (lit ''listen_port'') 9000 ini),
      sc_io = read_io ini,
      sc_services = read_services ini\<rparr>"

definition configure :: "(bytes \<Rightarrow> bytes option) \<Rightarrow> bytes list \<Rightarrow> bool \<times> server_config" where
  "configure files argv =
     (let path = (case arg_value argv (lit ''--config'') of None \<Rightarrow> lit ''config/db.ini'' | Some p \<Rightarrow> p);
          (loaded, ini) = ini_load path (files path) ini_new
      in (loaded, read_config argv ini))"

section \<open>Lookups in a file with sections\<close>

text \<open>The key of a section is found only among the lines of sections with that name.\<close>

definition section_values :: "bytes \<Rightarrow> ini_file \<Rightarrow> (bytes \<times> bytes) list" where
  "section_values sect cfg = concat (map snd (filter (\<lambda>p. fst p = sect) cfg))"

lemma ini_key_eq:
  assumes "46 \<notin> set sect" "46 \<notin> set sect'"
  shows "ini_key sect k = ini_key sect' k' \<longleftrightarrow> sect = sect' \<and> k = k'"
proof
  assume "ini_key sect k = ini_key sect' k'"
  then have e: "sect @ 46 # k = sect' @ 46 # k'" by (simp add: ini_key_def lit_def)
  have "takeWhile (\<lambda>c. c \<noteq> 46) (sect @ 46 # k) = sect" "takeWhile (\<lambda>c. c \<noteq> 46) (sect' @ 46 # k') = sect'"
    using name_ends(1)[OF assms(1)] name_ends(1)[OF assms(2)] by simp_all
  with e show "sect = sect' \<and> k = k'" by simp
qed simp

lemma map_of_section:
  assumes "46 \<notin> set sect" "\<forall>p\<in>set cfg. 46 \<notin> set (fst p)"
  shows "map_of (rev (settings cfg)) (ini_key sect k) = map_of (rev (section_values sect cfg)) k"
  using assms(2)
proof (induction cfg)
  case (Cons p cfg)
  obtain s kvs where p: "p = (s, kvs)" by fastforce
  have s: "46 \<notin> set s" using Cons.prems by (simp add: p)
  have "map_of (rev (map (\<lambda>(k, v). (ini_key s k, v)) kvs)) (ini_key sect k) = (if s = sect then map_of (rev kvs) k else None)"
  proof -
    have "map_of (map (\<lambda>(k, v). (ini_key s k, v)) xs) (ini_key sect k) = (if s = sect then map_of xs k else None)" for xs
      using ini_key_eq[OF assms(1) s] by (induction xs) auto
    then show ?thesis by (simp only: rev_map)
  qed
  note here = this
  have ih: "map_of (rev (settings cfg)) (ini_key sect k) = map_of (rev (section_values sect cfg)) k" using Cons by simp
  have "map_of (rev (settings (p # cfg))) (ini_key sect k) =
      (map_of (rev (map (\<lambda>(k, v). (ini_key s k, v)) kvs)) ++ map_of (rev (settings cfg))) (ini_key sect k)"
    by (simp add: settings_def p)
  also have "\<dots> = (if s = sect then (map_of (rev kvs) ++ map_of (rev (section_values sect cfg))) k
      else map_of (rev (section_values sect cfg)) k)"
    by (simp only: map_add_def here ih) (simp split: option.split)
  also have "\<dots> = map_of (rev (section_values sect (p # cfg))) k" by (simp add: section_values_def p)
  finally show ?case .
qed (simp add: settings_def section_values_def)

lemma loaded_values:
  assumes "plain_file cfg" "ini_load path (Some (bom b @ print_ini nl cfg)) ini_new = (ok, r)"
    and "46 \<notin> set sect" "\<forall>p\<in>set cfg. 46 \<notin> set (fst p)"
  shows "map_of (ini_values r) (ini_key sect k) = map_of (rev (section_values sect cfg)) k"
proof -
  have "ini_values r = fold (\<lambda>(k, v). AList.update k v) (settings cfg) []"
    using assms(2) ini_lines_print[OF assms(1), of b nl "[]"] by (auto simp: ini_load_def ini_new_def)
  then have "map_of (ini_values r) = map_of (rev (settings cfg))" using map_of_updates[of "settings cfg" "[]"] by simp
  then show ?thesis using map_of_section[OF assms(3,4)] by simp
qed

section \<open>Properties\<close>

text \<open>
  A setting counts only in its own section. Whatever a configuration file of sections holds, the five settings of the server for
  sending, the admin port, the session table and the full queue are what the lines of the sections called \<^verbatim>\<open>server\<close> say, and
  their defaults otherwise. The sample \<^verbatim>\<open>config/db.ini.sample\<close> has all five below its section \<^verbatim>\<open>log\<close>, where they do nothing.
\<close>

theorem settings_count_only_in_their_section:
  assumes "plain_file cfg" "\<forall>p\<in>set cfg. 46 \<notin> set (fst p)"
    and "arg_value argv (lit ''--config'') = None" "files (lit ''config/db.ini'') = Some (bom b @ print_ini nl cfg)"
    and "configure files argv = (loaded, c)" "v = map_of (rev (section_values (lit ''server'') cfg))"
  shows "loaded \<and>
    (op_direct_send (sc_io c) \<longleftrightarrow> v (lit ''send_mode'') = Some (lit ''direct'')) \<and>
    (sc_admin_required c \<longleftrightarrow> (\<exists>s i. v (lit ''admin_port_required'') = Some s \<and> stoi s = Some i \<and> i \<noteq> 0)) \<and>
    (ro_session_guard (sc_services c) = Mutex \<longleftrightarrow> v (lit ''session_table_guard'') = Some (lit ''mutex'')) \<and>
    (ro_overflow_policy (sc_services c) = Backpressure \<longleftrightarrow> v (lit ''inbound_full_policy'') = Some (lit ''backpressure'')) \<and>
    ro_inbound_queue_cap (sc_services c) =
      (case v (lit ''inbound_queue_cap'') of None \<Rightarrow> 8192 | Some s \<Rightarrow> (case stoi s of None \<Rightarrow> 8192 | Some i \<Rightarrow> i))"
proof -
  obtain ok r where r: "ini_load (lit ''config/db.ini'') (Some (bom b @ print_ini nl cfg)) ini_new = (ok, r)" by fastforce
  have "46 \<notin> set (lit ''server'')" using set_lit[of "CHR ''.''" "''server''"] by simp
  from loaded_values[OF assms(1) r this assms(2)]
  have v: "map_of (ini_values r) (ini_key (lit ''server'') k) = v k" for k by (simp add: assms(6))
  have c: "loaded = ok" "c = read_config argv r" using assms(3-5) r by (auto simp: configure_def Let_def)
  have "ok" using r by (simp add: ini_load_def)
  then show ?thesis
    by (auto simp: c read_config_def read_io_def read_services_def ini_get_def ini_get_int_def v lit_eq parse_guard_def parse_policy_def
        split: option.splits)
qed

text \<open>The layout of the sample.\<close>

abbreviation sample_file :: ini_file where
  "sample_file \<equiv>
     [(lit ''server'', [(lit ''listen_port'', lit ''9000''), (lit ''admin_port'', lit ''9100'')]),
      (lit ''log'', [(lit ''max_mb'', lit ''64''), (lit ''send_mode'', lit ''direct''), (lit ''session_table_guard'', lit ''mutex''),
        (lit ''inbound_full_policy'', lit ''backpressure'')])]"

theorem settings_count_only_in_their_section_witness:
  "let c = snd (configure (\<lambda>_. Some (bom False @ print_ini True sample_file)) [lit ''echo_server'', lit ''--port'', lit ''9000''])
   in \<not> op_direct_send (sc_io c) \<and> ro_session_guard (sc_services c) \<noteq> Mutex \<and> ro_overflow_policy (sc_services c) \<noteq> Backpressure"
proof -
  let ?f = "\<lambda>_. Some (bom False @ print_ini True sample_file)" and ?a = "[lit ''echo_server'', lit ''--port'', lit ''9000'']"
  have p: "plain_file sample_file" by (simp add: plain_file_def plain_key_def plain_def trim_def is_blank_def lit_def)
  have d: "\<forall>p\<in>set sample_file. 46 \<notin> set (fst p)" by (simp add: lit_def)
  have a: "arg_value ?a (lit ''--config'') = None" by (simp add: arg_value_def lit_eq)
  obtain l c where c: "configure ?f ?a = (l, c)" by fastforce
  from settings_count_only_in_their_section[OF p d a refl c refl] c show ?thesis
    by (simp add: section_values_def lit_eq Let_def)
qed

text \<open>
  A setting that is out of range can switch off what it should set. A send limit of 2 GiB to 4 GiB makes the product with 1024 wrap
  below zero, which every connection takes for no limit; an admin port that is a multiple of 65536 becomes port 0, for which
  the admin port reports success without listening, so that even \<^verbatim>\<open>admin_port_required\<close> lets the server start.
\<close>

theorem out_of_range_settings_switch_off:
  assumes "map_of (ini_values ini) (ini_key (lit ''server'') (lit ''send_buffer_limit_kb'')) = Some s" "stoi s = Some kb"
    and "2 ^ 21 \<le> kb" "kb < 2 ^ 22"
    and "map_of (ini_values ini) (ini_key (lit ''server'') (lit ''admin_port'')) = Some p" "stoi p = Some port" "65536 dvd port"
    and "arg_value argv (lit ''--admin-port'') = None" "c = read_config argv ini"
  shows "op_send_buffer_limit (sc_io c) < 0 \<and>
    c_send_limit (conn_configure rate burst (op_send_buffer_limit (sc_io c)) direct conn) = 0 \<and>
    admin_start m1 m2 m3 (sc_admin_port c) admin_new = (True, admin_new)"
proof -
  have m: "int_times kb 1024 = kb * 1024 - 2 ^ 32"
  proof -
    have "(word_of_int (2 ^ 32) :: u32) = 0" by simp
    then have eq: "(word_of_int (kb * 1024 - 2 ^ 32) :: u32) = word_of_int (kb * 1024)"
      by (simp only: wi_hom_sub[symmetric] diff_zero)
    have "sint (word_of_int x :: u32) = x" if "- (2 ^ 31) \<le> x" "x < 2 ^ 31" for x
      using that by (simp add: signed_of_int signed_take_bit_int_eq_self)
    note this[of "kb * 1024 - 2 ^ 32"]
    then show ?thesis using assms(3,4) unfolding int_times_def eq by simp
  qed
  have "to_u16 port = 0" using assms(7) by (auto simp: to_u16_def word_of_int_eq_0_iff)
  then have "sc_admin_port c = 0"
    using assms(5,6,8,9) by (simp add: read_config_def read_port_def ini_get_int_def)
  moreover have "op_send_buffer_limit (sc_io c) = kb * 1024 - 2 ^ 32"
    using assms(1,2,9) m by (simp add: read_config_def read_io_def ini_get_int_def)
  ultimately show ?thesis using assms(4) by (simp add: conn_configure_def admin_start_def)
qed

abbreviation wide_ini :: ini_reader where
  "wide_ini \<equiv> \<lparr>ini_values = [(ini_key (lit ''server'') (lit ''send_buffer_limit_kb''), lit ''2097152''),
     (ini_key (lit ''server'') (lit ''admin_port''), lit ''65536'')], ini_error = []\<rparr>"

theorem out_of_range_settings_switch_off_witness:
  "let c = read_config [] wide_ini
   in op_send_buffer_limit (sc_io c) < 0 \<and> admin_start True True True (sc_admin_port c) admin_new = (True, admin_new)"
proof -
  have k: "ini_key (lit ''server'') (lit ''send_buffer_limit_kb'') \<noteq> ini_key (lit ''server'') (lit ''admin_port'')"
    by (simp add: ini_key_def lit_eq)
  have m: "map_of (ini_values wide_ini) (ini_key (lit ''server'') (lit ''send_buffer_limit_kb'')) = Some (lit ''2097152'')"
    "map_of (ini_values wide_ini) (ini_key (lit ''server'') (lit ''admin_port'')) = Some (lit ''65536'')"
    using k by simp_all
  have n: "stoi (lit ''2097152'') = Some 2097152" "stoi (lit ''65536'') = Some 65536"
    by (simp_all add: stoi_def lit_def is_digit_def digits_value_def Let_def word_le_nat_alt)
  have a: "arg_value [] (lit ''--admin-port'') = None" by (simp add: arg_value_def)
  from out_of_range_settings_switch_off[OF m(1) n(1) _ _ m(2) n(2) _ a refl] show ?thesis by (simp add: Let_def)
qed

end
