(* ===== verification/Socket_Ledger.thy ===== *)
theory Socket_Ledger
  imports Prelude "HOL-Library.Multiset"
begin

text \<open>
  The sockets the acceptor and the connector make: each is a number, and the ledger says what has become of it. \<^verbatim>\<open>INVALID_SOCKET\<close> is
  \<open>None\<close>. Nothing of this theory is in the code; it is what \<^verbatim>\<open>WSASocketW\<close> and \<^verbatim>\<open>closesocket\<close> do.
\<close>

record ledger =
  sk_made :: nat
  sk_closed :: "nat list"
  sk_given :: "nat list"

definition ledger_new :: ledger where
  "ledger_new = \<lparr>sk_made = 0, sk_closed = [], sk_given = []\<rparr>"

definition make_socket :: "bool \<Rightarrow> ledger \<Rightarrow> nat option \<times> ledger" where
  "make_socket ok l = (if ok then (Some (sk_made l), l\<lparr>sk_made := Suc (sk_made l)\<rparr>) else (None, l))"

definition close_socket :: "nat option \<Rightarrow> ledger \<Rightarrow> ledger" where
  "close_socket s l = (case s of None \<Rightarrow> l | Some n \<Rightarrow> l\<lparr>sk_closed := n # sk_closed l\<rparr>)"

definition give_socket :: "nat option \<Rightarrow> ledger \<Rightarrow> ledger" where
  "give_socket s l = (case s of None \<Rightarrow> l | Some n \<Rightarrow> l\<lparr>sk_given := n # sk_given l\<rparr>)"

text \<open>Every socket that has been made is held, closed or given away, and only one of these, once.\<close>

definition holds :: "nat option \<Rightarrow> nat multiset" where
  "holds s = (case s of None \<Rightarrow> {#} | Some n \<Rightarrow> {#n#})"

definition accounted :: "ledger \<Rightarrow> nat multiset \<Rightarrow> bool" where
  "accounted l held \<longleftrightarrow> mset [0..<sk_made l] = held + mset (sk_closed l) + mset (sk_given l)"

lemma holds_simps [simp]: "holds None = {#}" "holds (Some n) = {#n#}"
  by (simp_all add: holds_def)

lemma accounted_new: "accounted ledger_new {#}"
  by (simp add: accounted_def ledger_new_def)

lemma accounted_make: "accounted l held \<Longrightarrow> make_socket ok l = (s, l') \<Longrightarrow> accounted l' (held + holds s)"
  by (auto simp: accounted_def make_socket_def simp del: mset_upt split: if_splits)

lemma accounted_close: "accounted l (held + holds s) \<Longrightarrow> accounted (close_socket s l) held"
  by (auto simp: accounted_def close_socket_def split: option.splits)

lemma accounted_give: "accounted l (held + holds s) \<Longrightarrow> accounted (give_socket s l) held"
  by (auto simp: accounted_def give_socket_def split: option.splits)

text \<open>So none is closed twice, none is used after it has been closed, and none is forgotten.\<close>

lemma accounted_distinct:
  assumes "accounted l held"
  shows "distinct (sk_closed l)" "distinct (sk_given l)" "set (sk_closed l) \<inter> set (sk_given l) = {}"
    "set_mset held \<inter> (set (sk_closed l) \<union> set (sk_given l)) = {}"
    "set_mset held \<union> set (sk_closed l) \<union> set (sk_given l) = {..<sk_made l}"
proof -
  obtain hs where hs: "mset hs = held" using ex_mset by blast
  then have m: "mset [0..<sk_made l] = mset (hs @ sk_closed l @ sk_given l)" using assms by (simp add: accounted_def del: mset_upt)
  from mset_eq_imp_distinct_iff[OF m] have "distinct (hs @ sk_closed l @ sk_given l)" by simp
  moreover have "set [0..<sk_made l] = set (hs @ sk_closed l @ sk_given l)" using m by (rule mset_eq_setD)
  moreover have "set_mset held = set hs" using hs by auto
  ultimately show "distinct (sk_closed l)" "distinct (sk_given l)" "set (sk_closed l) \<inter> set (sk_given l) = {}"
    "set_mset held \<inter> (set (sk_closed l) \<union> set (sk_given l)) = {}"
    "set_mset held \<union> set (sk_closed l) \<union> set (sk_given l) = {..<sk_made l}"
    by auto
qed

end
