(* ===== verification/Acceptor.thy ===== *)
theory Acceptor
  imports Socket_Ledger
begin

text \<open>
  \<^verbatim>\<open>src/src/net/acceptor.h\<close> and \<^verbatim>\<open>acceptor.cpp\<close>: the listening socket and the accept requests that are kept in the kernel. Which calls
  of the system succeed is given from outside; \<open>ao_armed\<close>, whether the request of an operation is in the kernel, is not in
  the code. What the server does with a connection is the argument of \<^verbatim>\<open>adopt\<close>; here its socket is given away.
\<close>

definition kBacklogOps :: nat where "kBacklogOps = 64"

record accept_op =
  ao_socket :: "nat option"
  ao_armed :: bool

record acceptor =
  ac_listen :: "nat option"
  ac_stopping :: bool
  ac_ops :: "accept_op list"
  ac_ledger :: ledger

definition acceptor_new :: acceptor where
  "acceptor_new = \<lparr>ac_listen = None, ac_stopping = False, ac_ops = [], ac_ledger = ledger_new\<rparr>"

definition set_op :: "nat \<Rightarrow> accept_op \<Rightarrow> acceptor \<Rightarrow> acceptor" where
  "set_op i op a = a\<lparr>ac_ops := (ac_ops a)[i := op]\<rparr>"

definition drop_socket :: "nat \<Rightarrow> acceptor \<Rightarrow> acceptor" where
  "drop_socket i a =
     set_op i ((ac_ops a ! i)\<lparr>ao_socket := None\<rparr>) (a\<lparr>ac_ledger := close_socket (ao_socket (ac_ops a ! i)) (ac_ledger a)\<rparr>)"

definition ac_stop :: "acceptor \<Rightarrow> acceptor" where
  "ac_stop a =
     (let a = a\<lparr>ac_stopping := True, ac_listen := None, ac_ledger := close_socket (ac_listen a) (ac_ledger a)\<rparr>
      in fold drop_socket [0..<length (ac_ops a)] a)"

definition post_accept :: "bool \<Rightarrow> bool \<Rightarrow> nat \<Rightarrow> acceptor \<Rightarrow> bool \<times> acceptor" where
  "post_accept socket_ok accept_ok i a =
     (if ac_stopping a \<or> ac_listen a = None then (False, a)
      else
        let a = drop_socket i a;
            (s, l) = make_socket socket_ok (ac_ledger a);
            a = set_op i ((ac_ops a ! i)\<lparr>ao_socket := s\<rparr>) (a\<lparr>ac_ledger := l\<rparr>)
        in if s = None then (False, a)
           else if \<not> accept_ok then (False, drop_socket i a)
           else (True, set_op i ((ac_ops a ! i)\<lparr>ao_armed := True\<rparr>) a))"

text \<open>The loop of \<^verbatim>\<open>start\<close>; the list says how the calls for each of the operations turn out.\<close>

fun post_all :: "(bool \<times> bool) list \<Rightarrow> acceptor \<Rightarrow> bool \<times> acceptor" where
  "post_all [] a = (True, a)"
| "post_all ((socket_ok, accept_ok) # outcomes) a =
     (let a = a\<lparr>ac_ops := ac_ops a @ [\<lparr>ao_socket = None, ao_armed = False\<rparr>]\<rparr>
      in case post_accept socket_ok accept_ok (length (ac_ops a) - 1) a of (ok, a) \<Rightarrow>
           if ok then post_all outcomes a else (False, ac_stop a))"

definition ac_start :: "bool \<Rightarrow> bool \<Rightarrow> bool \<Rightarrow> bool \<Rightarrow> (nat \<Rightarrow> bool \<times> bool) \<Rightarrow> acceptor \<Rightarrow> bool \<times> acceptor" where
  "ac_start socket_ok bind_ok listen_ok port_ok outcomes a =
     (case make_socket socket_ok (ac_ledger a) of (s, l) \<Rightarrow>
        let a = a\<lparr>ac_listen := s, ac_ledger := l\<rparr>
        in if s = None then (False, a)
           else if \<not> bind_ok \<or> \<not> listen_ok \<or> \<not> port_ok then (False, ac_stop a)
           else post_all (map outcomes [0..<kBacklogOps]) a)"

text \<open>The socket is read from the operation first; then the operation is cleared and the socket goes to the server.\<close>

definition hand_over :: "nat option \<Rightarrow> nat \<Rightarrow> acceptor \<Rightarrow> acceptor" where
  "hand_over accepted i a =
     (let a = set_op i ((ac_ops a ! i)\<lparr>ao_socket := None\<rparr>) a
      in a\<lparr>ac_ledger := give_socket accepted (ac_ledger a)\<rparr>)"

definition on_accept_done :: "bool \<Rightarrow> bool \<Rightarrow> bool \<Rightarrow> nat \<Rightarrow> acceptor \<Rightarrow> acceptor" where
  "on_accept_done ok socket_ok accept_ok i a =
     (if \<not> ok then snd (post_accept socket_ok accept_ok i (drop_socket i a))
      else snd (post_accept socket_ok accept_ok i (hand_over (ao_socket (ac_ops a ! i)) i a)))"

definition take_op :: "nat \<Rightarrow> acceptor \<Rightarrow> acceptor" where
  "take_op i a = set_op i ((ac_ops a ! i)\<lparr>ao_armed := False\<rparr>) a"

text \<open>A completion on a worker thread, or \<^verbatim>\<open>stop\<close> on the main thread.\<close>

inductive ac_step :: "acceptor \<Rightarrow> acceptor \<Rightarrow> bool" where
  accept_done: "i < length (ac_ops a) \<Longrightarrow> ao_armed (ac_ops a ! i) \<Longrightarrow>
     ac_step a (on_accept_done ok socket_ok accept_ok i (take_op i a))"
| stop: "ac_step a (ac_stop a)"

section \<open>Every socket has one owner\<close>

definition held_by_ops :: "accept_op list \<Rightarrow> nat multiset" where
  "held_by_ops ops = sum_list (map (\<lambda>op. holds (ao_socket op)) ops)"

definition ac_held :: "acceptor \<Rightarrow> nat multiset" where
  "ac_held a = holds (ac_listen a) + held_by_ops (ac_ops a)"

lemma held_update:
  "i < length ops \<Longrightarrow> held_by_ops (ops[i := op]) + holds (ao_socket (ops ! i)) = held_by_ops ops + holds (ao_socket op)"
  by (induction ops arbitrary: i) (auto simp: held_by_ops_def ac_simps split: nat.split)

lemma held_set_none:
  "i < length ops \<Longrightarrow> held_by_ops ops = held_by_ops (ops[i := (ops ! i)\<lparr>ao_socket := None\<rparr>]) + holds (ao_socket (ops ! i))"
  using held_update[of i ops "(ops ! i)\<lparr>ao_socket := None\<rparr>"] by simp

lemma held_set_same: "i < length ops \<Longrightarrow> ao_socket op = ao_socket (ops ! i) \<Longrightarrow> held_by_ops (ops[i := op]) = held_by_ops ops"
  using held_update[of i ops op] by simp

definition ac_inv :: "acceptor \<Rightarrow> bool" where
  "ac_inv a \<longleftrightarrow> accounted (ac_ledger a) (ac_held a) \<and> (ac_stopping a \<longrightarrow> ac_held a = {#}) \<and>
     (\<forall>i<length (ac_ops a). ao_armed (ac_ops a ! i) \<longrightarrow> \<not> ac_stopping a \<longrightarrow> ao_socket (ac_ops a ! i) \<noteq> None)"

lemma ac_fields [simp]:
  "ac_listen (set_op i op a) = ac_listen a" "ac_stopping (set_op i op a) = ac_stopping a" "ac_ledger (set_op i op a) = ac_ledger a"
  "ac_ops (set_op i op a) = (ac_ops a)[i := op]" "ac_listen (drop_socket i a) = ac_listen a" "ac_stopping (drop_socket i a) = ac_stopping a"
  "ac_ops (drop_socket i a) = (ac_ops a)[i := (ac_ops a ! i)\<lparr>ao_socket := None\<rparr>]"
  "ac_ledger (drop_socket i a) = close_socket (ao_socket (ac_ops a ! i)) (ac_ledger a)"
  by (simp_all add: set_op_def drop_socket_def)

lemma accounted_drop:
  assumes "accounted (ac_ledger a) (ac_held a)" "i < length (ac_ops a)"
  shows "accounted (ac_ledger (drop_socket i a)) (ac_held (drop_socket i a))"
proof -
  have "accounted (ac_ledger a) (ac_held (drop_socket i a) + holds (ao_socket (ac_ops a ! i)))"
    using assms held_set_none[OF assms(2)] by (simp add: ac_held_def ac_simps)
  then show ?thesis by (simp add: accounted_close)
qed

text \<open>An operation at rest: its request is not in the kernel and it has no socket.\<close>

definition idle_op :: "nat \<Rightarrow> acceptor \<Rightarrow> bool" where
  "idle_op i a \<longleftrightarrow> i < length (ac_ops a) \<and> ao_socket (ac_ops a ! i) = None \<and> \<not> ao_armed (ac_ops a ! i)"

lemma post_accept_inv:
  assumes inv: "ac_inv a" and idle: "idle_op i a" and res: "post_accept socket_ok accept_ok i a = (ok, a')"
  shows "ac_inv a' \<and> length (ac_ops a') = length (ac_ops a) \<and> ac_listen a' = ac_listen a \<and> ac_stopping a' = ac_stopping a \<and>
    (ok \<longrightarrow> ao_armed (ac_ops a' ! i)) \<and> (\<not> ok \<longrightarrow> \<not> ao_armed (ac_ops a' ! i)) \<and>
    (\<forall>j<length (ac_ops a). j \<noteq> i \<longrightarrow> ac_ops a' ! j = ac_ops a ! j)"
proof (cases "ac_stopping a \<or> ac_listen a = None")
  case True
  then show ?thesis using assms by (auto simp: post_accept_def idle_op_def)
next
  case False
  have i: "i < length (ac_ops a)" "ao_socket (ac_ops a ! i) = None" "\<not> ao_armed (ac_ops a ! i)" using idle by (simp_all add: idle_op_def)
  have same: "(ac_ops a ! i)\<lparr>ao_socket := None\<rparr> = ac_ops a ! i" using i(2) by (cases "ac_ops a ! i") simp
  have drop: "drop_socket i a = a" using i by (simp add: drop_socket_def set_op_def close_socket_def same)
  obtain s l where m: "make_socket socket_ok (ac_ledger a) = (s, l)" by fastforce
  have acc: "accounted l (ac_held a + holds s)" using accounted_make[OF _ m] inv by (simp add: ac_inv_def)
  show ?thesis
  proof (cases s)
    case None
    then have "a' = a\<lparr>ac_ledger := l\<rparr>" "\<not> ok"
      using res False m drop same by (simp_all add: post_accept_def Let_def set_op_def)
    with acc inv i None show ?thesis by (simp add: ac_inv_def ac_held_def)
  next
    case (Some n)
    let ?op = "(ac_ops a ! i)\<lparr>ao_socket := Some n\<rparr>"
    let ?a = "set_op i ?op (a\<lparr>ac_ledger := l\<rparr>)"
    have h: "held_by_ops ((ac_ops a)[i := ?op]) = held_by_ops (ac_ops a) + {#n#}"
      using held_update[OF i(1), of ?op] i(2) by simp
    show ?thesis
    proof (cases accept_ok)
      case True
      then have a': "a' = set_op i (?op\<lparr>ao_armed := True\<rparr>) (a\<lparr>ac_ledger := l\<rparr>)" "ok"
        using res False m drop same Some i(1) by (simp_all add: post_accept_def Let_def set_op_def)
      have "held_by_ops ((ac_ops a)[i := ?op\<lparr>ao_armed := True\<rparr>]) = held_by_ops (ac_ops a) + {#n#}"
        using held_update[OF i(1), of "?op\<lparr>ao_armed := True\<rparr>"] i(2) by simp
      then have "accounted (ac_ledger a') (ac_held a')" using acc Some by (simp add: a' ac_held_def ac_simps)
      then show ?thesis using inv False i by (auto simp: ac_inv_def a' nth_list_update)
    next
      case no: False
      then have a': "a' = drop_socket i ?a" "\<not> ok"
        using res False m drop same Some i(1) by (simp_all add: post_accept_def Let_def)
      have "accounted (ac_ledger ?a) (ac_held ?a)" using acc Some h by (simp add: ac_held_def ac_simps)
      from accounted_drop[OF this, of i] i have "accounted (ac_ledger a') (ac_held a')" by (simp add: a')
      then show ?thesis using inv False i by (auto simp: ac_inv_def a' nth_list_update)
    qed
  qed
qed

lemma take_op_inv:
  assumes "ac_inv a" "i < length (ac_ops a)"
  shows "ac_inv (take_op i a)"
proof -
  have "held_by_ops ((ac_ops a)[i := (ac_ops a ! i)\<lparr>ao_armed := False\<rparr>]) = held_by_ops (ac_ops a)"
    using assms(2) by (intro held_set_same) simp_all
  then show ?thesis using assms by (auto simp: ac_inv_def take_op_def ac_held_def nth_list_update)
qed

lemma drop_inv:
  assumes "ac_inv a" "i < length (ac_ops a)" "\<not> ao_armed (ac_ops a ! i)"
  shows "ac_inv (drop_socket i a) \<and> idle_op i (drop_socket i a)"
proof -
  have "accounted (ac_ledger (drop_socket i a)) (ac_held (drop_socket i a))"
    using assms accounted_drop by (simp add: ac_inv_def)
  moreover have "ac_held a = ac_held (drop_socket i a) + holds (ao_socket (ac_ops a ! i))"
    using held_set_none[OF assms(2)] by (simp add: ac_held_def ac_simps)
  ultimately show ?thesis
    using assms by (auto simp: ac_inv_def idle_op_def nth_list_update)
qed

lemma hand_over_inv:
  assumes "ac_inv a" "i < length (ac_ops a)" "\<not> ao_armed (ac_ops a ! i)"
  shows "ac_inv (hand_over (ao_socket (ac_ops a ! i)) i a)"
proof -
  let ?b = "set_op i ((ac_ops a ! i)\<lparr>ao_socket := None\<rparr>) a"
  have h: "ac_held a = ac_held ?b + holds (ao_socket (ac_ops a ! i))"
    using held_set_none[OF assms(2)] by (simp add: ac_held_def ac_simps)
  then have "accounted (give_socket (ao_socket (ac_ops a ! i)) (ac_ledger a)) (ac_held ?b)"
    using assms(1) by (intro accounted_give) (simp add: ac_inv_def)
  with h show ?thesis using assms by (auto simp: ac_inv_def ac_held_def nth_list_update hand_over_def Let_def)
qed

lemma done_inv:
  assumes "ac_inv a" "i < length (ac_ops a)" "a' = on_accept_done ok socket_ok accept_ok i (take_op i a)"
  shows "ac_inv a' \<and> length (ac_ops a') = length (ac_ops a) \<and> ac_listen a' = ac_listen a \<and> ac_stopping a' = ac_stopping a \<and>
    (\<forall>j<length (ac_ops a). j \<noteq> i \<longrightarrow> ac_ops a' ! j = ac_ops a ! j)"
proof -
  let ?t = "take_op i a"
  have t: "ac_inv ?t" "i < length (ac_ops ?t)" "\<not> ao_armed (ac_ops ?t ! i)" "length (ac_ops ?t) = length (ac_ops a)"
    "ac_listen ?t = ac_listen a" "ac_stopping ?t = ac_stopping a" "\<forall>j<length (ac_ops a). j \<noteq> i \<longrightarrow> ac_ops ?t ! j = ac_ops a ! j"
    using take_op_inv[OF assms(1,2)] assms(2) by (simp_all add: take_op_def)
  define b where "b = (if ok then hand_over (ao_socket (ac_ops ?t ! i)) i ?t
      else drop_socket i ?t)"
  have b: "ac_inv b" "idle_op i b" "length (ac_ops b) = length (ac_ops a)" "ac_listen b = ac_listen a" "ac_stopping b = ac_stopping a"
    "\<forall>j<length (ac_ops a). j \<noteq> i \<longrightarrow> ac_ops b ! j = ac_ops a ! j"
    using t drop_inv[OF t(1-3)] hand_over_inv[OF t(1-3)] by (auto simp: b_def idle_op_def hand_over_def Let_def)
  have "a' = snd (post_accept socket_ok accept_ok i b)"
    by (simp add: assms(3) on_accept_done_def b_def Let_def)
  with post_accept_inv[OF b(1,2), of socket_ok accept_ok "fst (post_accept socket_ok accept_ok i b)" a'] b show ?thesis by auto
qed

lemma drops:
  "n \<le> length (ac_ops a) \<Longrightarrow> accounted (ac_ledger a) (ac_held a) \<Longrightarrow> a' = fold drop_socket [0..<n] a \<Longrightarrow>
     accounted (ac_ledger a') (ac_held a') \<and> length (ac_ops a') = length (ac_ops a) \<and> ac_listen a' = ac_listen a \<and>
     ac_stopping a' = ac_stopping a \<and> (\<forall>j<n. ao_socket (ac_ops a' ! j) = None)"
proof (induction n arbitrary: a')
  case (Suc n)
  let ?b = "fold drop_socket [0..<n] a"
  have ih: "accounted (ac_ledger ?b) (ac_held ?b)" "length (ac_ops ?b) = length (ac_ops a)" "ac_listen ?b = ac_listen a"
    "ac_stopping ?b = ac_stopping a" "\<forall>j<n. ao_socket (ac_ops ?b ! j) = None" using Suc.IH[OF _ Suc.prems(2) refl] Suc.prems(1) by simp_all
  with accounted_drop[OF ih(1), of n] Suc.prems show ?case by (auto simp: nth_list_update less_Suc_eq)
qed simp

lemma held_none: "\<forall>j<length ops. ao_socket (ops ! j) = None \<Longrightarrow> held_by_ops ops = {#}"
proof (induction ops)
  case (Cons op ops)
  then have "ao_socket op = None" "\<forall>j<length ops. ao_socket (ops ! j) = None" by (auto 0 3)
  with Cons.IH show ?case by (simp add: held_by_ops_def)
qed (simp add: held_by_ops_def)

lemma stop_inv:
  assumes "accounted (ac_ledger a) (ac_held a)"
  shows "ac_inv (ac_stop a) \<and> ac_stopping (ac_stop a)"
proof -
  let ?b = "a\<lparr>ac_stopping := True, ac_listen := None, ac_ledger := close_socket (ac_listen a) (ac_ledger a)\<rparr>"
  have "accounted (ac_ledger ?b) (ac_held ?b)"
    using assms accounted_close[of "ac_ledger a" "held_by_ops (ac_ops a)" "ac_listen a"] by (simp add: ac_held_def ac_simps)
  note d = drops[OF _ this, of "length (ac_ops a)" "ac_stop a"]
  have e: "ac_stop a = fold drop_socket [0..<length (ac_ops a)] ?b" by (simp add: ac_stop_def Let_def)
  then have l: "ac_listen (ac_stop a) = None" "ac_stopping (ac_stop a)" "accounted (ac_ledger (ac_stop a)) (ac_held (ac_stop a))"
    "length (ac_ops (ac_stop a)) = length (ac_ops a)" "\<forall>j<length (ac_ops a). ao_socket (ac_ops (ac_stop a) ! j) = None"
    using d by simp_all
  have "held_by_ops (ac_ops (ac_stop a)) = {#}" using l(4,5) by (intro held_none) simp
  then have "ac_held (ac_stop a) = {#}" using l(1) by (simp add: ac_held_def)
  with l show ?thesis by (simp add: ac_inv_def)
qed

lemma ac_inv_step: "ac_step a a' \<Longrightarrow> ac_inv a \<Longrightarrow> ac_inv a'"
proof (induction rule: ac_step.induct)
  case (accept_done i a ok socket_ok accept_ok)
  then show ?case using done_inv[OF _ _ refl] by blast
next
  case (stop a)
  then have "accounted (ac_ledger a) (ac_held a)" by (simp add: ac_inv_def)
  from stop_inv[OF this] show ?case by blast
qed

lemma ac_inv_run: "ac_step\<^sup>*\<^sup>* a a' \<Longrightarrow> ac_inv a \<Longrightarrow> ac_inv a'"
  by (induction rule: rtranclp_induct) (auto intro: ac_inv_step)

section \<open>Starting\<close>

lemma post_all_inv:
  assumes "ac_inv a" "\<not> ac_stopping a" "post_all outcomes a = (ok, a')"
  shows "ac_inv a' \<and> (ok \<longrightarrow> \<not> ac_stopping a' \<and> ac_listen a' = ac_listen a \<and> length (ac_ops a') = length (ac_ops a) + length outcomes)"
  using assms
proof (induction outcomes a rule: post_all.induct)
  case (2 s x outcomes a)
  let ?b = "a\<lparr>ac_ops := ac_ops a @ [\<lparr>ao_socket = None, ao_armed = False\<rparr>]\<rparr>"
  let ?i = "length (ac_ops ?b) - 1"
  obtain ok1 a1 where p: "post_accept s x ?i ?b = (ok1, a1)" by fastforce
  have "held_by_ops (ac_ops ?b) = held_by_ops (ac_ops a)" by (simp add: held_by_ops_def)
  then have "ac_inv ?b" using "2.prems"(1) by (auto simp: ac_inv_def ac_held_def nth_append)
  moreover have "idle_op ?i ?b" by (simp add: idle_op_def)
  ultimately have q: "ac_inv a1" "length (ac_ops a1) = Suc (length (ac_ops a))" "ac_listen a1 = ac_listen a" "\<not> ac_stopping a1"
    using post_accept_inv[OF _ _ p] "2.prems"(2) by auto
  show ?case
  proof (cases ok1)
    case True
    then have "post_all outcomes a1 = (ok, a')" using "2.prems"(3) p by (simp add: Let_def)
    with "2.IH"[OF refl p[symmetric] True q(1,4)] q show ?thesis by simp
  next
    case False
    then have "a' = ac_stop a1" "\<not> ok" using "2.prems"(3) p by (auto simp: Let_def)
    moreover have "accounted (ac_ledger a1) (ac_held a1)" using q(1) by (simp add: ac_inv_def)
    ultimately show ?thesis using stop_inv[of a1] by simp
  qed
qed simp

lemma ac_start_inv:
  assumes "ac_start s b l p outcomes acceptor_new = (ok, a)"
  shows "ac_inv a \<and> (ok \<longrightarrow> \<not> ac_stopping a \<and> ac_listen a \<noteq> None \<and> length (ac_ops a) = kBacklogOps)"
proof -
  obtain h lg where m: "make_socket s (ac_ledger acceptor_new) = (h, lg)" by fastforce
  let ?a = "acceptor_new\<lparr>ac_listen := h, ac_ledger := lg\<rparr>"
  have acc: "accounted lg (holds h)" using accounted_make[OF accounted_new] m by (simp add: acceptor_new_def)
  have inv: "ac_inv ?a" using acc by (simp add: ac_inv_def ac_held_def held_by_ops_def acceptor_new_def)
  have ns: "\<not> ac_stopping ?a" by (simp add: acceptor_new_def)
  consider "h = None" | "h \<noteq> None" "\<not> b \<or> \<not> l \<or> \<not> p" | "h \<noteq> None" "b" "l" "p" by blast
  then show ?thesis
  proof cases
    case 1
    then show ?thesis using assms m inv by (simp add: ac_start_def Let_def)
  next
    case 2
    then have "a = ac_stop ?a" "\<not> ok" using assms m by (auto simp: ac_start_def Let_def)
    moreover have "accounted (ac_ledger ?a) (ac_held ?a)" using inv by (simp add: ac_inv_def)
    ultimately show ?thesis using stop_inv[of ?a] by simp
  next
    case 3
    then have "post_all (map outcomes [0..<kBacklogOps]) ?a = (ok, a)" using assms m by (auto simp: ac_start_def Let_def split: if_splits)
    from post_all_inv[OF inv ns this] 3 show ?thesis by (simp add: acceptor_new_def)
  qed
qed

section \<open>Lost accept requests\<close>

lemma failed_rearm:
  assumes "ac_inv a" "i < length (ac_ops a)"
  shows "\<not> ao_armed (ac_ops (on_accept_done True False accept_ok i (take_op i a)) ! i)"
proof -
  let ?t = "take_op i a"
  have t: "ac_inv ?t" "i < length (ac_ops ?t)" "\<not> ao_armed (ac_ops ?t ! i)"
    using take_op_inv[OF assms] assms(2) by (simp_all add: take_op_def)
  define b where "b = hand_over (ao_socket (ac_ops ?t ! i)) i ?t"
  have b: "ac_inv b" "idle_op i b" using t hand_over_inv[OF t] by (simp_all add: b_def idle_op_def hand_over_def Let_def)
  obtain ok c where p: "post_accept False accept_ok i b = (ok, c)" by fastforce
  then have "\<not> ok" by (auto simp: post_accept_def make_socket_def Let_def split: if_splits)
  with post_accept_inv[OF b p] have "\<not> ao_armed (ac_ops c ! i)" by simp
  then show ?thesis using p by (simp add: on_accept_done_def b_def Let_def)
qed

lemma slots_run_dry:
  assumes "ac_inv a" "\<not> ac_stopping a" "k \<le> length (ac_ops a)"
  shows "\<exists>b. ac_step\<^sup>*\<^sup>* a b \<and> ac_inv b \<and> \<not> ac_stopping b \<and> ac_listen b = ac_listen a \<and> length (ac_ops b) = length (ac_ops a) \<and>
    (\<forall>j<k. \<not> ao_armed (ac_ops b ! j))"
  using assms(3)
proof (induction k)
  case 0
  show ?case using assms by blast
next
  case (Suc k)
  then obtain b where b: "ac_step\<^sup>*\<^sup>* a b" "ac_inv b" "\<not> ac_stopping b" "ac_listen b = ac_listen a" "length (ac_ops b) = length (ac_ops a)"
    "\<forall>j<k. \<not> ao_armed (ac_ops b ! j)" by auto
  show ?case
  proof (cases "ao_armed (ac_ops b ! k)")
    case False
    with b show ?thesis using less_Suc_eq by blast
  next
    case True
    let ?c = "on_accept_done True False True k (take_op k b)"
    have k: "k < length (ac_ops b)" using Suc.prems b(5) by simp
    have "ac_step\<^sup>*\<^sup>* a ?c" by (rule rtranclp.rtrancl_into_rtrancl[OF b(1)]) (rule accept_done[OF k True])
    moreover have "\<forall>j<Suc k. \<not> ao_armed (ac_ops ?c ! j)"
      using failed_rearm[OF b(2) k] done_inv[OF b(2) k refl, of True False True] b(5,6) k by (auto simp: less_Suc_eq)
    ultimately show ?thesis using done_inv[OF b(2) k refl, of True False True] b by (intro exI[of _ ?c]) simp
  qed
qed

section \<open>Stopping while a connection is handed over\<close>

lemma drops_close:
  "i < n \<Longrightarrow> n \<le> length (ac_ops a) \<Longrightarrow> ao_socket (ac_ops a ! i) = Some h \<Longrightarrow>
     h \<in> set (sk_closed (ac_ledger (fold drop_socket [0..<n] a)))"
proof (induction n)
  case (Suc n)
  let ?b = "fold drop_socket [0..<n] a"
  have mono: "set (sk_closed (ac_ledger x)) \<subseteq> set (sk_closed (ac_ledger (drop_socket j x)))" for j x
    by (auto simp: close_socket_def split: option.split)
  have later: "m \<le> i \<Longrightarrow> ac_ops (fold drop_socket [0..<m] a) ! i = ac_ops a ! i" for m
    by (induction m) auto
  show ?case
  proof (cases "i = n")
    case True
    then show ?thesis using later[of n] Suc.prems(3) by (simp add: close_socket_def)
  next
    case False
    then show ?thesis using Suc mono[of ?b n] by auto
  qed
qed simp

text \<open>
  The two run on different threads without a lock. If \<^verbatim>\<open>stop\<close> comes after the socket has been read, it closes the socket that is
  then handed to the server.
\<close>

theorem stop_closes_what_is_handed_over:
  assumes "i < length (ac_ops a)" "ao_socket (ac_ops a ! i) = Some h"
  shows "h \<in> set (sk_closed (ac_ledger (hand_over (Some h) i (ac_stop a)))) \<and>
    h \<in> set (sk_given (ac_ledger (hand_over (Some h) i (ac_stop a))))"
  using drops_close[of i "length (ac_ops a)" "a\<lparr>ac_stopping := True, ac_listen := None, ac_ledger := close_socket (ac_listen a) (ac_ledger a)\<rparr>" h] assms
  by (simp add: hand_over_def Let_def give_socket_def ac_stop_def)

section \<open>Properties\<close>


abbreviation demo_acceptor :: acceptor where
  "demo_acceptor \<equiv> snd (ac_start True True True True (\<lambda>_. (True, True)) acceptor_new)"

lemma post_all_succeeds: "\<not> ac_stopping a \<Longrightarrow> ac_listen a \<noteq> None \<Longrightarrow> fst (post_all (replicate n (True, True)) a)"
proof (induction n arbitrary: a)
  case (Suc n)
  let ?b = "a\<lparr>ac_ops := ac_ops a @ [\<lparr>ao_socket = None, ao_armed = False\<rparr>]\<rparr>"
  let ?r = "post_accept True True (length (ac_ops ?b) - 1) ?b"
  have "fst ?r" "\<not> ac_stopping (snd ?r)" "ac_listen (snd ?r) \<noteq> None"
    using Suc.prems by (simp_all add: post_accept_def make_socket_def Let_def)
  with Suc.IH[of "snd ?r"] show ?case by (simp add: case_prod_beta Let_def)
qed simp

lemma demo_acceptor_start: "ac_start True True True True (\<lambda>_. (True, True)) acceptor_new = (True, demo_acceptor)"
proof -
  have "map (\<lambda>_. (True, True)) [0..<kBacklogOps] = replicate kBacklogOps (True, True)" by (simp add: map_replicate_const)
  then have "fst (ac_start True True True True (\<lambda>_. (True, True)) acceptor_new)"
    using post_all_succeeds by (simp add: ac_start_def make_socket_def acceptor_new_def)
  then show ?thesis by (simp add: prod_eq_iff)
qed


text \<open>
  An accept request that cannot be posted again is lost for good. If no socket can be made for the next accept at the
  moment one completes, nothing ever posts that request again; after 64 such moments the listening socket is open, nothing
  waits on it, and the only thing that can still happen is stop: the server runs on and takes no connection any more.
\<close>

theorem accept_requests_run_dry:
  assumes "ac_start s b l p outcomes acceptor_new = (True, a0)"
  shows "\<exists>a. ac_step\<^sup>*\<^sup>* a0 a \<and> ac_listen a \<noteq> None \<and> \<not> ac_stopping a \<and> length (ac_ops a) = 64 \<and>
    (\<forall>op\<in>set (ac_ops a). \<not> ao_armed op) \<and> (\<forall>a'. ac_step a a' \<longrightarrow> a' = ac_stop a)"
proof -
  have i: "ac_inv a0" "\<not> ac_stopping a0" "ac_listen a0 \<noteq> None" "length (ac_ops a0) = kBacklogOps" using ac_start_inv[OF assms] by auto
  from slots_run_dry[OF i(1,2) order_refl] i obtain a where a: "ac_step\<^sup>*\<^sup>* a0 a" "ac_listen a \<noteq> None" "\<not> ac_stopping a"
    "length (ac_ops a) = 64" "\<forall>j<length (ac_ops a). \<not> ao_armed (ac_ops a ! j)" by (auto simp: kBacklogOps_def)
  then have "\<forall>a'. ac_step a a' \<longrightarrow> a' = ac_stop a" by (auto elim: ac_step.cases)
  with a show ?thesis by (auto simp: in_set_conv_nth intro!: exI[of _ a])
qed

theorem accept_requests_run_dry_witness:
  "\<exists>a. ac_step\<^sup>*\<^sup>* demo_acceptor a \<and> ac_listen a \<noteq> None \<and> \<not> ac_stopping a \<and> (\<forall>op\<in>set (ac_ops a). \<not> ao_armed op)"
  using accept_requests_run_dry[OF demo_acceptor_start] by blast

end
