(* ===== verification/Logger.thy ===== *)
theory Logger
  imports Text_Format Swap_Queue "HOL-Library.List_Lexorder" "HOL-Library.Multiset" "HOL-Library.Sublist"
begin

text \<open>
  \<^verbatim>\<open>src/src/core/log.h\<close> and \<^verbatim>\<open>log.cpp\<close>: lines are put together by the thread that logs, queued, and written by one thread
  that also rotates the file. The directory of the log is a map from file names to contents; whether opening and renaming
  succeed, the local time and the text \<^verbatim>\<open>vsnprintf\<close> makes of the arguments are given from outside.
\<close>

section \<open>Lines\<close>

datatype log_level = Debug | Info | Warn | Error

fun level_num :: "log_level \<Rightarrow> nat" where
  "level_num Debug = 0" | "level_num Info = 1" | "level_num Warn = 2" | "level_num Error = 3"

fun level_tag :: "log_level \<Rightarrow> bytes" where
  "level_tag Debug = lit ''DEBUG''" | "level_tag Info = lit ''INFO ''" | "level_tag Warn = lit ''WARN ''" | "level_tag Error = lit ''ERROR''"

definition kLineMax :: nat where "kLineMax = 240"
definition kQueueCap :: nat where "kQueueCap = 65536"

record tm =
  tm_year :: int
  tm_mon :: int
  tm_mday :: int
  tm_hour :: int
  tm_min :: int
  tm_sec :: int

fun base_from :: "bytes \<Rightarrow> bytes \<Rightarrow> bytes" where
  "base_from p [] = p"
| "base_from p (c # cs) = base_from (if c = of_char CHR ''/'' \<or> c = of_char CHR 0x5C then cs else p) cs"

definition base_name :: "bytes \<Rightarrow> bytes" where
  "base_name path = base_from path path"

text \<open>\<open>msg\<close> is the text the format and its arguments stand for, \<open>tid\<close> the hash of the thread.\<close>

definition log_text :: "log_level \<Rightarrow> tm \<Rightarrow> int \<Rightarrow> u64 \<Rightarrow> bytes \<Rightarrow> bytes \<Rightarrow> int \<Rightarrow> bytes" where
  "log_text level t ms tid body file line =
     pad0 2 (dec_int (tm_hour t)) @ lit '':'' @ pad0 2 (dec_int (tm_min t)) @ lit '':'' @ pad0 2 (dec_int (tm_sec t)) @ lit ''.'' @
     pad0 3 (dec_int ms) @ lit '' ['' @ level_tag level @ lit ''] t'' @ pad0 4 (hex (unat (tid AND 0xFFFF))) @ lit '' '' @
     body @ lit '' ('' @ base_name file @ lit '':'' @ dec_int line @ lit '')'' @ [10]"

definition log_record :: "log_level \<Rightarrow> tm \<Rightarrow> int \<Rightarrow> u64 \<Rightarrow> bytes \<Rightarrow> bytes \<Rightarrow> int \<Rightarrow> bytes" where
  "log_record level t ms tid msg file line =
     (let body = snd (snprintf kLineMax msg);
          (n, text) = snprintf kLineMax (log_text level t ms tid body file line)
      in if n \<ge> int kLineMax then text[kLineMax - 2 := 10] else text)"

section \<open>State\<close>

record logger =
  g_level :: log_level
  g_running :: bool
  g_dropped :: u64
  g_queue :: "bytes swap_queue"
  g_file :: bool
  g_path :: bytes
  g_max_bytes :: int
  g_keep :: int
  g_written :: int
  g_day :: int
  g_dir :: "(bytes \<times> bytes) list"
  g_stderr :: "bytes list"

definition logger_init :: "(bytes \<times> bytes) list \<Rightarrow> logger" where
  "logger_init dir = \<lparr>g_level = Info, g_running = False, g_dropped = 0, g_queue = sq_empty, g_file = False, g_path = [],
     g_max_bytes = 0, g_keep = 0, g_written = 0, g_day = 0, g_dir = dir, g_stderr = []\<rparr>"

text \<open>\<open>g_stderr\<close> lists what has been written to the standard error stream, record by record.\<close>

definition active_name :: "logger \<Rightarrow> bytes" where
  "active_name lg = base_name (g_path lg)"

definition contents :: "bytes \<Rightarrow> logger \<Rightarrow> bytes" where
  "contents name lg = (case map_of (g_dir lg) name of None \<Rightarrow> [] | Some d \<Rightarrow> d)"

definition emit :: "bytes \<Rightarrow> logger \<Rightarrow> logger" where
  "emit r lg =
     (let lg = lg\<lparr>g_stderr := g_stderr lg @ [r]\<rparr>
      in if g_file lg then lg\<lparr>g_dir := AList.update (active_name lg) (contents (active_name lg) lg @ r) (g_dir lg),
           g_written := g_written lg + int (length r)\<rparr>
         else lg)"

section \<open>Rotation\<close>

definition today_number :: "tm \<Rightarrow> int" where
  "today_number t = (tm_year t + 1900) * 10000 + (tm_mon t + 1) * 100 + tm_mday t"

definition open_file :: "bool \<Rightarrow> tm \<Rightarrow> logger \<Rightarrow> logger" where
  "open_file open_ok t lg =
     (let lg = lg\<lparr>g_file := open_ok, g_day := today_number t, g_written := 0\<rparr>
      in if open_ok
         then lg\<lparr>g_dir := AList.update (active_name lg) (contents (active_name lg) lg) (g_dir lg),
                 g_written := int (length (contents (active_name lg) lg))\<rparr>
         else lg)"

text \<open>\<^verbatim>\<open>stem\<close> and \<^verbatim>\<open>extension\<close> of a file name that is neither \<open>.\<close> nor \<open>..\<close>\<close>

definition split_ext :: "bytes \<Rightarrow> bytes \<times> bytes" where
  "split_ext name =
     (let k = length (takeWhile (\<lambda>c. c \<noteq> of_char CHR ''.'') (rev name))
      in if k + 1 \<ge> length name then (name, [])
         else (take (length name - (k + 1)) name, drop (length name - (k + 1)) name))"

definition time_stamp :: "tm \<Rightarrow> bytes" where
  "time_stamp t = pad0 4 (dec_int (tm_year t + 1900)) @ pad0 2 (dec_int (tm_mon t + 1)) @ pad0 2 (dec_int (tm_mday t)) @ lit ''-'' @
     pad0 2 (dec_int (tm_hour t)) @ pad0 2 (dec_int (tm_min t)) @ pad0 2 (dec_int (tm_sec t))"

definition candidate :: "tm \<Rightarrow> bytes \<Rightarrow> nat \<Rightarrow> bytes" where
  "candidate t active seq =
     (let (stem, ext) = split_ext active
      in stem @ lit ''.'' @ time_stamp t @ (if seq > 0 then lit ''-'' @ dec seq else []) @ ext)"

definition rotated_target :: "tm \<Rightarrow> logger \<Rightarrow> bytes option" where
  "rotated_target t lg =
     find (\<lambda>name. map_of (g_dir lg) name = None) (map (candidate t (active_name lg)) [0..<100])"

definition is_rotated :: "bytes \<Rightarrow> bytes \<Rightarrow> bool" where
  "is_rotated active name \<longleftrightarrow> name \<noteq> active \<and> snd (split_ext name) = snd (split_ext active) \<and>
     take (length (fst (split_ext active)) + 1) name = fst (split_ext active) @ lit ''.''"

definition rotated_files :: "logger \<Rightarrow> bytes list" where
  "rotated_files lg = filter (is_rotated (active_name lg)) (keys (g_dir lg))"

definition purge_old :: "logger \<Rightarrow> logger" where
  "purge_old lg =
     (if g_keep lg \<le> 0 then lg
      else let rotated = rotated_files lg in
        if int (length rotated) \<le> g_keep lg then lg
        else lg\<lparr>g_dir := fold AList.delete (take (length rotated - nat (g_keep lg)) (sort rotated)) (g_dir lg)\<rparr>)"

definition rename_file :: "bytes \<Rightarrow> bytes \<Rightarrow> logger \<Rightarrow> logger" where
  "rename_file old new lg = lg\<lparr>g_dir := AList.update new (contents old lg) (AList.delete old (g_dir lg))\<rparr>"

definition rotate_if_needed :: "tm \<Rightarrow> bool \<Rightarrow> bool \<Rightarrow> logger \<Rightarrow> logger" where
  "rotate_if_needed t rename_ok open_ok lg =
     (if \<not> g_file lg \<or> g_path lg = [] then lg
      else
        let by_size = (g_max_bytes lg > 0 \<and> g_written lg \<ge> g_max_bytes lg);
            by_day = (g_day lg \<noteq> 0 \<and> today_number t \<noteq> g_day lg)
        in if \<not> by_size \<and> \<not> by_day then lg
           else case rotated_target t lg of
             None \<Rightarrow> lg
           | Some target \<Rightarrow>
               let lg = lg\<lparr>g_file := False\<rparr>;
                   lg = (if rename_ok then rename_file (active_name lg) target lg else lg);
                   lg = open_file open_ok t lg
               in if rename_ok then purge_old lg else lg)"

section \<open>Draining, starting and stopping\<close>

definition drain :: "tm \<Rightarrow> bool \<Rightarrow> bool \<Rightarrow> logger \<Rightarrow> logger" where
  "drain t rename_ok open_ok lg =
     (case sq_swap (g_queue lg) of (batch, q) \<Rightarrow>
        let lg = lg\<lparr>g_queue := q\<rparr> in
        if batch = [] then lg
        else rotate_if_needed t rename_ok open_ok (fold emit batch (lg\<lparr>g_queue := sq_clear_batch q\<rparr>)))"

definition log_start :: "bytes \<Rightarrow> log_level \<Rightarrow> int \<Rightarrow> int \<Rightarrow> tm \<Rightarrow> bool \<Rightarrow> logger \<Rightarrow> bool \<times> logger" where
  "log_start path level max_bytes keep_files t open_ok lg =
     (if g_running lg then (True, lg)
      else
        let lg = lg\<lparr>g_level := level, g_path := path, g_max_bytes := (if max_bytes > 0 then max_bytes else 0),
                    g_keep := (if keep_files > 0 then keep_files else 0)\<rparr>;
            lg = (if path \<noteq> [] then open_file open_ok t lg else lg)
        in (True, lg\<lparr>g_running := True\<rparr>))"

text \<open>The end of \<^verbatim>\<open>log_stop\<close>, after the writing thread has been waited for.\<close>

definition close_file :: "logger \<Rightarrow> logger" where
  "close_file lg = lg\<lparr>g_file := False\<rparr>"

text \<open>The last part of \<^verbatim>\<open>log_write\<close>: the check of the flag, the check of the queue and the push are separate accesses.\<close>

datatype log_call = Checked bytes | HasRoom bytes | Direct bytes

definition write_begin :: "log_level \<Rightarrow> bytes \<Rightarrow> logger \<Rightarrow> log_call option" where
  "write_begin level r lg =
     (if level_num level < level_num (g_level lg) then None
      else Some (if g_running lg then Checked r else Direct r))"

fun write_step :: "log_call \<Rightarrow> logger \<Rightarrow> log_call option \<times> logger" where
  "write_step (Direct r) lg = (None, emit r lg)"
| "write_step (Checked r) lg =
     (if sq_pending (g_queue lg) \<ge> kQueueCap then (None, lg\<lparr>g_dropped := g_dropped lg + 1\<rparr>) else (Some (HasRoom r), lg))"
| "write_step (HasRoom r) lg = (None, lg\<lparr>g_queue := sq_push r (g_queue lg)\<rparr>)"

section \<open>The logger among its threads\<close>

text \<open>
  \<open>lr_begun\<close>, \<open>lr_pushed\<close> and \<open>lr_discarded\<close> are the lines of all calls, those that went into the queue and those that were
  counted as dropped; none of them is in the code.
\<close>

datatype writer_pc = WLoop | WLast | WDone

record log_run =
  lr_log :: logger
  lr_calls :: "log_call list"
  lr_writer :: writer_pc
  lr_begun :: "bytes list"
  lr_pushed :: "bytes list"
  lr_discarded :: "bytes list"

fun line_of :: "log_call \<Rightarrow> bytes" where
  "line_of (Checked r) = r" | "line_of (HasRoom r) = r" | "line_of (Direct r) = r"

definition is_push :: "log_call \<Rightarrow> bool" where
  "is_push c \<longleftrightarrow> c = HasRoom (line_of c)"

definition is_discard :: "log_call \<Rightarrow> logger \<Rightarrow> bool" where
  "is_discard c lg \<longleftrightarrow> c = Checked (line_of c) \<and> sq_pending (g_queue lg) \<ge> kQueueCap"

inductive writer_step :: "log_run \<Rightarrow> log_run \<Rightarrow> bool" where
  w_drain: "lr_writer s = WLoop \<Longrightarrow> g_running (lr_log s) \<Longrightarrow> writer_step s (s\<lparr>lr_log := drain t ren opn (lr_log s)\<rparr>)"
| w_leave: "lr_writer s = WLoop \<Longrightarrow> \<not> g_running (lr_log s) \<Longrightarrow> writer_step s (s\<lparr>lr_writer := WLast\<rparr>)"
| w_last: "lr_writer s = WLast \<Longrightarrow> writer_step s (s\<lparr>lr_log := drain t ren opn (lr_log s), lr_writer := WDone\<rparr>)"

inductive log_step :: "log_run \<Rightarrow> log_run \<Rightarrow> bool" where
  s_begin: "write_begin level r (lr_log s) = Some c \<Longrightarrow>
     log_step s (s\<lparr>lr_calls := lr_calls s @ [c], lr_begun := lr_begun s @ [r]\<rparr>)"
| s_call: "lr_calls s = xs @ c # ys \<Longrightarrow> write_step c (lr_log s) = (next, lg) \<Longrightarrow>
     log_step s (s\<lparr>lr_calls := xs @ (case next of None \<Rightarrow> [] | Some c' \<Rightarrow> [c']) @ ys, lr_log := lg,
       lr_pushed := lr_pushed s @ (if is_push c then [line_of c] else []),
       lr_discarded := lr_discarded s @ (if is_discard c (lr_log s) then [line_of c] else [])\<rparr>)"
| s_writer: "writer_step s s' \<Longrightarrow> log_step s s'"
| s_stop: "log_step s (s\<lparr>lr_log := (lr_log s)\<lparr>g_running := False\<rparr>\<rparr>)"
| s_close: "lr_writer s = WDone \<Longrightarrow> log_step s (s\<lparr>lr_log := close_file (lr_log s)\<rparr>)"

definition log_run_start :: "logger \<Rightarrow> log_run" where
  "log_run_start lg = \<lparr>lr_log = lg, lr_calls = [], lr_writer = WLoop, lr_begun = [], lr_pushed = [], lr_discarded = []\<rparr>"

definition all_written_or_waiting :: "log_run \<Rightarrow> bytes list" where
  "all_written_or_waiting s = g_stderr (lr_log s) @ sq_filled (g_queue (lr_log s))"

definition log_inv :: "log_run \<Rightarrow> bool" where
  "log_inv s \<longleftrightarrow> sq_wf (g_queue (lr_log s)) \<and>
     mset (lr_begun s) = mset (all_written_or_waiting s) + mset (map line_of (lr_calls s)) + mset (lr_discarded s) \<and>
     subseq (lr_pushed s) (all_written_or_waiting s) \<and> g_dropped (lr_log s) = of_nat (length (lr_discarded s))"

text \<open>Writing out and rotating leave the queue and the counter alone.\<close>

lemma emit_frame [simp]:
  "g_queue (emit r lg) = g_queue lg" "g_dropped (emit r lg) = g_dropped lg" "g_stderr (emit r lg) = g_stderr lg @ [r]"
  "g_running (emit r lg) = g_running lg" "g_level (emit r lg) = g_level lg"
  by (simp_all add: emit_def Let_def)

lemma emits_frame [simp]:
  "g_queue (fold emit rs lg) = g_queue lg" "g_dropped (fold emit rs lg) = g_dropped lg" "g_stderr (fold emit rs lg) = g_stderr lg @ rs"
  "g_running (fold emit rs lg) = g_running lg" "g_level (fold emit rs lg) = g_level lg"
  by (induction rs arbitrary: lg) simp_all

lemma open_file_frame [simp]:
  "g_queue (open_file ok t lg) = g_queue lg" "g_dropped (open_file ok t lg) = g_dropped lg" "g_stderr (open_file ok t lg) = g_stderr lg"
  "g_running (open_file ok t lg) = g_running lg" "g_level (open_file ok t lg) = g_level lg"
  by (simp_all add: open_file_def Let_def)

lemma purge_frame [simp]:
  "g_queue (purge_old lg) = g_queue lg" "g_dropped (purge_old lg) = g_dropped lg" "g_stderr (purge_old lg) = g_stderr lg"
  "g_running (purge_old lg) = g_running lg" "g_level (purge_old lg) = g_level lg"
  by (simp_all add: purge_old_def Let_def)

lemma rotate_frame [simp]:
  "g_queue (rotate_if_needed t ren opn lg) = g_queue lg" "g_dropped (rotate_if_needed t ren opn lg) = g_dropped lg"
  "g_stderr (rotate_if_needed t ren opn lg) = g_stderr lg" "g_running (rotate_if_needed t ren opn lg) = g_running lg"
  "g_level (rotate_if_needed t ren opn lg) = g_level lg"
  by (simp_all add: rotate_if_needed_def rename_file_def Let_def split: option.split)

lemma clear_batch [simp]: "sq_wf q \<Longrightarrow> sq_filled (sq_clear_batch q) = sq_filled q \<and> sq_wf (sq_clear_batch q)"
  by (auto simp: sq_defs nth_list_update)

lemma drain_props:
  assumes "sq_wf (g_queue lg)"
  shows "g_stderr (drain t ren opn lg) = g_stderr lg @ sq_filled (g_queue lg)" "sq_filled (g_queue (drain t ren opn lg)) = []"
    "sq_wf (g_queue (drain t ren opn lg))" "g_dropped (drain t ren opn lg) = g_dropped lg" "g_running (drain t ren opn lg) = g_running lg"
    "g_level (drain t ren opn lg) = g_level lg"
  using sq.swap_batch[OF assms] sq.swap_contents[OF assms] sq.swap_inv[OF assms]
  by (auto simp: drain_def case_prod_beta Let_def)

lemma log_inv_start: "g_queue lg = sq_empty \<Longrightarrow> g_stderr lg = [] \<Longrightarrow> g_dropped lg = 0 \<Longrightarrow> log_inv (log_run_start lg)"
  by (simp add: log_inv_def log_run_start_def all_written_or_waiting_def)

lemma writer_inv: "writer_step s s' \<Longrightarrow> log_inv s \<Longrightarrow> log_inv s' \<and> all_written_or_waiting s' = all_written_or_waiting s"
  by (induction rule: writer_step.induct) (auto simp: log_inv_def all_written_or_waiting_def drain_props)

lemma subseq_insert: "subseq xs (a @ b) \<Longrightarrow> subseq xs (a @ r # b)"
  by (rule subseq_order.order_trans[of _ "a @ b"]) (auto intro: list_emb_append_mono)

lemma call_inv:
  assumes "lr_calls s = xs @ c # ys" "write_step c (lr_log s) = (nx, lg)" "log_inv s"
  shows "log_inv (s\<lparr>lr_calls := xs @ (case nx of None \<Rightarrow> [] | Some c' \<Rightarrow> [c']) @ ys, lr_log := lg,
       lr_pushed := lr_pushed s @ (if is_push c then [line_of c] else []),
       lr_discarded := lr_discarded s @ (if is_discard c (lr_log s) then [line_of c] else [])\<rparr>)"
proof (cases c)
  case (Checked r)
  with assms show ?thesis
    by (auto simp: log_inv_def all_written_or_waiting_def is_push_def is_discard_def split: if_splits)
next
  case (HasRoom r)
  have "lg = (lr_log s)\<lparr>g_queue := sq_push r (g_queue (lr_log s))\<rparr>" "nx = None" using assms(2) HasRoom by simp_all
  with assms HasRoom show ?thesis
    by (auto simp: log_inv_def all_written_or_waiting_def is_push_def is_discard_def sq.push_contents sq.push_inv simp flip: append_assoc
        intro: list_emb_append_mono)
next
  case (Direct r)
  have "lg = emit r (lr_log s)" "nx = None" using assms(2) Direct by simp_all
  with assms Direct show ?thesis
    by (auto simp: log_inv_def all_written_or_waiting_def is_push_def is_discard_def subseq_insert)
qed

lemma log_inv_step: "log_step s s' \<Longrightarrow> log_inv s \<Longrightarrow> log_inv s'"
proof (induction rule: log_step.induct)
  case (s_begin level r s c)
  then have "line_of c = r" by (auto simp: write_begin_def split: if_splits)
  with s_begin show ?case by (simp add: log_inv_def all_written_or_waiting_def)
next
  case (s_writer s s')
  then show ?case using writer_inv by blast
qed (simp_all add: call_inv, simp_all add: log_inv_def all_written_or_waiting_def close_file_def)

lemma log_inv_run: "log_step\<^sup>*\<^sup>* s s' \<Longrightarrow> log_inv s \<Longrightarrow> log_inv s'"
  by (induction rule: rtranclp_induct) (auto intro: log_inv_step)

text \<open>The writing thread gets everything that waits onto the stream, as long as it has not made its last round.\<close>

lemma writer_writes_all:
  assumes "lr_writer s \<noteq> WDone" "log_inv s"
  shows "\<exists>s'. writer_step\<^sup>*\<^sup>* s s' \<and> g_stderr (lr_log s') = all_written_or_waiting s"
proof -
  have wf: "sq_wf (g_queue (lr_log s))" using assms(2) by (simp add: log_inv_def)
  have last: "\<exists>s'. writer_step u s' \<and> g_stderr (lr_log s') = all_written_or_waiting s"
    if "lr_writer u = WLast" "lr_log u = lr_log s" for u
    using w_last[of u undefined True True] that wf by (auto simp: drain_props all_written_or_waiting_def)
  show ?thesis
  proof (cases "lr_writer s")
    case WLoop
    show ?thesis
    proof (cases "g_running (lr_log s)")
      case True
      then have "writer_step s (s\<lparr>lr_log := drain undefined True True (lr_log s)\<rparr>)" using WLoop by (intro w_drain)
      then show ?thesis using wf by (intro exI[of _ "s\<lparr>lr_log := drain undefined True True (lr_log s)\<rparr>"])
          (simp add: drain_props all_written_or_waiting_def r_into_rtranclp)
    next
      case False
      then have "writer_step s (s\<lparr>lr_writer := WLast\<rparr>)" using WLoop by (intro w_leave)
      moreover obtain s' where "writer_step (s\<lparr>lr_writer := WLast\<rparr>) s'" "g_stderr (lr_log s') = all_written_or_waiting s"
        using last[of "s\<lparr>lr_writer := WLast\<rparr>"] by auto
      ultimately show ?thesis by (meson converse_rtranclp_into_rtranclp r_into_rtranclp)
    qed
  next
    case WLast
    then show ?thesis using last[of s] by (meson r_into_rtranclp)
  qed (use assms in simp)
qed

lemma log_start_fresh:
  assumes "log_start path level mb keep t opn (logger_init dir) = (ok, lg)"
  shows "g_queue lg = sq_empty \<and> g_stderr lg = [] \<and> g_dropped lg = 0 \<and> g_running lg \<and> g_level lg = level"
  using assms by (auto simp: log_start_def logger_init_def Let_def split: if_splits)

lemma done_keeps_waiting:
  assumes "log_step\<^sup>*\<^sup>* s s'" "lr_writer s = WDone" "sq_wf (g_queue (lr_log s))" "prefix w (sq_filled (g_queue (lr_log s)))"
  shows "lr_writer s' = WDone \<and> sq_wf (g_queue (lr_log s')) \<and> prefix w (sq_filled (g_queue (lr_log s')))"
  using assms
proof (induction rule: rtranclp_induct)
  case (step u v)
  from step(2) step.IH[OF step.prems] show ?case
  proof (induction rule: log_step.induct)
    case (s_call s xs c ys nx lg)
    then show ?case by (cases c) (auto simp: sq.push_contents sq.push_inv prefix_def split: if_splits)
  next
    case (s_writer s s')
    then show ?case by (auto elim: writer_step.cases)
  qed (simp_all add: close_file_def)
qed simp

section \<open>Names of rotated files\<close>

lemma split_ext_log: "xs \<noteq> [] \<Longrightarrow> split_ext (xs @ lit ''.log'') = (xs, lit ''.log'')"
  by (simp add: split_ext_def lit_def Let_def)

abbreviation server_log :: bytes where
  "server_log \<equiv> lit ''server.log''"

lemma server_log_eq: "server_log = lit ''server'' @ lit ''.log''"
  by (simp add: lit_def)

lemma server_log_split: "split_ext server_log = (lit ''server'', lit ''.log'')"
  unfolding server_log_eq by (rule split_ext_log) (simp add: lit_def)

lemma candidate_server:
  "candidate t server_log 0 = (lit ''server.'' @ time_stamp t) @ lit ''.log''"
  "candidate t server_log 1 = (lit ''server.'' @ time_stamp t @ lit ''-1'') @ lit ''.log''"
  unfolding candidate_def server_log_split by (simp_all add: lit_def dec.simps digit_def)

lemma candidate_split:
  "snd (split_ext (candidate t server_log 0)) = lit ''.log''" "snd (split_ext (candidate t server_log 1)) = lit ''.log''"
proof -
  have ne: "lit ''server.'' @ xs \<noteq> []" for xs by (simp add: lit_def)
  show "snd (split_ext (candidate t server_log 0)) = lit ''.log''" "snd (split_ext (candidate t server_log 1)) = lit ''.log''"
    unfolding candidate_server split_ext_log[OF ne] by simp_all
qed

text \<open>The second file of a second sorts before the first: a minus sign comes before a full stop.\<close>

lemma later_sorts_first: "candidate t server_log 1 < candidate t server_log 0"
proof -
  have "xs @ 45 # ys < xs @ 46 # zs" for xs ys zs :: bytes
    by (induction xs) simp_all
  from this[of "lit ''server.'' @ time_stamp t"] show ?thesis
    unfolding candidate_server by (simp add: lit_def)
qed

lemma candidates_rotated: "is_rotated server_log (candidate t server_log 0)" "is_rotated server_log (candidate t server_log 1)"
proof -
  have d: "time_stamp t \<noteq> [] \<Longrightarrow> candidate t server_log 0 \<noteq> server_log" "candidate t server_log 1 \<noteq> server_log"
    unfolding candidate_server by (auto simp: lit_def dest: arg_cong[where f = length])
  have ne: "time_stamp t \<noteq> []" by (simp add: time_stamp_def lit_def)
  show "is_rotated server_log (candidate t server_log 0)" "is_rotated server_log (candidate t server_log 1)"
    using d ne candidate_split[of t] unfolding is_rotated_def server_log_split candidate_server by (simp_all add: lit_def)
qed

text \<open>One rotation with the names of the server.\<close>

lemma active_frame: "active_name (lg\<lparr>g_file := b\<rparr>) = active_name lg"
  by (simp add: active_name_def)

lemma server_path: "base_name (lit ''logs/server.log'') = server_log"
  by (simp add: base_name_def lit_def)

lemma target_of_second:
  assumes "g_path lg = lit ''logs/server.log''" "rotated_files lg = [candidate t server_log 0]"
  shows "rotated_target t lg = Some (candidate t server_log 1) \<and> candidate t server_log 1 \<notin> set (keys (g_dir lg))"
proof -
  have act: "active_name lg = server_log" using assms(1) by (simp add: active_name_def server_path)
  have f: "filter (is_rotated server_log) (keys (g_dir lg)) = [candidate t server_log 0]"
    using assms(2) act by (simp add: rotated_files_def)
  then have set: "{x \<in> set (keys (g_dir lg)). is_rotated server_log x} = {candidate t server_log 0}"
    by (metis set_filter list.simps(15) list.set(1))
  have "candidate t server_log 1 \<noteq> candidate t server_log 0" using later_sorts_first[of t] by (metis less_irrefl)
  with set candidates_rotated[of t] have old: "candidate t server_log 0 \<in> set (keys (g_dir lg))"
    and new: "candidate t server_log 1 \<notin> set (keys (g_dir lg))"
    by blast+
  have "[0..<100] = 0 # 1 # [2..<100]" by (simp add: upt_conv_Cons numeral_2_eq_2)
  then have "rotated_target t lg = Some (candidate t server_log 1)"
    using old new by (simp add: rotated_target_def act map_of_eq_None_iff)
  with new show ?thesis by simp
qed

text \<open>The directory after the active file has been moved and opened anew.\<close>

lemma rotated_directory:
  assumes "filter (is_rotated a) (keys d) = [x]" "is_rotated a y" "y \<notin> set (keys d)" "a \<in> set (keys d)" "distinct (keys d)"
  shows "filter (is_rotated a) (keys (AList.update a [] (AList.update y v (AList.delete a d)))) = [x, y]"
    "filter (is_rotated a) (keys (AList.update y v (AList.delete a d))) = [x, y]"
proof -
  have a: "\<not> is_rotated a a" by (simp add: is_rotated_def)
  have "filter (is_rotated a) (removeAll a (keys d)) = [x]"
    using assms(1) a by (simp add: removeAll_filter_not_eq filter_filter) (metis (mono_tags, lifting) filter_cong)
  then show "filter (is_rotated a) (keys (AList.update a [] (AList.update y v (AList.delete a d)))) = [x, y]"
    "filter (is_rotated a) (keys (AList.update y v (AList.delete a d))) = [x, y]"
    using assms a by (auto simp: update_keys delete_keys)
qed

section \<open>Properties\<close>

text \<open>
  Every record fits its buffer and is a line: at most 239 bytes, with a line feed at the end.
\<close>

theorem record_is_a_line:
  "length (log_record level t ms tid msg file line) < kLineMax \<and> last (log_record level t ms tid msg file line) = 10"
proof -
  define full where "full = log_text level t ms tid (snd (snprintf kLineMax msg)) file line"
  have l: "full \<noteq> []" "last full = 10" by (simp_all add: full_def log_text_def)
  have r: "log_record level t ms tid msg file line =
      (if length full \<ge> kLineMax then (take (kLineMax - 1) full)[kLineMax - 2 := 10] else take (kLineMax - 1) full)"
    by (simp add: log_record_def snprintf_def Let_def full_def)
  show ?thesis
  proof (cases "length full \<ge> kLineMax")
    case True
    then have "length (take (kLineMax - 1) full) = 239" by (simp add: kLineMax_def)
    then show ?thesis using True by (simp add: r last_conv_nth kLineMax_def flip: length_greater_0_conv)
  next
    case False
    then show ?thesis using l by (simp add: r kLineMax_def)
  qed
qed


text \<open>
  A line can get lost when the logger stops. A thread that has seen the logger running puts its line into the queue after
  the last round of the writing thread: the call has succeeded, nothing is counted as dropped, and whatever happens
  afterwards, the line is never written.
\<close>

abbreviation demo_time :: tm where
  "demo_time \<equiv> \<lparr>tm_year = 125, tm_mon = 0, tm_mday = 2, tm_hour = 3, tm_min = 4, tm_sec = 5\<rparr>"

abbreviation demo_logger :: logger where
  "demo_logger \<equiv> snd (log_start (lit ''logs/server.log'') Info 1000 1 demo_time True (logger_init []))"

lemma demo_log_start: "log_start (lit ''logs/server.log'') Info 1000 1 demo_time True (logger_init []) = (True, demo_logger)"
  by (simp add: log_start_def logger_init_def Let_def)


theorem line_lost_at_stop:
  assumes "log_start path Info mb keep t opn (logger_init dir) = (ok, lg)"
  shows "\<exists>s. log_step\<^sup>*\<^sup>* (log_run_start lg) s \<and> lr_begun s = [r] \<and> lr_calls s = [] \<and> lr_discarded s = [] \<and>
    g_stderr (lr_log s) = [] \<and> g_dropped (lr_log s) = 0 \<and>
    (\<forall>s'. log_step\<^sup>*\<^sup>* s s' \<longrightarrow> prefix [r] (sq_filled (g_queue (lr_log s'))))"
proof -
  note f = log_start_fresh[OF assms]
  let ?s0 = "log_run_start lg"
  define s1 where "s1 = ?s0\<lparr>lr_calls := [Checked r], lr_begun := [r]\<rparr>"
  define s2 where "s2 = s1\<lparr>lr_calls := [HasRoom r]\<rparr>"
  define s3 where "s3 = s2\<lparr>lr_log := (lr_log s2)\<lparr>g_running := False\<rparr>\<rparr>"
  define s4 where "s4 = s3\<lparr>lr_writer := WLast\<rparr>"
  define s5 where "s5 = s4\<lparr>lr_log := drain t True True (lr_log s4), lr_writer := WDone\<rparr>"
  define s6 where "s6 = s5\<lparr>lr_calls := [], lr_log := (lr_log s5)\<lparr>g_queue := sq_push r (g_queue (lr_log s5))\<rparr>, lr_pushed := [r]\<rparr>"
  have l: "lr_log s4 = lg\<lparr>g_running := False\<rparr>" by (simp add: s4_def s3_def s2_def s1_def log_run_start_def)
  have q5: "sq_wf (g_queue (lr_log s5))" "sq_filled (g_queue (lr_log s5)) = []" "g_stderr (lr_log s5) = []" "g_dropped (lr_log s5) = 0"
    using f drain_props[of "lr_log s4" t True True] l by (simp_all add: s5_def)
  have "log_step ?s0 s1"
    using s_begin[of Error r ?s0 "Checked r"] f by (simp add: write_begin_def log_run_start_def s1_def)
  moreover have "log_step s1 s2"
    using s_call[of s1 "[]" "Checked r" "[]" "Some (HasRoom r)" "lr_log s1"] f
    by (simp add: s1_def s2_def log_run_start_def is_push_def is_discard_def sq_pending_def sq_empty_def kQueueCap_def)
  moreover have "log_step s2 s3" unfolding s3_def by (rule s_stop)
  moreover have "log_step s3 s4" unfolding s4_def
    by (intro s_writer w_leave) (simp_all add: s3_def s2_def s1_def log_run_start_def)
  moreover have "log_step s4 s5" unfolding s5_def by (intro s_writer w_last) (simp add: s4_def)
  moreover have "log_step s5 s6"
    using s_call[of s5 "[]" "HasRoom r" "[]" None "(lr_log s5)\<lparr>g_queue := sq_push r (g_queue (lr_log s5))\<rparr>"]
    by (simp add: s6_def s5_def s4_def s3_def s2_def s1_def log_run_start_def is_push_def is_discard_def)
  ultimately have run: "log_step\<^sup>*\<^sup>* ?s0 s6" by (meson converse_rtranclp_into_rtranclp rtranclp.rtrancl_refl)
  have w: "lr_writer s6 = WDone" "sq_wf (g_queue (lr_log s6))" "prefix [r] (sq_filled (g_queue (lr_log s6)))"
    using q5 by (simp_all add: s6_def sq.push_inv sq.push_contents, simp add: s5_def)
  have "lr_begun s6 = [r]" "lr_calls s6 = []" "lr_discarded s6 = []" "g_stderr (lr_log s6) = []" "g_dropped (lr_log s6) = 0"
    using q5 by (simp_all add: s6_def s5_def s4_def s3_def s2_def s1_def log_run_start_def)
  with run done_keeps_waiting[OF _ w] show ?thesis by blast
qed

theorem line_lost_at_stop_witness:
  "\<exists>s. log_step\<^sup>*\<^sup>* (log_run_start demo_logger) s \<and> lr_begun s = [lit ''bye''] \<and> lr_calls s = [] \<and> g_stderr (lr_log s) = []"
  using line_lost_at_stop[OF demo_log_start, of "lit ''bye''"] by blast

text \<open>
  Of two files rotated within a second, the purge deletes the newer one. The names are taken to sort by time, but the second
  file of a second gets a suffix that begins with a minus sign, which sorts before the full stop of the extension. With one
  file to keep, the lines that have just been rotated are gone, and the older file stays.
\<close>

theorem newest_rotated_file_is_deleted:
  assumes "g_path lg = lit ''logs/server.log''" "g_file lg" "0 < g_max_bytes lg" "g_max_bytes lg \<le> g_written lg" "g_keep lg = 1"
    and "distinct (keys (g_dir lg))" "map_of (g_dir lg) server_log = Some newest"
    and "rotated_files lg = [candidate t server_log 0]"
    and "lg' = rotate_if_needed t True opn lg"
  shows "rotated_target t lg = Some (candidate t server_log 1) \<and>
    map_of (g_dir lg') (candidate t server_log 1) = None \<and>
    map_of (g_dir lg') (candidate t server_log 0) = map_of (g_dir lg) (candidate t server_log 0) \<and>
    map_of (g_dir lg') server_log = (if opn then Some [] else None)"
proof -
  let ?old = "candidate t server_log 0" and ?new = "candidate t server_log 1" and ?d = "AList.delete server_log (g_dir lg)"
  have act: "active_name lg = server_log" using assms(1) by (simp add: active_name_def server_path)
  have path: "g_path lg \<noteq> []" using assms(1) by (simp add: lit_def)
  note tgt = target_of_second[OF assms(1,8)]
  have rot: "filter (is_rotated server_log) (keys (g_dir lg)) = [?old]" using assms(8) act by (simp add: rotated_files_def)
  have names: "?new \<noteq> server_log" "?old \<noteq> server_log" "?new \<noteq> ?old" "?new < ?old"
    using candidates_rotated[of t] later_sorts_first[of t] by (auto simp: is_rotated_def)
  define d' where "d' = (if opn then AList.update server_log [] (AList.update ?new newest ?d) else AList.update ?new newest ?d)"
  define mid where "mid = open_file opn t (rename_file server_log ?new (lg\<lparr>g_file := False\<rparr>))"
  have mid: "g_dir mid = d'" "g_keep mid = 1" "active_name mid = server_log"
    using assms(1,5,7) names act by (simp_all add: mid_def d'_def open_file_def rename_file_def contents_def active_name_def Let_def)
  have lg': "lg' = purge_old mid"
    unfolding assms(9) rotate_if_needed_def Let_def mid_def active_frame using assms(2-4) path tgt by (simp only: act) simp
  have "server_log \<in> set (keys (g_dir lg))" using domI[of "map_of (g_dir lg)", OF assms(7)] by (simp add: dom_map_of_conv_image_fst)
  from rotated_directory[OF rot candidates_rotated(2) _ this assms(6)] tgt have "filter (is_rotated server_log) (keys d') = [?old, ?new]"
    by (simp add: d'_def)
  then have "rotated_files mid = [?old, ?new]" using mid by (simp add: rotated_files_def)
  moreover have "sort [?old, ?new] = [?new, ?old]" using names by simp
  ultimately have "g_dir lg' = AList.delete ?new d'" using mid by (simp add: lg' purge_old_def Let_def)
  then show ?thesis using tgt names by (simp add: d'_def)
qed

theorem newest_rotated_file_is_deleted_witness:
  "let old = candidate demo_time server_log 0;
       lg = rotate_if_needed demo_time True True (demo_logger\<lparr>g_dir := [(old, [1]), (server_log, [2])], g_written := 1000\<rparr>)
   in map_of (g_dir lg) old = Some [1] \<and> map_of (g_dir lg) (candidate demo_time server_log 1) = None \<and> map_of (g_dir lg) server_log = Some []"
proof -
  let ?old = "candidate demo_time server_log 0"
  let ?lg = "demo_logger\<lparr>g_dir := [(?old, [1]), (server_log, [2])], g_written := 1000\<rparr>"
  have ne: "?old \<noteq> server_log" using candidates_rotated(1)[of demo_time] by (auto simp: is_rotated_def)
  have g: "g_path ?lg = lit ''logs/server.log''" "g_file ?lg" "g_max_bytes ?lg = 1000" "g_keep ?lg = 1"
    by (simp_all add: log_start_def logger_init_def open_file_def Let_def lit_def)
  have "\<not> is_rotated server_log server_log" by (simp add: is_rotated_def)
  then have r: "rotated_files ?lg = [?old]"
    using g(1) candidates_rotated(1)[of demo_time] by (simp add: rotated_files_def active_name_def server_path)
  have d: "distinct (keys (g_dir ?lg))" "map_of (g_dir ?lg) server_log = Some [2]" using ne by simp_all
  have "0 < g_max_bytes ?lg" "g_max_bytes ?lg \<le> g_written ?lg" using g(3) by simp_all
  from newest_rotated_file_is_deleted[OF g(1,2) this g(4) d r refl, of True] ne show ?thesis by (simp add: Let_def)
qed

end
