(* ===== verification/Server_Main.thy ===== *)
theory Server_Main
  imports Server_Config Server Acceptor Logger
begin

text \<open>
  \<^verbatim>\<open>main\<close> of \<^verbatim>\<open>src/src/main.cpp\<close> as the thread that starts the parts of the server, waits for the signal to stop and takes them down
  again, while the other threads go on with their own work. The messages it logs, and the log lines every five seconds, only read
  the counters of the parts and are left out.
\<close>

section \<open>The process\<close>

text \<open>Where \<^verbatim>\<open>main\<close> is; the numbers are the exit code, or the deadline of a drain.\<close>

datatype main_pc =
    At_log | At_library | At_services | At_pool | At_io | At_acceptor | At_admin | Serving | Stop_acceptor int
  | Begin_pool_drain | Drain_pool int | Begin_services_drain | Drain_services int | Begin_flush | Flush int
  | Stop_admin | Stop_io int | Join_io int | Stop_pool int | Stop_services int | Stop_library int | Stop_log int | Returned int

text \<open>The router with its services is the application behind the connections, so that it stands in the environment of the I/O service.\<close>

record ('p, 'm) process =
  pr_pc :: main_pc
  pr_stop :: bool
  pr_log :: logger
  pr_library :: bool
  pr_io :: "'p server_app io_service"
  pr_db :: "worker_pool \<times> 'm pool_env"
  pr_acceptor :: acceptor
  pr_admin :: admin
  pr_last_report :: int

definition process_new :: "(bytes \<times> bytes) list \<Rightarrow> 'm pool_env \<Rightarrow> ('p, 'm) process" where
  "process_new dir e =
     \<lparr>pr_pc = At_log, pr_stop = False, pr_log = logger_init dir, pr_library = False,
      pr_io = io_new \<lparr>sa_router = router_new, sa_us = 0\<rparr>, pr_db = (pool_new, e),
      pr_acceptor = acceptor_new, pr_admin = admin_new, pr_last_report = 0\<rparr>"

definition the_router :: "('p, 'm) process \<Rightarrow> 'p router" where
  "the_router s = sa_router (e_app (io_env (pr_io s)))"

definition set_router :: "'p router \<Rightarrow> ('p, 'm) process \<Rightarrow> ('p, 'm) process" where
  "set_router rt s = s\<lparr>pr_io := (pr_io s)\<lparr>io_env := (io_env (pr_io s))\<lparr>e_app := (e_app (io_env (pr_io s)))\<lparr>sa_router := rt\<rparr>\<rparr>\<rparr>\<rparr>"

text \<open>What the operating system and the libraries answer to one call of \<^verbatim>\<open>main\<close>, and the time.\<close>

record answers =
  an_time :: tm
  an_open :: bool
  an_rename :: bool
  an_library :: bool
  an_wsa :: bool
  an_port :: bool
  an_cores :: u32
  an_socket :: bool
  an_bind :: bool
  an_listen :: bool
  an_accepts :: "nat \<Rightarrow> bool \<times> bool"
  an_now :: int

text \<open>The console: \<^verbatim>\<open>CTRL_C_EVENT\<close>, \<^verbatim>\<open>CTRL_BREAK_EVENT\<close> and \<^verbatim>\<open>CTRL_CLOSE_EVENT\<close> are 0, 1 and 2.\<close>

definition console_handler :: "nat \<Rightarrow> bool \<Rightarrow> bool \<times> bool" where
  "console_handler event stop = (if event = 0 \<or> event = 1 \<or> event = 2 then (True, True) else (False, stop))"

text \<open>\<^verbatim>\<open>log_stop\<close> once the other callers are gone: the flag, the last round of the writing thread, the file.\<close>

definition log_stop :: "tm \<Rightarrow> bool \<Rightarrow> bool \<Rightarrow> logger \<Rightarrow> logger" where
  "log_stop t rename_ok open_ok lg =
     (if \<not> g_running lg then lg else close_file (Logger.drain t rename_ok open_ok (lg\<lparr>g_running := False\<rparr>)))"

text \<open>What \<^verbatim>\<open>/health\<close> says.\<close>

definition health :: "server_config \<Rightarrow> ('p, 'm) process \<Rightarrow> bool" where
  "health cfg s =
     (if pr_stop s then False
      else if sc_db_workers cfg > 0 \<and> pool_connected (fst (pr_db s)) = 0 then False
      else True)"

text \<open>A turn of the loop that waits, after its sleep.\<close>

definition serve_turn :: "int \<Rightarrow> ('p, 'm) process \<Rightarrow> ('p, 'm) process" where
  "serve_turn now s =
     (if pr_stop s then s\<lparr>pr_pc := Stop_acceptor 0\<rparr>
      else if now - pr_last_report s \<ge> 5000 then s\<lparr>pr_last_report := now\<rparr>
      else s)"

text \<open>
  The next call of \<^verbatim>\<open>main\<close>. \<open>os\<close> says which requests of the connections the kernel takes, \<open>A\<close> is the database library, \<open>D\<close> and \<open>pool\<close>
  are what the game service knows of the database.
\<close>

definition main_next ::
  "(nat \<Rightarrow> bool) \<Rightarrow> 'm mysql_api \<Rightarrow> 'p db_ref \<Rightarrow> 'p \<Rightarrow> server_config \<Rightarrow> answers \<Rightarrow> ('p, 'm) process \<Rightarrow> ('p, 'm) process" where
  "main_next os A D pool cfg a s =
     (case pr_pc s of
        At_log \<Rightarrow>
          s\<lparr>pr_pc := At_library,
            pr_log := snd (log_start (lit ''logs/server.log'') Info (sc_log_max_bytes cfg) (sc_log_keep cfg) (an_time a) (an_open a) (pr_log s))\<rparr>
      | At_library \<Rightarrow>
          if \<not> an_library a then s\<lparr>pr_pc := Stop_log 1\<rparr> else s\<lparr>pr_pc := At_services, pr_library := True\<rparr>
      | At_services \<Rightarrow>
          (case rt_start D pool (sc_services cfg) (the_router s) of (ok, rt) \<Rightarrow>
             (set_router rt s)\<lparr>pr_pc := (if ok then At_pool else Stop_log 1)\<rparr>)
      | At_pool \<Rightarrow>
          s\<lparr>pr_pc := At_io,
            pr_db := (snd (pool_start (sc_db cfg) (sc_db_workers cfg) True (sc_db_dispatch cfg) (sc_db_batch_size cfg) (fst (pr_db s))), snd (pr_db s))\<rparr>
      | At_io \<Rightarrow>
          (case io_start (an_wsa a) (an_port a) (an_cores a) (sc_io cfg) (pr_io s) of (ok, io) \<Rightarrow>
             s\<lparr>pr_io := io, pr_pc := (if ok then At_acceptor else Stop_pool 1)\<rparr>)
      | At_acceptor \<Rightarrow>
          (case ac_start (an_socket a) (an_bind a) (an_listen a) (an_port a) (an_accepts a) (pr_acceptor s) of (up, ac) \<Rightarrow>
             s\<lparr>pr_acceptor := ac, pr_pc := (if up then At_admin else Stop_io 1)\<rparr>)
      | At_admin \<Rightarrow>
          (case admin_start (an_socket a) (an_bind a) (an_listen a) (sc_admin_port cfg) (pr_admin s) of (ready, ad) \<Rightarrow>
             if \<not> ready \<and> sc_admin_required cfg then s\<lparr>pr_admin := ad, pr_pc := Stop_acceptor 1\<rparr>
             else s\<lparr>pr_admin := ad, pr_pc := Serving, pr_last_report := an_now a\<rparr>)
      | Serving \<Rightarrow> serve_turn (an_now a) s
      | Stop_acceptor code \<Rightarrow>
          s\<lparr>pr_acceptor := ac_stop (pr_acceptor s), pr_pc := (if code = 0 then Begin_pool_drain else Stop_io code)\<rparr>
      | Begin_pool_drain \<Rightarrow>
          if \<not> pl_running (fst (pr_db s)) then s\<lparr>pr_pc := Begin_services_drain\<rparr>
          else s\<lparr>pr_db := (pool_begin_drain (fst (pr_db s)), snd (pr_db s)), pr_pc := Drain_pool (an_now a + max 0 (sc_drain_ms cfg))\<rparr>
      | Drain_pool deadline \<Rightarrow>
          if pool_queued (fst (pr_db s)) > 0 \<and> an_now a < deadline then s else s\<lparr>pr_pc := Begin_services_drain\<rparr>
      | Begin_services_drain \<Rightarrow> s\<lparr>pr_pc := Drain_services (an_now a + max 0 (sc_drain_ms cfg))\<rparr>
      | Drain_services deadline \<Rightarrow>
          if rt_pending D (router_config (sc_services cfg)) pool (the_router s) = 0 \<or> an_now a \<ge> deadline then s\<lparr>pr_pc := Begin_flush\<rparr>
          else set_router ((the_router s)\<lparr>rt_game := sv_wake_all (rt_game (the_router s)), rt_chat := sv_wake_all (rt_chat (the_router s))\<rparr>) s
      | Begin_flush \<Rightarrow> s\<lparr>pr_pc := Flush (an_now a + max 0 (sc_drain_ms cfg))\<rparr>
      | Flush deadline \<Rightarrow>
          if unsent_count (map (snd \<circ> snd) (io_conns (pr_io s))) = 0 \<or> an_now a \<ge> deadline then s\<lparr>pr_pc := Stop_admin\<rparr> else s
      | Stop_admin \<Rightarrow> s\<lparr>pr_admin := admin_stop (pr_admin s), pr_pc := Stop_io 0\<rparr>
      | Stop_io code \<Rightarrow>
          if \<not> io_running (pr_io s) then s\<lparr>pr_pc := Stop_pool code\<rparr>
          else s\<lparr>pr_io := io_stop_begin (server_hooks os) (pr_io s), pr_pc := Join_io code\<rparr>
      | Join_io code \<Rightarrow> s\<lparr>pr_io := io_stop_end (pr_io s), pr_pc := Stop_pool code\<rparr>
      | Stop_pool code \<Rightarrow> s\<lparr>pr_db := pool_stop A (pr_db s), pr_pc := Stop_services code\<rparr>
      | Stop_services code \<Rightarrow>
          (set_router (rt_stop (the_router s)) s)\<lparr>pr_pc := (if code = 0 then Stop_library code else Stop_log code)\<rparr>
      | Stop_library code \<Rightarrow> s\<lparr>pr_library := False, pr_pc := Stop_log code\<rparr>
      | Stop_log code \<Rightarrow> s\<lparr>pr_log := log_stop (an_time a) (an_rename a) (an_open a) (pr_log s), pr_pc := Returned code\<rparr>
      | Returned code \<Rightarrow> s)"

section \<open>The other threads\<close>

text \<open>An accept request that completes on a worker.\<close>

definition accepted :: "acceptor \<Rightarrow> acceptor \<Rightarrow> bool" where
  "accepted a a' \<longleftrightarrow> (\<exists>i ok s x. i < length (ac_ops a) \<and> ao_armed (ac_ops a ! i) \<and> a' = on_accept_done ok s x i (take_op i a))"

definition lanes :: "('p, 'm) process \<Rightarrow> bool \<times> bool" where
  "lanes s = (sv_lanes (rt_game (the_router s)) \<noteq> [], sv_lanes (rt_chat (the_router s)) \<noteq> [])"

text \<open>
  What they may do between two calls of \<^verbatim>\<open>main\<close>: the connections and the acceptor take their steps while there are workers, the lanes
  of the services work but do not come or go, the database workers work, the logger writes, the signal to stop may arrive.
\<close>

definition others :: "(nat \<Rightarrow> bool) \<Rightarrow> ('p, 'm) process \<Rightarrow> ('p, 'm) process \<Rightarrow> bool" where
  "others os s s' \<longleftrightarrow>
     pr_pc s' = pr_pc s \<and> pr_library s' = pr_library s \<and> pr_last_report s' = pr_last_report s \<and> pr_admin s' = pr_admin s \<and>
     (pr_stop s \<longrightarrow> pr_stop s') \<and> lanes s' = lanes s \<and>
     g_running (pr_log s') = g_running (pr_log s) \<and> (\<not> g_running (pr_log s) \<longrightarrow> g_file (pr_log s') = g_file (pr_log s)) \<and>
     (if io_workers (pr_io s) = 0 then pr_acceptor s' = pr_acceptor s \<and> (\<exists>e. pr_io s' = (pr_io s)\<lparr>io_env := e\<rparr>)
      else accepted\<^sup>*\<^sup>* (pr_acceptor s) (pr_acceptor s') \<and> (io_step (server_hooks os) server_on_adopt)\<^sup>*\<^sup>* (pr_io s) (pr_io s')) \<and>
     pl_running (fst (pr_db s')) = pl_running (fst (pr_db s)) \<and> pl_draining (fst (pr_db s')) = pl_draining (fst (pr_db s)) \<and>
     length (pl_workers (fst (pr_db s'))) = length (pl_workers (fst (pr_db s)))"

inductive process_step ::
  "(nat \<Rightarrow> bool) \<Rightarrow> 'm mysql_api \<Rightarrow> 'p db_ref \<Rightarrow> 'p \<Rightarrow> server_config \<Rightarrow> ('p, 'm) process \<Rightarrow> ('p, 'm) process \<Rightarrow> bool"
  for os A D pool cfg where
  p_main: "process_step os A D pool cfg s (main_next os A D pool cfg a s)"
| p_others: "others os s s' \<Longrightarrow> process_step os A D pool cfg s s'"

section \<open>What is up at which point\<close>

fun after_stop :: "main_pc \<Rightarrow> bool" where
  "after_stop (Stop_acceptor c) = (c = 0)"
| "after_stop Begin_pool_drain = True" | "after_stop (Drain_pool d) = True" | "after_stop Begin_services_drain = True"
| "after_stop (Drain_services d) = True" | "after_stop Begin_flush = True" | "after_stop (Flush d) = True"
| "after_stop Stop_admin = True" | "after_stop (Stop_io c) = (c = 0)" | "after_stop (Join_io c) = (c = 0)"
| "after_stop (Stop_pool c) = (c = 0)" | "after_stop (Stop_services c) = (c = 0)" | "after_stop (Stop_library c) = (c = 0)"
| "after_stop (Stop_log c) = (c = 0)" | "after_stop (Returned c) = (c = 0)" | "after_stop _ = False"

text \<open>The drains: the server takes nothing new and finishes what it has.\<close>

fun draining :: "main_pc \<Rightarrow> bool" where
  "draining Begin_pool_drain = True" | "draining (Drain_pool d) = True" | "draining Begin_services_drain = True"
| "draining (Drain_services d) = True" | "draining Begin_flush = True" | "draining (Flush d) = True" | "draining _ = False"

fun db_closed :: "main_pc \<Rightarrow> bool" where
  "db_closed (Drain_pool d) = True" | "db_closed Begin_services_drain = True" | "db_closed (Drain_services d) = True"
| "db_closed Begin_flush = True" | "db_closed (Flush d) = True" | "db_closed _ = False"

fun log_up :: "main_pc \<Rightarrow> bool" where
  "log_up At_log = False" | "log_up (Returned c) = False" | "log_up _ = True"

fun services_up :: "main_pc \<Rightarrow> bool" where
  "services_up At_log = False" | "services_up At_library = False" | "services_up At_services = False"
| "services_up (Stop_library c) = False" | "services_up (Stop_log c) = False" | "services_up (Returned c) = False" | "services_up _ = True"

fun pool_up :: "main_pc \<Rightarrow> bool" where
  "pool_up At_pool = False" | "pool_up (Stop_services c) = False" | "pool_up pc = services_up pc"

fun io_up :: "main_pc \<Rightarrow> bool" where
  "io_up At_io = False" | "io_up (Join_io c) = False" | "io_up (Stop_pool c) = False" | "io_up pc = pool_up pc"

fun io_threads :: "main_pc \<Rightarrow> bool" where
  "io_threads (Join_io c) = True" | "io_threads pc = io_up pc"

fun accepting :: "main_pc \<Rightarrow> bool" where
  "accepting At_admin = True" | "accepting Serving = True" | "accepting (Stop_acceptor c) = True" | "accepting _ = False"

fun not_yet_accepting :: "main_pc \<Rightarrow> bool" where
  "not_yet_accepting At_acceptor = True" | "not_yet_accepting At_io = True" | "not_yet_accepting At_pool = True"
| "not_yet_accepting At_services = True" | "not_yet_accepting At_library = True" | "not_yet_accepting At_log = True"
| "not_yet_accepting _ = False"

fun admin_allowed :: "main_pc \<Rightarrow> bool" where
  "admin_allowed Serving = True" | "admin_allowed (Stop_acceptor c) = (c = 0)" | "admin_allowed Stop_admin = True"
| "admin_allowed pc = draining pc"

definition parts_ok :: "server_config \<Rightarrow> ('p, 'm) process \<Rightarrow> bool" where
  "parts_ok cfg s \<longleftrightarrow>
     (g_running (pr_log s) \<longleftrightarrow> log_up (pr_pc s)) \<and> (\<not> g_running (pr_log s) \<longrightarrow> \<not> g_file (pr_log s)) \<and>
     lanes s = (services_up (pr_pc s), services_up (pr_pc s)) \<and>
     (pl_running (fst (pr_db s)) \<longleftrightarrow> pool_up (pr_pc s) \<and> sc_db_workers cfg \<noteq> 0) \<and>
     (\<not> pl_running (fst (pr_db s)) \<longrightarrow> pl_workers (fst (pr_db s)) = []) \<and>
     (db_closed (pr_pc s) \<longrightarrow> pl_running (fst (pr_db s)) \<longrightarrow> pl_draining (fst (pr_db s))) \<and>
     (io_running (pr_io s) \<longleftrightarrow> io_up (pr_pc s)) \<and> (\<not> io_threads (pr_pc s) \<longrightarrow> io_conns (pr_io s) = [] \<and> io_workers (pr_io s) = 0) \<and>
     (ad_running (pr_admin s) \<longrightarrow> admin_allowed (pr_pc s)) \<and> (ad_listen (pr_admin s) \<longrightarrow> ad_running (pr_admin s)) \<and>
     (after_stop (pr_pc s) \<longrightarrow> pr_stop s) \<and> (pr_pc s = Stop_log 0 \<or> pr_pc s = Returned 0 \<longrightarrow> \<not> pr_library s)"

definition acceptor_ok :: "('p, 'm) process \<Rightarrow> bool" where
  "acceptor_ok s \<longleftrightarrow> ac_inv (pr_acceptor s) \<and>
     (not_yet_accepting (pr_pc s) \<longrightarrow> pr_acceptor s = acceptor_new) \<and>
     (accepting (pr_pc s) \<longrightarrow> ac_listen (pr_acceptor s) \<noteq> None \<and> \<not> ac_stopping (pr_acceptor s)) \<and>
     (\<not> not_yet_accepting (pr_pc s) \<and> \<not> accepting (pr_pc s) \<longrightarrow>
        ac_held (pr_acceptor s) = {#} \<and> ac_listen (pr_acceptor s) = None \<and> (ac_stopping (pr_acceptor s) \<or> ac_ops (pr_acceptor s) = []))"

section \<open>Single calls\<close>

lemma router_set [simp]: "the_router (set_router rt s) = rt"
  by (simp add: the_router_def set_router_def)

lemma set_router_sel [simp]:
  "pr_pc (set_router rt s) = pr_pc s" "pr_stop (set_router rt s) = pr_stop s" "pr_log (set_router rt s) = pr_log s"
  "pr_library (set_router rt s) = pr_library s" "pr_db (set_router rt s) = pr_db s" "pr_acceptor (set_router rt s) = pr_acceptor s"
  "pr_admin (set_router rt s) = pr_admin s" "io_running (pr_io (set_router rt s)) = io_running (pr_io s)"
  "io_conns (pr_io (set_router rt s)) = io_conns (pr_io s)" "io_workers (pr_io (set_router rt s)) = io_workers (pr_io s)"
  by (simp_all add: set_router_def)

lemma lanes_frame [simp]:
  "lanes (s\<lparr>pr_pc := pc\<rparr>) = lanes s" "lanes (s\<lparr>pr_log := lg\<rparr>) = lanes s" "lanes (s\<lparr>pr_library := b\<rparr>) = lanes s"
  "lanes (s\<lparr>pr_db := db\<rparr>) = lanes s" "lanes (s\<lparr>pr_acceptor := ac\<rparr>) = lanes s" "lanes (s\<lparr>pr_admin := ad\<rparr>) = lanes s"
  "lanes (s\<lparr>pr_last_report := n\<rparr>) = lanes s"
  by (simp_all add: lanes_def the_router_def)

lemma lanes_set_router [simp]: "lanes (set_router rt s) = (sv_lanes (rt_game rt) \<noteq> [], sv_lanes (rt_chat rt) \<noteq> [])"
  by (simp add: lanes_def)

lemma sv_start_lanes:
  assumes "sv_lanes sv = []" "\<And>n st. so_created ops n = Some st \<Longrightarrow> length st = n" "sv_start ops opt sv = (ok, sv')"
  shows "sv_lanes sv' \<noteq> [] \<longleftrightarrow> ok"
proof -
  define n where "n = nat (max 1 (min 64 (if op_lane_count opt \<le> 0 then 1 else op_lane_count opt)))"
  have "0 < n" by (simp add: n_def)
  show ?thesis
  proof (cases "so_created ops n")
    case None
    then show ?thesis using assms(1,3) by (auto simp: sv_start_def Let_def n_def)
  next
    case (Some st)
    then have "length (map2 lane_init [0..<n] st) = n" using assms(2) by simp
    with \<open>0 < n\<close> have "map2 lane_init [0..<n] st \<noteq> []" by (metis length_greater_0_conv)
    then show ?thesis using assms(1,3) Some by (auto simp: sv_start_def Let_def n_def)
  qed
qed

lemma rt_start_lanes:
  assumes "sv_lanes (rt_game rt) = []" "sv_lanes (rt_chat rt) = []" "rt_start D pool opt rt = (ok, rt')"
  shows "(sv_lanes (rt_game rt') \<noteq> [] \<longleftrightarrow> ok) \<and> (sv_lanes (rt_chat rt') \<noteq> [] \<longleftrightarrow> ok)"
proof -
  let ?g = "\<lparr>op_lane_count = ro_game_lane_count opt, op_stats_interval_ms = ro_stats_interval_ms opt,
    op_inbound_queue_cap = ro_inbound_queue_cap opt, op_overflow_policy = ro_overflow_policy opt\<rparr>"
  obtain ok1 game where g: "sv_start (game_ops D (router_config opt) pool) ?g (rt_game rt) = (ok1, game)" by fastforce
  obtain ok2 chat where c: "sv_start chat_ops (?g\<lparr>op_lane_count := 1\<rparr>) (rt_chat rt) = (ok2, chat)" by fastforce
  have gl: "sv_lanes game \<noteq> [] \<longleftrightarrow> ok1"
    by (rule sv_start_lanes[OF assms(1) _ g]) (auto simp: game_ops_def game_on_created_def)
  have cl: "sv_lanes chat \<noteq> [] \<longleftrightarrow> ok2"
    by (rule sv_start_lanes[OF assms(2) _ c]) (auto simp: chat_ops_def chat_on_created_def split: if_splits)
  show ?thesis
    using assms(2,3) g c gl cl by (cases ok1; cases ok2) (auto simp: rt_start_def Let_def sv_stop_def)
qed

lemma pool_start_up:
  assumes "\<not> pl_running p" "pl_workers p = []"
  shows "pl_running (snd (pool_start cfg n True d b p)) \<longleftrightarrow> n \<noteq> 0"
    "n = 0 \<Longrightarrow> pl_workers (snd (pool_start cfg n True d b p)) = []"
  using assms by (simp_all add: pool_start_def)

lemma pool_stopped:
  assumes "\<not> pl_running (fst s) \<longrightarrow> pl_workers (fst s) = []"
  shows "\<not> pl_running (fst (pool_stop A s)) \<and> pl_workers (fst (pool_stop A s)) = []"
proof -
  have one: "pl_running (fst (stop_worker A i x)) = pl_running (fst x)" for i and x :: "worker_pool \<times> 'a pool_env"
    by (simp add: stop_worker_def leave_def Let_def case_prod_beta)
  have "pl_running (fst (fold (stop_worker A) is x)) = pl_running (fst x)" for "is" and x :: "worker_pool \<times> 'a pool_env"
    by (induction "is" arbitrary: x) (simp_all add: one)
  then show ?thesis using assms by (auto simp: pool_stop_def Let_def case_prod_beta)
qed

lemma io_close_running [simp]: "io_running (io_close H i s) = io_running s"
  by (simp add: io_close_def set_conn_def case_prod_beta split: option.split)

lemma io_stop_begin_down: "\<not> io_running (io_stop_begin H s)"
proof -
  have "io_running (fold (io_close H) is x) = io_running x" for "is" x
    by (induction "is" arbitrary: x) simp_all
  then show ?thesis by (simp add: io_stop_begin_def)
qed

text \<open>Closing the connections tells the services, whose lanes stay.\<close>

lemma io_step_running: "io_step H st s s' \<Longrightarrow> io_running s' = io_running s"
proof (induction rule: io_step.induct)
  case (i_register bind_ok peer i s r s')
  from i_register(1) show ?case
    by (cases rule: io_register_cases) (simp_all add: io_reserve_id_def)
next
  case (i_start i s ok s')
  then show ?case by (auto simp: io_begin_receive_def set_conn_def split: option.splits prod.splits bool.splits)
qed (auto simp: set_conn_def io_reserve_id_def sweep_table_def)

lemma io_run_running: "(io_step H st)\<^sup>*\<^sup>* s s' \<Longrightarrow> io_running s' = io_running s"
  by (induction rule: rtranclp_induct) (simp_all add: io_step_running)

lemma log_started [simp]: "g_running (snd (log_start path level mb keep t opn lg))"
  by (simp add: log_start_def Let_def)

lemma log_stopped: "\<not> g_running (log_stop t ren opn lg) \<and> (g_running lg \<longrightarrow> \<not> g_file (log_stop t ren opn lg))"
  by (auto simp: log_stop_def close_file_def Logger.drain_def Let_def case_prod_beta)

lemma accepted_props:
  assumes "accepted\<^sup>*\<^sup>* a a'" "ac_inv a"
  shows "ac_inv a' \<and> ac_listen a' = ac_listen a \<and> ac_stopping a' = ac_stopping a \<and> length (ac_ops a') = length (ac_ops a)"
  using assms
proof (induction rule: rtranclp_induct)
  case (step b c)
  then obtain i ok s x where i: "i < length (ac_ops b)" "c = on_accept_done ok s x i (take_op i b)" by (auto simp: accepted_def)
  from done_inv[OF _ i] step show ?case by simp
qed simp

lemma held_listen: "ac_held a = {#} \<Longrightarrow> ac_listen a = None"
  by (cases "ac_listen a") (simp_all add: ac_held_def)

lemma acceptor_stopped:
  assumes "ac_inv a"
  shows "ac_inv (ac_stop a) \<and> ac_held (ac_stop a) = {#} \<and> ac_listen (ac_stop a) = None \<and> ac_stopping (ac_stop a)"
proof -
  have "accounted (ac_ledger a) (ac_held a)" using assms by (simp add: ac_inv_def)
  then have st: "ac_inv (ac_stop a) \<and> ac_stopping (ac_stop a)" by (rule stop_inv)
  then have "ac_held (ac_stop a) = {#}" unfolding ac_inv_def by blast
  with st held_listen show ?thesis by blast
qed

lemma post_all_fails:
  "ac_inv a \<Longrightarrow> \<not> ac_stopping a \<Longrightarrow> post_all outcomes a = (False, a') \<Longrightarrow> ac_stopping a'"
proof (induction outcomes a rule: post_all.induct)
  case (2 s x outcomes a)
  let ?b = "a\<lparr>ac_ops := ac_ops a @ [\<lparr>ao_socket = None, ao_armed = False\<rparr>]\<rparr>"
  obtain ok1 a1 where p: "post_accept s x (length (ac_ops ?b) - 1) ?b = (ok1, a1)" by fastforce
  have "held_by_ops (ac_ops ?b) = held_by_ops (ac_ops a)" by (simp add: held_by_ops_def)
  then have b: "ac_inv ?b" using "2.prems"(1) by (auto simp: ac_inv_def ac_held_def nth_append)
  have "idle_op (length (ac_ops ?b) - 1) ?b" by (simp add: idle_op_def)
  from post_accept_inv[OF b this p] "2.prems"(2) have a1: "ac_inv a1" "\<not> ac_stopping a1" by simp_all
  show ?case
  proof (cases ok1)
    case True
    with "2.IH"[OF refl p[symmetric] True a1] "2.prems"(3) p show ?thesis by (simp add: Let_def)
  next
    case False
    then have "a' = ac_stop a1" using "2.prems"(3) p by (auto simp: Let_def)
    then show ?thesis using acceptor_stopped[OF a1(1)] by simp
  qed
qed simp

lemma acceptor_started:
  assumes "ac_start s b l p outcomes acceptor_new = (ok, a)"
  shows "ac_inv a \<and> (ok \<longrightarrow> ac_listen a \<noteq> None \<and> \<not> ac_stopping a) \<and>
    (\<not> ok \<longrightarrow> ac_held a = {#} \<and> ac_listen a = None \<and> (ac_stopping a \<or> ac_ops a = []))"
proof -
  note inv = ac_start_inv[OF assms]
  have "ac_stopping a \<or> ac_listen a = None \<and> ac_ops a = []" if no: "\<not> ok"
  proof -
    obtain h lg where m: "make_socket s (ac_ledger acceptor_new) = (h, lg)" by fastforce
    let ?a = "acceptor_new\<lparr>ac_listen := h, ac_ledger := lg\<rparr>"
    have ai: "ac_inv ?a" "\<not> ac_stopping ?a"
      using accounted_make[OF accounted_new] m by (simp_all add: acceptor_new_def ac_inv_def ac_held_def held_by_ops_def)
    consider "h = None" | "h \<noteq> None" "\<not> b \<or> \<not> l \<or> \<not> p" | "h \<noteq> None" "b" "l" "p" by blast
    then show ?thesis
    proof cases
      case 1
      then show ?thesis using assms m by (auto simp: ac_start_def Let_def acceptor_new_def)
    next
      case 2
      then have "a = ac_stop ?a" using assms m by (auto simp: ac_start_def Let_def)
      then show ?thesis using acceptor_stopped[OF ai(1)] by simp
    next
      case 3
      then have "post_all (map outcomes [0..<kBacklogOps]) ?a = (False, a)"
        using assms m no by (auto simp: ac_start_def Let_def split: if_splits)
      from post_all_fails[OF ai this] show ?thesis by simp
    qed
  qed
  then show ?thesis using inv held_listen by (auto simp: ac_inv_def ac_held_def held_by_ops_def)
qed

text \<open>Closing the connections tells the services; their lanes stay.\<close>

lemma disconnected_lanes:
  "sv_lanes (rt_game (rt_post_disconnected now i rt)) = [] \<longleftrightarrow> sv_lanes (rt_game rt) = []"
  "sv_lanes (rt_chat (rt_post_disconnected now i rt)) = [] \<longleftrightarrow> sv_lanes (rt_chat rt) = []"
proof -
  have one: "sv_lanes (sv_post_disconnected now i sv) = [] \<longleftrightarrow> sv_lanes sv = []" for sv :: "'b service"
    by (simp add: sv_post_disconnected_def upd_lane_def)
  have "sv_lanes (rt_game (fold (rt_disconnect_one now i) is rt)) = [] \<longleftrightarrow> sv_lanes (rt_game rt) = []"
    "sv_lanes (rt_chat (fold (rt_disconnect_one now i) is rt)) = [] \<longleftrightarrow> sv_lanes (rt_chat rt) = []" for "is"
    by (induction "is" arbitrary: rt) (auto simp: rt_disconnect_one_def one split: service_id.splits)
  then show "sv_lanes (rt_game (rt_post_disconnected now i rt)) = [] \<longleftrightarrow> sv_lanes (rt_game rt) = []"
    "sv_lanes (rt_chat (rt_post_disconnected now i rt)) = [] \<longleftrightarrow> sv_lanes (rt_chat rt) = []"
    by (simp_all add: rt_post_disconnected_def)
qed

definition io_lanes :: "'p server_app io_service \<Rightarrow> bool \<times> bool" where
  "io_lanes io = (sv_lanes (rt_game (sa_router (e_app (io_env io)))) \<noteq> [], sv_lanes (rt_chat (sa_router (e_app (io_env io)))) \<noteq> [])"

lemma lanes_io: "lanes s = io_lanes (pr_io s)"
  by (simp add: lanes_def io_lanes_def the_router_def)

lemma io_close_lanes: "io_lanes (io_close (server_hooks os) i io) = io_lanes io"
proof (cases "io_find i io")
  case (Some kc)
  obtain c' e' where c: "conn_close (server_hooks os) (snd kc, io_env io) = (c', e')"
    by (cases "conn_close (server_hooks os) (snd kc, io_env io)")
  have "e_app e' = e_app (io_env io) \<or> e_app e' = server_on_close (c_id (snd kc)) (e_app (io_env io))"
    using close_app[of os "(snd kc, io_env io)"] c by simp
  then show ?thesis
    using Some c by (cases kc) (auto simp: io_close_def io_lanes_def set_conn_def server_on_close_def disconnected_lanes)
qed (simp add: io_close_def)

lemma io_stop_lanes: "io_lanes (io_stop_begin (server_hooks os) io) = io_lanes io"
proof -
  have "io_lanes (fold (io_close (server_hooks os)) is x) = io_lanes x" for "is" and x :: "'a server_app io_service"
    by (induction "is" arbitrary: x) (simp_all add: io_close_lanes)
  then show ?thesis by (simp add: io_stop_begin_def io_lanes_def)
qed

section \<open>The invariant\<close>

lemma none_accepted: "accepted\<^sup>*\<^sup>* a a' \<Longrightarrow> ac_ops a = [] \<Longrightarrow> a' = a"
  by (erule converse_rtranclpE) (auto simp: accepted_def)

lemma others_acceptor:
  assumes "others os s s'" "acceptor_ok s"
  shows "acceptor_ok s'"
proof -
  have "pr_acceptor s' = pr_acceptor s \<or> accepted\<^sup>*\<^sup>* (pr_acceptor s) (pr_acceptor s')"
    using assms(1) by (simp add: others_def split: if_splits)
  then have run: "accepted\<^sup>*\<^sup>* (pr_acceptor s) (pr_acceptor s')" by auto
  have pc: "pr_pc s' = pr_pc s" using assms(1) by (simp add: others_def)
  have inv: "ac_inv (pr_acceptor s)" using assms(2) by (simp add: acceptor_ok_def)
  note p = accepted_props[OF run inv]
  show ?thesis
  proof (cases "ac_ops (pr_acceptor s) = []")
    case True
    then have "pr_acceptor s' = pr_acceptor s" using none_accepted[OF run] by simp
    with assms(2) pc show ?thesis by (simp add: acceptor_ok_def)
  next
    case False
    then have n: "\<not> not_yet_accepting (pr_pc s)" using assms(2) by (auto simp: acceptor_ok_def acceptor_new_def)
    have "ac_held (pr_acceptor s') = {#}" if "\<not> accepting (pr_pc s)"
    proof -
      have "ac_stopping (pr_acceptor s)" using that n False assms(2) by (simp add: acceptor_ok_def)
      with p show ?thesis unfolding ac_inv_def by blast
    qed
    with n p pc assms(2) False show ?thesis by (simp add: acceptor_ok_def)
  qed
qed

lemma main_acceptor:
  assumes "acceptor_ok s"
  shows "acceptor_ok (main_next os A D pool cfg a s)"
proof (cases "pr_pc s")
  case At_acceptor
  then have new: "pr_acceptor s = acceptor_new" using assms by (simp add: acceptor_ok_def)
  obtain up ac where st: "ac_start (an_socket a) (an_bind a) (an_listen a) (an_port a) (an_accepts a) acceptor_new = (up, ac)" by fastforce
  from acceptor_started[OF st] show ?thesis by (cases up) (simp_all add: main_next_def At_acceptor new st acceptor_ok_def)
next
  case (Stop_acceptor c)
  then have "ac_inv (pr_acceptor s)" using assms by (simp add: acceptor_ok_def)
  from acceptor_stopped[OF this] show ?thesis by (cases "c = 0") (simp_all add: main_next_def Stop_acceptor acceptor_ok_def)
qed (use assms in \<open>auto simp: main_next_def acceptor_ok_def serve_turn_def ac_held_def held_by_ops_def acceptor_new_def
    split: prod.splits if_splits\<close>)

lemma others_parts:
  assumes "others os s s'" "parts_ok cfg s"
  shows "parts_ok cfg s'"
proof -
  have run: "io_running (pr_io s') = io_running (pr_io s)"
    using assms(1) io_run_running by (auto simp: others_def split: if_splits)
  have idle: "\<not> io_threads (pr_pc s) \<longrightarrow> io_conns (pr_io s') = [] \<and> io_workers (pr_io s') = 0"
  proof
    assume "\<not> io_threads (pr_pc s)"
    then have z: "io_conns (pr_io s) = []" "io_workers (pr_io s) = 0" using assms(2) by (simp_all add: parts_ok_def)
    then obtain e where "pr_io s' = (pr_io s)\<lparr>io_env := e\<rparr>" using assms(1) by (auto simp: others_def)
    with z show "io_conns (pr_io s') = [] \<and> io_workers (pr_io s') = 0" by simp
  qed
  have w: "pl_workers (fst (pr_db s')) = [] \<longleftrightarrow> pl_workers (fst (pr_db s)) = []"
    using assms(1) by (simp add: others_def flip: length_0_conv)
  show ?thesis using assms run idle w by (simp add: others_def parts_ok_def)
qed

lemma main_parts:
  assumes "parts_ok cfg s"
  shows "parts_ok cfg (main_next os A D pool cfg a s)"
proof (cases "pr_pc s")
  case At_services
  obtain ok rt where r: "rt_start D pool (sc_services cfg) (the_router s) = (ok, rt)" by fastforce
  have "sv_lanes (rt_game (the_router s)) = []" "sv_lanes (rt_chat (the_router s)) = []"
    using assms At_services by (simp_all add: parts_ok_def lanes_def)
  from rt_start_lanes[OF this r] assms At_services r show ?thesis by (cases ok) (auto simp: main_next_def parts_ok_def)
next
  case At_acceptor
  obtain up ac where "ac_start (an_socket a) (an_bind a) (an_listen a) (an_port a) (an_accepts a) (pr_acceptor s) = (up, ac)" by fastforce
  then show ?thesis using assms At_acceptor by (cases up) (auto simp: main_next_def parts_ok_def)
next
  case At_pool
  then have "\<not> pl_running (fst (pr_db s))" "pl_workers (fst (pr_db s)) = []" using assms by (simp_all add: parts_ok_def)
  note u = pool_start_up[OF this]
  show ?thesis using assms u by (auto simp: main_next_def parts_ok_def At_pool)
next
  case (Stop_pool c)
  then have "\<not> pl_running (fst (pr_db s)) \<longrightarrow> pl_workers (fst (pr_db s)) = []" using assms by (simp add: parts_ok_def)
  from pool_stopped[OF this, of A] assms show ?thesis by (cases "pr_db s") (auto simp: main_next_def parts_ok_def Stop_pool)
next
  case At_io
  then show ?thesis using assms
    by (auto simp: main_next_def parts_ok_def lanes_io io_lanes_def io_start_def Let_def)
next
  case (Stop_io c)
  then have "io_running (pr_io s)" using assms by (simp add: parts_ok_def)
  then show ?thesis using assms io_stop_begin_down[of "server_hooks os" "pr_io s"] io_stop_lanes[of os "pr_io s"]
    by (auto simp: main_next_def parts_ok_def Stop_io lanes_io)
next
  case (Join_io c)
  then show ?thesis using assms by (auto simp: main_next_def parts_ok_def io_stop_end_def lanes_io io_lanes_def)
next
  case (Stop_log c)
  then have "g_running (pr_log s)" using assms by (simp add: parts_ok_def)
  then show ?thesis using assms log_stopped[of "an_time a" "an_rename a" "an_open a" "pr_log s"]
    by (auto simp: main_next_def parts_ok_def Stop_log)
next
  case (Stop_services c)
  then show ?thesis using assms by (auto simp: main_next_def parts_ok_def rt_stop_def sv_stop_def)
next
  case Begin_pool_drain
  then show ?thesis using assms by (auto simp: main_next_def parts_ok_def pool_begin_drain_def)
next
  case (Drain_services d)
  then have l: "sv_lanes (rt_game (the_router s)) \<noteq> []" "sv_lanes (rt_chat (the_router s)) \<noteq> []"
    using assms by (simp_all add: parts_ok_def lanes_def)
  show ?thesis using assms l by (auto simp: main_next_def parts_ok_def Drain_services sv_wake_all_def)
qed (use assms in \<open>auto simp: main_next_def parts_ok_def serve_turn_def admin_start_def admin_stop_def split: if_splits\<close>)

lemma process_inv_new: "parts_ok cfg (process_new dir e) \<and> acceptor_ok (process_new dir e)"
  by (simp add: parts_ok_def acceptor_ok_def process_new_def logger_init_def lanes_def the_router_def io_new_def env_init_def
      router_new_def service_new_def pool_new_def admin_new_def ac_inv_def acceptor_new_def ac_held_def held_by_ops_def accounted_new)

lemma process_inv_step: "process_step os A D pool cfg s s' \<Longrightarrow> parts_ok cfg s \<and> acceptor_ok s \<Longrightarrow> parts_ok cfg s' \<and> acceptor_ok s'"
  by (induction rule: process_step.induct) (auto intro: main_parts main_acceptor others_parts others_acceptor)

lemma process_inv_run: "(process_step os A D pool cfg)\<^sup>*\<^sup>* s s' \<Longrightarrow> parts_ok cfg s \<and> acceptor_ok s \<Longrightarrow> parts_ok cfg s' \<and> acceptor_ok s'"
proof (induction rule: rtranclp_induct)
  case (step y z)
  from process_inv_step[OF step(2)] step show ?case by simp
qed simp

lemma rt_start_ok:
  assumes "sv_lanes (rt_game rt) = []" "sv_lanes (rt_chat rt) = []"
  shows "fst (rt_start D pool opt rt)"
  using assms by (simp add: rt_start_def sv_start_def game_ops_def game_on_created_def chat_ops_def chat_on_created_def Let_def)

text \<open>With every call answered well, the server comes up.\<close>

definition all_well :: "answers \<Rightarrow> bool" where
  "all_well a \<longleftrightarrow> an_library a \<and> an_wsa a \<and> an_port a \<and> an_socket a \<and> an_bind a \<and> an_listen a \<and> an_accepts a = (\<lambda>_. (True, True))"

lemma next_call:
  assumes "parts_ok cfg s \<and> acceptor_ok s" "all_well a"
  shows "pr_pc s = At_log \<Longrightarrow> pr_pc (main_next os A D pool cfg a s) = At_library"
    "pr_pc s = At_library \<Longrightarrow> pr_pc (main_next os A D pool cfg a s) = At_services"
    "pr_pc s = At_services \<Longrightarrow> pr_pc (main_next os A D pool cfg a s) = At_pool"
    "pr_pc s = At_pool \<Longrightarrow> pr_pc (main_next os A D pool cfg a s) = At_io"
    "pr_pc s = At_io \<Longrightarrow> pr_pc (main_next os A D pool cfg a s) = At_acceptor"
    "pr_pc s = At_acceptor \<Longrightarrow> pr_pc (main_next os A D pool cfg a s) = At_admin"
    "pr_pc s = At_admin \<Longrightarrow> pr_pc (main_next os A D pool cfg a s) = Serving"
proof -
  show "pr_pc s = At_log \<Longrightarrow> pr_pc (main_next os A D pool cfg a s) = At_library" by (simp add: main_next_def)
  show "pr_pc s = At_library \<Longrightarrow> pr_pc (main_next os A D pool cfg a s) = At_services" using assms(2) by (simp add: main_next_def all_well_def)
  show "pr_pc s = At_services \<Longrightarrow> pr_pc (main_next os A D pool cfg a s) = At_pool"
    using assms(1) rt_start_ok[of "the_router s" D pool "sc_services cfg"]
    by (simp add: main_next_def case_prod_beta parts_ok_def lanes_def)
  show "pr_pc s = At_pool \<Longrightarrow> pr_pc (main_next os A D pool cfg a s) = At_io" by (simp add: main_next_def)
  show "pr_pc s = At_io \<Longrightarrow> pr_pc (main_next os A D pool cfg a s) = At_acceptor"
    using assms by (simp add: main_next_def all_well_def parts_ok_def io_start_def Let_def)
  show "pr_pc s = At_acceptor \<Longrightarrow> pr_pc (main_next os A D pool cfg a s) = At_admin"
    using assms arg_cong[OF demo_acceptor_start, of fst] by (simp add: main_next_def all_well_def acceptor_ok_def case_prod_beta)
  show "pr_pc s = At_admin \<Longrightarrow> pr_pc (main_next os A D pool cfg a s) = Serving"
    using assms(2) by (simp add: main_next_def all_well_def admin_start_def)
qed

lemma comes_up:
  assumes "all_well a"
  shows "\<exists>s. (process_step os A D pool cfg)\<^sup>*\<^sup>* (process_new dir e) s \<and> pr_pc s = Serving"
proof -
  let ?R = "\<lambda>s. (process_step os A D pool cfg)\<^sup>*\<^sup>* (process_new dir e) s"
  have inv: "parts_ok cfg s \<and> acceptor_ok s" if "?R s" for s using process_inv_run[OF that] process_inv_new by blast
  have go: "?R (main_next os A D pool cfg a s)" if "?R s" for s
    using that by (rule rtranclp.rtrancl_into_rtrancl) (rule p_main)
  define f where "f = main_next os A D pool cfg a"
  have s0: "?R (process_new dir e)" "pr_pc (process_new dir e) = At_log" by (simp_all add: process_new_def)
  note n = next_call[OF inv assms, where os = os and A = A and D = D and pool = pool, folded f_def] and g = go[folded f_def]
  have 1: "?R (f (process_new dir e))" "pr_pc (f (process_new dir e)) = At_library" using n(1)[OF s0] g[OF s0(1)] by simp_all
  have 2: "?R (f (f (process_new dir e)))" "pr_pc (f (f (process_new dir e))) = At_services" using n(2)[OF 1] g[OF 1(1)] by simp_all
  have 3: "?R (f (f (f (process_new dir e))))" "pr_pc (f (f (f (process_new dir e)))) = At_pool" using n(3)[OF 2] g[OF 2(1)] by simp_all
  have 4: "?R (f (f (f (f (process_new dir e)))))" "pr_pc (f (f (f (f (process_new dir e))))) = At_io"
    using n(4)[OF 3] g[OF 3(1)] by simp_all
  have 5: "?R (f (f (f (f (f (process_new dir e))))))" "pr_pc (f (f (f (f (f (process_new dir e)))))) = At_acceptor"
    using n(5)[OF 4] g[OF 4(1)] by simp_all
  have 6: "?R (f (f (f (f (f (f (process_new dir e)))))))" "pr_pc (f (f (f (f (f (f (process_new dir e))))))) = At_admin"
    using n(6)[OF 5] g[OF 5(1)] by simp_all
  have "?R (f (f (f (f (f (f (f (process_new dir e))))))))" "pr_pc (f (f (f (f (f (f (f (process_new dir e)))))))) = Serving"
    using n(7)[OF 6] g[OF 6(1)] by simp_all
  then show ?thesis by blast
qed

lemma comes_to_drain:
  assumes "all_well a"
  shows "\<exists>s. (process_step os A D pool cfg)\<^sup>*\<^sup>* (process_new dir e) s \<and> pr_pc s = Begin_pool_drain"
proof -
  obtain s where s: "(process_step os A D pool cfg)\<^sup>*\<^sup>* (process_new dir e) s" "pr_pc s = Serving"
    using comes_up[OF assms, of os A D pool cfg dir e] by blast
  let ?s1 = "s\<lparr>pr_stop := True\<rparr>"
  have "others os s ?s1" by (simp add: others_def lanes_def the_router_def exI[of _ "io_env (pr_io s)"])
  then have r1: "(process_step os A D pool cfg)\<^sup>*\<^sup>* (process_new dir e) ?s1"
    using s(1) by (meson p_others rtranclp.rtrancl_into_rtrancl)
  define s2 where "s2 = main_next os A D pool cfg a ?s1"
  define s3 where "s3 = main_next os A D pool cfg a s2"
  have "pr_pc s2 = Stop_acceptor 0" using s(2) by (simp add: s2_def main_next_def serve_turn_def)
  then have "pr_pc s3 = Begin_pool_drain" by (simp add: s3_def main_next_def)
  moreover have "(process_step os A D pool cfg)\<^sup>*\<^sup>* (process_new dir e) s3"
    using r1 unfolding s2_def s3_def by (meson p_main rtranclp.rtrancl_into_rtrancl)
  ultimately show ?thesis by blast
qed

section \<open>Properties\<close>


abbreviation good_answers :: answers where
  "good_answers \<equiv> \<lparr>an_time = demo_time, an_open = True, an_rename = True, an_library = True, an_wsa = True, an_port = True, an_cores = 8,
     an_socket = True, an_bind = True, an_listen = True, an_accepts = (\<lambda>_. (True, True)), an_now = 9\<rparr>"

abbreviation demo_config :: server_config where
  "demo_config \<equiv> read_config [] ini_new"

abbreviation demo_process :: "(unit, bool) process" where
  "demo_process \<equiv> process_new [] \<lparr>pe_db = True, pe_clock = (\<lambda>_. 0), pe_reads = 0, pe_out = []\<rparr>"


text \<open>
  A server that has been asked to stop gets to the end. A measure of what \<^verbatim>\<open>main\<close> has still to do goes down with every call,
  except for those with which a drain waits before its deadline; the other threads do not change it, and at zero it has
  returned.
\<close>

fun calls_left :: "main_pc \<Rightarrow> nat" where
  "calls_left At_log = 23" | "calls_left At_library = 22" | "calls_left At_services = 21" | "calls_left At_pool = 20"
| "calls_left At_io = 19" | "calls_left At_acceptor = 18" | "calls_left At_admin = 17" | "calls_left Serving = 16"
| "calls_left (Stop_acceptor c) = 15" | "calls_left Begin_pool_drain = 14" | "calls_left (Drain_pool d) = 13"
| "calls_left Begin_services_drain = 12" | "calls_left (Drain_services d) = 11" | "calls_left Begin_flush = 10"
| "calls_left (Flush d) = 9" | "calls_left Stop_admin = 8" | "calls_left (Stop_io c) = 7" | "calls_left (Join_io c) = 6"
| "calls_left (Stop_pool c) = 5" | "calls_left (Stop_services c) = 4" | "calls_left (Stop_library c) = 2"
| "calls_left (Stop_log c) = 1" | "calls_left (Returned c) = 0"

fun waits_until :: "main_pc \<Rightarrow> int option" where
  "waits_until (Drain_pool d) = Some d" | "waits_until (Drain_services d) = Some d" | "waits_until (Flush d) = Some d"
| "waits_until _ = None"

theorem asked_to_stop_it_returns:
  assumes "pr_stop s" "\<forall>d. waits_until (pr_pc s) = Some d \<longrightarrow> d \<le> an_now a"
  shows "(calls_left (pr_pc (main_next os A D pool cfg a s)) < calls_left (pr_pc s) \<or> (\<exists>code. pr_pc s = Returned code)) \<and>
    pr_stop (main_next os A D pool cfg a s) \<and>
    (others os s s' \<longrightarrow> calls_left (pr_pc s') = calls_left (pr_pc s) \<and> pr_stop s')"
proof -
  have "others os s s' \<longrightarrow> pr_pc s' = pr_pc s \<and> pr_stop s'" using assms(1) by (simp add: others_def)
  then show ?thesis using assms by (cases "pr_pc s") (auto simp: main_next_def serve_turn_def case_prod_beta)
qed

theorem asked_to_stop_it_returns_witness:
  "calls_left (pr_pc (main_next (\<lambda>_. True) (demo_api True) None () demo_config good_answers (demo_process\<lparr>pr_stop := True, pr_pc := Flush 5\<rparr>))) < 9"
  using asked_to_stop_it_returns[of "demo_process\<lparr>pr_stop := True, pr_pc := Flush 5\<rparr>" good_answers "\<lambda>_. True" "demo_api True" None "()" demo_config]
  by simp

end
