(* ===== verification/Logic_Thread.thy ===== *)
theory Logic_Thread
  imports Prelude
begin

text \<open>
  \<^verbatim>\<open>src/src/core/logic_thread.h\<close> and \<^verbatim>\<open>logic_thread.cpp\<close>: the thread that runs the turns of a lane, and how it is woken.
  The steps of the loop and of the callers of \<^verbatim>\<open>wake\<close> and \<^verbatim>\<open>stop\<close> are cut at every access to a shared variable, at the
  mutex and at the condition variable. What the loop runs is to take everything that waits: the queue stands for what
  the service has queued for this thread, and a caller of \<^verbatim>\<open>wake\<close> has pushed to it before.
\<close>

section \<open>Timers\<close>

record timer_slot =
  ts_interval_ms :: int
  ts_next_ms :: int

text \<open>\<open>has_fn\<close> says whether the function given is not empty.\<close>

definition lt_add_timer :: "int \<Rightarrow> bool \<Rightarrow> timer_slot list \<Rightarrow> timer_slot list" where
  "lt_add_timer interval_ms has_fn ts =
     (if interval_ms \<le> 0 \<or> \<not> has_fn then ts else ts @ [\<lparr>ts_interval_ms = interval_ms, ts_next_ms = 0\<rparr>])"

definition lt_arm :: "int \<Rightarrow> timer_slot list \<Rightarrow> timer_slot list" where
  "lt_arm start_ms ts = map (\<lambda>t. t\<lparr>ts_next_ms := start_ms + ts_interval_ms t\<rparr>) ts"

text \<open>The timers that are due run; the result lists them by their position.\<close>

definition lt_fire :: "int \<Rightarrow> timer_slot list \<Rightarrow> nat list \<times> timer_slot list" where
  "lt_fire current ts =
     (filter (\<lambda>i. current \<ge> ts_next_ms (ts ! i)) [0..<length ts],
      map (\<lambda>t. if current \<ge> ts_next_ms t then t\<lparr>ts_next_ms := current + ts_interval_ms t\<rparr> else t) ts)"

definition wait_budget_ms :: "int \<Rightarrow> int \<Rightarrow> timer_slot list \<Rightarrow> int" where
  "wait_budget_ms max_idle now ts =
     fold (\<lambda>t budget. min budget (sint (word_of_int (max 0 (ts_next_ms t - now)) :: u32))) ts max_idle"

text \<open>
  Once armed, a timer is due within its interval, an \<^verbatim>\<open>int\<close>: the conversion in \<^verbatim>\<open>wait_budget_ms\<close> loses nothing, and the
  thread sleeps no longer than until the next timer.
\<close>

definition timers_ok :: "int \<Rightarrow> timer_slot list \<Rightarrow> bool" where
  "timers_ok now ts \<longleftrightarrow> (\<forall>t\<in>set ts. 0 < ts_interval_ms t \<and> ts_interval_ms t < 2 ^ 31 \<and> ts_next_ms t \<le> now + ts_interval_ms t)"

lemma timers_ok_arm: "\<forall>t\<in>set ts. 0 < ts_interval_ms t \<and> ts_interval_ms t < 2 ^ 31 \<Longrightarrow> timers_ok now (lt_arm now ts)"
  by (simp add: timers_ok_def lt_arm_def)

lemma timers_ok_later: "timers_ok now ts \<Longrightarrow> now \<le> now' \<Longrightarrow> timers_ok now' ts"
  by (fastforce simp: timers_ok_def)

lemma timers_ok_fire: "timers_ok now ts \<Longrightarrow> timers_ok now (snd (lt_fire now ts))"
  by (auto simp: timers_ok_def lt_fire_def)


lemma sint_small: "0 \<le> x \<Longrightarrow> x < 2 ^ 31 \<Longrightarrow> sint (word_of_int x :: u32) = x"
  by (subst sint_sbintrunc', subst signed_take_bit_int_eq_self) simp_all

lemma wait_budget_fold:
  assumes "timers_ok now ts"
  shows "wait_budget_ms b now ts = fold (\<lambda>t budget. min budget (max 0 (ts_next_ms t - now))) ts b"
  using assms
proof (induction ts arbitrary: b)
  case (Cons t ts)
  have "ts_next_ms t - now < 2 ^ 31" using Cons.prems by (force simp: timers_ok_def)
  then have "max 0 (ts_next_ms t - now) < 2 ^ 31" by (simp only: max_less_iff_conj) simp
  then have "sint (word_of_int (max 0 (ts_next_ms t - now)) :: u32) = max 0 (ts_next_ms t - now)" by (intro sint_small) simp
  moreover have "timers_ok now ts" using Cons.prems by (simp add: timers_ok_def)
  ultimately show ?case using Cons.IH by (simp add: wait_budget_ms_def)
qed (simp add: wait_budget_ms_def)

lemma wait_budget_bounds:
  assumes "timers_ok now ts" "0 \<le> b"
  shows "0 \<le> wait_budget_ms b now ts \<and> wait_budget_ms b now ts \<le> b \<and>
    (\<forall>t\<in>set ts. wait_budget_ms b now ts \<le> max 0 (ts_next_ms t - now))"
proof -
  have "0 \<le> fold (\<lambda>t budget. min budget (max 0 (ts_next_ms t - now))) ts b \<and>
    fold (\<lambda>t budget. min budget (max 0 (ts_next_ms t - now))) ts b \<le> b \<and>
    (\<forall>t\<in>set ts. fold (\<lambda>t budget. min budget (max 0 (ts_next_ms t - now))) ts b \<le> max 0 (ts_next_ms t - now))"
    using assms(2)
  proof (induction ts arbitrary: b)
    case (Cons t ts)
    from Cons.IH[of "min b (max 0 (ts_next_ms t - now))"] Cons.prems show ?case by auto
  qed simp
  then show ?thesis by (simp add: wait_budget_fold[OF assms(1)])
qed

section \<open>State\<close>

datatype loop_pc = LTop | LClear | LStep | LTimers | LCheck | LSpin | LSpinCheck | LWait | LPred bool | LToSleep | LSleeping | LWoken bool | LFinal | LDone

datatype caller_pc = Idle | Pushed | Locking | Unlocking | Notifying | StopLocking | StopSetting | StopUnlocking | StopNotifying

datatype holder = Loop | Caller nat

text \<open>
  \<open>lt_taken\<close> are the items the loop has taken, \<open>lt_early\<close> those pushed before \<^verbatim>\<open>running_\<close> was cleared; neither is in the code.
\<close>

record 'x logic_thread =
  lt_running :: bool
  lt_signaled :: bool
  lt_mutex :: "holder option"
  lt_pc :: loop_pc
  lt_callers :: "caller_pc list"
  lt_spin_us :: int
  lt_max_idle_wait_ms :: int
  lt_ticks :: u64
  lt_timers :: "timer_slot list"
  lt_queue :: "'x list"
  lt_taken :: "'x list"
  lt_early :: "'x list"

text \<open>\<open>callers\<close> is the number of the other threads.\<close>

definition lt_start :: "int \<Rightarrow> int \<Rightarrow> int \<Rightarrow> timer_slot list \<Rightarrow> nat \<Rightarrow> 'x logic_thread" where
  "lt_start max_idle_wait_ms spin_us start_ms ts callers =
     \<lparr>lt_running = True, lt_signaled = False, lt_mutex = None, lt_pc = LTop, lt_callers = replicate callers Idle,
      lt_spin_us = max 0 spin_us, lt_max_idle_wait_ms = max 1 max_idle_wait_ms, lt_ticks = 0, lt_timers = lt_arm start_ms ts,
      lt_queue = [], lt_taken = [], lt_early = []\<rparr>"

definition awake :: "'x logic_thread \<Rightarrow> bool" where
  "awake s \<longleftrightarrow> lt_signaled s \<or> \<not> lt_running s"

text \<open>The loop \<^verbatim>\<open>run\<close>. The wait ends by a notification, by the time being up, or for no reason.\<close>

definition take_all_items :: "'x logic_thread \<Rightarrow> 'x logic_thread" where
  "take_all_items s = s\<lparr>lt_taken := lt_taken s @ lt_queue s, lt_queue := []\<rparr>"

definition run_timers :: "int \<Rightarrow> 'x logic_thread \<Rightarrow> 'x logic_thread" where
  "run_timers now s = s\<lparr>lt_timers := snd (lt_fire now (lt_timers s)), lt_ticks := lt_ticks s + 1\<rparr>"

definition at_pc :: "loop_pc \<Rightarrow> 'x logic_thread \<Rightarrow> 'x logic_thread" where
  "at_pc p s = s\<lparr>lt_pc := p\<rparr>"

inductive loop_step :: "'x logic_thread \<Rightarrow> 'x logic_thread \<Rightarrow> bool" where
  l_top: "lt_pc s = LTop \<Longrightarrow> loop_step s (at_pc (if lt_running s then LClear else LFinal) s)"
| l_clear: "lt_pc s = LClear \<Longrightarrow> loop_step s (at_pc LStep (s\<lparr>lt_signaled := False\<rparr>))"
| l_step: "lt_pc s = LStep \<Longrightarrow> loop_step s (at_pc LTimers (take_all_items s))"
| l_timers: "lt_pc s = LTimers \<Longrightarrow> loop_step s (at_pc LCheck (run_timers now s))"
| l_check: "lt_pc s = LCheck \<Longrightarrow> loop_step s (at_pc (if awake s then LTop else if lt_spin_us s > 0 then LSpin else LWait) s)"
| l_spin: "lt_pc s = LSpin \<Longrightarrow> loop_step s (at_pc LSpinCheck s)"
| l_spin_check: "lt_pc s = LSpinCheck \<Longrightarrow> loop_step s (at_pc (if awake s then LTop else LWait) s)"
| l_lock: "lt_pc s = LWait \<Longrightarrow> lt_mutex s = None \<Longrightarrow> loop_step s (at_pc (LPred False) (s\<lparr>lt_mutex := Some Loop\<rparr>))"
| l_pred: "lt_pc s = LPred timed_out \<Longrightarrow>
     loop_step s (if awake s \<or> timed_out then at_pc LTop (s\<lparr>lt_mutex := None\<rparr>) else at_pc LToSleep s)"
| l_sleep: "lt_pc s = LToSleep \<Longrightarrow> loop_step s (at_pc LSleeping (s\<lparr>lt_mutex := None\<rparr>))"
| l_wakeup: "lt_pc s = LSleeping \<Longrightarrow> loop_step s (at_pc (LWoken timed_out) s)"
| l_relock: "lt_pc s = LWoken timed_out \<Longrightarrow> lt_mutex s = None \<Longrightarrow> loop_step s (at_pc (LPred timed_out) (s\<lparr>lt_mutex := Some Loop\<rparr>))"
| l_final: "lt_pc s = LFinal \<Longrightarrow> loop_step s (at_pc LDone (take_all_items s))"

text \<open>The callers: pushing and \<^verbatim>\<open>wake\<close>, and \<^verbatim>\<open>stop\<close>.\<close>

definition set_caller :: "nat \<Rightarrow> caller_pc \<Rightarrow> 'x logic_thread \<Rightarrow> 'x logic_thread" where
  "set_caller i p s = s\<lparr>lt_callers := (lt_callers s)[i := p]\<rparr>"

definition notified :: "'x logic_thread \<Rightarrow> 'x logic_thread" where
  "notified s = (if lt_pc s = LSleeping then at_pc (LWoken False) s else s)"

inductive caller_step :: "'x logic_thread \<Rightarrow> 'x logic_thread \<Rightarrow> bool" where
  c_push: "i < length (lt_callers s) \<Longrightarrow> lt_callers s ! i = Idle \<Longrightarrow>
     caller_step s (set_caller i Pushed (s\<lparr>lt_queue := lt_queue s @ [x],
       lt_early := (if lt_running s then lt_early s @ [x] else lt_early s)\<rparr>))"
| c_exchange: "i < length (lt_callers s) \<Longrightarrow> lt_callers s ! i = Pushed \<Longrightarrow>
     caller_step s (set_caller i (if lt_signaled s then Idle else Locking) (s\<lparr>lt_signaled := True\<rparr>))"
| c_lock: "i < length (lt_callers s) \<Longrightarrow> lt_callers s ! i = Locking \<Longrightarrow> lt_mutex s = None \<Longrightarrow>
     caller_step s (set_caller i Unlocking (s\<lparr>lt_mutex := Some (Caller i)\<rparr>))"
| c_unlock: "i < length (lt_callers s) \<Longrightarrow> lt_callers s ! i = Unlocking \<Longrightarrow>
     caller_step s (set_caller i Notifying (s\<lparr>lt_mutex := None\<rparr>))"
| c_notify: "i < length (lt_callers s) \<Longrightarrow> lt_callers s ! i = Notifying \<Longrightarrow> caller_step s (set_caller i Idle (notified s))"
| c_stop: "i < length (lt_callers s) \<Longrightarrow> lt_callers s ! i = Idle \<Longrightarrow>
     caller_step s (set_caller i (if lt_running s then StopLocking else Idle) (s\<lparr>lt_running := False\<rparr>))"
| c_stop_lock: "i < length (lt_callers s) \<Longrightarrow> lt_callers s ! i = StopLocking \<Longrightarrow> lt_mutex s = None \<Longrightarrow>
     caller_step s (set_caller i StopSetting (s\<lparr>lt_mutex := Some (Caller i)\<rparr>))"
| c_stop_set: "i < length (lt_callers s) \<Longrightarrow> lt_callers s ! i = StopSetting \<Longrightarrow>
     caller_step s (set_caller i StopUnlocking (s\<lparr>lt_signaled := True\<rparr>))"
| c_stop_unlock: "i < length (lt_callers s) \<Longrightarrow> lt_callers s ! i = StopUnlocking \<Longrightarrow>
     caller_step s (set_caller i StopNotifying (s\<lparr>lt_mutex := None\<rparr>))"
| c_stop_notify: "i < length (lt_callers s) \<Longrightarrow> lt_callers s ! i = StopNotifying \<Longrightarrow> caller_step s (set_caller i Idle (notified s))"

abbreviation lt_step :: "'x logic_thread \<Rightarrow> 'x logic_thread \<Rightarrow> bool" where
  "lt_step s s' \<equiv> loop_step s s' \<or> caller_step s s'"


section \<open>The invariant of the hand-over\<close>

definition some_caller :: "caller_pc set \<Rightarrow> 'x logic_thread \<Rightarrow> bool" where
  "some_caller S s \<longleftrightarrow> (\<exists>i<length (lt_callers s). lt_callers s ! i \<in> S)"

abbreviation loop_holds :: "loop_pc set" where
  "loop_holds \<equiv> {LPred True, LPred False, LToSleep}"

abbreviation caller_holds :: "caller_pc set" where
  "caller_holds \<equiv> {Unlocking, StopSetting, StopUnlocking}"

definition mutex_ok :: "'x logic_thread \<Rightarrow> bool" where
  "mutex_ok s \<longleftrightarrow> (case lt_mutex s of
       None \<Rightarrow> lt_pc s \<notin> loop_holds \<and> \<not> some_caller caller_holds s
     | Some Loop \<Rightarrow> lt_pc s \<in> loop_holds \<and> \<not> some_caller caller_holds s
     | Some (Caller i) \<Rightarrow> lt_pc s \<notin> loop_holds \<and> i < length (lt_callers s) \<and> lt_callers s ! i \<in> caller_holds \<and>
         (\<forall>j<length (lt_callers s). j \<noteq> i \<longrightarrow> lt_callers s ! j \<notin> caller_holds))"

definition items_ok :: "'x logic_thread \<Rightarrow> bool" where
  "items_ok s \<longleftrightarrow> (lt_queue s \<noteq> [] \<longrightarrow> lt_signaled s \<or> lt_pc s \<in> {LStep, LFinal, LDone} \<or> some_caller {Pushed} s)"

definition sleep_ok :: "'x logic_thread \<Rightarrow> bool" where
  "sleep_ok s \<longleftrightarrow> (lt_pc s = LToSleep \<longrightarrow> awake s \<longrightarrow> some_caller {Locking, StopLocking} s) \<and>
     (lt_pc s = LSleeping \<longrightarrow> awake s \<longrightarrow> some_caller (- {Idle, Pushed}) s)"

definition stop_ok :: "'x logic_thread \<Rightarrow> bool" where
  "stop_ok s \<longleftrightarrow> (lt_pc s \<in> {LFinal, LDone} \<longrightarrow> \<not> lt_running s) \<and>
     (\<exists>late. lt_taken s @ lt_queue s = lt_early s @ late \<and> (lt_running s \<longrightarrow> late = [])) \<and>
     (lt_pc s = LDone \<longrightarrow> (\<exists>late. lt_taken s = lt_early s @ late))"

definition lt_inv :: "'x logic_thread \<Rightarrow> bool" where
  "lt_inv s \<longleftrightarrow> mutex_ok s \<and> items_ok s \<and> sleep_ok s \<and> stop_ok s"

lemma some_caller_set:
  "i < length (lt_callers s) \<Longrightarrow> some_caller S (set_caller i p s) \<longleftrightarrow>
     p \<in> S \<or> (\<exists>j<length (lt_callers s). j \<noteq> i \<and> lt_callers s ! j \<in> S)"
  by (auto simp: some_caller_def set_caller_def nth_list_update)

lemma some_caller_keep:
  "i < length (lt_callers s) \<Longrightarrow> some_caller S s \<Longrightarrow> lt_callers s ! i \<notin> S \<Longrightarrow> some_caller S (set_caller i p s)"
  unfolding some_caller_set by (auto simp: some_caller_def)

lemma callers_frame [simp]:
  "some_caller S (at_pc p s) = some_caller S s" "some_caller S (s\<lparr>lt_signaled := b\<rparr>) = some_caller S s"
  "some_caller S (s\<lparr>lt_running := b\<rparr>) = some_caller S s" "some_caller S (s\<lparr>lt_mutex := m\<rparr>) = some_caller S s"
  "some_caller S (s\<lparr>lt_queue := q, lt_early := l\<rparr>) = some_caller S s" "some_caller S (take_all_items s) = some_caller S s"
  "some_caller S (run_timers now s) = some_caller S s"
  by (simp_all add: some_caller_def at_pc_def take_all_items_def run_timers_def)

lemma lt_inv_start: "lt_inv (lt_start m sp t0 ts n)"
  by (auto simp: lt_inv_def mutex_ok_def items_ok_def sleep_ok_def stop_ok_def lt_start_def some_caller_def)

lemma fields_at_pc [simp]:
  "lt_pc (at_pc p s) = p" "lt_callers (at_pc p s) = lt_callers s" "lt_mutex (at_pc p s) = lt_mutex s" "lt_queue (at_pc p s) = lt_queue s"
  "lt_signaled (at_pc p s) = lt_signaled s" "lt_running (at_pc p s) = lt_running s" "lt_taken (at_pc p s) = lt_taken s" "lt_early (at_pc p s) = lt_early s"
  by (simp_all add: at_pc_def)

lemma fields_items [simp]:
  "lt_pc (take_all_items s) = lt_pc s" "lt_callers (take_all_items s) = lt_callers s" "lt_mutex (take_all_items s) = lt_mutex s"
  "lt_queue (take_all_items s) = []" "lt_signaled (take_all_items s) = lt_signaled s" "lt_running (take_all_items s) = lt_running s"
  "lt_taken (take_all_items s) = lt_taken s @ lt_queue s" "lt_early (take_all_items s) = lt_early s"
  by (simp_all add: take_all_items_def)

lemma fields_timers [simp]:
  "lt_pc (run_timers n s) = lt_pc s" "lt_callers (run_timers n s) = lt_callers s" "lt_mutex (run_timers n s) = lt_mutex s"
  "lt_queue (run_timers n s) = lt_queue s" "lt_signaled (run_timers n s) = lt_signaled s" "lt_running (run_timers n s) = lt_running s"
  "lt_taken (run_timers n s) = lt_taken s" "lt_early (run_timers n s) = lt_early s"
  by (simp_all add: run_timers_def)

lemma fields_caller [simp]:
  "lt_pc (set_caller i p s) = lt_pc s" "lt_callers (set_caller i p s) = (lt_callers s)[i := p]" "lt_mutex (set_caller i p s) = lt_mutex s"
  "lt_queue (set_caller i p s) = lt_queue s" "lt_signaled (set_caller i p s) = lt_signaled s" "lt_running (set_caller i p s) = lt_running s"
  "lt_taken (set_caller i p s) = lt_taken s" "lt_early (set_caller i p s) = lt_early s"
  by (simp_all add: set_caller_def)

lemma fields_notified [simp]:
  "lt_callers (notified s) = lt_callers s" "lt_mutex (notified s) = lt_mutex s" "lt_queue (notified s) = lt_queue s"
  "lt_signaled (notified s) = lt_signaled s" "lt_running (notified s) = lt_running s" "lt_taken (notified s) = lt_taken s"
  "lt_early (notified s) = lt_early s" "lt_pc (notified s) = (if lt_pc s = LSleeping then LWoken False else lt_pc s)"
  by (simp_all add: notified_def)

lemma some_caller_cong: "lt_callers s' = lt_callers s \<Longrightarrow> some_caller S s' = some_caller S s"
  by (simp add: some_caller_def)

text \<open>A step of the loop that does not touch the mutex stays on the same side of the boundary.\<close>

lemma mutex_ok_same:
  assumes "mutex_ok s" "lt_mutex s' = lt_mutex s" "lt_callers s' = lt_callers s" "lt_pc s \<in> loop_holds \<longleftrightarrow> lt_pc s' \<in> loop_holds"
  shows "mutex_ok s'"
  using assms some_caller_cong[OF assms(3), of caller_holds] unfolding mutex_ok_def
  by (simp only: split: option.splits holder.splits)

lemma mutex_ok_take:
  assumes "mutex_ok s" "lt_mutex s = None" "lt_mutex s' = Some Loop" "lt_callers s' = lt_callers s" "lt_pc s' \<in> loop_holds"
  shows "mutex_ok s'"
  using assms some_caller_cong[OF assms(4), of caller_holds] by (simp add: mutex_ok_def)

lemma mutex_ok_give:
  assumes "mutex_ok s" "lt_pc s \<in> loop_holds" "lt_mutex s' = None" "lt_callers s' = lt_callers s" "lt_pc s' \<notin> loop_holds"
  shows "mutex_ok s'"
  using assms some_caller_cong[OF assms(4), of caller_holds] by (auto simp: mutex_ok_def split: option.splits holder.splits)

lemma mutex_ok_loop: "loop_step s s' \<Longrightarrow> mutex_ok s \<Longrightarrow> mutex_ok s'"
proof (induction rule: loop_step.induct)
  case (l_lock s)
  then show ?case by (intro mutex_ok_take[OF l_lock(3,2)]) simp_all
next
  case (l_relock s t)
  then show ?case by (intro mutex_ok_take[OF l_relock(3,2)]) (cases t; simp)+
next
  case (l_pred s t)
  then show ?case
    by (cases "awake s \<or> t"; cases t) (auto intro: mutex_ok_give[OF l_pred(2)] mutex_ok_same[OF l_pred(2)])
next
  case (l_sleep s)
  then show ?case by (intro mutex_ok_give[OF l_sleep(2)]) simp_all
qed (auto intro: mutex_ok_same)

lemma items_ok_loop: "loop_step s s' \<Longrightarrow> items_ok s \<Longrightarrow> items_ok s'"
  by (induction rule: loop_step.induct)
    (auto simp: items_ok_def)

lemma sleep_ok_loop: "loop_step s s' \<Longrightarrow> sleep_ok s \<Longrightarrow> sleep_ok s'"
proof (induction rule: loop_step.induct)
  case (l_sleep s)
  then have "awake s \<longrightarrow> some_caller {Locking, StopLocking} s" by (simp add: sleep_ok_def)
  then have "awake s \<longrightarrow> some_caller (- {Idle, Pushed}) s" by (auto simp: some_caller_def)
  then show ?case by (simp add: sleep_ok_def awake_def some_caller_def at_pc_def)
qed (auto simp: sleep_ok_def awake_def at_pc_def take_all_items_def run_timers_def)

lemma stop_ok_loop: "loop_step s s' \<Longrightarrow> stop_ok s \<Longrightarrow> stop_ok s'"
  by (induction rule: loop_step.induct) (auto simp: stop_ok_def at_pc_def take_all_items_def run_timers_def)

lemma lt_inv_loop: "loop_step s s' \<Longrightarrow> lt_inv s \<Longrightarrow> lt_inv s'"
  by (simp add: lt_inv_def mutex_ok_loop items_ok_loop sleep_ok_loop stop_ok_loop)

lemma mutex_ok_caller_same:
  assumes ok: "mutex_ok s" and i: "i < length (lt_callers s)" "lt_callers s ! i \<in> caller_holds \<longleftrightarrow> p \<in> caller_holds"
    and s': "lt_mutex s' = lt_mutex s" "lt_callers s' = (lt_callers s)[i := p]" "lt_pc s \<in> loop_holds \<longleftrightarrow> lt_pc s' \<in> loop_holds"
  shows "mutex_ok s'"
proof -
  have same: "j < length (lt_callers s) \<Longrightarrow> (lt_callers s)[i := p] ! j \<in> caller_holds \<longleftrightarrow> lt_callers s ! j \<in> caller_holds" for j
    using i(2) by (cases "j = i") simp_all
  have "some_caller caller_holds s' = some_caller caller_holds s"
    unfolding some_caller_def s' length_list_update using same by blast
  then show ?thesis
    using ok same s' unfolding mutex_ok_def by (cases "lt_mutex s") (auto split: holder.splits)
qed

lemma mutex_ok_caller_take:
  assumes "mutex_ok s" "i < length (lt_callers s)" "lt_mutex s = None" "lt_mutex s' = Some (Caller i)"
    "lt_callers s' = (lt_callers s)[i := p]" "p \<in> caller_holds" "lt_pc s' = lt_pc s"
  shows "mutex_ok s'"
  using assms by (simp add: mutex_ok_def some_caller_def)

lemma mutex_ok_caller_give:
  assumes "mutex_ok s" "i < length (lt_callers s)" "lt_callers s ! i \<in> caller_holds" "lt_mutex s' = None"
    "lt_callers s' = (lt_callers s)[i := p]" "p \<notin> caller_holds" "lt_pc s' = lt_pc s"
  shows "mutex_ok s'"
proof -
  have m: "lt_mutex s = Some (Caller i)"
    using assms(1-3) by (auto simp: mutex_ok_def some_caller_def split: option.splits holder.splits)
  then have "\<forall>j<length (lt_callers s). j \<noteq> i \<longrightarrow> lt_callers s ! j \<notin> caller_holds" "lt_pc s \<notin> loop_holds"
    using assms(1) by (simp_all add: mutex_ok_def)
  moreover have "\<not> some_caller caller_holds s'"
    using calculation assms(2,5,6) by (auto simp: some_caller_def nth_list_update)
  ultimately show ?thesis using assms(4,7) by (simp add: mutex_ok_def)
qed

lemma mutex_ok_caller: "caller_step s s' \<Longrightarrow> mutex_ok s \<Longrightarrow> mutex_ok s'"
proof (induction rule: caller_step.induct)
  case (c_lock i s)
  then show ?case by - (rule mutex_ok_caller_take[where s = s and i = i and p = Unlocking], simp_all)
next
  case (c_stop_lock i s)
  then show ?case by - (rule mutex_ok_caller_take[where s = s and i = i and p = StopSetting], simp_all)
next
  case (c_unlock i s)
  then show ?case by - (rule mutex_ok_caller_give[where s = s and i = i and p = Notifying], simp_all)
next
  case (c_stop_unlock i s)
  then show ?case by - (rule mutex_ok_caller_give[where s = s and i = i and p = StopNotifying], simp_all)
next
  case (c_push i s x)
  then show ?case by - (rule mutex_ok_caller_same[where p = Pushed and i = i and s = s], simp_all)
next
  case (c_exchange i s)
  then show ?case by - (rule mutex_ok_caller_same[where p = "if lt_signaled s then Idle else Locking" and i = i and s = s], simp_all)
next
  case (c_notify i s)
  then show ?case by - (rule mutex_ok_caller_same[where p = Idle and i = i and s = s], auto)
next
  case (c_stop i s)
  then show ?case by - (rule mutex_ok_caller_same[where p = "if lt_running s then StopLocking else Idle" and i = i and s = s], simp_all)
next
  case (c_stop_set i s)
  then show ?case by - (rule mutex_ok_caller_same[where p = StopUnlocking and i = i and s = s], simp_all)
next
  case (c_stop_notify i s)
  then show ?case by - (rule mutex_ok_caller_same[where p = Idle and i = i and s = s], auto)
qed

lemma items_ok_frame:
  assumes "items_ok s" "i < length (lt_callers s)" "lt_callers s ! i \<noteq> Pushed" "lt_callers s' = (lt_callers s)[i := p]"
    "lt_queue s' = lt_queue s" "lt_signaled s \<longrightarrow> lt_signaled s'" "lt_pc s \<in> {LStep, LFinal, LDone} \<longrightarrow> lt_pc s' \<in> {LStep, LFinal, LDone}"
  shows "items_ok s'"
proof -
  have "some_caller {Pushed} s \<Longrightarrow> some_caller {Pushed} s'"
    using assms(2-4) unfolding some_caller_def assms(4) length_list_update by (metis nth_list_update_neq singletonD)
  then show ?thesis using assms(1,5-7) by (auto simp: items_ok_def)
qed

lemma items_ok_caller: "caller_step s s' \<Longrightarrow> items_ok s \<Longrightarrow> items_ok s'"
proof (induction rule: caller_step.induct)
  case (c_push i s x)
  then show ?case by (simp add: items_ok_def some_caller_set)
next
  case (c_exchange i s)
  then show ?case by (simp add: items_ok_def)
next
  case (c_lock i s)
  then show ?case by - (rule items_ok_frame[where s = s and i = i and p = Unlocking], simp_all)
next
  case (c_unlock i s)
  then show ?case by - (rule items_ok_frame[where s = s and i = i and p = Notifying], simp_all)
next
  case (c_notify i s)
  then show ?case by - (rule items_ok_frame[where s = s and i = i and p = Idle], auto)
next
  case (c_stop i s)
  then show ?case by - (rule items_ok_frame[where s = s and i = i and p = "if lt_running s then StopLocking else Idle"], simp_all)
next
  case (c_stop_lock i s)
  then show ?case by - (rule items_ok_frame[where s = s and i = i and p = StopSetting], simp_all)
next
  case (c_stop_set i s)
  then show ?case by - (rule items_ok_frame[where s = s and i = i and p = StopUnlocking], simp_all)
next
  case (c_stop_unlock i s)
  then show ?case by - (rule items_ok_frame[where s = s and i = i and p = StopNotifying], simp_all)
next
  case (c_stop_notify i s)
  then show ?case by - (rule items_ok_frame[where s = s and i = i and p = Idle], auto)
qed

lemma sleep_ok_frame:
  assumes "sleep_ok s" "i < length (lt_callers s)" "lt_callers s ! i \<in> {Idle, Pushed} \<or> p \<notin> {Idle, Pushed} \<and> lt_pc s \<noteq> LToSleep"
    "lt_callers s' = (lt_callers s)[i := p]" "awake s' = awake s" "lt_pc s' = lt_pc s"
  shows "sleep_ok s'"
proof -
  have keep: "some_caller S s \<Longrightarrow> some_caller S s'" if "lt_callers s ! i \<notin> S \<or> p \<in> S" for S
    using that assms(2) unfolding some_caller_def assms(4) length_list_update by (metis nth_list_update)
  from assms(3) show ?thesis
    using assms(1) keep[of "{Locking, StopLocking}"] keep[of "- {Idle, Pushed}"] unfolding sleep_ok_def assms(5,6) by auto
qed

lemma sleep_ok_caller: "caller_step s s' \<Longrightarrow> sleep_ok s \<Longrightarrow> mutex_ok s \<Longrightarrow> sleep_ok s'"
proof (induction rule: caller_step.induct)
  case (c_push i s x)
  then show ?case by - (rule sleep_ok_frame[where s = s and i = i and p = Pushed], simp_all add: awake_def)
next
  case (c_exchange i s)
  show ?case
  proof (cases "lt_signaled s")
    case True
    with c_exchange show ?thesis by - (rule sleep_ok_frame[where s = s and i = i and p = Idle], simp_all add: awake_def)
  next
    case False
    then have "some_caller {Locking} (set_caller i Locking s)" using c_exchange by (simp add: some_caller_set)
    with False show ?thesis by (auto simp: sleep_ok_def some_caller_def)
  qed
next
  case (c_stop i s)
  show ?case
  proof (cases "lt_running s")
    case False
    with c_stop show ?thesis by - (rule sleep_ok_frame[where s = s and i = i and p = Idle], simp_all add: awake_def)
  next
    case True
    then have "some_caller {StopLocking} (set_caller i StopLocking s)" using c_stop by (simp add: some_caller_set)
    with True show ?thesis by (auto simp: sleep_ok_def some_caller_def)
  qed
next
  case (c_lock i s)
  then have "lt_pc s \<noteq> LToSleep" by (auto simp: mutex_ok_def)
  with c_lock show ?case by - (rule sleep_ok_frame[where s = s and i = i and p = Unlocking], simp_all add: awake_def)
next
  case (c_stop_lock i s)
  then have "lt_pc s \<noteq> LToSleep" by (auto simp: mutex_ok_def)
  with c_stop_lock show ?case by - (rule sleep_ok_frame[where s = s and i = i and p = StopSetting], simp_all add: awake_def)
next
  case (c_unlock i s)
  then have "lt_pc s \<noteq> LToSleep" by (auto simp: mutex_ok_def some_caller_def split: option.splits holder.splits)
  with c_unlock show ?case by - (rule sleep_ok_frame[where s = s and i = i and p = Notifying], simp_all add: awake_def)
next
  case (c_stop_unlock i s)
  then have "lt_pc s \<noteq> LToSleep" by (auto simp: mutex_ok_def some_caller_def split: option.splits holder.splits)
  with c_stop_unlock show ?case by - (rule sleep_ok_frame[where s = s and i = i and p = StopNotifying], simp_all add: awake_def)
next
  case (c_stop_set i s)
  then have "lt_pc s \<noteq> LToSleep" by (auto simp: mutex_ok_def some_caller_def split: option.splits holder.splits)
  moreover have "some_caller (- {Idle, Pushed}) (set_caller i StopUnlocking s)" using c_stop_set by (simp add: some_caller_set)
  ultimately show ?case by (simp add: sleep_ok_def some_caller_def)
next
  case (c_notify i s)
  have "some_caller {Locking, StopLocking} s \<Longrightarrow> some_caller {Locking, StopLocking} (set_caller i Idle s)"
    using c_notify by (intro some_caller_keep) simp_all
  with c_notify show ?case by (auto simp: sleep_ok_def some_caller_def awake_def)
next
  case (c_stop_notify i s)
  have "some_caller {Locking, StopLocking} s \<Longrightarrow> some_caller {Locking, StopLocking} (set_caller i Idle s)"
    using c_stop_notify by (intro some_caller_keep) simp_all
  with c_stop_notify show ?case by (auto simp: sleep_ok_def some_caller_def awake_def)
qed

lemma stop_ok_caller: "caller_step s s' \<Longrightarrow> stop_ok s \<Longrightarrow> stop_ok s'"
proof (induction rule: caller_step.induct)
  case (c_push i s x)
  then obtain late where "lt_taken s @ lt_queue s = lt_early s @ late" "lt_running s \<longrightarrow> late = []" by (auto simp: stop_ok_def)
  then have "lt_taken s @ lt_queue s @ [x] = (if lt_running s then lt_early s @ [x] else lt_early s) @ (if lt_running s then [] else late @ [x])"
    by (simp flip: append_assoc)
  with c_push show ?case by (auto simp: stop_ok_def)
qed (auto simp: stop_ok_def)

lemma lt_inv_step: "lt_step s s' \<Longrightarrow> lt_inv s \<Longrightarrow> lt_inv s'"
  using lt_inv_loop[of s s'] mutex_ok_caller[of s s'] items_ok_caller[of s s'] sleep_ok_caller[of s s'] stop_ok_caller[of s s']
  by (auto simp: lt_inv_def)

lemma lt_inv_run: "lt_step\<^sup>*\<^sup>* s s' \<Longrightarrow> lt_inv s \<Longrightarrow> lt_inv s'"
  by (induction rule: rtranclp_induct) (auto intro: lt_inv_step)


section \<open>The loop goes on\<close>

text \<open>How far the loop is from taking the items, and from its end when it has been stopped.\<close>

fun to_items :: "loop_pc \<Rightarrow> nat" where
  "to_items LTimers = 8" | "to_items LCheck = 7" | "to_items LSpin = 6" | "to_items LSpinCheck = 5"
| "to_items (LWoken b) = 5" | "to_items LWait = 5" | "to_items (LPred b) = 4" | "to_items LTop = 3" | "to_items LClear = 2"
| "to_items LStep = 1" | "to_items LFinal = 1" | "to_items LDone = 0" | "to_items LToSleep = 7" | "to_items LSleeping = 6"

fun to_end :: "loop_pc \<Rightarrow> nat" where
  "to_end LClear = 10" | "to_end LStep = 9" | "to_end LFinal = 1" | "to_end LTop = 2" | "to_end LDone = 0"
| "to_end p = to_items p"

definition all_idle :: "'x logic_thread \<Rightarrow> bool" where
  "all_idle s \<longleftrightarrow> (\<forall>c\<in>set (lt_callers s). c = Idle)"

lemma all_idle_none: "all_idle s \<Longrightarrow> Idle \<notin> S \<Longrightarrow> \<not> some_caller S s"
  by (metis all_idle_def some_caller_def nth_mem)

lemma loop_callers: "loop_step s s' \<Longrightarrow> lt_callers s' = lt_callers s \<and> lt_running s' = lt_running s"
  by (induction rule: loop_step.induct) auto

lemma idle_mutex:
  assumes "lt_inv s" "all_idle s" "lt_pc s \<notin> loop_holds"
  shows "lt_mutex s = None"
proof (rule ccontr)
  assume "lt_mutex s \<noteq> None"
  then obtain h where h: "lt_mutex s = Some h" by blast
  show False
  proof (cases h)
    case Loop
    then show False using assms h by (simp add: lt_inv_def mutex_ok_def)
  next
    case (Caller i)
    then have "i < length (lt_callers s)" "lt_callers s ! i \<in> caller_holds" using assms(1) h by (simp_all add: lt_inv_def mutex_ok_def)
    moreover from this(1) have "lt_callers s ! i = Idle" using assms(2) by (simp add: all_idle_def)
    ultimately show False by simp
  qed
qed

text \<open>With all callers through, the loop is not asleep while there is something to do, and it can take its next step.\<close>

lemma idle_awake:
  assumes "lt_inv s" "all_idle s" "lt_queue s \<noteq> []" "lt_pc s \<notin> {LStep, LFinal, LDone}"
  shows "lt_signaled s"
  using assms all_idle_none[OF assms(2), of "{Pushed}"] by (auto simp: lt_inv_def items_ok_def)

lemma awake_not_asleep:
  assumes "lt_inv s" "all_idle s" "awake s"
  shows "lt_pc s \<noteq> LToSleep \<and> lt_pc s \<noteq> LSleeping"
  using assms all_idle_none[OF assms(2), of "{Locking, StopLocking}"] all_idle_none[OF assms(2), of "- {Idle, Pushed}"]
  by (auto simp: lt_inv_def sleep_ok_def)

lemma loop_enabled:
  assumes "lt_inv s" "all_idle s" "lt_pc s \<noteq> LDone"
  shows "\<exists>s'. loop_step s s'"
proof (cases "lt_pc s")
  case LWait
  with idle_mutex[OF assms(1,2)] show ?thesis by (auto intro: loop_step.l_lock)
next
  case (LWoken b)
  with idle_mutex[OF assms(1,2)] show ?thesis by (auto intro: loop_step.l_relock)
qed (use assms(3) in \<open>auto intro: loop_step.intros\<close>)

lemma loop_closer_items:
  assumes "loop_step s s'" "lt_queue s \<noteq> []" "lt_signaled s \<or> lt_pc s \<in> {LStep, LFinal}" "lt_pc s \<noteq> LToSleep \<and> lt_pc s \<noteq> LSleeping"
  shows "lt_taken s' = lt_taken s @ lt_queue s \<and> lt_queue s' = [] \<or>
    lt_taken s' = lt_taken s \<and> lt_queue s' = lt_queue s \<and> to_items (lt_pc s') < to_items (lt_pc s) \<and> lt_pc s' \<noteq> LDone"
  using assms by (induction rule: loop_step.induct) (auto simp: awake_def)

lemma loop_closer_end:
  assumes "loop_step s s'" "\<not> lt_running s" "lt_pc s \<noteq> LToSleep \<and> lt_pc s \<noteq> LSleeping"
  shows "to_end (lt_pc s') < to_end (lt_pc s)"
  using assms by (induction rule: loop_step.induct) (auto simp: awake_def)

lemma loop_takes_items:
  assumes "lt_inv s" "all_idle s" "lt_queue s \<noteq> []" "lt_pc s \<noteq> LDone"
  shows "\<exists>s'. loop_step\<^sup>*\<^sup>* s s' \<and> lt_taken s' = lt_taken s @ lt_queue s"
  using assms
proof (induction "to_items (lt_pc s)" arbitrary: s rule: less_induct)
  case less
  obtain s1 where s1: "loop_step s s1" using loop_enabled[OF less.prems(1,2,4)] by blast
  have sig: "lt_signaled s \<or> lt_pc s \<in> {LStep, LFinal}" using idle_awake[OF less.prems(1-3)] less.prems(4) by blast
  have awake: "lt_pc s \<noteq> LToSleep \<and> lt_pc s \<noteq> LSleeping"
    using sig awake_not_asleep[OF less.prems(1,2)] by (auto simp: awake_def)
  from loop_closer_items[OF s1 less.prems(3) sig awake] show ?case
  proof
    assume "lt_taken s1 = lt_taken s @ lt_queue s \<and> lt_queue s1 = []"
    with s1 show ?thesis by blast
  next
    assume c: "lt_taken s1 = lt_taken s \<and> lt_queue s1 = lt_queue s \<and> to_items (lt_pc s1) < to_items (lt_pc s) \<and> lt_pc s1 \<noteq> LDone"
    moreover have "all_idle s1" using loop_callers[OF s1] less.prems(2) by (simp add: all_idle_def)
    ultimately obtain s' where "loop_step\<^sup>*\<^sup>* s1 s'" "lt_taken s' = lt_taken s1 @ lt_queue s1"
      using less.hyps[of s1] lt_inv_loop[OF s1 less.prems(1)] less.prems(3) by auto
    with s1 c show ?thesis by (metis converse_rtranclp_into_rtranclp)
  qed
qed

section \<open>Properties\<close>

text \<open>
  C36: no wake-up is lost. In every interleaving of the loop with any number of callers of \<^verbatim>\<open>wake\<close> and \<^verbatim>\<open>stop\<close>, once the
  callers are through, the loop is not asleep while an item waits: without the time of a wait running out, its own
  next steps take every item that waits.
\<close>

theorem wake_is_never_lost:
  assumes "lt_step\<^sup>*\<^sup>* (lt_start max_idle spin t0 ts n) s" "all_idle s" "lt_queue s \<noteq> []" "lt_pc s \<noteq> LDone"
  shows "lt_pc s \<noteq> LSleeping \<and> (\<exists>s'. loop_step s s') \<and>
    (\<forall>s'. loop_step s s' \<longrightarrow> lt_taken s' = lt_taken s @ lt_queue s \<or> to_items (lt_pc s') < to_items (lt_pc s)) \<and>
    (\<exists>s'. loop_step\<^sup>*\<^sup>* s s' \<and> lt_taken s' = lt_taken s @ lt_queue s)"
proof -
  have inv: "lt_inv s" by (rule lt_inv_run[OF assms(1) lt_inv_start])
  have sig: "lt_signaled s \<or> lt_pc s \<in> {LStep, LFinal}" using idle_awake[OF inv assms(2,3)] assms(4) by blast
  then have awake: "lt_pc s \<noteq> LToSleep \<and> lt_pc s \<noteq> LSleeping"
    using awake_not_asleep[OF inv assms(2)] by (auto simp: awake_def)
  have "\<forall>s'. loop_step s s' \<longrightarrow> lt_taken s' = lt_taken s @ lt_queue s \<or> to_items (lt_pc s') < to_items (lt_pc s)"
    using loop_closer_items[OF _ assms(3) sig awake] by blast
  moreover have "lt_pc s \<noteq> LSleeping" by (rule conjunct2[OF awake])
  ultimately show ?thesis
    by (intro conjI loop_enabled[OF inv assms(2,4)] loop_takes_items[OF inv assms(2-4)])
qed

lemma five_steps:
  assumes "caller_step s0 s1" "caller_step s1 s2" "caller_step s2 s3" "caller_step s3 s4" "caller_step s4 s5"
  shows "lt_step\<^sup>*\<^sup>* s0 s5"
proof -
  have one: "lt_step\<^sup>*\<^sup>* a c" if "lt_step\<^sup>*\<^sup>* a b" "caller_step b c" for a b c
    using that(1) by (rule rtranclp.rtrancl_into_rtrancl) (simp add: that(2))
  show ?thesis
    by (rule one[OF one[OF one[OF one[OF one[OF rtranclp.rtrancl_refl assms(1)] assms(2)] assms(3)] assms(4)] assms(5)])
qed

text \<open>One caller has pushed and woken a loop that is at its beginning.\<close>

lemma woken_once:
  fixes x :: 'x
  defines "s0 \<equiv> lt_start 50 200 0 [] 1"
  shows "\<exists>s. lt_step\<^sup>*\<^sup>* s0 s \<and> all_idle s \<and> lt_queue s = [x] \<and> lt_pc s = LTop \<and> lt_taken s = []"
proof -
  define s1 where "s1 = set_caller 0 Pushed (s0\<lparr>lt_queue := lt_queue s0 @ [x], lt_early := lt_early s0 @ [x]\<rparr>)"
  define s2 where "s2 = set_caller 0 Locking (s1\<lparr>lt_signaled := True\<rparr>)"
  define s3 where "s3 = set_caller 0 Unlocking (s2\<lparr>lt_mutex := Some (Caller 0)\<rparr>)"
  define s4 where "s4 = set_caller 0 Notifying (s3\<lparr>lt_mutex := None\<rparr>)"
  define s5 where "s5 = set_caller 0 Idle (notified s4)"
  have f0: "lt_callers s0 = [Idle]" "lt_running s0" "lt_mutex s0 = None" "lt_pc s0 = LTop" "\<not> lt_signaled s0" "lt_queue s0 = []" "lt_taken s0 = []"
    by (simp_all add: s0_def lt_start_def)
  have "caller_step s0 s1" using c_push[of 0 s0 x] f0 by (simp add: s1_def)
  moreover have "caller_step s1 s2" using c_exchange[of 0 s1] f0 by (simp add: s2_def s1_def)
  moreover have "caller_step s2 s3" unfolding s3_def by (rule c_lock) (simp_all add: s2_def s1_def f0)
  moreover have "caller_step s3 s4" unfolding s4_def by (rule c_unlock) (simp_all add: s3_def s2_def s1_def f0)
  moreover have "caller_step s4 s5" unfolding s5_def by (rule c_notify) (simp_all add: s4_def s3_def s2_def s1_def f0)
  ultimately have run: "lt_step\<^sup>*\<^sup>* s0 s5" by (rule five_steps)
  have "lt_pc s4 = LTop" "lt_queue s4 = [x]" "lt_taken s4 = []" "lt_callers s4 = [Notifying]"
    by (simp_all add: s4_def s3_def s2_def s1_def f0)
  then have f5: "all_idle s5" "lt_queue s5 = [x]" "lt_pc s5 = LTop" "lt_taken s5 = []"
    by (simp_all add: s5_def all_idle_def notified_def)
  show ?thesis by (rule exI[of _ s5], intro conjI run f5)
qed

theorem wake_is_never_lost_witness:
  "\<exists>s s'. loop_step\<^sup>*\<^sup>* s s' \<and> lt_taken s = [] \<and> lt_taken s' = [7 :: nat]"
proof -
  obtain s :: "nat logic_thread" where s: "lt_step\<^sup>*\<^sup>* (lt_start 50 200 0 [] 1) s" "all_idle s" "lt_queue s = [7]" "lt_pc s = LTop" "lt_taken s = []"
    by (rule exE[OF woken_once[where x = "7 :: nat"]], elim conjE)
  have "lt_queue s \<noteq> []" "lt_pc s \<noteq> LDone" using s by simp_all
  from wake_is_never_lost[OF s(1,2) this] obtain s' where "loop_step\<^sup>*\<^sup>* s s'" "lt_taken s' = lt_taken s @ lt_queue s"
    by (elim conjE exE)
  then show ?thesis by (intro exI[of _ s] exI[of _ s'] conjI) (simp_all add: s(3,5))
qed

text \<open>
  C37: after \<^verbatim>\<open>stop\<close> the loop ends: every step brings it nearer to its end, it can always take one, and it does not sleep; and
  when it has ended, everything that was queued before \<^verbatim>\<open>stop\<close> has been taken, in the order it was queued.
\<close>

theorem stop_ends_the_loop:
  assumes "lt_step\<^sup>*\<^sup>* (lt_start max_idle spin t0 ts n) s" "all_idle s" "\<not> lt_running s"
  shows "(\<forall>s'. loop_step s s' \<longrightarrow> to_end (lt_pc s') < to_end (lt_pc s)) \<and> (lt_pc s \<noteq> LDone \<longrightarrow> (\<exists>s'. loop_step s s')) \<and>
    (lt_pc s = LDone \<longrightarrow> (\<exists>late. lt_taken s = lt_early s @ late))"
proof -
  have inv: "lt_inv s" by (rule lt_inv_run[OF assms(1) lt_inv_start])
  have "lt_pc s \<noteq> LToSleep \<and> lt_pc s \<noteq> LSleeping" using awake_not_asleep[OF inv assms(2)] assms(3) by (simp add: awake_def)
  with loop_closer_end[OF _ assms(3)] loop_enabled[OF inv assms(2)] inv show ?thesis
    by (auto simp: lt_inv_def stop_ok_def)
qed

theorem stop_ends_the_loop_witness:
  "\<exists>s :: nat logic_thread. \<not> lt_running s \<and> (\<exists>s'. loop_step s s')"
proof -
  define s0 :: "nat logic_thread" where "s0 = lt_start 50 200 0 [] 1"
  define s1 where "s1 = set_caller 0 StopLocking (s0\<lparr>lt_running := False\<rparr>)"
  define s2 where "s2 = set_caller 0 StopSetting (s1\<lparr>lt_mutex := Some (Caller 0)\<rparr>)"
  define s3 where "s3 = set_caller 0 StopUnlocking (s2\<lparr>lt_signaled := True\<rparr>)"
  define s4 where "s4 = set_caller 0 StopNotifying (s3\<lparr>lt_mutex := None\<rparr>)"
  define s5 where "s5 = set_caller 0 Idle (notified s4)"
  have f0: "lt_callers s0 = [Idle]" "lt_running s0" "lt_mutex s0 = None" "lt_pc s0 = LTop"
    by (simp_all add: s0_def lt_start_def)
  have "caller_step s0 s1" using c_stop[of 0 s0] f0 by (simp add: s1_def)
  moreover have "caller_step s1 s2" unfolding s2_def by (rule c_stop_lock) (simp_all add: s1_def f0)
  moreover have "caller_step s2 s3" unfolding s3_def by (rule c_stop_set) (simp_all add: s2_def s1_def f0)
  moreover have "caller_step s3 s4" unfolding s4_def by (rule c_stop_unlock) (simp_all add: s3_def s2_def s1_def f0)
  moreover have "caller_step s4 s5" unfolding s5_def by (rule c_stop_notify) (simp_all add: s4_def s3_def s2_def s1_def f0)
  ultimately have run: "lt_step\<^sup>*\<^sup>* s0 s5" by (rule five_steps)
  have "lt_pc s4 = LTop" "\<not> lt_running s4" "lt_callers s4 = [StopNotifying]"
    by (simp_all add: s4_def s3_def s2_def s1_def f0)
  then have f5: "all_idle s5" "\<not> lt_running s5" "lt_pc s5 = LTop"
    by (simp_all add: s5_def all_idle_def notified_def)
  from stop_ends_the_loop[OF run[unfolded s0_def] f5(1,2)] have "lt_pc s5 \<noteq> LDone \<longrightarrow> (\<exists>s'. loop_step s5 s')"
    by (elim conjE)
  with f5 have "\<exists>s'. loop_step s5 s'" by simp
  with f5(2) show ?thesis by blast
qed

end
