(* ===== verification/Logic_Owner.thy ===== *)
theory Logic_Owner
  imports Session_Table
begin

text \<open>
  To whom a logic thread belongs (\<^verbatim>\<open>src/src/core/logic_thread.cpp\<close>, \<^verbatim>\<open>owner_\<close>): \<^verbatim>\<open>start\<close> waits until the new thread has noted itself, \<^verbatim>\<open>stop\<close>
  takes the note away after the thread has ended, and \<^verbatim>\<open>assert_on_logic_thread\<close> ends the process when another thread touches what
  belongs to it, as every access to the session table of a lane does under the guard \<open>Owner\<close>. How the loop is woken is
  the matter of \<open>Logic_Thread\<close>.
\<close>

section \<open>State\<close>

datatype thread_id = Lane | Foreign nat

datatype starter_pc = Outside | Spinning | Started | Joining

datatype lane_pc = Absent | Begins | AtTop | InStep | LastStep | Ended

text \<open>\<open>lo_owner\<close> is \<open>None\<close> for \<^verbatim>\<open>std::thread::id{}\<close>.\<close>

record lane_owner =
  lo_running :: bool
  lo_owner :: "thread_id option"
  lo_starter :: starter_pc
  lo_thread :: lane_pc
  lo_aborted :: bool

definition lo_new :: lane_owner where
  "lo_new = \<lparr>lo_running = False, lo_owner = None, lo_starter = Outside, lo_thread = Absent, lo_aborted = False\<rparr>"

definition on_logic_thread :: "thread_id \<Rightarrow> lane_owner \<Rightarrow> bool" where
  "on_logic_thread me s \<longleftrightarrow> lo_owner s = Some me"

definition assert_on_logic_thread :: "thread_id \<Rightarrow> lane_owner \<Rightarrow> lane_owner" where
  "assert_on_logic_thread me s = (if on_logic_thread me s then s else s\<lparr>lo_aborted := True\<rparr>)"

text \<open>An access to the session table; under the guard \<open>Mutex\<close> nothing is asserted.\<close>

definition access_table :: "session_guard \<Rightarrow> thread_id \<Rightarrow> lane_owner \<Rightarrow> lane_owner" where
  "access_table g me s = (if g = Mutex then s else assert_on_logic_thread me s)"

text \<open>
  The steps of the thread that starts and stops the lane, and of the lane; \<open>n\<close> is how often a step of the lane touches the table.
\<close>

inductive owner_step :: "session_guard \<Rightarrow> lane_owner \<Rightarrow> lane_owner \<Rightarrow> bool" for g where
  start: "lo_starter s = Outside \<Longrightarrow> \<not> lo_running s \<Longrightarrow>
     owner_step g s (s\<lparr>lo_running := True, lo_thread := Begins, lo_starter := Spinning\<rparr>)"
| spin: "lo_starter s = Spinning \<Longrightarrow>
     owner_step g s (s\<lparr>lo_starter := (if lo_owner s = None \<and> lo_running s then Spinning else Started)\<rparr>)"
| stop: "lo_starter s = Started \<Longrightarrow> lo_running s \<Longrightarrow> owner_step g s (s\<lparr>lo_running := False, lo_starter := Joining\<rparr>)"
| join: "lo_starter s = Joining \<Longrightarrow> lo_thread s = Ended \<Longrightarrow>
     owner_step g s (s\<lparr>lo_owner := None, lo_thread := Absent, lo_starter := Outside\<rparr>)"
| note_owner: "lo_thread s = Begins \<Longrightarrow> owner_step g s (s\<lparr>lo_owner := Some Lane, lo_thread := AtTop\<rparr>)"
| top: "lo_thread s = AtTop \<Longrightarrow> owner_step g s (s\<lparr>lo_thread := (if lo_running s then InStep else LastStep)\<rparr>)"
| step: "lo_thread s = InStep \<Longrightarrow> owner_step g s ((access_table g Lane ^^ n) s\<lparr>lo_thread := AtTop\<rparr>)"
| last_step: "lo_thread s = LastStep \<Longrightarrow> owner_step g s ((access_table g Lane ^^ n) s\<lparr>lo_thread := Ended\<rparr>)"

definition owner_inv :: "lane_owner \<Rightarrow> bool" where
  "owner_inv s \<longleftrightarrow> \<not> lo_aborted s \<and> (lo_owner s = (if lo_thread s \<in> {Absent, Begins} then None else Some Lane)) \<and>
     (lo_starter s = Outside \<longleftrightarrow> lo_thread s = Absent) \<and> (lo_starter s = Started \<longrightarrow> lo_owner s = Some Lane) \<and>
     (lo_running s \<longleftrightarrow> lo_starter s \<in> {Spinning, Started}) \<and> (lo_thread s \<in> {LastStep, Ended} \<longrightarrow> lo_starter s = Joining) \<and>
     (lo_thread s = Begins \<longrightarrow> lo_starter s = Spinning)"

lemma access_own: "lo_owner s = Some Lane \<Longrightarrow> (access_table g Lane ^^ n) s = s"
  by (induction n) (simp_all add: access_table_def assert_on_logic_thread_def on_logic_thread_def)

lemma owner_inv_step: "owner_step g s s' \<Longrightarrow> owner_inv s \<Longrightarrow> owner_inv s'"
proof (induction rule: owner_step.induct)
  case (step s n)
  then have "(access_table g Lane ^^ n) s = s" by (intro access_own) (simp add: owner_inv_def)
  with step show ?case by (simp add: owner_inv_def)
next
  case (last_step s n)
  then have "(access_table g Lane ^^ n) s = s" by (intro access_own) (simp add: owner_inv_def)
  with last_step show ?case by (simp add: owner_inv_def)
next
  case (top s)
  then show ?case by (cases "lo_starter s") (simp_all add: owner_inv_def)
qed (auto simp: owner_inv_def)

lemma owner_inv_run: "(owner_step g)\<^sup>*\<^sup>* s s' \<Longrightarrow> owner_inv s \<Longrightarrow> owner_inv s'"
  by (induction rule: rtranclp_induct) (auto intro: owner_inv_step)

lemma owner_inv_new: "owner_inv lo_new"
  by (simp add: owner_inv_def lo_new_def)

section \<open>Properties\<close>

text \<open>
  The check never ends the process by mistake. However a lane is started and stopped, again and again, and whatever the lane does
  with its table, no assertion of it fails; when \<^verbatim>\<open>start\<close> has returned, the note is there, so that from then on the lane is let
  in and any other thread is found out under the guard \<open>Owner\<close>; and the wait in \<^verbatim>\<open>start\<close> ends, since the lane can always take the
  step it waits for.
\<close>

theorem lane_owns_its_table:
  assumes "(owner_step g)\<^sup>*\<^sup>* lo_new s"
  shows "\<not> lo_aborted s \<and>
    (lo_starter s = Started \<longrightarrow> st_access g (on_logic_thread Lane s) \<and>
       \<not> st_access Owner (on_logic_thread (Foreign k) s) \<and> lo_aborted (access_table Owner (Foreign k) s)) \<and>
    (lo_starter s = Spinning \<longrightarrow> lo_owner s = Some Lane \<or> owner_step g s (s\<lparr>lo_owner := Some Lane, lo_thread := AtTop\<rparr>))"
proof -
  have inv: "owner_inv s" by (rule owner_inv_run[OF assms owner_inv_new])
  have "owner_step g s (s\<lparr>lo_owner := Some Lane, lo_thread := AtTop\<rparr>)" if "lo_starter s = Spinning" "lo_owner s \<noteq> Some Lane"
  proof (rule note_owner)
    show "lo_thread s = Begins" using inv that by (cases "lo_thread s") (simp_all add: owner_inv_def)
  qed
  with inv show ?thesis
    by (auto simp: owner_inv_def st_access_def on_logic_thread_def access_table_def assert_on_logic_thread_def)
qed

theorem lane_owns_its_table_witness:
  "\<exists>s. (owner_step Owner)\<^sup>*\<^sup>* lo_new s \<and> lo_starter s = Started \<and> lo_aborted (access_table Owner (Foreign 3) s)"
proof -
  define s1 where "s1 = lo_new\<lparr>lo_running := True, lo_thread := Begins, lo_starter := Spinning\<rparr>"
  define s2 where "s2 = s1\<lparr>lo_owner := Some Lane, lo_thread := AtTop\<rparr>"
  define s3 where "s3 = s2\<lparr>lo_starter := (if lo_owner s2 = None \<and> lo_running s2 then Spinning else Started)\<rparr>"
  have "owner_step Owner lo_new s1" unfolding s1_def by (rule start) (simp_all add: lo_new_def)
  moreover have "owner_step Owner s1 s2" unfolding s2_def by (rule note_owner) (simp add: s1_def)
  moreover have "owner_step Owner s2 s3" unfolding s3_def by (rule spin) (simp add: s2_def s1_def)
  ultimately have run: "(owner_step Owner)\<^sup>*\<^sup>* lo_new s3" by (metis rtranclp.rtrancl_refl rtranclp.rtrancl_into_rtrancl)
  have "lo_starter s3 = Started" by (simp add: s3_def s2_def)
  with lane_owns_its_table[OF run, of 3] run show ?thesis by blast
qed

end
