(* ===== verification/Connector.thy ===== *)
theory Connector
  imports Socket_Ledger Text_Format
begin

text \<open>
  \<^verbatim>\<open>src/src/net/connector.h\<close> and \<^verbatim>\<open>connector.cpp\<close>: outgoing connections, whose operations are reused. \<open>acquire\<close> and \<open>release\<close> hold the
  mutex; which calls of the system succeed is given from outside, as is the identifier \<^verbatim>\<open>reserve_id\<close> gives. \<open>co_flight\<close>, whether the
  request of an operation is in the kernel, is not in the code.
\<close>

definition kPeerMax :: nat where "kPeerMax = 64"

record connect_op =
  co_socket :: "nat option"
  co_id :: conn_id
  co_peer :: bytes
  co_flight :: bool

record connector =
  cn_ops :: "connect_op list"
  cn_free :: "nat list"
  cn_ledger :: ledger

definition connector_new :: connector where
  "connector_new = \<lparr>cn_ops = [], cn_free = [], cn_ledger = ledger_new\<rparr>"

definition connect_op_new :: connect_op where
  "connect_op_new = \<lparr>co_socket = None, co_id = 0, co_peer = [], co_flight = False\<rparr>"

definition upd_op :: "nat \<Rightarrow> (connect_op \<Rightarrow> connect_op) \<Rightarrow> connector \<Rightarrow> connector" where
  "upd_op i f c = c\<lparr>cn_ops := (cn_ops c)[i := f (cn_ops c ! i)]\<rparr>"

definition acquire :: "connector \<Rightarrow> nat \<times> connector" where
  "acquire c =
     (if cn_free c \<noteq> [] then (last (cn_free c), c\<lparr>cn_free := butlast (cn_free c)\<rparr>)
      else (length (cn_ops c), c\<lparr>cn_ops := cn_ops c @ [connect_op_new]\<rparr>))"

definition release_op :: "nat \<Rightarrow> connector \<Rightarrow> connector" where
  "release_op i c = c\<lparr>cn_free := cn_free c @ [i]\<rparr>"

text \<open>The same end of every failing path of \<^verbatim>\<open>connect\<close>.\<close>

definition give_up :: "nat \<Rightarrow> connector \<Rightarrow> bool \<times> connector" where
  "give_up i c =
     (False, release_op i (upd_op i (\<lambda>op. op\<lparr>co_socket := None\<rparr>)
        (c\<lparr>cn_ledger := close_socket (co_socket (cn_ops c ! i)) (cn_ledger c)\<rparr>)))"

definition peer_text :: "bytes \<Rightarrow> u16 \<Rightarrow> bytes" where
  "peer_text host port = snd (snprintf kPeerMax (host @ lit '':'' @ dec (unat port)))"

definition cn_connect ::
  "bool \<Rightarrow> bool \<Rightarrow> bool \<Rightarrow> bool \<Rightarrow> bool \<Rightarrow> conn_id \<Rightarrow> bytes \<Rightarrow> u16 \<Rightarrow> connector \<Rightarrow> bool \<times> connector" where
  "cn_connect socket_ok bind_ok port_ok function_ok connect_ok reserved host port c =
     (let (i, c) = acquire c;
          (s, l) = make_socket socket_ok (cn_ledger c);
          c = upd_op i (\<lambda>op. op\<lparr>co_socket := s\<rparr>) (c\<lparr>cn_ledger := l\<rparr>)
      in if s = None then (False, release_op i c)
         else if \<not> bind_ok then give_up i c
         else
           let c = upd_op i (\<lambda>op. op\<lparr>co_id := reserved\<rparr>) c
           in if \<not> port_ok then give_up i c
              else
                let c = upd_op i (\<lambda>op. op\<lparr>co_peer := peer_text host port\<rparr>) c
                in if \<not> function_ok then give_up i c
                   else if \<not> connect_ok then give_up i c
                   else (True, upd_op i (\<lambda>op. op\<lparr>co_flight := True\<rparr>) c))"

text \<open>What the handlers get: the socket, the peer and the identifier, or the failure.\<close>

definition on_connect_done :: "bool \<Rightarrow> nat \<Rightarrow> connector \<Rightarrow> (nat \<times> bytes \<times> conn_id) option \<times> connector" where
  "on_connect_done ok i c =
     (let s = co_socket (cn_ops c ! i); reserved = co_id (cn_ops c ! i); peer = co_peer (cn_ops c ! i);
          c = release_op i (upd_op i (\<lambda>op. op\<lparr>co_socket := None, co_id := 0\<rparr>) c)
      in if \<not> ok \<or> s = None then (None, c\<lparr>cn_ledger := close_socket s (cn_ledger c)\<rparr>)
         else (Some (the s, peer, reserved), c\<lparr>cn_ledger := give_socket s (cn_ledger c)\<rparr>))"

definition land :: "nat \<Rightarrow> connector \<Rightarrow> connector" where
  "land i c = upd_op i (\<lambda>op. op\<lparr>co_flight := False\<rparr>) c"

text \<open>
  The destructor. It closes the sockets of the operations in flight; what the kernel still has to write goes to operations that
  are gone with the connector.
\<close>

definition cn_destroy :: "connector \<Rightarrow> connector" where
  "cn_destroy c =
     c\<lparr>cn_ledger := fold (\<lambda>op. close_socket (co_socket op)) (cn_ops c) (cn_ledger c),
       cn_ops := map (\<lambda>op. op\<lparr>co_socket := None\<rparr>) (cn_ops c)\<rparr>"

inductive cn_step :: "connector \<Rightarrow> connector \<Rightarrow> bool" where
  connect: "cn_step c (snd (cn_connect s b p f k reserved host port c))"
| connect_done: "i < length (cn_ops c) \<Longrightarrow> co_flight (cn_ops c ! i) \<Longrightarrow> cn_step c (snd (on_connect_done ok i (land i c)))"

section \<open>Every operation is in flight or free\<close>

definition ops_held :: "connect_op list \<Rightarrow> nat multiset" where
  "ops_held ops = sum_list (map (\<lambda>op. holds (co_socket op)) ops)"

lemma ops_held_update:
  "i < length ops \<Longrightarrow> ops_held (ops[i := op]) + holds (co_socket (ops ! i)) = ops_held ops + holds (co_socket op)"
  by (induction ops arbitrary: i) (auto simp: ops_held_def ac_simps split: nat.split)

text \<open>\<open>busy\<close> is an operation that a call has taken and not yet given back or sent off.\<close>

definition cn_inv :: "nat set \<Rightarrow> connector \<Rightarrow> bool" where
  "cn_inv busy c \<longleftrightarrow> distinct (cn_free c) \<and> set (cn_free c) \<inter> busy = {} \<and> set (cn_free c) \<union> busy \<subseteq> {..<length (cn_ops c)} \<and>
     (\<forall>i<length (cn_ops c). co_flight (cn_ops c ! i) \<longleftrightarrow> i \<notin> set (cn_free c) \<union> busy) \<and>
     (\<forall>i\<in>set (cn_free c). co_socket (cn_ops c ! i) = None) \<and>
     (\<forall>i<length (cn_ops c). co_flight (cn_ops c ! i) \<longrightarrow> co_socket (cn_ops c ! i) \<noteq> None) \<and>
     accounted (cn_ledger c) (ops_held (cn_ops c))"

lemma cn_inv_new: "cn_inv {} connector_new"
  by (simp add: cn_inv_def connector_new_def ops_held_def accounted_new)

lemma acquire_inv:
  assumes "cn_inv {} c" "acquire c = (i, c')"
  shows "cn_inv {i} c' \<and> i < length (cn_ops c') \<and> co_socket (cn_ops c' ! i) = None"
proof (cases "cn_free c = []")
  case True
  with assms show ?thesis
    by (auto simp: acquire_def cn_inv_def connect_op_new_def ops_held_def nth_append less_Suc_eq)
next
  case False
  then have f: "cn_free c = butlast (cn_free c) @ [last (cn_free c)]" by simp
  then have "distinct (butlast (cn_free c) @ [last (cn_free c)])" "set (cn_free c) = insert (last (cn_free c)) (set (butlast (cn_free c)))"
    using assms(1) by (simp add: cn_inv_def, metis Un_insert_right list.simps(15) set_append set_empty sup_bot_right)
  with False assms show ?thesis by (auto simp: acquire_def cn_inv_def)
qed

lemma upd_fields [simp]:
  "cn_free (upd_op i f c) = cn_free c" "cn_ledger (upd_op i f c) = cn_ledger c" "length (cn_ops (upd_op i f c)) = length (cn_ops c)"
  "cn_ops (upd_op i f c) = (cn_ops c)[i := f (cn_ops c ! i)]"
  by (simp_all add: upd_op_def)

text \<open>A change of a busy operation that keeps its socket.\<close>

lemma upd_inv:
  assumes "cn_inv {i} c" "i < length (cn_ops c)" "co_socket (f (cn_ops c ! i)) = co_socket (cn_ops c ! i)"
    and "co_flight (f (cn_ops c ! i)) = co_flight (cn_ops c ! i)"
  shows "cn_inv {i} (upd_op i f c)"
proof -
  have "ops_held ((cn_ops c)[i := f (cn_ops c ! i)]) = ops_held (cn_ops c)"
    using ops_held_update[OF assms(2), of "f (cn_ops c ! i)"] assms(3) by simp
  with assms show ?thesis by (auto simp: cn_inv_def nth_list_update)
qed

lemma give_up_inv:
  assumes "cn_inv {i} c" "i < length (cn_ops c)"
  shows "cn_inv {} (snd (give_up i c))"
proof -
  let ?op = "(cn_ops c ! i)\<lparr>co_socket := None\<rparr>"
  have "ops_held (cn_ops c) = ops_held ((cn_ops c)[i := ?op]) + holds (co_socket (cn_ops c ! i))"
    using ops_held_update[OF assms(2), of ?op] by simp
  then have "accounted (close_socket (co_socket (cn_ops c ! i)) (cn_ledger c)) (ops_held ((cn_ops c)[i := ?op]))"
    using assms(1) by (intro accounted_close) (simp add: cn_inv_def)
  with assms show ?thesis by (auto simp: cn_inv_def give_up_def release_op_def nth_list_update)
qed

text \<open>A busy operation gets its socket.\<close>

lemma make_inv:
  assumes "cn_inv {i} c" "i < length (cn_ops c)" "co_socket (cn_ops c ! i) = None" "make_socket ok (cn_ledger c) = (s, l)"
    and "c' = upd_op i (\<lambda>op. op\<lparr>co_socket := s\<rparr>) (c\<lparr>cn_ledger := l\<rparr>)"
  shows "cn_inv {i} c'"
proof -
  have "ops_held ((cn_ops c)[i := (cn_ops c ! i)\<lparr>co_socket := s\<rparr>]) = ops_held (cn_ops c) + holds s"
    using ops_held_update[OF assms(2), of "(cn_ops c ! i)\<lparr>co_socket := s\<rparr>"] assms(3) by simp
  moreover have "accounted l (ops_held (cn_ops c) + holds s)"
    using accounted_make[OF _ assms(4)] assms(1) by (simp add: cn_inv_def)
  ultimately show ?thesis using assms(1,2) by (auto simp: cn_inv_def assms(5) nth_list_update)
qed

lemma release_inv:
  assumes "cn_inv {i} c" "i < length (cn_ops c)" "co_socket (cn_ops c ! i) = None"
  shows "cn_inv {} (release_op i c)"
  using assms by (auto simp: cn_inv_def release_op_def)

text \<open>A busy operation whose request the system has taken.\<close>

lemma fly_inv:
  assumes "cn_inv {i} c" "i < length (cn_ops c)" "co_socket (cn_ops c ! i) \<noteq> None"
  shows "cn_inv {} (upd_op i (\<lambda>op. op\<lparr>co_flight := True\<rparr>) c)"
proof -
  have "ops_held ((cn_ops c)[i := (cn_ops c ! i)\<lparr>co_flight := True\<rparr>]) = ops_held (cn_ops c)"
    using ops_held_update[OF assms(2), of "(cn_ops c ! i)\<lparr>co_flight := True\<rparr>"] by simp
  with assms show ?thesis by (auto simp: cn_inv_def nth_list_update)
qed

lemma land_inv:
  assumes "cn_inv {} c" "i < length (cn_ops c)" "co_flight (cn_ops c ! i)"
  shows "cn_inv {i} (land i c)"
proof -
  have "ops_held ((cn_ops c)[i := (cn_ops c ! i)\<lparr>co_flight := False\<rparr>]) = ops_held (cn_ops c)"
    using ops_held_update[OF assms(2), of "(cn_ops c ! i)\<lparr>co_flight := False\<rparr>"] by simp
  with assms show ?thesis by (auto simp: cn_inv_def land_def nth_list_update)
qed

lemma connect_inv:
  assumes "cn_inv {} c"
  shows "cn_inv {} (snd (cn_connect s b p f k reserved host port c))"
proof -
  obtain i c1 where a: "acquire c = (i, c1)" by fastforce
  note q = acquire_inv[OF assms a]
  obtain h l where m: "make_socket s (cn_ledger c1) = (h, l)" by fastforce
  define c2 where "c2 = upd_op i (\<lambda>op. op\<lparr>co_socket := h\<rparr>) (c1\<lparr>cn_ledger := l\<rparr>)"
  have c2: "cn_inv {i} c2" "i < length (cn_ops c2)" "co_socket (cn_ops c2 ! i) = h"
    using make_inv[OF _ _ _ m c2_def] q by (simp_all add: c2_def)
  define c3 where "c3 = upd_op i (\<lambda>op. op\<lparr>co_id := reserved\<rparr>) c2"
  have c3: "cn_inv {i} c3" "i < length (cn_ops c3)" "co_socket (cn_ops c3 ! i) = h"
    unfolding c3_def using c2 by (auto intro!: upd_inv)
  define c4 where "c4 = upd_op i (\<lambda>op. op\<lparr>co_peer := peer_text host port\<rparr>) c3"
  have c4: "cn_inv {i} c4" "i < length (cn_ops c4)" "co_socket (cn_ops c4 ! i) = h"
    unfolding c4_def using c3 by (auto intro!: upd_inv)
  have "cn_connect s b p f k reserved host port c =
    (if h = None then (False, release_op i c2) else if \<not> b then give_up i c2 else if \<not> p then give_up i c3
     else if \<not> f \<or> \<not> k then give_up i c4 else (True, upd_op i (\<lambda>op. op\<lparr>co_flight := True\<rparr>) c4))"
    by (simp add: cn_connect_def a m Let_def c2_def c3_def c4_def del: upd_fields)
  with c2 c3 c4 show ?thesis by (auto simp del: upd_fields intro!: give_up_inv fly_inv release_inv)
qed

lemma connect_done_inv:
  assumes "cn_inv {i} c" "i < length (cn_ops c)"
  shows "cn_inv {} (snd (on_connect_done ok i c))"
proof -
  let ?s = "co_socket (cn_ops c ! i)" and ?op = "(cn_ops c ! i)\<lparr>co_socket := None, co_id := 0\<rparr>"
  have "ops_held (cn_ops c) = ops_held ((cn_ops c)[i := ?op]) + holds ?s"
    using ops_held_update[OF assms(2), of ?op] by simp
  then have acc: "accounted (cn_ledger c) (ops_held ((cn_ops c)[i := ?op]) + holds ?s)" using assms(1) by (simp add: cn_inv_def)
  from accounted_close[OF acc] accounted_give[OF acc] assms show ?thesis
    by (auto simp: cn_inv_def on_connect_done_def release_op_def Let_def nth_list_update)
qed

lemma cn_inv_step: "cn_step c c' \<Longrightarrow> cn_inv {} c \<Longrightarrow> cn_inv {} c'"
proof (induction rule: cn_step.induct)
  case (connect_done i c ok)
  then show ?case by (intro connect_done_inv land_inv) (simp_all add: land_def)
qed (rule connect_inv)

lemma cn_inv_run: "cn_step\<^sup>*\<^sup>* c c' \<Longrightarrow> cn_inv {} c \<Longrightarrow> cn_inv {} c'"
  by (induction rule: rtranclp_induct) (auto intro: cn_inv_step)

lemma held_iff_flight: "cn_inv {} c \<Longrightarrow> i < length (cn_ops c) \<Longrightarrow> co_socket (cn_ops c ! i) \<noteq> None \<longleftrightarrow> co_flight (cn_ops c ! i)"
  by (auto simp: cn_inv_def)

lemma destroy_ledger:
  "accounted l (held + ops_held ops) \<Longrightarrow> accounted (fold (\<lambda>op. close_socket (co_socket op)) ops l) held"
proof (induction ops arbitrary: l)
  case (Cons op ops)
  have "held + ops_held (op # ops) = held + ops_held ops + holds (co_socket op)" by (simp add: ops_held_def ac_simps)
  with Cons.prems have "accounted (close_socket (co_socket op) l) (held + ops_held ops)" by (intro accounted_close) simp
  with Cons.IH show ?case by simp
qed (simp add: ops_held_def)

text \<open>
  Whenever the connector is destroyed, every socket has been closed or handed on once; but the requests in flight stay with the
  kernel, which no longer has an operation to complete.
\<close>

lemma destroy_closes_all:
  assumes "cn_step\<^sup>*\<^sup>* connector_new c"
  shows "accounted (cn_ledger (cn_destroy c)) {#} \<and> map co_flight (cn_ops (cn_destroy c)) = map co_flight (cn_ops c)"
proof -
  have "accounted (cn_ledger c) (ops_held (cn_ops c))" using cn_inv_run[OF assms cn_inv_new] by (simp add: cn_inv_def)
  then show ?thesis using destroy_ledger[of "cn_ledger c" "{#}" "cn_ops c"] by (simp add: cn_destroy_def)
qed

lemma destroyed_in_flight:
  "let c = snd (cn_connect True True True True True 7 (lit ''127.0.0.1'') 9100 connector_new)
   in map co_flight (cn_ops (cn_destroy c)) = [True] \<and> sk_closed (cn_ledger (cn_destroy c)) = [0]"
  by (simp add: cn_connect_def acquire_def connector_new_def make_socket_def ledger_new_def close_socket_def connect_op_new_def
      cn_destroy_def Let_def)

section \<open>Properties\<close>

text \<open>
  The operations of the connector are reused safely. In every state the free list has no duplicates and holds exactly the
  operations whose request is not in the kernel, so an operation that is taken from it is never one the kernel still writes to; an
  operation holds a socket exactly while its request is in flight; and each socket that has been made is held by an operation, has been closed
  once or has been handed on once, whichever of the calls of \<^verbatim>\<open>connect\<close> fail.
\<close>

theorem connect_ops_are_reused_safely:
  assumes "cn_step\<^sup>*\<^sup>* connector_new c"
  shows "distinct (cn_free c) \<and> set (cn_free c) = {i. i < length (cn_ops c) \<and> \<not> co_flight (cn_ops c ! i)} \<and>
    (\<forall>i<length (cn_ops c). co_socket (cn_ops c ! i) \<noteq> None \<longleftrightarrow> co_flight (cn_ops c ! i)) \<and>
    distinct (sk_closed (cn_ledger c)) \<and> distinct (sk_given (cn_ledger c)) \<and>
    set (sk_closed (cn_ledger c)) \<inter> set (sk_given (cn_ledger c)) = {} \<and>
    set_mset (ops_held (cn_ops c)) \<union> set (sk_closed (cn_ledger c)) \<union> set (sk_given (cn_ledger c)) = {..<sk_made (cn_ledger c)}"
proof -
  have inv: "cn_inv {} c" using cn_inv_run[OF assms] cn_inv_new by blast
  then have "accounted (cn_ledger c) (ops_held (cn_ops c))" by (simp add: cn_inv_def)
  note d = accounted_distinct[OF this]
  have "set (cn_free c) = {i. i < length (cn_ops c) \<and> \<not> co_flight (cn_ops c ! i)}" using inv by (auto simp: cn_inv_def)
  moreover have "distinct (cn_free c)" using inv by (simp add: cn_inv_def)
  ultimately show ?thesis using held_iff_flight[OF inv] d by (intro conjI allI impI) assumption+
qed

theorem connect_ops_are_reused_safely_witness:
  "let c1 = snd (cn_connect True True True True True 7 (lit ''127.0.0.1'') 9100 connector_new);
       c2 = snd (cn_connect True True False True True 8 (lit ''127.0.0.1'') 9100 c1)
   in cn_free c2 = [1] \<and> sk_closed (cn_ledger c2) = [1] \<and> distinct (cn_free c2)"
proof -
  let ?c1 = "snd (cn_connect True True True True True 7 (lit ''127.0.0.1'') 9100 connector_new)"
  let ?c2 = "snd (cn_connect True True False True True 8 (lit ''127.0.0.1'') 9100 ?c1)"
  have "cn_step\<^sup>*\<^sup>* connector_new ?c2"
    by (rule rtranclp.rtrancl_into_rtrancl[OF r_into_rtranclp]) (rule connect)+
  from connect_ops_are_reused_safely[OF this] have "distinct (cn_free ?c2)" by blast
  moreover have "cn_free ?c2 = [1] \<and> sk_closed (cn_ledger ?c2) = [1]"
    by (simp add: cn_connect_def acquire_def connector_new_def make_socket_def ledger_new_def give_up_def release_op_def
      close_socket_def connect_op_new_def Let_def)
  ultimately show ?thesis by (simp add: Let_def)
qed

end
