(* ===== verification/Clock.thy ===== *)
theory Clock
  imports Complex_Main "HOL-Library.Signed_Division"
begin

text \<open>
  The readings of the clocks (\<^verbatim>\<open>core/clock.h\<close>). The other theories take readings as arguments; this one says how they are made
  from the ticks of a clock of the C++ library. \<open>p\<close> is the period of the clock in seconds (\<^verbatim>\<open>steady_clock::period\<close>), which the
  library chooses, and \<open>t\<close> the count of \<^verbatim>\<open>now().time_since_epoch()\<close>. All readings made at one moment tell the same time, each in its
  unit.
\<close>

section \<open>Readings\<close>

text \<open>
  \<^verbatim>\<open>std::chrono::duration_cast\<close> multiplies by the numerator of the quotient of the periods, in lowest terms, and divides by its
  denominator, towards zero.
\<close>

definition duration_cast :: "rat \<Rightarrow> rat \<Rightarrow> int \<Rightarrow> int" where
  "duration_cast p q t = (case quotient_of (p / q) of (n, d) \<Rightarrow> (t * n) sdiv d)"

definition clock_ms :: "rat \<Rightarrow> int \<Rightarrow> int" where
  "clock_ms p t = duration_cast p (1 / 1000) t"

definition clock_us :: "rat \<Rightarrow> int \<Rightarrow> int" where
  "clock_us p t = duration_cast p (1 / 1000000) t"

definition clock_ns :: "rat \<Rightarrow> int \<Rightarrow> int" where
  "clock_ns p t = duration_cast p (1 / 1000000000) t"

text \<open>\<^verbatim>\<open>unix_ms\<close> is the same on the other clock.\<close>

definition clock_unix_ms :: "rat \<Rightarrow> int \<Rightarrow> int" where
  "clock_unix_ms p t = duration_cast p (1 / 1000) t"

lemmas clock_defs = clock_ms_def clock_us_def clock_ns_def clock_unix_ms_def

section \<open>Properties\<close>

lemma duration_cast_floor:
  assumes "0 < p" "0 < q" "0 \<le> t"
  shows "duration_cast p q t = \<lfloor>of_int t * p / q\<rfloor>"
proof -
  obtain n d where nd: "quotient_of (p / q) = (n, d)" by (cases "quotient_of (p / q)")
  have d: "0 < d" using quotient_of_denom_pos[OF nd] .
  have r: "p / q = of_int n / of_int d" using quotient_of_div[OF nd] .
  have "0 < (of_int n / of_int d :: rat)" using assms(1,2) by (simp only: r[symmetric] divide_pos_pos)
  then have n: "0 \<le> n" using d by (simp add: zero_less_divide_iff)
  have "of_int t * p / q = of_int (t * n) / of_int d" using r by (simp only: times_divide_eq_right[symmetric] of_int_mult)
  also have "\<lfloor>\<dots>\<rfloor> = (t * n) div d" by (rule floor_divide_of_int_eq)
  finally have "\<lfloor>of_int t * p / q\<rfloor> = (t * n) div d" .
  moreover have "(t * n) sdiv d = (t * n) div d" using n d assms(3) by (simp add: signed_divide_int_def sgn_if)
  ultimately show ?thesis by (simp add: duration_cast_def nd)
qed

lemma floor_coarser: "\<lfloor>(x :: rat) / 1000\<rfloor> = \<lfloor>x\<rfloor> div 1000"
proof (rule floor_unique)
  let ?k = "\<lfloor>x\<rfloor> div 1000"
  have i: "\<lfloor>x\<rfloor> = 1000 * ?k + \<lfloor>x\<rfloor> mod 1000" "0 \<le> \<lfloor>x\<rfloor> mod 1000" "\<lfloor>x\<rfloor> mod 1000 < 1000" by simp_all
  then have "1000 * ?k \<le> \<lfloor>x\<rfloor>" "\<lfloor>x\<rfloor> + 1 \<le> 1000 * ?k + 1000" by linarith+
  then have "of_int (1000 * ?k) \<le> x" "x < of_int (1000 * ?k + 1000)" by (simp_all only: le_floor_iff floor_less_iff) linarith+
  then show "of_int ?k \<le> x / 1000" "x / 1000 < of_int ?k + 1" by simp_all
qed

text \<open>
  The three readings of one moment agree up to the unit, and a later moment never has a smaller reading: what the code measures
  as the difference of two readings is not negative and off by less than one unit.
\<close>

lemma readings_agree:
  assumes "0 < p" "0 \<le> t"
  shows "clock_us p t div 1000 = clock_ms p t" "clock_ns p t div 1000 = clock_us p t"
proof -
  have "clock_ms p t = \<lfloor>(of_int t * p / (1 / 1000000)) / 1000\<rfloor>" "clock_us p t = \<lfloor>(of_int t * p / (1 / 1000000000)) / 1000\<rfloor>"
    using assms by (simp_all add: clock_defs duration_cast_floor ac_simps)
  then show "clock_us p t div 1000 = clock_ms p t" "clock_ns p t div 1000 = clock_us p t"
    using assms by (simp_all only: floor_coarser clock_defs duration_cast_floor zero_less_divide_iff zero_less_numeral zero_less_one simp_thms)
qed

lemma elapsed_within_a_unit:
  assumes "0 < p" "0 < q" "0 \<le> t" "t \<le> t'"
  shows "0 \<le> duration_cast p q t' - duration_cast p q t"
    "\<bar>of_int (duration_cast p q t' - duration_cast p q t) - of_int (t' - t) * p / q\<bar> < 1"
proof -
  let ?x = "\<lambda>t. of_int t * p / q"
  have c: "duration_cast p q t' = \<lfloor>?x t'\<rfloor>" "duration_cast p q t = \<lfloor>?x t\<rfloor>" using assms by (simp_all add: duration_cast_floor)
  have m: "?x t \<le> ?x t'" using assms by (intro divide_right_mono mult_right_mono) simp_all
  show "0 \<le> duration_cast p q t' - duration_cast p q t" using floor_mono[OF m] by (simp add: c)
  have "\<bar>of_int \<lfloor>y'\<rfloor> - of_int \<lfloor>y\<rfloor> - (y' - y)\<bar> < 1" for y y' :: rat by linarith
  moreover have "?x (t' - t) = ?x t' - ?x t" by (simp add: left_diff_distrib diff_divide_distrib)
  ultimately show "\<bar>of_int (duration_cast p q t' - duration_cast p q t) - of_int (t' - t) * p / q\<bar> < 1"
    unfolding c by (simp only: of_int_diff)
qed

end
