(* ===== verification/Worker_Wait.thy ===== *)
theory Worker_Wait
  imports Request_Dispatcher
begin

text \<open>
  How the workers of \<^verbatim>\<open>src/src/db/db_worker_pool.cpp\<close> wait for work when requests are assigned dynamically: the loop \<^verbatim>\<open>run\<close> over
  the shared dispatcher, and \<^verbatim>\<open>submit\<close>, \<^verbatim>\<open>drain\<close>, \<^verbatim>\<open>stop\<close>, \<^verbatim>\<open>notify\<close> and \<^verbatim>\<open>wake_shared\<close> of the other threads. The steps are cut at
  every access to a shared variable, to the dispatcher, the mutex and the condition variable. What is done with a request
  is the matter of \<open>Worker_Pool\<close>; here it is taken and released.
\<close>

section \<open>State\<close>

text \<open>
  Where a worker is: \<open>WRelease p\<close> is releasing the saves it has flushed, \<open>WLock p\<close>, \<open>WUnlock p\<close> and \<open>WNotify p\<close> are \<^verbatim>\<open>wake_shared\<close>,
  both going on at \<open>p\<close>; \<open>WProcess r\<close> has \<open>r\<close> at work. The boolean of a wait says that its time is up.
\<close>

datatype worker_pc = WTop | WClear | WTake | WLoop | WRelease worker_pc | WProcess request
  | WLock worker_pc | WUnlock worker_pc | WNotify worker_pc | WCheck | WRun
  | WWait | WPred bool | WToSleep | WSleeping | WWoken bool | WDone

text \<open>The boolean says whether all are notified; \<open>CEach k\<close> has notified the first \<open>k\<close> workers of their own flags.\<close>

datatype user_pc = CIdle | CPush request | CEach nat | CLock bool | CUnlock bool | CNotify bool

record dyn_worker =
  dw_pc :: worker_pc
  dw_saves :: "request list"
  dw_signaled :: bool

text \<open>\<open>dt_taken\<close> records the requests taken; it is not in the code.\<close>

record dyn_wait =
  dt_running :: bool
  dt_draining :: bool
  dt_batch :: nat
  dt_cap :: nat
  dt_shared :: dispatcher
  dt_workers :: "dyn_worker list"
  dt_users :: "user_pc list"
  dt_taken :: "request list"

definition dt_start :: "nat \<Rightarrow> nat \<Rightarrow> nat \<Rightarrow> nat \<Rightarrow> dyn_wait" where
  "dt_start workers batch cap users =
     \<lparr>dt_running = True, dt_draining = False, dt_batch = batch, dt_cap = cap, dt_shared = dp_init,
      dt_workers = replicate workers \<lparr>dw_pc = WTop, dw_saves = [], dw_signaled = False\<rparr>,
      dt_users = replicate users CIdle, dt_taken = []\<rparr>"

definition is_at :: "nat \<Rightarrow> worker_pc \<Rightarrow> dyn_wait \<Rightarrow> bool" where
  "is_at i p s \<longleftrightarrow> i < length (dt_workers s) \<and> dw_pc (dt_workers s ! i) = p"

definition put_worker :: "nat \<Rightarrow> dyn_worker \<Rightarrow> dyn_wait \<Rightarrow> dyn_wait" where
  "put_worker i w s = s\<lparr>dt_workers := (dt_workers s)[i := w]\<rparr>"

definition goto :: "nat \<Rightarrow> worker_pc \<Rightarrow> dyn_wait \<Rightarrow> dyn_wait" where
  "goto i p s = put_worker i ((dt_workers s ! i)\<lparr>dw_pc := p\<rparr>) s"

definition user_at :: "nat \<Rightarrow> user_pc \<Rightarrow> dyn_wait \<Rightarrow> bool" where
  "user_at k c s \<longleftrightarrow> k < length (dt_users s) \<and> dt_users s ! k = c"

definition put_user :: "nat \<Rightarrow> user_pc \<Rightarrow> dyn_wait \<Rightarrow> dyn_wait" where
  "put_user k c s = s\<lparr>dt_users := (dt_users s)[k := c]\<rparr>"

section \<open>Steps\<close>

text \<open>\<^verbatim>\<open>shared_mutex_\<close> is free when nobody stands between locking and unlocking it.\<close>

fun w_holds :: "worker_pc \<Rightarrow> bool" where
  "w_holds (WUnlock p) \<longleftrightarrow> True" | "w_holds (WPred t) \<longleftrightarrow> True" | "w_holds WToSleep \<longleftrightarrow> True" | "w_holds _ \<longleftrightarrow> False"

fun c_holds :: "user_pc \<Rightarrow> bool" where
  "c_holds (CUnlock b) \<longleftrightarrow> True" | "c_holds _ \<longleftrightarrow> False"

definition mutex_free :: "dyn_wait \<Rightarrow> bool" where
  "mutex_free s \<longleftrightarrow> (\<forall>w\<in>set (dt_workers s). \<not> w_holds (dw_pc w)) \<and> (\<forall>c\<in>set (dt_users s). \<not> c_holds c)"

text \<open>\<^verbatim>\<open>notify_one\<close> wakes one of those that sleep, if there are any.\<close>

inductive notify_one :: "dyn_wait \<Rightarrow> dyn_wait \<Rightarrow> bool" where
  one: "is_at j WSleeping s \<Longrightarrow> notify_one s (goto j (WWoken False) s)"
| nobody: "\<forall>w\<in>set (dt_workers s). dw_pc w \<noteq> WSleeping \<Longrightarrow> notify_one s s"

definition notify_all :: "dyn_wait \<Rightarrow> dyn_wait" where
  "notify_all s = s\<lparr>dt_workers := map (\<lambda>w. if dw_pc w = WSleeping then w\<lparr>dw_pc := WWoken False\<rparr> else w) (dt_workers s)\<rparr>"

text \<open>
  The loop \<^verbatim>\<open>run\<close>. A save is kept for a batch unless batches are off or its deadline has passed; the wait ends when the
  predicate holds or its time is up.
\<close>

inductive worker_step :: "nat \<Rightarrow> dyn_wait \<Rightarrow> dyn_wait \<Rightarrow> bool" for i where
  w_top: "is_at i WTop s \<Longrightarrow> worker_step i s (goto i (if dt_running s then WClear else WDone) s)"
| w_clear: "is_at i WClear s \<Longrightarrow> worker_step i s (put_worker i ((dt_workers s ! i)\<lparr>dw_signaled := False, dw_pc := WTake\<rparr>) s)"
| w_save: "is_at i WTake s \<Longrightarrow> dp_take (dt_shared s) = (Some r, d) \<Longrightarrow> rq_kind r = Save \<Longrightarrow> 1 < dt_batch s \<Longrightarrow>
     saves = dw_saves (dt_workers s ! i) @ [r] \<Longrightarrow>
     worker_step i s (put_worker i ((dt_workers s ! i)\<lparr>dw_saves := saves,
       dw_pc := (if length saves \<ge> dt_batch s then WRelease WLoop else WLoop)\<rparr>) (s\<lparr>dt_shared := d, dt_taken := dt_taken s @ [r]\<rparr>))"
| w_other: "is_at i WTake s \<Longrightarrow> dp_take (dt_shared s) = (Some r, d) \<Longrightarrow>
     worker_step i s (goto i (WRelease (WProcess r)) (s\<lparr>dt_shared := d, dt_taken := dt_taken s @ [r]\<rparr>))"
| w_none: "is_at i WTake s \<Longrightarrow> dp_take (dt_shared s) = (None, d) \<Longrightarrow>
     worker_step i s (goto i (WRelease WCheck) (s\<lparr>dt_shared := d\<rparr>))"
| w_loop: "is_at i WLoop s \<Longrightarrow> worker_step i s (goto i (if dt_running s then WTake else WRelease WCheck) s)"
| w_flushed: "is_at i (WRelease p) s \<Longrightarrow> dw_saves (dt_workers s ! i) = [] \<Longrightarrow> worker_step i s (goto i p s)"
| w_release: "is_at i (WRelease p) s \<Longrightarrow> dw_saves (dt_workers s ! i) = r # rs \<Longrightarrow>
     worker_step i s (put_worker i ((dt_workers s ! i)\<lparr>dw_saves := rs, dw_pc := WLock (WRelease p)\<rparr>)
       (s\<lparr>dt_shared := dp_finish (rq_session_key r) (dt_shared s)\<rparr>))"
| w_process: "is_at i (WProcess r) s \<Longrightarrow>
     worker_step i s (goto i (WLock WLoop) (s\<lparr>dt_shared := dp_finish (rq_session_key r) (dt_shared s)\<rparr>))"
| w_lock: "is_at i (WLock p) s \<Longrightarrow> mutex_free s \<Longrightarrow> worker_step i s (goto i (WUnlock p) s)"
| w_unlock: "is_at i (WUnlock p) s \<Longrightarrow> worker_step i s (goto i (WNotify p) s)"
| w_notify: "is_at i (WNotify p) s \<Longrightarrow> notify_one s s1 \<Longrightarrow> worker_step i s (goto i p s1)"
| w_check: "is_at i WCheck s \<Longrightarrow> worker_step i s (goto i (if dw_signaled (dt_workers s ! i) then WTop else WRun) s)"
| w_run: "is_at i WRun s \<Longrightarrow> worker_step i s (goto i (if dt_running s then WWait else WDone) s)"
| w_wait: "is_at i WWait s \<Longrightarrow> mutex_free s \<Longrightarrow> worker_step i s (goto i (WPred False) s)"
| w_pred: "is_at i (WPred t) s \<Longrightarrow>
     worker_step i s (goto i (if dp_is_ready (dt_shared s) \<or> \<not> dt_running s \<or> t then WTop else WToSleep) s)"
| w_sleep: "is_at i WToSleep s \<Longrightarrow> worker_step i s (goto i WSleeping s)"
| w_relock: "is_at i (WWoken t) s \<Longrightarrow> mutex_free s \<Longrightarrow> worker_step i s (goto i (WPred t) s)"

text \<open>A wait may also end because its time is up, or for no reason.\<close>

inductive timer_step :: "dyn_wait \<Rightarrow> dyn_wait \<Rightarrow> bool" where
  timer: "is_at i WSleeping s \<Longrightarrow> timer_step s (goto i (WWoken t) s)"

text \<open>
  The other threads. \<^verbatim>\<open>notify\<close> sets the flag of a worker; the condition variable it goes on to signal is one nobody waits for
  with dynamic assignment.
\<close>

inductive user_step :: "dyn_wait \<Rightarrow> dyn_wait \<Rightarrow> bool" where
  c_submit: "user_at k CIdle s \<Longrightarrow> dt_running s \<Longrightarrow> \<not> dt_draining s \<Longrightarrow> user_step s (put_user k (CPush r) s)"
| c_push: "user_at k (CPush r) s \<Longrightarrow> dp_push (dt_cap s) (Some r) (dt_shared s) = (ok, d) \<Longrightarrow>
     user_step s (put_user k (if ok then CLock False else CIdle) (s\<lparr>dt_shared := d\<rparr>))"
| c_drain: "user_at k CIdle s \<Longrightarrow> dt_running s \<Longrightarrow> user_step s (put_user k (CEach 0) (s\<lparr>dt_draining := True\<rparr>))"
| c_stop: "user_at k CIdle s \<Longrightarrow> dt_running s \<Longrightarrow> user_step s (put_user k (CEach 0) (s\<lparr>dt_running := False\<rparr>))"
| c_each: "user_at k (CEach n) s \<Longrightarrow> n < length (dt_workers s) \<Longrightarrow>
     user_step s (put_user k (CEach (n + 1)) (put_worker n ((dt_workers s ! n)\<lparr>dw_signaled := True\<rparr>) s))"
| c_all: "user_at k (CEach n) s \<Longrightarrow> \<not> n < length (dt_workers s) \<Longrightarrow> user_step s (put_user k (CLock True) s)"
| c_lock: "user_at k (CLock b) s \<Longrightarrow> mutex_free s \<Longrightarrow> user_step s (put_user k (CUnlock b) s)"
| c_unlock: "user_at k (CUnlock b) s \<Longrightarrow> user_step s (put_user k (CNotify b) s)"
| c_notify_one: "user_at k (CNotify False) s \<Longrightarrow> notify_one s s1 \<Longrightarrow> user_step s (put_user k CIdle s1)"
| c_notify_all: "user_at k (CNotify True) s \<Longrightarrow> user_step s (put_user k CIdle (notify_all s))"

definition dt_step :: "dyn_wait \<Rightarrow> dyn_wait \<Rightarrow> bool" where
  "dt_step s s' \<longleftrightarrow> (\<exists>i. worker_step i s s') \<or> timer_step s s' \<or> user_step s s'"

section \<open>Who sleeps\<close>

text \<open>
  The part of the state that decides who sleeps: whether the pool runs, whether the dispatcher has something ready, and
  where the threads are.
\<close>

fun w_locks :: "worker_pc \<Rightarrow> bool" where
  "w_locks (WLock p) \<longleftrightarrow> True" | "w_locks _ \<longleftrightarrow> False"

fun c_locks :: "user_pc \<Rightarrow> bool" where
  "c_locks (CLock b) \<longleftrightarrow> True" | "c_locks _ \<longleftrightarrow> False"

fun c_calls :: "user_pc \<Rightarrow> bool" where
  "c_calls (CLock b) \<longleftrightarrow> True" | "c_calls (CUnlock b) \<longleftrightarrow> True" | "c_calls (CNotify b) \<longleftrightarrow> True" | "c_calls _ \<longleftrightarrow> False"

abbreviation before_all :: "user_pc set" where
  "before_all \<equiv> range CEach \<union> {CLock True}"

abbreviation until_all :: "user_pc set" where
  "until_all \<equiv> range CEach \<union> {CLock True, CUnlock True, CNotify True}"

definition some_at :: "('a \<Rightarrow> bool) \<Rightarrow> 'a list \<Rightarrow> bool" where
  "some_at P xs \<longleftrightarrow> (\<exists>i<length xs. P (xs ! i))"

definition awake_pc :: "worker_pc \<Rightarrow> bool" where
  "awake_pc p \<longleftrightarrow> p \<notin> {WToSleep, WSleeping, WDone}"

definition sleep_inv :: "bool \<Rightarrow> bool \<Rightarrow> worker_pc list \<Rightarrow> user_pc list \<Rightarrow> bool" where
  "sleep_inv run rdy ps cs \<longleftrightarrow> ps \<noteq> [] \<and>
     (rdy \<and> some_at (\<lambda>p. p = WToSleep) ps \<longrightarrow> some_at w_locks ps \<or> some_at c_locks cs) \<and>
     (run \<and> rdy \<longrightarrow> some_at awake_pc ps \<or> some_at c_calls cs) \<and>
     (\<not> run \<and> some_at (\<lambda>p. p = WToSleep) ps \<longrightarrow> some_at (\<lambda>c. c \<in> before_all) cs) \<and>
     (\<not> run \<and> some_at (\<lambda>p. p = WSleeping) ps \<longrightarrow> some_at (\<lambda>c. c \<in> until_all) cs) \<and>
     (run \<longrightarrow> \<not> some_at (\<lambda>p. p = WDone) ps)"

lemma some_at_update: "i < length xs \<Longrightarrow> some_at P (xs[i := x]) \<longleftrightarrow> P x \<or> (\<exists>j<length xs. j \<noteq> i \<and> P (xs ! j))"
  by (auto simp: some_at_def nth_list_update)

lemma some_at_keep: "i < length xs \<Longrightarrow> some_at P xs \<Longrightarrow> \<not> P (xs ! i) \<or> P x \<Longrightarrow> some_at P (xs[i := x])"
  unfolding some_at_update by (auto simp: some_at_def)

lemma some_at_back: "i < length xs \<Longrightarrow> some_at P (xs[i := x]) \<Longrightarrow> \<not> P x \<Longrightarrow> some_at P xs"
  unfolding some_at_update by (auto simp: some_at_def)

lemma some_at_mono: "some_at P xs \<Longrightarrow> (\<And>x. P x \<Longrightarrow> Q x) \<Longrightarrow> some_at Q xs"
  unfolding some_at_def by blast

lemma sleep_worker:
  assumes inv: "sleep_inv run rdy ps cs" and i: "i < length ps" "p \<noteq> WToSleep" "p \<noteq> WSleeping"
    and rdy: "rdy' \<longrightarrow> rdy \<or> w_locks p" and lock: "w_locks (ps ! i) \<longrightarrow> \<not> some_at (\<lambda>p. p = WToSleep) ps" and "p = WDone \<longrightarrow> \<not> run"
  shows "sleep_inv run rdy' (ps[i := p]) cs"
proof -
  have old: "some_at (\<lambda>p. p = WToSleep) (ps[i := p]) \<Longrightarrow> some_at (\<lambda>p. p = WToSleep) ps"
    "some_at (\<lambda>p. p = WSleeping) (ps[i := p]) \<Longrightarrow> some_at (\<lambda>p. p = WSleeping) ps"
    "run \<Longrightarrow> some_at (\<lambda>p. p = WDone) (ps[i := p]) \<Longrightarrow> some_at (\<lambda>p. p = WDone) ps"
    using i assms(7) by (auto intro: some_at_back)
  have new: "w_locks p \<Longrightarrow> some_at w_locks (ps[i := p])" "run \<Longrightarrow> some_at awake_pc (ps[i := p])"
    using i assms(7) by (auto simp: some_at_update awake_pc_def)
  have keep: "some_at w_locks ps \<Longrightarrow> some_at (\<lambda>p. p = WToSleep) ps \<Longrightarrow> some_at w_locks (ps[i := p])"
    using lock by (intro some_at_keep[OF i(1)]) auto
  show ?thesis
    unfolding sleep_inv_def using inv[unfolded sleep_inv_def] old new keep rdy by (simp add: list_update_nonempty) blast
qed

lemma sleep_falls:
  assumes "sleep_inv run rdy ps cs" "i < length ps" "\<not> rdy" run
  shows "sleep_inv run rdy (ps[i := WToSleep]) cs"
  using assms by (simp add: sleep_inv_def list_update_nonempty some_at_update) (auto simp: some_at_def)

lemma sleep_sleeps:
  assumes "sleep_inv run rdy ps cs" "i < length ps" "ps ! i = WToSleep"
  shows "sleep_inv run rdy (ps[i := WSleeping]) cs"
proof -
  have "some_at (\<lambda>p. p = WToSleep) ps" using assms(2,3) by (auto simp: some_at_def)
  moreover have "some_at (\<lambda>p. p = WToSleep) (ps[i := WSleeping]) \<Longrightarrow> some_at (\<lambda>p. p = WToSleep) ps"
    "some_at (\<lambda>p. p = WDone) (ps[i := WSleeping]) \<Longrightarrow> some_at (\<lambda>p. p = WDone) ps"
    using assms(2) by (auto intro: some_at_back)
  moreover have "some_at w_locks ps \<Longrightarrow> some_at w_locks (ps[i := WSleeping])" "some_at awake_pc ps \<Longrightarrow> some_at awake_pc (ps[i := WSleeping])"
    using assms(2,3) by (auto intro!: some_at_keep simp: awake_pc_def)
  moreover have "some_at (\<lambda>c. c \<in> before_all) cs \<Longrightarrow> some_at (\<lambda>c. c \<in> until_all) cs" by (erule some_at_mono) auto
  ultimately show ?thesis using assms(1) unfolding sleep_inv_def by (simp add: list_update_nonempty) blast
qed

lemma sleep_user:
  assumes inv: "sleep_inv run rdy ps cs" and k: "k < length cs"
    and rdy: "rdy' \<longrightarrow> rdy \<or> c_locks c" and lock: "c_locks (cs ! k) \<longrightarrow> \<not> some_at (\<lambda>p. p = WToSleep) ps"
    and calls: "c_calls (cs ! k) \<longrightarrow> c_calls c" and all: "cs ! k \<in> until_all \<longrightarrow> c \<in> until_all"
    and before: "cs ! k \<in> before_all \<longrightarrow> c \<in> before_all \<or> \<not> some_at (\<lambda>p. p = WToSleep) ps"
  shows "sleep_inv run rdy' ps (cs[k := c])"
proof -
  have keep: "some_at c_calls cs \<Longrightarrow> some_at c_calls (cs[k := c])"
    "some_at c_locks cs \<Longrightarrow> some_at (\<lambda>p. p = WToSleep) ps \<Longrightarrow> some_at c_locks (cs[k := c])"
    "some_at (\<lambda>c. c \<in> until_all) cs \<Longrightarrow> some_at (\<lambda>c. c \<in> until_all) (cs[k := c])"
    "some_at (\<lambda>c. c \<in> before_all) cs \<Longrightarrow> some_at (\<lambda>p. p = WToSleep) ps \<Longrightarrow> some_at (\<lambda>c. c \<in> before_all) (cs[k := c])"
    using lock calls all before by (auto intro!: some_at_keep[OF k])
  have new: "c_locks c \<Longrightarrow> some_at c_locks (cs[k := c])" "c_locks c \<Longrightarrow> some_at c_calls (cs[k := c])"
    using k by (cases c; auto simp: some_at_update)+
  show ?thesis
    unfolding sleep_inv_def using inv[unfolded sleep_inv_def] keep new rdy by blast
qed

lemma sleep_stop:
  assumes "sleep_inv run rdy ps cs" "k < length cs" "cs ! k = CIdle"
  shows "sleep_inv False rdy ps (cs[k := CEach n])"
proof -
  have "some_at (\<lambda>c. c \<in> before_all) (cs[k := CEach n])" "some_at (\<lambda>c. c \<in> until_all) (cs[k := CEach n])"
    using assms(2) by (simp_all add: some_at_update)
  moreover have "some_at c_locks cs \<Longrightarrow> some_at c_locks (cs[k := CEach n])"
    using some_at_keep[OF assms(2), of c_locks "CEach n"] assms(3) by simp
  ultimately show ?thesis using assms(1) unfolding sleep_inv_def by blast
qed

text \<open>A caller that has notified goes: somebody is awake, or nobody slept and another caller is still before the lock.\<close>

lemma sleep_done:
  assumes inv: "sleep_inv run rdy ps cs" and k: "k < length cs" "cs ! k = CNotify b"
    and woken: "some_at awake_pc ps \<or> \<not> some_at (\<lambda>p. p = WSleeping) ps" and all: "b \<longrightarrow> \<not> some_at (\<lambda>p. p = WSleeping) ps"
  shows "sleep_inv run rdy ps (cs[k := CIdle])"
proof -
  have keep: "some_at c_locks cs \<Longrightarrow> some_at c_locks (cs[k := CIdle])"
    "some_at (\<lambda>c. c \<in> before_all) cs \<Longrightarrow> some_at (\<lambda>c. c \<in> before_all) (cs[k := CIdle])"
    "\<not> b \<Longrightarrow> some_at (\<lambda>c. c \<in> until_all) cs \<Longrightarrow> some_at (\<lambda>c. c \<in> until_all) (cs[k := CIdle])"
    using k by (auto intro!: some_at_keep[OF k(1)])
  have calls: "some_at c_locks (cs[k := CIdle]) \<Longrightarrow> some_at c_calls (cs[k := CIdle])" by (erule some_at_mono) (metis c_locks.elims(2) c_calls.simps(1))
  have "some_at awake_pc ps" if a: "run" "rdy" "\<not> some_at c_calls (cs[k := CIdle])"
  proof (rule ccontr)
    assume n: "\<not> some_at awake_pc ps"
    have "ps \<noteq> []" "\<not> some_at (\<lambda>p. p = WDone) ps" using inv a(1) by (simp_all add: sleep_inv_def)
    moreover from this(1) have "ps ! 0 \<in> {WToSleep, WSleeping, WDone}" "0 < length ps" using n by (auto simp: some_at_def awake_pc_def)
    ultimately have "some_at (\<lambda>p. p = WToSleep) ps" using woken n unfolding some_at_def by blast
    then have "some_at w_locks ps \<or> some_at c_locks cs" using inv a(2) by (simp add: sleep_inv_def)
    moreover have "some_at w_locks ps \<Longrightarrow> some_at awake_pc ps" by (erule some_at_mono) (auto simp: awake_pc_def)
    ultimately show False using n keep(1) calls a(3) by blast
  qed
  then show ?thesis using inv keep all unfolding sleep_inv_def by blast
qed

section \<open>What the workers hold\<close>

text \<open>The requests in the hands of a worker: the saves it has kept, and the one it is at.\<close>

fun pc_request :: "worker_pc \<Rightarrow> request list" where
  "pc_request (WProcess r) = [r]" | "pc_request (WRelease p) = pc_request p" | "pc_request (WLock p) = pc_request p"
| "pc_request (WUnlock p) = pc_request p" | "pc_request (WNotify p) = pc_request p" | "pc_request _ = []"

definition hand :: "dyn_worker \<Rightarrow> bytes list" where
  "hand w = map rq_session_key (dw_saves w @ pc_request (dw_pc w))"

definition hands :: "dyn_wait \<Rightarrow> bytes list" where
  "hands s = concat (map hand (dt_workers s))"

definition keys_inv :: "dyn_wait \<Rightarrow> bool" where
  "keys_inv s \<longleftrightarrow> dp_wf (dt_shared s) \<and> distinct (hands s) \<and> dp_busy (dt_shared s) = set (hands s)"

text \<open>Outside the inner loop a worker has released the saves it kept.\<close>

fun may_keep :: "worker_pc \<Rightarrow> bool" where
  "may_keep WTake \<longleftrightarrow> True" | "may_keep WLoop \<longleftrightarrow> True" | "may_keep (WRelease p) \<longleftrightarrow> True"
| "may_keep (WLock p) \<longleftrightarrow> may_keep p" | "may_keep (WUnlock p) \<longleftrightarrow> may_keep p" | "may_keep (WNotify p) \<longleftrightarrow> may_keep p" | "may_keep _ \<longleftrightarrow> False"

text \<open>Where flushing and waking go on.\<close>

fun pc_ok :: "worker_pc \<Rightarrow> bool" where
  "pc_ok (WRelease p) \<longleftrightarrow> (case p of WLoop \<Rightarrow> True | WCheck \<Rightarrow> True | WProcess r \<Rightarrow> True | _ \<Rightarrow> False)"
| "pc_ok (WLock p) \<longleftrightarrow> (case p of WLoop \<Rightarrow> True | WRelease q \<Rightarrow> pc_ok p | _ \<Rightarrow> False)"
| "pc_ok (WUnlock p) \<longleftrightarrow> (case p of WLoop \<Rightarrow> True | WRelease q \<Rightarrow> pc_ok p | _ \<Rightarrow> False)"
| "pc_ok (WNotify p) \<longleftrightarrow> (case p of WLoop \<Rightarrow> True | WRelease q \<Rightarrow> pc_ok p | _ \<Rightarrow> False)"
| "pc_ok _ \<longleftrightarrow> True"

definition kept_ok :: "dyn_worker \<Rightarrow> bool" where
  "kept_ok w \<longleftrightarrow> pc_ok (dw_pc w) \<and> (\<not> may_keep (dw_pc w) \<longrightarrow> dw_saves w = [])"

lemma pc_ok_resumes:
  "pc_ok (WRelease p) \<Longrightarrow> pc_ok p \<and> p \<noteq> WToSleep \<and> p \<noteq> WSleeping \<and> p \<noteq> WDone \<and> \<not> w_locks p"
  "pc_ok (WNotify p) \<Longrightarrow> pc_ok p \<and> p \<noteq> WToSleep \<and> p \<noteq> WSleeping \<and> p \<noteq> WDone \<and> \<not> w_locks p \<and> may_keep p"
  by (auto split: worker_pc.splits)

lemma concat_split:
  assumes "i < length ws"
  obtains us vs where "\<And>w. concat (map f (ws[i := w])) = us @ f w @ vs" "concat (map f ws) = us @ f (ws ! i) @ vs"
proof
  show "concat (map f (ws[i := w])) = concat (map f (take i ws)) @ f w @ concat (map f (drop (Suc i) ws))" for w
    using assms by (simp add: upd_conv_take_nth_drop)
  from this[of "ws ! i"] show "concat (map f ws) = concat (map f (take i ws)) @ f (ws ! i) @ concat (map f (drop (Suc i) ws))" by simp
qed

lemma hands_put: "i < length (dt_workers s) \<Longrightarrow> hand w = hand (dt_workers s ! i) \<Longrightarrow> hands (put_worker i w s) = hands s"
  by (rule concat_split[where ws = "dt_workers s" and f = hand]) (auto simp: hands_def put_worker_def)

lemma keys_put:
  assumes "keys_inv s" "i < length (dt_workers s)" "hand w = hand (dt_workers s ! i)"
  shows "keys_inv (put_worker i w s)"
  using assms hands_put[OF assms(2,3)] by (simp add: keys_inv_def) (simp add: put_worker_def)

lemma keys_take:
  assumes inv: "keys_inv s" and i: "i < length (dt_workers s)" and t: "dp_take (dt_shared s) = (Some r, d)"
    and w: "hand w = hand (dt_workers s ! i) @ [rq_session_key r]"
  shows "keys_inv (put_worker i w (s\<lparr>dt_shared := d, dt_taken := x\<rparr>))"
proof -
  obtain us vs where c: "\<And>w. concat (map hand ((dt_workers s)[i := w])) = us @ hand w @ vs"
    "concat (map hand (dt_workers s)) = us @ hand (dt_workers s ! i) @ vs" using concat_split[OF i, of hand] by blast
  have "hands (put_worker i w (s\<lparr>dt_shared := d, dt_taken := x\<rparr>)) = us @ hand (dt_workers s ! i) @ [rq_session_key r] @ vs"
    "hands s = us @ hand (dt_workers s ! i) @ vs" by (simp_all add: hands_def put_worker_def c w)
  with dp_take_ok[OF _ t] inv show ?thesis by (auto simp: keys_inv_def put_worker_def)
qed

lemma keys_none:
  assumes "keys_inv s" "dp_take (dt_shared s) = (None, d)"
  shows "keys_inv (s\<lparr>dt_shared := d\<rparr>)"
  using dp_take_none[OF _ assms(2)] assms(1) by (auto simp: keys_inv_def hands_def)

lemma keys_finish:
  assumes inv: "keys_inv s" and i: "i < length (dt_workers s)"
    and w: "hand (dt_workers s ! i) = as @ k # bs" "hand w = as @ bs"
  shows "keys_inv (put_worker i w (s\<lparr>dt_shared := dp_finish k (dt_shared s)\<rparr>))"
proof -
  obtain us vs where c: "\<And>w. concat (map hand ((dt_workers s)[i := w])) = us @ hand w @ vs"
    "concat (map hand (dt_workers s)) = us @ hand (dt_workers s ! i) @ vs" using concat_split[OF i, of hand] by blast
  have h: "hands (put_worker i w (s\<lparr>dt_shared := dp_finish k (dt_shared s)\<rparr>)) = us @ as @ bs @ vs" "hands s = us @ as @ k # bs @ vs"
    by (simp_all add: hands_def put_worker_def c w)
  then have "k \<in> dp_busy (dt_shared s)" using inv by (simp add: keys_inv_def)
  from dp_finish_ok[OF _ this] inv h show ?thesis by (auto simp: keys_inv_def put_worker_def)
qed

lemma keys_push:
  assumes "keys_inv s" "dp_push (dt_cap s) (Some r) (dt_shared s) = (ok, d)"
  shows "keys_inv (s\<lparr>dt_shared := d\<rparr>)"
proof -
  have "dp_wf d \<and> dp_busy d = dp_busy (dt_shared s)"
    using dp_push_ok[of "dt_shared s" "dt_cap s" r] dp.push_full[of "dt_cap s" r "dt_shared s"] assms by (cases ok) (auto simp: keys_inv_def)
  then show ?thesis using assms(1) by (simp add: keys_inv_def hands_def)
qed

section \<open>The invariant\<close>

definition pcs :: "dyn_wait \<Rightarrow> worker_pc list" where
  "pcs s = map dw_pc (dt_workers s)"

definition dt_inv :: "dyn_wait \<Rightarrow> bool" where
  "dt_inv s \<longleftrightarrow> keys_inv s \<and> (\<forall>w\<in>set (dt_workers s). kept_ok w) \<and>
     sleep_inv (dt_running s) (dp_is_ready (dt_shared s)) (pcs s) (dt_users s)"

lemma state_simps [simp]:
  "dt_workers (put_worker i w s) = (dt_workers s)[i := w]" "dt_users (put_worker i w s) = dt_users s"
  "dt_shared (put_worker i w s) = dt_shared s" "dt_running (put_worker i w s) = dt_running s"
  "dt_taken (put_worker i w s) = dt_taken s" "dt_batch (put_worker i w s) = dt_batch s"
  "dt_workers (put_user k c s) = dt_workers s" "dt_users (put_user k c s) = (dt_users s)[k := c]"
  "dt_shared (put_user k c s) = dt_shared s" "dt_running (put_user k c s) = dt_running s"
  "dt_users (goto i p s) = dt_users s" "dt_shared (goto i p s) = dt_shared s" "dt_running (goto i p s) = dt_running s"
  "dt_taken (goto i p s) = dt_taken s" "length (dt_workers (goto i p s)) = length (dt_workers s)" "dt_batch (goto i p s) = dt_batch s"
  by (simp_all add: put_worker_def put_user_def goto_def)

lemma pcs_simps [simp]:
  "pcs (put_worker i w s) = (pcs s)[i := dw_pc w]" "pcs (goto i p s) = (pcs s)[i := p]" "pcs (put_user k c s) = pcs s"
  "pcs (s\<lparr>dt_shared := d\<rparr>) = pcs s" "pcs (s\<lparr>dt_taken := x\<rparr>) = pcs s" "pcs (s\<lparr>dt_running := b\<rparr>) = pcs s"
  "pcs (s\<lparr>dt_draining := b\<rparr>) = pcs s"
  by (simp_all add: pcs_def goto_def map_update put_worker_def put_user_def)

lemma is_at_pcs: "is_at i p s \<longleftrightarrow> i < length (pcs s) \<and> pcs s ! i = p"
  by (auto simp: is_at_def pcs_def)

lemma hand_same: "pc_request p = pc_request (dw_pc w) \<Longrightarrow> hand (w\<lparr>dw_pc := p\<rparr>) = hand w" "hand (w\<lparr>dw_signaled := b\<rparr>) = hand w"
  by (simp_all add: hand_def)

lemma keys_goto:
  assumes "keys_inv s" "i < length (dt_workers s)" "pc_request p = pc_request (dw_pc (dt_workers s ! i))"
  shows "keys_inv (goto i p s)"
  unfolding goto_def by (rule keys_put[OF assms(1,2)]) (simp add: hand_same assms(3))

lemma kept_put: "\<forall>w\<in>set (dt_workers s). kept_ok w \<Longrightarrow> kept_ok w \<Longrightarrow> \<forall>w\<in>set (dt_workers (put_worker i w s)). kept_ok w"
  by (auto dest: set_update_subset_insert[THEN subsetD])

lemma free_none_falling: "mutex_free s \<Longrightarrow> \<not> some_at (\<lambda>p. p = WToSleep) (pcs s)"
  by (auto simp: mutex_free_def some_at_def pcs_def dest!: bspec[OF _ nth_mem])

text \<open>A step of one worker that does not fall asleep, and the one that only goes to another place.\<close>

lemma inv_worker:
  assumes inv: "dt_inv s" and i: "i < length (dt_workers s)" and frame: "dt_workers s' = (dt_workers s)[i := w]" "dt_users s' = dt_users s"
      "dt_running s' = dt_running s" and keys: "keys_inv s'" and kept: "kept_ok w" and p: "dw_pc w \<noteq> WToSleep" "dw_pc w \<noteq> WSleeping"
    and rdy: "dp_is_ready (dt_shared s') \<longrightarrow> dp_is_ready (dt_shared s) \<or> w_locks (dw_pc w)"
    and lock: "w_locks (dw_pc (dt_workers s ! i)) \<longrightarrow> mutex_free s" and "dw_pc w = WDone \<longrightarrow> \<not> dt_running s"
  shows "dt_inv s'"
proof -
  have pcs: "pcs s' = (pcs s)[i := dw_pc w]" by (simp add: pcs_def frame map_update)
  have "\<forall>w\<in>set (dt_workers s'). kept_ok w"
    using inv kept by (auto simp: frame dt_inv_def dest: set_update_subset_insert[THEN subsetD])
  moreover have "sleep_inv (dt_running s) (dp_is_ready (dt_shared s')) ((pcs s)[i := dw_pc w]) (dt_users s)"
    using inv i p rdy lock assms(12) free_none_falling[of s]
    by (intro sleep_worker[where rdy = "dp_is_ready (dt_shared s)"]) (auto simp: dt_inv_def pcs_def)
  ultimately show ?thesis by (simp add: dt_inv_def keys frame pcs)
qed

lemma inv_goto:
  assumes inv: "dt_inv s" and i: "is_at i p0 s" and p: "p \<noteq> WToSleep" "p \<noteq> WSleeping"
    and same: "pc_request p = pc_request p0" and pc: "pc_ok p0 \<longrightarrow> pc_ok p" and kept: "may_keep p \<or> \<not> may_keep p0 \<or> dw_saves (dt_workers s ! i) = []"
    and lock: "w_locks p0 \<longrightarrow> mutex_free s" and fin: "p = WDone \<longrightarrow> \<not> dt_running s"
  shows "dt_inv (goto i p s)"
proof -
  have i': "i < length (dt_workers s)" "dw_pc (dt_workers s ! i) = p0" using i by (simp_all add: is_at_def)
  then have w: "dt_workers s ! i \<in> set (dt_workers s)" by simp
  have k: "kept_ok ((dt_workers s ! i)\<lparr>dw_pc := p\<rparr>)" using kept pc inv w i'(2) by (auto simp: dt_inv_def kept_ok_def)
  have "keys_inv (goto i p s)" using inv i' same by (intro keys_goto) (auto simp: dt_inv_def)
  then show ?thesis
    by - (rule inv_worker[where s' = "goto i p s" and w = "(dt_workers s ! i)\<lparr>dw_pc := p\<rparr>", OF inv i'(1)],
      use p lock fin i' k in \<open>simp_all add: goto_def\<close>)
qed

lemma notify_one_frame:
  "notify_one s s1 \<Longrightarrow> dt_users s1 = dt_users s \<and> dt_shared s1 = dt_shared s \<and> dt_running s1 = dt_running s \<and> dt_taken s1 = dt_taken s \<and>
     length (dt_workers s1) = length (dt_workers s) \<and> (is_at i p s \<longrightarrow> p \<noteq> WSleeping \<longrightarrow> is_at i p s1 \<and> dt_workers s1 ! i = dt_workers s ! i)"
  by (induction rule: notify_one.induct) (auto simp: is_at_def goto_def nth_list_update)

lemma notify_one_some: "\<exists>s1. notify_one s s1"
proof (cases "\<exists>i<length (dt_workers s). dw_pc (dt_workers s ! i) = WSleeping")
  case True
  then obtain j where "is_at j WSleeping s" by (auto simp: is_at_def)
  then show ?thesis by (intro exI[of _ "goto j (WWoken False) s"] notify_one.one)
next
  case False
  then show ?thesis by (auto simp: in_set_conv_nth intro!: exI[of _ s] notify_one.nobody)
qed

lemma inv_notify_one:
  assumes "notify_one s s1" "dt_inv s"
  shows "dt_inv s1 \<and> (some_at awake_pc (pcs s1) \<or> \<not> some_at (\<lambda>p. p = WSleeping) (pcs s1))"
  using assms
proof (induction rule: notify_one.induct)
  case (one j s)
  have "dt_inv (goto j (WWoken False) s)" by (rule inv_goto[OF one(2,1)]) simp_all
  moreover have "some_at awake_pc (pcs (goto j (WWoken False) s))"
    using one(1) by (simp add: is_at_pcs some_at_update awake_pc_def)
  ultimately show ?case by blast
next
  case (nobody s)
  then show ?case by (auto simp: some_at_def pcs_def dest!: bspec[OF _ nth_mem])
qed

lemma take_ready_before: "dp_wf d \<Longrightarrow> dp_take d = (x, d') \<Longrightarrow> dp_is_ready d' \<Longrightarrow> dp_is_ready d"
  by (erule dp_take_cases) (auto simp: dp_is_ready_def)

lemma ready_take: "dp_wf d \<Longrightarrow> dp_is_ready d \<Longrightarrow> \<exists>r d'. dp_take d = (Some r, d')"
  by (erule dp_take_cases) (auto simp: dp_is_ready_def)

lemma ready_finish: "dp_is_ready d \<Longrightarrow> dp_is_ready (dp_finish k d)"
  by (auto simp: dp_is_ready_def dp_finish_def Let_def split: option.splits)

lemma worker_ok: "dt_inv s \<Longrightarrow> i < length (dt_workers s) \<Longrightarrow> kept_ok (dt_workers s ! i)"
  by (simp add: dt_inv_def)

lemma inv_step: "worker_step i s s' \<Longrightarrow> dt_inv s \<Longrightarrow> dt_inv s'"
proof (induction rule: worker_step.induct)
  case (w_top s)
  then show ?case by (intro inv_goto[OF _ w_top(1)]) auto
next
  case (w_clear s)
  let ?w = "(dt_workers s ! i)\<lparr>dw_signaled := False, dw_pc := WTake\<rparr>"
  have "keys_inv (put_worker i ?w s)" using w_clear by (intro keys_put) (auto simp: dt_inv_def is_at_def hand_def)
  then show ?case
    using w_clear by - (rule inv_worker[where s = s and i = i and w = ?w], auto simp: is_at_def kept_ok_def)
next
  case (w_save s r d saves)
  let ?w = "(dt_workers s ! i)\<lparr>dw_saves := saves, dw_pc := (if length saves \<ge> dt_batch s then WRelease WLoop else WLoop)\<rparr>"
  have inv: "keys_inv s" "dp_wf (dt_shared s)" using w_save by (auto simp: dt_inv_def keys_inv_def)
  have "keys_inv (put_worker i ?w (s\<lparr>dt_shared := d, dt_taken := dt_taken s @ [r]\<rparr>))"
    using w_save by (intro keys_take[OF inv(1) _ w_save(2)]) (auto simp: is_at_def hand_def)
  then show ?case
    using w_save take_ready_before[OF inv(2) w_save(2)]
    by - (rule inv_worker[where s = s and i = i and w = ?w], auto simp: is_at_def kept_ok_def)
next
  case (w_other s r d)
  let ?w = "(dt_workers s ! i)\<lparr>dw_pc := WRelease (WProcess r)\<rparr>"
  have inv: "keys_inv s" "dp_wf (dt_shared s)" using w_other by (auto simp: dt_inv_def keys_inv_def)
  have "keys_inv (put_worker i ?w (s\<lparr>dt_shared := d, dt_taken := dt_taken s @ [r]\<rparr>))"
    using w_other by (intro keys_take[OF inv(1) _ w_other(2)]) (auto simp: is_at_def hand_def)
  then show ?case
    using w_other take_ready_before[OF inv(2) w_other(2)]
    by - (rule inv_worker[where s = s and i = i and w = ?w], auto simp: is_at_def kept_ok_def goto_def)
next
  case (w_none s d)
  let ?w = "(dt_workers s ! i)\<lparr>dw_pc := WRelease WCheck\<rparr>"
  have inv: "keys_inv s" "dp_wf (dt_shared s)" using w_none by (auto simp: dt_inv_def keys_inv_def)
  have "keys_inv (goto i (WRelease WCheck) (s\<lparr>dt_shared := d\<rparr>))"
    using w_none keys_none[OF inv(1) w_none(2)] by (intro keys_goto) (auto simp: is_at_def)
  then show ?case
    using w_none take_ready_before[OF inv(2) w_none(2)]
    by - (rule inv_worker[where s = s and i = i and w = ?w], auto simp: is_at_def kept_ok_def goto_def)
next
  case (w_loop s)
  then show ?case by (intro inv_goto[OF _ w_loop(1)]) auto
next
  case (w_flushed p s)
  then have "pc_ok (WRelease p)" using worker_ok[of s i] by (auto simp: is_at_def kept_ok_def)
  from pc_ok_resumes(1)[OF this] w_flushed show ?case by (intro inv_goto[OF _ w_flushed(1)]) auto
next
  case (w_release p s r rs)
  let ?w = "(dt_workers s ! i)\<lparr>dw_saves := rs, dw_pc := WLock (WRelease p)\<rparr>"
  have "keys_inv (put_worker i ?w (s\<lparr>dt_shared := dp_finish (rq_session_key r) (dt_shared s)\<rparr>))"
    using w_release by (intro keys_finish[where as = "[]"]) (auto simp: is_at_def hand_def dt_inv_def)
  then show ?case
    using w_release worker_ok[of s i] by - (rule inv_worker[where s = s and i = i and w = ?w], auto simp: is_at_def kept_ok_def)
next
  case (w_process r s)
  let ?w = "(dt_workers s ! i)\<lparr>dw_pc := WLock WLoop\<rparr>"
  have "keys_inv (put_worker i ?w (s\<lparr>dt_shared := dp_finish (rq_session_key r) (dt_shared s)\<rparr>))"
    using w_process by (intro keys_finish[where bs = "[]"]) (auto simp: is_at_def hand_def dt_inv_def)
  then show ?case
    using w_process by - (rule inv_worker[where s = s and i = i and w = ?w], auto simp: is_at_def kept_ok_def goto_def)
next
  case (w_lock p s)
  then show ?case by (intro inv_goto[OF _ w_lock(1)]) auto
next
  case (w_unlock p s)
  then show ?case by (intro inv_goto[OF _ w_unlock(1)]) auto
next
  case (w_notify p s s1)
  note n = inv_notify_one[OF w_notify(2,3)] notify_one_frame[OF w_notify(2), of i "WNotify p"]
  have "pc_ok (WNotify p)" using w_notify worker_ok[of s i] by (auto simp: is_at_def kept_ok_def)
  from pc_ok_resumes(2)[OF this] n w_notify(1) show ?case by (intro inv_goto[where ?p0.0 = "WNotify p"]) auto
next
  case (w_check s)
  then show ?case by (intro inv_goto[OF _ w_check(1)]) auto
next
  case (w_run s)
  then show ?case by (intro inv_goto[OF _ w_run(1)]) auto
next
  case (w_wait s)
  then show ?case by (intro inv_goto[OF _ w_wait(1)]) auto
next
  case (w_pred t s)
  show ?case
  proof (cases "dp_is_ready (dt_shared s) \<or> \<not> dt_running s \<or> t")
    case True
    with w_pred show ?thesis by (intro inv_goto[OF _ w_pred(1)]) auto
  next
    case False
    with w_pred have "sleep_inv (dt_running s) (dp_is_ready (dt_shared s)) ((pcs s)[i := WToSleep]) (dt_users s)"
      by (intro sleep_falls) (auto simp: dt_inv_def is_at_pcs)
    moreover have "keys_inv (goto i WToSleep s)" using w_pred by (intro keys_goto) (auto simp: dt_inv_def is_at_def)
    moreover have "\<forall>w\<in>set (dt_workers (goto i WToSleep s)). kept_ok w"
      using w_pred unfolding goto_def by (intro kept_put) (auto simp: dt_inv_def kept_ok_def is_at_def)
    ultimately show ?thesis using False by (simp add: dt_inv_def)
  qed
next
  case (w_sleep s)
  then have "sleep_inv (dt_running s) (dp_is_ready (dt_shared s)) ((pcs s)[i := WSleeping]) (dt_users s)"
    by (intro sleep_sleeps) (auto simp: dt_inv_def is_at_pcs)
  moreover have "keys_inv (goto i WSleeping s)" using w_sleep by (intro keys_goto) (auto simp: dt_inv_def is_at_def)
  moreover have "\<forall>w\<in>set (dt_workers (goto i WSleeping s)). kept_ok w"
    using w_sleep unfolding goto_def by (intro kept_put) (auto simp: dt_inv_def kept_ok_def is_at_def)
  ultimately show ?case by (simp add: dt_inv_def)
next
  case (w_relock t s)
  then show ?case by (intro inv_goto[OF _ w_relock(1)]) auto
qed

text \<open>The other threads.\<close>

lemma inv_user:
  assumes inv: "dt_inv s" and k: "user_at k c0 s" and frame: "dt_workers s' = dt_workers s" "dt_users s' = (dt_users s)[k := c]"
      "dt_running s' = dt_running s" and keys: "keys_inv s'"
    and rdy: "dp_is_ready (dt_shared s') \<longrightarrow> dp_is_ready (dt_shared s) \<or> c_locks c" and lock: "c_locks c0 \<longrightarrow> mutex_free s"
    and calls: "c_calls c0 \<longrightarrow> c_calls c" and all: "c0 \<in> until_all \<longrightarrow> c \<in> until_all"
    and before: "c0 \<in> before_all \<longrightarrow> c \<in> before_all \<or> mutex_free s"
  shows "dt_inv s'"
proof -
  have "sleep_inv (dt_running s) (dp_is_ready (dt_shared s')) (pcs s) ((dt_users s)[k := c])"
  proof (rule sleep_user[where rdy = "dp_is_ready (dt_shared s)"])
    have k': "k < length (dt_users s)" "dt_users s ! k = c0" using k by (simp_all add: user_at_def)
    show "k < length (dt_users s)" by (rule k')
    show "c_locks (dt_users s ! k) \<longrightarrow> \<not> some_at (\<lambda>p. p = WToSleep) (pcs s)" unfolding k'(2) using lock free_none_falling by blast
    show "c_calls (dt_users s ! k) \<longrightarrow> c_calls c" unfolding k'(2) by (rule calls)
    show "dt_users s ! k \<in> until_all \<longrightarrow> c \<in> until_all" unfolding k'(2) by (rule all)
    show "dt_users s ! k \<in> before_all \<longrightarrow> c \<in> before_all \<or> \<not> some_at (\<lambda>p. p = WToSleep) (pcs s)"
      unfolding k'(2) using before free_none_falling by blast
  qed (use inv rdy in \<open>simp_all add: dt_inv_def\<close>)
  then show ?thesis using inv keys by (simp add: dt_inv_def frame pcs_def)
qed

lemma keys_put_user [simp]: "keys_inv (put_user k c s) = keys_inv s" "keys_inv (s\<lparr>dt_draining := b\<rparr>) = keys_inv s"
  "keys_inv (s\<lparr>dt_running := b\<rparr>) = keys_inv s"
  by (simp_all add: keys_inv_def hands_def put_user_def)

lemma push_ready_wf: "dp_push cap (Some r) d = (False, d') \<Longrightarrow> d' = d"
  using dp.push_full[of cap r d] by simp

lemma inv_user_step: "user_step s s' \<Longrightarrow> dt_inv s \<Longrightarrow> dt_inv s'"
proof (induction rule: user_step.induct)
  case (c_submit k s r)
  show ?case by (rule inv_user[OF c_submit(4,1)]) (use c_submit(4) in \<open>auto simp: dt_inv_def\<close>)
next
  case (c_push k r s ok d)
  then have keys: "keys_inv (s\<lparr>dt_shared := d\<rparr>)" by (intro keys_push) (auto simp: dt_inv_def)
  show ?case
  proof (cases ok)
    case True
    show ?thesis by (rule inv_user[OF c_push(3,1), where c = "CLock False"]) (use keys True in auto)
  next
    case False
    have "d = dt_shared s" using push_ready_wf[of "dt_cap s" r "dt_shared s" d] c_push(2) False by simp
    then show ?thesis by (intro inv_user[OF c_push(3,1), where c = CIdle]) (use keys False in auto)
  qed
next
  case (c_drain k s)
  show ?case by (rule inv_user[OF c_drain(3,1)]) (use c_drain(3) in \<open>auto simp: dt_inv_def\<close>)
next
  case (c_stop k s)
  then have "sleep_inv False (dp_is_ready (dt_shared s)) (pcs s) ((dt_users s)[k := CEach 0])"
    by (intro sleep_stop[where run = True]) (auto simp: dt_inv_def user_at_def)
  with c_stop show ?case by (simp add: dt_inv_def)
next
  case (c_each k n s)
  let ?w = "(dt_workers s ! n)\<lparr>dw_signaled := True\<rparr>"
  have "pcs (put_worker n ?w s) = pcs s" by (simp add: pcs_def put_worker_def map_update) (metis list_update_id map_update)
  moreover have "keys_inv (put_worker n ?w s)" using c_each by (intro keys_put) (auto simp: dt_inv_def hand_same)
  moreover have "\<forall>w\<in>set (dt_workers (put_worker n ?w s)). kept_ok w"
    using c_each worker_ok[OF c_each(3,2)] by (intro kept_put) (auto simp: dt_inv_def kept_ok_def)
  ultimately have inv: "dt_inv (put_worker n ?w s)" using c_each by (simp add: dt_inv_def)
  have at: "user_at k (CEach n) (put_worker n ?w s)" using c_each(1) by (simp add: user_at_def)
  show ?case by (rule inv_user[OF inv at, where c = "CEach (n + 1)"]) (use inv in \<open>auto simp: dt_inv_def\<close>)
next
  case (c_all k n s)
  show ?case by (rule inv_user[OF c_all(3,1)]) (use c_all in \<open>auto simp: dt_inv_def\<close>)
next
  case (c_lock k b s)
  show ?case by (rule inv_user[OF c_lock(3,1)]) (use c_lock in \<open>auto simp: dt_inv_def\<close>)
next
  case (c_unlock k b s)
  show ?case by (rule inv_user[OF c_unlock(2,1)]) (use c_unlock in \<open>auto simp: dt_inv_def\<close>)
next
  case (c_notify_one k s s1)
  note n = inv_notify_one[OF c_notify_one(2,3)] notify_one_frame[OF c_notify_one(2)]
  have "sleep_inv (dt_running s1) (dp_is_ready (dt_shared s1)) (pcs s1) ((dt_users s1)[k := CIdle])"
    using n c_notify_one(1) by (intro sleep_done[where b = False]) (auto simp: dt_inv_def user_at_def)
  with n show ?case by (simp add: dt_inv_def)
next
  case (c_notify_all k s)
  let ?s = "notify_all s"
  have same: "pcs ?s = map (\<lambda>p. if p = WSleeping then WWoken False else p) (pcs s)" "dt_users ?s = dt_users s" "dt_shared ?s = dt_shared s"
    "dt_running ?s = dt_running s" by (simp_all add: pcs_def notify_all_def)
  have woken: "\<not> some_at (\<lambda>p. p = WSleeping) (pcs ?s)" by (simp add: same some_at_def)
  have "some_at P (pcs ?s)" if "some_at P (pcs s)" "\<not> P WSleeping" for P
  proof -
    from that obtain i where "i < length (pcs s)" "P (pcs s ! i)" "pcs s ! i \<noteq> WSleeping" unfolding some_at_def by metis
    then show ?thesis by (auto simp: same some_at_def intro!: exI[of _ i])
  qed
  moreover have "some_at P (pcs ?s) \<Longrightarrow> \<not> P (WWoken False) \<Longrightarrow> some_at P (pcs s)" for P
    by (auto simp: same some_at_def split: if_splits)
  ultimately have moved: "some_at w_locks (pcs s) \<Longrightarrow> some_at w_locks (pcs ?s)" "some_at awake_pc (pcs s) \<Longrightarrow> some_at awake_pc (pcs ?s)"
    "some_at (\<lambda>p. p = WToSleep) (pcs ?s) \<Longrightarrow> some_at (\<lambda>p. p = WToSleep) (pcs s)"
    "some_at (\<lambda>p. p = WDone) (pcs ?s) \<Longrightarrow> some_at (\<lambda>p. p = WDone) (pcs s)" by (simp_all add: awake_pc_def)
  have "pcs s \<noteq> [] \<Longrightarrow> pcs ?s \<noteq> []" by (simp add: same)
  with c_notify_all(2) moved woken have "sleep_inv (dt_running s) (dp_is_ready (dt_shared s)) (pcs ?s) (dt_users s)"
    unfolding dt_inv_def sleep_inv_def by blast
  then have "sleep_inv (dt_running ?s) (dp_is_ready (dt_shared ?s)) (pcs ?s) ((dt_users ?s)[k := CIdle])"
    using c_notify_all(1) woken by (intro sleep_done[where b = True]) (auto simp: same user_at_def)
  moreover have "hand (if dw_pc w = WSleeping then w\<lparr>dw_pc := WWoken False\<rparr> else w) = hand w" for w by (simp add: hand_def)
  then have "hands ?s = hands s" by (simp add: hands_def notify_all_def o_def)
  then have "keys_inv ?s" using c_notify_all(2) by (simp add: dt_inv_def keys_inv_def same)
  moreover have "\<forall>w\<in>set (dt_workers ?s). kept_ok w" using c_notify_all(2) by (auto simp: dt_inv_def notify_all_def kept_ok_def)
  ultimately show ?case by (simp add: dt_inv_def)
qed

lemma inv_timer: "timer_step s s' \<Longrightarrow> dt_inv s \<Longrightarrow> dt_inv s'"
proof (induction rule: timer_step.induct)
  case (timer i s t)
  then show ?case by (intro inv_goto[OF _ timer(1)]) auto
qed

lemma inv_start:
  assumes "0 < n"
  shows "dt_inv (dt_start n batch cap m)"
proof -
  have "dp_busy dp_init = {}" "\<not> dp_is_ready dp_init" by (simp_all add: dp_busy_def dp_init_def key_queue_at_def dp_is_ready_def)
  with assms show ?thesis
    by (simp add: dt_inv_def dt_start_def keys_inv_def hands_def kept_ok_def sleep_inv_def pcs_def some_at_def hand_def)
qed

lemma inv_run: "dt_step\<^sup>*\<^sup>* s s' \<Longrightarrow> dt_inv s \<Longrightarrow> dt_inv s'"
  by (induction rule: rtranclp_induct) (auto simp: dt_step_def intro: inv_step inv_timer inv_user_step)

section \<open>The workers go on\<close>

text \<open>How far a worker is from taking a request, and from its end when the pool has been stopped; a save it keeps costs four steps.\<close>

fun to_request :: "worker_pc \<Rightarrow> nat" where
  "to_request WTake = 1" | "to_request WClear = 2" | "to_request WLoop = 2" | "to_request WTop = 3"
| "to_request (WPred t) = 4" | "to_request WWait = 5" | "to_request (WWoken t) = 5" | "to_request WRun = 6" | "to_request WSleeping = 6"
| "to_request WCheck = 7" | "to_request WToSleep = 7" | "to_request (WProcess r) = 6" | "to_request WDone = 0"
| "to_request (WRelease p) = 1 + to_request p" | "to_request (WNotify p) = 1 + to_request p"
| "to_request (WUnlock p) = 2 + to_request p" | "to_request (WLock p) = 3 + to_request p"

fun to_finish :: "worker_pc \<Rightarrow> nat" where
  "to_finish WDone = 0" | "to_finish WTop = 1" | "to_finish WRun = 1" | "to_finish WCheck = 2" | "to_finish (WPred t) = 2"
| "to_finish WWait = 3" | "to_finish (WWoken t) = 3" | "to_finish WSleeping = 4" | "to_finish WToSleep = 5" | "to_finish WLoop = 4"
| "to_finish (WProcess r) = 8" | "to_finish WTake = 10" | "to_finish WClear = 11"
| "to_finish (WRelease p) = 1 + to_finish p" | "to_finish (WNotify p) = 1 + to_finish p"
| "to_finish (WUnlock p) = 2 + to_finish p" | "to_finish (WLock p) = 3 + to_finish p"

definition way :: "(worker_pc \<Rightarrow> nat) \<Rightarrow> dyn_worker \<Rightarrow> nat" where
  "way f w = f (dw_pc w) + 4 * length (dw_saves w)"

definition total_way :: "(worker_pc \<Rightarrow> nat) \<Rightarrow> dyn_wait \<Rightarrow> nat" where
  "total_way f s = sum_list (map (way f) (dt_workers s))"

lemma total_less:
  assumes "i < length (dt_workers s)" "dt_workers s' = (dt_workers s)[i := w]" "way f w < way f (dt_workers s ! i)"
  shows "total_way f s' < total_way f s"
proof -
  have "way f (dt_workers s ! i) \<le> total_way f s" 
    using elem_le_sum_list[of i "map (way f) (dt_workers s)"] assms(1) by (simp add: total_way_def)
  then show ?thesis using assms by (simp add: total_way_def map_update sum_list_update)
qed

lemma total_goto: "is_at i p s \<Longrightarrow> f q < f p \<Longrightarrow> total_way f (goto i q s) < total_way f s"
  by (rule total_less[where i = i and w = "(dt_workers s ! i)\<lparr>dw_pc := q\<rparr>"]) (auto simp: is_at_def goto_def way_def)

lemma total_frame [simp]: "total_way f (s\<lparr>dt_shared := d\<rparr>) = total_way f s" "is_at i p (s\<lparr>dt_shared := d\<rparr>) = is_at i p s"
  by (simp_all add: total_way_def is_at_def)

lemma total_goto_shared: "is_at i p s \<Longrightarrow> f q < f p \<Longrightarrow> total_way f (goto i q (s\<lparr>dt_shared := d\<rparr>)) < total_way f s"
  using total_goto[of i p "s\<lparr>dt_shared := d\<rparr>" f q] by simp

lemma total_notify: "notify_one s s1 \<Longrightarrow> f (WWoken False) < f WSleeping \<Longrightarrow> total_way f s1 \<le> total_way f s"
  by (induction rule: notify_one.induct) (auto intro: less_imp_le total_goto)

text \<open>The steps that both ways have in common.\<close>

lemma release_closer:
  assumes "worker_step i s s'" "is_at i p s" "p = WRelease q \<or> p = WLock q \<or> p = WUnlock q \<or> p = WNotify q"
    and f: "\<And>q. f (WRelease q) = 1 + f q" "\<And>q. f (WNotify q) = 1 + f q" "\<And>q. f (WUnlock q) = 2 + f q" "\<And>q. f (WLock q) = 3 + f q"
      "f (WWoken False) < f WSleeping"
  shows "total_way f s' < total_way f s"
  using assms(1)
proof cases
  case (w_notify p' s1)
  have "is_at i (WNotify p') s1" using notify_one_frame[OF w_notify(3), of i "WNotify p'"] w_notify(2) by simp
  then have "total_way f (goto i p' s1) < total_way f s1" by (rule total_goto) (simp add: f)
  also have "\<dots> \<le> total_way f s" by (rule total_notify[OF w_notify(3) f(5)])
  finally show ?thesis using w_notify(1) by simp
next
  case (w_release p' r rs)
  then show ?thesis
    by (intro total_less[where i = i and w = "(dt_workers s ! i)\<lparr>dw_saves := rs, dw_pc := WLock (WRelease p')\<rparr>"])
      (auto simp: is_at_def way_def f)
next
  case (w_flushed p')
  then show ?thesis by (simp add: total_goto f)
qed (use assms(2,3) in \<open>auto simp: is_at_def f intro!: total_goto\<close>)

lemma finish_closer:
  assumes "worker_step i s s'" "\<not> dt_running s"
  shows "total_way to_finish s' < total_way to_finish s"
  using assms(1)
proof cases
  case w_clear
  then show ?thesis
    by (intro total_less[where i = i and w = "(dt_workers s ! i)\<lparr>dw_signaled := False, dw_pc := WTake\<rparr>"]) (auto simp: is_at_def way_def)
next
  case (w_save r d saves)
  then show ?thesis
    by (intro total_less[where i = i and w = "(dt_workers s ! i)\<lparr>dw_saves := saves,
        dw_pc := (if length saves \<ge> dt_batch s then WRelease WLoop else WLoop)\<rparr>"]) (auto simp: is_at_def way_def)
next
  case (w_other r d)
  then show ?thesis
    by (intro total_less[where i = i and w = "(dt_workers s ! i)\<lparr>dw_pc := WRelease (WProcess r)\<rparr>"]) (auto simp: is_at_def way_def goto_def)
next
  case (w_release p r rs)
  show ?thesis by (rule release_closer[OF assms(1) w_release(2), where q = p]) simp_all
next
  case (w_notify p s1)
  show ?thesis by (rule release_closer[OF assms(1) w_notify(2), where q = p]) simp_all
qed (use assms(2) in \<open>auto intro!: total_goto total_goto_shared split: if_splits\<close>)

lemma request_closer:
  assumes "worker_step i s s'" "dt_running s" "dp_is_ready (dt_shared s)" "dp_wf (dt_shared s)"
  shows "(\<exists>r. dt_taken s' = dt_taken s @ [r]) \<or>
    dt_taken s' = dt_taken s \<and> total_way to_request s' < total_way to_request s \<and> dp_is_ready (dt_shared s')"
  using assms(1)
proof cases
  case w_clear
  then have "total_way to_request s' < total_way to_request s"
    by (intro total_less[where i = i and w = "(dt_workers s ! i)\<lparr>dw_signaled := False, dw_pc := WTake\<rparr>"]) (auto simp: is_at_def way_def)
  with w_clear assms(3) show ?thesis by simp
next
  case (w_none d)
  then show ?thesis using ready_take[OF assms(4,3)] by simp
next
  case (w_notify p s1)
  have "total_way to_request s' < total_way to_request s" by (rule release_closer[OF assms(1) w_notify(2), where q = p]) simp_all
  with w_notify notify_one_frame[OF w_notify(3)] assms(3) show ?thesis by simp
next
  case (w_release p r rs)
  have "total_way to_request s' < total_way to_request s" by (rule release_closer[OF assms(1) w_release(2), where q = p]) simp_all
  with w_release ready_finish[OF assms(3)] show ?thesis by simp
next
  case (w_process r)
  then show ?thesis using ready_finish[OF assms(3)] by (auto intro!: total_goto_shared)
qed (use assms(2,3) in \<open>auto intro!: total_goto split: if_splits\<close>)

text \<open>Somebody can always go on, without a wait having to run out.\<close>

lemma holder_steps: "is_at i p s \<Longrightarrow> w_holds p \<Longrightarrow> \<exists>s'. worker_step i s s'"
  by (cases p) (auto intro: worker_step.intros)

lemma step_if_free:
  assumes "is_at i p s" "awake_pc p" "mutex_free s"
  shows "\<exists>s'. worker_step i s s'"
proof (cases p)
  case WTake
  obtain x d where t: "dp_take (dt_shared s) = (x, d)" by (cases "dp_take (dt_shared s)")
  show ?thesis
  proof (cases x)
    case None
    with t assms(1) WTake show ?thesis by (auto intro: w_none)
  next
    case (Some r)
    with t assms(1) WTake show ?thesis by (auto intro: w_other)
  qed
next
  case (WRelease q)
  show ?thesis
  proof (cases "dw_saves (dt_workers s ! i)")
    case Nil
    with assms(1) WRelease show ?thesis by (auto intro: w_flushed)
  next
    case (Cons r rs)
    with assms(1) WRelease show ?thesis by (auto intro: w_release)
  qed
next
  case (WNotify q)
  obtain s1 where "notify_one s s1" using notify_one_some by blast
  with assms(1) WNotify show ?thesis by (auto intro: w_notify)
qed (use assms in \<open>auto simp: awake_pc_def intro: worker_step.intros\<close>)

definition users_idle :: "dyn_wait \<Rightarrow> bool" where
  "users_idle s \<longleftrightarrow> (\<forall>c\<in>set (dt_users s). c = CIdle)"

lemma users_idle_none: "users_idle s \<Longrightarrow> \<not> P CIdle \<Longrightarrow> \<not> some_at P (dt_users s)"
  by (auto simp: users_idle_def some_at_def dest!: bspec[OF _ nth_mem])

lemma awake_steps:
  assumes "users_idle s" "some_at awake_pc (pcs s)"
  shows "\<exists>i s'. worker_step i s s'"
proof (cases "mutex_free s")
  case True
  from assms(2) obtain i where "is_at i (pcs s ! i) s" "awake_pc (pcs s ! i)" by (auto simp: some_at_def is_at_pcs)
  from step_if_free[OF this True] show ?thesis by blast
next
  case False
  then obtain w where "w \<in> set (dt_workers s)" "w_holds (dw_pc w)" using assms(1) by (auto simp: mutex_free_def users_idle_def)
  then obtain i where "is_at i (dw_pc w) s" by (auto simp: in_set_conv_nth is_at_def)
  from holder_steps[OF this] \<open>w_holds (dw_pc w)\<close> show ?thesis by blast
qed

lemma ready_awake:
  assumes "dt_inv s" "users_idle s" "dt_running s" "dp_is_ready (dt_shared s)"
  shows "some_at awake_pc (pcs s)"
  using assms users_idle_none[OF assms(2), of c_calls] by (simp add: dt_inv_def sleep_inv_def)

lemma step_frame: "worker_step i s s' \<Longrightarrow> dt_users s' = dt_users s \<and> dt_running s' = dt_running s"
  by (induction rule: worker_step.induct) (simp_all add: notify_one_frame)

lemma request_reached:
  assumes "dt_inv s" "users_idle s" "dt_running s" "dp_is_ready (dt_shared s)"
  shows "\<exists>s' r. (\<lambda>s s'. \<exists>i. worker_step i s s')\<^sup>*\<^sup>* s s' \<and> dt_taken s' = dt_taken s @ [r]"
  using assms
proof (induction "total_way to_request s" arbitrary: s rule: less_induct)
  case less
  obtain i s1 where s1: "worker_step i s s1" using awake_steps[OF less.prems(2) ready_awake[OF less.prems]] by blast
  have "dp_wf (dt_shared s)" using less.prems(1) by (simp add: dt_inv_def keys_inv_def)
  from request_closer[OF s1 less.prems(3,4) this] show ?case
  proof
    assume "\<exists>r. dt_taken s1 = dt_taken s @ [r]"
    with s1 show ?thesis by blast
  next
    assume c: "dt_taken s1 = dt_taken s \<and> total_way to_request s1 < total_way to_request s \<and> dp_is_ready (dt_shared s1)"
    have "users_idle s1" "dt_running s1" using step_frame[OF s1] less.prems(2,3) by (simp_all add: users_idle_def)
    then obtain s' r where "(\<lambda>s s'. \<exists>i. worker_step i s s')\<^sup>*\<^sup>* s1 s'" "dt_taken s' = dt_taken s1 @ [r]"
      using less.hyps[of s1] c inv_step[OF s1 less.prems(1)] by blast
    with s1 c show ?thesis by (metis (mono_tags, lifting) converse_rtranclp_into_rtranclp)
  qed
qed

lemma stopped_awake:
  assumes "dt_inv s" "users_idle s" "\<not> dt_running s" "w \<in> set (dt_workers s)" "dw_pc w \<noteq> WDone"
  shows "some_at awake_pc (pcs s)"
proof -
  have "\<not> some_at (\<lambda>p. p = WToSleep) (pcs s)" "\<not> some_at (\<lambda>p. p = WSleeping) (pcs s)"
    using assms(1,3) users_idle_none[OF assms(2), of "\<lambda>c. c \<in> before_all"] users_idle_none[OF assms(2), of "\<lambda>c. c \<in> until_all"]
    by (auto simp: dt_inv_def sleep_inv_def)
  moreover from assms(4) obtain i where "i < length (pcs s)" "pcs s ! i = dw_pc w" by (auto simp: in_set_conv_nth pcs_def)
  ultimately show ?thesis using assms(5) unfolding some_at_def awake_pc_def by (intro exI[of _ i]) auto
qed

section \<open>Properties\<close>

text \<open>
  C27: with dynamic assignment no wake-up is lost. In every interleaving of the workers with any number of threads that
  submit, drain and stop, once these are through and the pool runs, a request that is ready does not wait for a time to
  run out: somebody can go on, whatever step is made either takes a request or brings the workers nearer to it, and in their
  own steps they do take one.
\<close>

theorem ready_request_wakes_a_worker:
  assumes "dt_step\<^sup>*\<^sup>* (dt_start n batch cap m) s" "0 < n" "users_idle s" "dt_running s" "dp_is_ready (dt_shared s)"
  shows "(\<exists>i s'. worker_step i s s') \<and>
    (\<forall>i s'. worker_step i s s' \<longrightarrow> (\<exists>r. dt_taken s' = dt_taken s @ [r]) \<or>
       dt_taken s' = dt_taken s \<and> total_way to_request s' < total_way to_request s) \<and>
    (\<exists>s' r. (\<lambda>s s'. \<exists>i. worker_step i s s')\<^sup>*\<^sup>* s s' \<and> dt_taken s' = dt_taken s @ [r])"
proof -
  have inv: "dt_inv s" by (rule inv_run[OF assms(1) inv_start[OF assms(2)]])
  then have "dp_wf (dt_shared s)" by (simp add: dt_inv_def keys_inv_def)
  with request_closer[OF _ assms(4,5)] request_reached[OF inv assms(3-5)]
    awake_steps[OF assms(3) ready_awake[OF inv assms(3-5)]] show ?thesis by blast
qed

text \<open>
  After \<^verbatim>\<open>stop\<close> the workers end: none sleeps on, every step of a worker brings them nearer to the end, one can be made
  until all have ended, and then no worker has a request in hand, so that what \<^verbatim>\<open>stop\<close> finds in the dispatcher is all that is left.
\<close>

theorem stop_ends_the_workers:
  assumes "dt_step\<^sup>*\<^sup>* (dt_start n batch cap m) s" "0 < n" "users_idle s" "\<not> dt_running s"
  shows "(\<forall>i s'. worker_step i s s' \<longrightarrow> total_way to_finish s' < total_way to_finish s) \<and>
    ((\<exists>w\<in>set (dt_workers s). dw_pc w \<noteq> WDone) \<longrightarrow> (\<exists>i s'. worker_step i s s')) \<and>
    ((\<forall>w\<in>set (dt_workers s). dw_pc w = WDone) \<longrightarrow> dp_busy (dt_shared s) = {})"
proof -
  have inv: "dt_inv s" by (rule inv_run[OF assms(1) inv_start[OF assms(2)]])
  have "dp_busy (dt_shared s) = {}" if d: "\<forall>w\<in>set (dt_workers s). dw_pc w = WDone"
  proof -
    have "hand w = []" if "w \<in> set (dt_workers s)" for w using inv d that by (auto simp: dt_inv_def kept_ok_def hand_def)
    then show ?thesis using inv by (simp add: dt_inv_def keys_inv_def hands_def)
  qed
  with finish_closer[OF _ assms(4)] stopped_awake[OF inv assms(3,4)] awake_steps[OF assms(3)] show ?thesis by blast
qed

lemma users_go_on: "dt_step\<^sup>*\<^sup>* s s1 \<Longrightarrow> user_step s1 s2 \<Longrightarrow> dt_step\<^sup>*\<^sup>* s s2"
  by (erule rtranclp.rtrancl_into_rtrancl) (simp add: dt_step_def)

abbreviation demo_wait :: "dyn_wait" where
  "demo_wait \<equiv> (dt_start 1 1 8 1)\<lparr>dt_shared := snd (dp_push 8 (Some request_init) dp_init)\<rparr>"

text \<open>One request is submitted while the worker is at its beginning.\<close>

lemma demo_submit: "dt_step\<^sup>*\<^sup>* (dt_start 1 1 8 1) demo_wait"
proof -
  let ?d = "snd (dp_push 8 (Some request_init) dp_init)"
  define s1 where "s1 = put_user 0 (CPush request_init) (dt_start 1 1 8 1)"
  define s2 where "s2 = put_user 0 (CLock False) (s1\<lparr>dt_shared := ?d\<rparr>)"
  define s3 where "s3 = put_user 0 (CUnlock False) s2"
  define s4 where "s4 = put_user 0 (CNotify False) s3"
  note d = s1_def s2_def s3_def s4_def put_user_def
  have push: "dp_push 8 (Some request_init) dp_init = (True, ?d)"
    by (simp add: dp_push_def dp_init_def key_queue_at_def Let_def)
  have 1: "user_step (dt_start 1 1 8 1) s1" unfolding s1_def by (rule c_submit) (simp_all add: user_at_def dt_start_def)
  have 2: "user_step s1 s2" using c_push[of 0 request_init s1 True ?d] push by (simp add: s2_def) (simp add: d user_at_def dt_start_def)
  have 3: "user_step s2 s3" unfolding s3_def by (rule c_lock) (simp_all add: d user_at_def dt_start_def mutex_free_def)
  have 4: "user_step s3 s4" unfolding s4_def by (rule c_unlock) (simp add: d user_at_def dt_start_def)
  have 5: "user_step s4 (put_user 0 CIdle s4)"
    by (rule c_notify_one) (auto simp: d user_at_def dt_start_def intro!: notify_one.nobody)
  have "put_user 0 CIdle s4 = demo_wait" by (simp add: d dt_start_def)
  with users_go_on[OF users_go_on[OF users_go_on[OF users_go_on[OF users_go_on[OF rtranclp.rtrancl_refl 1] 2] 3] 4] 5]
  show ?thesis by simp
qed

theorem ready_request_wakes_a_worker_witness:
  "\<exists>s' r. (\<lambda>s s'. \<exists>i. worker_step i s s')\<^sup>*\<^sup>* demo_wait s' \<and> dt_taken s' = [r]"
proof -
  have "users_idle demo_wait" "dt_running demo_wait" "dp_is_ready (dt_shared demo_wait)" "dt_taken demo_wait = []"
    by (simp_all add: users_idle_def dt_start_def dp_push_def dp_init_def key_queue_at_def dp_is_ready_def Let_def)
  with ready_request_wakes_a_worker[OF demo_submit] show ?thesis by simp
qed

theorem stop_ends_the_workers_witness:
  "\<exists>s. dt_step\<^sup>*\<^sup>* (dt_start 1 1 8 1) s \<and> \<not> dt_running s \<and> users_idle s \<and> (\<exists>i s'. worker_step i s s')"
proof -
  let ?up = "\<lambda>s. s\<lparr>dt_workers := map (\<lambda>w. w\<lparr>dw_signaled := True\<rparr>) (dt_workers s)\<rparr>"
  define s1 where "s1 = put_user 0 (CEach 0) ((dt_start 1 1 8 1)\<lparr>dt_running := False\<rparr>)"
  define s2 where "s2 = put_user 0 (CEach 1) (?up s1)"
  define s3 where "s3 = put_user 0 (CLock True) s2"
  define s4 where "s4 = put_user 0 (CUnlock True) s3"
  define s5 where "s5 = put_user 0 (CNotify True) s4"
  define s6 where "s6 = put_user 0 CIdle (notify_all s5)"
  note d = s1_def s2_def s3_def s4_def s5_def put_user_def
  have 1: "user_step (dt_start 1 1 8 1) s1" unfolding s1_def by (rule c_stop) (simp_all add: user_at_def dt_start_def)
  have 2: "user_step s1 s2" using c_each[of 0 0 s1] by (simp add: s2_def) (simp add: d user_at_def dt_start_def put_worker_def)
  have 3: "user_step s2 s3" unfolding s3_def by (rule c_all[where n = 1]) (simp_all add: d user_at_def dt_start_def)
  have 4: "user_step s3 s4" unfolding s4_def by (rule c_lock) (simp_all add: d user_at_def dt_start_def mutex_free_def)
  have 5: "user_step s4 s5" unfolding s5_def by (rule c_unlock) (simp add: d user_at_def dt_start_def)
  have 6: "user_step s5 s6" unfolding s6_def by (rule c_notify_all) (simp add: d user_at_def dt_start_def)
  note run = users_go_on[OF users_go_on[OF users_go_on[OF users_go_on[OF users_go_on[OF users_go_on[OF rtranclp.rtrancl_refl 1] 2] 3] 4] 5] 6]
  have f: "users_idle s6" "\<not> dt_running s6" "\<exists>w\<in>set (dt_workers s6). dw_pc w \<noteq> WDone"
    by (simp_all add: s6_def notify_all_def users_idle_def d dt_start_def)
  from stop_ends_the_workers[OF run _ f(1,2)] f(3) have "\<exists>i s'. worker_step i s6 s'" by simp
  with run f(1,2) show ?thesis by blast
qed

end
