(* ===== verification/Bench_Client.thy ===== *)
theory Bench_Client
  imports Frame Uuid Text_Format Latency
begin

text \<open>
  The verification runs of the benchmark client (\<^verbatim>\<open>bench/bot_client.cpp\<close>): \<^verbatim>\<open>SimpleClient\<close>, a blocking socket with the
  frames of the protocol, and the runs \<^verbatim>\<open>run_idem\<close>, \<^verbatim>\<open>run_verify\<close>, \<^verbatim>\<open>run_chat_verify\<close> and \<^verbatim>\<open>run_churn\<close> on it. They play the
  client's part of the protocol and say whether the server kept its own. The socket library is the record of functions
  \<open>winsock\<close> on an arbitrary state \<open>'n\<close>; the locale \<open>stream_socket\<close> states what the runs rely on.
\<close>

section \<open>The blocking sockets\<close>

text \<open>
  \<^verbatim>\<open>inet_pton\<close> gives no address for what is none; \<^verbatim>\<open>send\<close> gives the number of bytes it took, \<^verbatim>\<open>recv\<close> the bytes that came:
  \<open>None\<close> is an error and \<open>[]\<close> the end of the stream.
\<close>

record 'n winsock =
  wk_pton :: "bytes \<Rightarrow> u32 option"
  wk_socket :: "'n \<Rightarrow> nat option \<times> 'n"
  wk_connect :: "nat \<Rightarrow> u32 \<Rightarrow> u16 \<Rightarrow> 'n \<Rightarrow> bool \<times> 'n"
  wk_nodelay :: "nat \<Rightarrow> 'n \<Rightarrow> 'n"
  wk_send :: "nat \<Rightarrow> bytes \<Rightarrow> 'n \<Rightarrow> int \<times> 'n"
  wk_recv :: "nat \<Rightarrow> nat \<Rightarrow> 'n \<Rightarrow> bytes option \<times> 'n"
  wk_close :: "nat \<Rightarrow> 'n \<Rightarrow> 'n"

section \<open>\<^verbatim>\<open>SimpleClient\<close>\<close>

text \<open>\<open>cl_socket\<close> is \<open>None\<close> for \<^verbatim>\<open>INVALID_SOCKET\<close>.\<close>

record client =
  cl_socket :: "nat option"
  cl_buf :: bytes
  cl_key :: bytes

definition client_new :: client where
  "client_new = \<lparr>cl_socket = None, cl_buf = [], cl_key = []\<rparr>"

definition cl_close :: "'n winsock \<Rightarrow> client \<times> 'n \<Rightarrow> client \<times> 'n" where
  "cl_close W = (\<lambda>(c, n).
     (case cl_socket c of None \<Rightarrow> (c, n) | Some s \<Rightarrow> (c\<lparr>cl_socket := None\<rparr>, wk_close W s n)))"

definition cl_connect :: "'n winsock \<Rightarrow> bytes \<Rightarrow> u16 \<Rightarrow> client \<times> 'n \<Rightarrow> bool \<times> client \<times> 'n" where
  "cl_connect W host port = (\<lambda>(c, n).
     (case wk_socket W n of
        (None, n) \<Rightarrow> (False, c\<lparr>cl_socket := None\<rparr>, n)
      | (Some s, n) \<Rightarrow>
          let c = c\<lparr>cl_socket := Some s\<rparr>;
              addr = (case wk_pton W host of None \<Rightarrow> 0 | Some a \<Rightarrow> a) in
          (case wk_connect W s addr port n of
             (False, n) \<Rightarrow> (False, cl_close W (c, n))
           | (True, n) \<Rightarrow> (True, c, wk_nodelay W s n))))"

text \<open>The loop around \<^verbatim>\<open>send\<close>, on the bytes from \<^verbatim>\<open>p\<close> on.\<close>

function send_rest :: "'n winsock \<Rightarrow> nat \<Rightarrow> bytes \<Rightarrow> 'n \<Rightarrow> bool \<times> 'n" where
  "send_rest W s p n =
     (if p = [] then (True, n)
      else case wk_send W s p n of
        (sent, n) \<Rightarrow> if sent \<le> 0 then (False, n) else send_rest W s (drop (nat sent) p) n)"
  by pat_completeness auto
termination
  by (relation "measure (\<lambda>(W, s, p, n). length p)") auto

declare send_rest.simps [simp del]

text \<open>On an invalid socket every call fails.\<close>

definition send_message :: "'n winsock \<Rightarrow> u16 \<Rightarrow> bytes \<Rightarrow> client \<times> 'n \<Rightarrow> bool \<times> client \<times> 'n" where
  "send_message W msg_id w = (\<lambda>(c, n).
     (case cl_socket c of
        None \<Rightarrow> (False, c, n)
      | Some s \<Rightarrow> (case send_rest W s (write_header msg_id (bw_size w) @ w) n of (ok, n) \<Rightarrow> (ok, c, n))))"

partial_function (option) recv_message ::
  "'n winsock \<Rightarrow> client \<times> 'n \<Rightarrow> ((u16 \<times> bytes) option \<times> client \<times> 'n) option" where
  "recv_message W s =
     (case peek_frame (cl_buf (fst s)) (to_int32 (int (length (cl_buf (fst s))))) of
        FrameOk view consumed \<Rightarrow>
          Some (Some (fv_msg_id view, fv_body view), (fst s)\<lparr>cl_buf := drop (nat consumed) (cl_buf (fst s))\<rparr>, snd s)
      | TooLarge \<Rightarrow> Some (None, s)
      | Incomplete \<Rightarrow>
          (case cl_socket (fst s) of
             None \<Rightarrow> Some (None, s)
           | Some k \<Rightarrow>
               (case wk_recv W k 8192 (snd s) of
                  (None, n) \<Rightarrow> Some (None, fst s, n)
                | (Some got, n) \<Rightarrow>
                    if got = [] then Some (None, fst s, n)
                    else recv_message W ((fst s)\<lparr>cl_buf := cl_buf (fst s) @ got\<rparr>, n))))"

definition read_session_key :: "'n winsock \<Rightarrow> client \<times> 'n \<Rightarrow> (bool \<times> client \<times> 'n) option" where
  "read_session_key W s =
     (case recv_message W s of
        None \<Rightarrow> None
      | Some (None, s) \<Rightarrow> Some (False, s)
      | Some (Some (mid, body), c, n) \<Rightarrow>
          if mid \<noteq> kSessionAck then Some (False, c, n)
          else case rd_str (mk_reader body (bw_size body)) of
            (key, r) \<Rightarrow> Some (consumed_all r \<and> length key = 36, c\<lparr>cl_key := key\<rparr>, n))"

section \<open>Runs\<close>

text \<open>
  What the runs print: each line that says \<^verbatim>\<open>FAIL\<close> is a value. A run either returns at the first line (\<open>Inl\<close>) or goes
  through to its verdict and has counted \<^verbatim>\<open>failures\<close>, one for each value of the list (\<open>Inr\<close>).
\<close>

datatype complaint =
    No_session nat | Not_sent | Wrong_answer nat u16 | Bad_body nat
  | First_was_applied | Second_was_not | Count_grew
  | Ids_not_ascending nat | Wrong_row_count u16 | Wrong_text nat | Empty_fields nat | Bytes_left
  | No_push nat u16 | Wrong_chat nat | Wrong_sender nat

type_synonym ('s, 'a) step = "'s \<Rightarrow> ((complaint + 'a) \<times> 's) option"

definition and_then :: "('s, 'a) step \<Rightarrow> ('a \<Rightarrow> ('s, 'b) step) \<Rightarrow> ('s, 'b) step" where
  "and_then m f = (\<lambda>s. case m s of
       None \<Rightarrow> None
     | Some (Inl e, s) \<Rightarrow> Some (Inl e, s)
     | Some (Inr x, s) \<Rightarrow> f x s)"

definition give :: "'a \<Rightarrow> ('s, 'a) step" where
  "give x = (\<lambda>s. Some (Inr x, s))"

definition stop :: "complaint \<Rightarrow> ('s, 'a) step" where
  "stop e = (\<lambda>s. Some (Inl e, s))"

definition exit_code :: "complaint + complaint list \<Rightarrow> int" where
  "exit_code r = (case r of Inr [] \<Rightarrow> 0 | _ \<Rightarrow> 1)"

text \<open>\<^verbatim>\<open>if (!c.connect(opt) || !c.read_session_key()) return 1;\<close>\<close>

definition open_session :: "'n winsock \<Rightarrow> bytes \<Rightarrow> u16 \<Rightarrow> nat \<Rightarrow> (client \<times> 'n, unit) step" where
  "open_session W host port i = (\<lambda>s.
     (case cl_connect W host port s of
        (False, s) \<Rightarrow> Some (Inl (No_session i), s)
      | (True, s) \<Rightarrow>
          (case read_session_key W s of
             None \<Rightarrow> None
           | Some (ok, s) \<Rightarrow> Some (if ok then Inr () else Inl (No_session i), s))))"

text \<open>Sending a request, and receiving a message of the id the run expects.\<close>

definition ask :: "'n winsock \<Rightarrow> u16 \<Rightarrow> bytes \<Rightarrow> (client \<times> 'n, unit) step" where
  "ask W msg_id w = (\<lambda>s.
     (case send_message W msg_id w s of (ok, s) \<Rightarrow> Some (if ok then Inr () else Inl Not_sent, s)))"

definition expect :: "'n winsock \<Rightarrow> nat \<Rightarrow> u16 \<Rightarrow> (client \<times> 'n, bytes) step" where
  "expect W i want = (\<lambda>s.
     (case recv_message W s of
        None \<Rightarrow> None
      | Some (None, s) \<Rightarrow> Some (Inl (Wrong_answer i 0), s)
      | Some (Some (mid, body), s) \<Rightarrow> Some (if mid \<noteq> want then Inl (Wrong_answer i mid) else Inr body, s)))"

text \<open>The destructor of the client closes its socket, wherever the run returned.\<close>

definition run_client :: "'n winsock \<Rightarrow> (client \<times> 'n, 'a) step \<Rightarrow> 'n \<Rightarrow> ((complaint + 'a) \<times> 'n) option" where
  "run_client W m n =
     (case m (client_new, n) of None \<Rightarrow> None | Some (r, s) \<Rightarrow> Some (r, snd (cl_close W s)))"

subsection \<open>\<^verbatim>\<open>run_idem\<close>: one key, sent twice\<close>

definition idem_attempt :: "'n winsock \<Rightarrow> bytes \<Rightarrow> nat \<Rightarrow> (client \<times> 'n, u64 \<times> bool) step" where
  "idem_attempt W request_key i =
     and_then (ask W kCounterReq (bw_str request_key [])) (\<lambda>_.
     and_then (expect W i kCounterAck) (\<lambda>body.
       case rd_u64 (mk_reader body (bw_size body)) of (hits, r) \<Rightarrow>
       case rd_u8 r of (flag, r) \<Rightarrow>
         if consumed_all r then give (hits, flag \<noteq> 0) else stop (Bad_body i)))"

definition run_idem :: "'n winsock \<Rightarrow> bytes \<Rightarrow> u16 \<Rightarrow> u64 \<Rightarrow> u64 \<Rightarrow> 'n \<Rightarrow> ((complaint + complaint list) \<times> 'n) option" where
  "run_idem W host port hi lo =
     run_client W
      (and_then (open_session W host port 0) (\<lambda>_.
       let request_key = make_session_key hi lo in
       and_then (idem_attempt W request_key 0) (\<lambda>(count0, applied0).
       and_then (idem_attempt W request_key 1) (\<lambda>(count1, applied1).
         give ((if applied0 then [First_was_applied] else []) @
               (if \<not> applied1 then [Second_was_not] else []) @
               (if count0 \<noteq> count1 then [Count_grew] else []))))))"

subsection \<open>\<^verbatim>\<open>run_verify\<close>: what was saved is read back\<close>

definition kCount :: nat where "kCount = 5"

definition row_text :: "int \<Rightarrow> bytes" where
  "row_text i = lit ''row-'' @ dec_int i"

fun save_rows :: "'n winsock \<Rightarrow> nat list \<Rightarrow> u64 list \<Rightarrow> (client \<times> 'n, u64 list) step" where
  "save_rows W [] log_ids = give log_ids"
| "save_rows W (i # is) log_ids =
     and_then (ask W kSaveReq (bw_str (row_text (int i)) [])) (\<lambda>_.
     and_then (expect W i kSaveAck) (\<lambda>body.
       save_rows W is (log_ids @ [fst (rd_u64 (mk_reader body (bw_size body)))])))"

definition order_complaints :: "u64 list \<Rightarrow> complaint list" where
  "order_complaints log_ids =
     concat (map (\<lambda>i. if log_ids ! i \<le> log_ids ! (i - 1) then [Ids_not_ascending i] else []) [1..<length log_ids])"

fun check_rows :: "nat list \<Rightarrow> byte_reader \<Rightarrow> complaint list \<times> byte_reader" where
  "check_rows [] r = ([], r)"
| "check_rows (i # is) r =
     (case rd_u64 r of (row_id, r) \<Rightarrow>
      case rd_str r of (text, r) \<Rightarrow>
      case rd_u64 r of (ms, r) \<Rightarrow>
      case check_rows is r of (cs, r) \<Rightarrow>
        ((if text \<noteq> row_text (int kCount - 1 - int i) then [Wrong_text i] else []) @
         (if row_id = 0 \<or> ms = 0 then [Empty_fields i] else []) @ cs, r))"

definition check_history :: "bytes \<Rightarrow> complaint list" where
  "check_history body =
     (case rd_u16 (mk_reader body (bw_size body)) of (rows, r) \<Rightarrow>
      case check_rows [0..<unat rows] r of (cs, r) \<Rightarrow>
        (if unat rows \<noteq> kCount then [Wrong_row_count rows] else []) @ cs @
        (if consumed_all r then [] else [Bytes_left]))"

definition run_verify :: "'n winsock \<Rightarrow> bytes \<Rightarrow> u16 \<Rightarrow> 'n \<Rightarrow> ((complaint + complaint list) \<times> 'n) option" where
  "run_verify W host port =
     run_client W
      (and_then (open_session W host port 0) (\<lambda>_.
       and_then (save_rows W [0..<kCount] []) (\<lambda>log_ids.
       and_then (ask W kHistoryReq (bw_u16 (word_of_nat kCount) [])) (\<lambda>_.
       and_then (expect W kCount kHistoryAck) (\<lambda>body.
         give (order_complaints log_ids @ check_history body))))))"

subsection \<open>\<^verbatim>\<open>run_chat_verify\<close>: one speaks, all hear\<close>

definition kMembers :: nat where "kMembers = 3"

definition on_client :: "nat \<Rightarrow> (client \<times> 'n, 'a) step \<Rightarrow> (client list \<times> 'n, 'a) step" where
  "on_client i m = (\<lambda>(cs, n).
     (case m (cs ! i, n) of None \<Rightarrow> None | Some (r, c, n) \<Rightarrow> Some (r, cs[i := c], n)))"

definition session_key :: "(client \<times> 'n, bytes) step" where
  "session_key = (\<lambda>s. Some (Inr (cl_key (fst s)), s))"

fun open_all :: "'n winsock \<Rightarrow> bytes \<Rightarrow> u16 \<Rightarrow> nat list \<Rightarrow> bytes list \<Rightarrow> (client list \<times> 'n, bytes list) step" where
  "open_all W host port [] ks = give ks"
| "open_all W host port (i # is) ks =
     and_then (on_client i (open_session W host port i)) (\<lambda>_.
     and_then (on_client i session_key) (\<lambda>k. open_all W host port is (ks @ [k])))"

definition hear :: "'n winsock \<Rightarrow> bytes \<Rightarrow> bytes \<Rightarrow> nat \<Rightarrow> (client \<times> 'n, complaint list) step" where
  "hear W sender text i = (\<lambda>s.
     (case recv_message W s of
        None \<Rightarrow> None
      | Some (None, s) \<Rightarrow> Some (Inr [No_push i 0], s)
      | Some (Some (mid, body), s) \<Rightarrow>
          if mid \<noteq> kChatPush then Some (Inr [No_push i mid], s)
          else case rd_str (mk_reader body (bw_size body)) of (from_whom, r) \<Rightarrow>
               case rd_str r of (got, r) \<Rightarrow>
                 Some (Inr ((if consumed_all r then [] else [Bad_body i]) @
                            (if got \<noteq> text then [Wrong_chat i] else []) @
                            (if from_whom \<noteq> sender then [Wrong_sender i] else [])), s)))"

fun hear_all :: "'n winsock \<Rightarrow> bytes \<Rightarrow> bytes \<Rightarrow> nat list \<Rightarrow> complaint list \<Rightarrow> (client list \<times> 'n, complaint list) step" where
  "hear_all W sender text [] cs = give cs"
| "hear_all W sender text (i # is) cs =
     and_then (on_client i (hear W sender text i)) (\<lambda>ds. hear_all W sender text is (cs @ ds))"

definition chat_text :: bytes where "chat_text = lit ''hello-broadcast''"

definition run_chat_verify :: "'n winsock \<Rightarrow> bytes \<Rightarrow> u16 \<Rightarrow> 'n \<Rightarrow> ((complaint + complaint list) \<times> 'n) option" where
  "run_chat_verify W host port n =
     (case and_then (open_all W host port [0..<kMembers] []) (\<lambda>ks.
           and_then (on_client 0 (ask W kChatReq (bw_str chat_text []))) (\<lambda>_.
             hear_all W (ks ! 0) chat_text [0..<kMembers] [])) (replicate kMembers client_new, n) of
        None \<Rightarrow> None
      | Some (r, cs, n) \<Rightarrow> Some (r, fold (\<lambda>c n. snd (cl_close W (c, n))) (rev cs) n))"

subsection \<open>\<^verbatim>\<open>run_churn\<close>: connections that come and go\<close>

record totals =
  to_sent :: u64
  to_received :: u64
  to_errors :: u64
  to_rejected :: u64
  to_connected :: int
  to_closed :: int

definition totals_new :: totals where
  "totals_new = \<lparr>to_sent = 0, to_received = 0, to_errors = 0, to_rejected = 0, to_connected = 0, to_closed = 0\<rparr>"

text \<open>One round; the client lives for the round, so that its destructor closes the socket at the end of it.\<close>

definition churn_round :: "'n winsock \<Rightarrow> bytes \<Rightarrow> u16 \<Rightarrow> nat \<Rightarrow> totals \<times> 'n \<Rightarrow> (totals \<times> 'n) option" where
  "churn_round W host port i = (\<lambda>(t, n).
     (case cl_connect W host port (client_new, n) of
        (False, s) \<Rightarrow> Some (t\<lparr>to_errors := to_errors t + 1\<rparr>, snd (cl_close W s))
      | (True, s) \<Rightarrow>
          (case (if i mod 2 = 0 then read_session_key W s else Some (False, s)) of
             None \<Rightarrow> None
           | Some (ok, s) \<Rightarrow>
               let t = (if ok then t\<lparr>to_received := to_received t + 1\<rparr> else t) in
               Some (t\<lparr>to_sent := to_sent t + 1\<rparr>, snd (cl_close W s)))))"

fun churn_worker :: "'n winsock \<Rightarrow> bytes \<Rightarrow> u16 \<Rightarrow> nat list \<Rightarrow> totals \<times> 'n \<Rightarrow> (totals \<times> 'n) option" where
  "churn_worker W host port [] s = Some s"
| "churn_worker W host port (i # is) s =
     (case churn_round W host port i s of None \<Rightarrow> None | Some s \<Rightarrow> churn_worker W host port is s)"

text \<open>
  The threads share the totals only, which they change by atomic additions; they are taken one after the other. A negative
  number of threads or rounds is none.
\<close>

fun churn_threads :: "'n winsock \<Rightarrow> bytes \<Rightarrow> u16 \<Rightarrow> int \<Rightarrow> nat \<Rightarrow> totals \<times> 'n \<Rightarrow> (totals \<times> 'n) option" where
  "churn_threads W host port rounds 0 s = Some s"
| "churn_threads W host port rounds (Suc k) s =
     (case churn_worker W host port [0..<nat rounds] s of
        None \<Rightarrow> None | Some s \<Rightarrow> churn_threads W host port rounds k s)"

definition run_churn :: "'n winsock \<Rightarrow> bytes \<Rightarrow> u16 \<Rightarrow> int \<Rightarrow> int \<Rightarrow> 'n \<Rightarrow> (int \<times> totals \<times> 'n) option" where
  "run_churn W host port connections churn n =
     (case churn_threads W host port churn (nat connections) (totals_new, n) of
        None \<Rightarrow> None
      | Some (t, n) \<Rightarrow> Some (if to_errors t = 0 then 0 else 1, t, n))"

section \<open>What the runs rely on\<close>

text \<open>
  What has become of the sockets: which are open, and for each the bytes it has taken for sending and the bytes it has given
  so far. A closed socket keeps its history until its number is used again.
\<close>

record sockets =
  so_open :: "nat set"
  so_sent :: "nat \<Rightarrow> bytes"
  so_got :: "nat \<Rightarrow> bytes"

definition note_sent :: "nat \<Rightarrow> bytes \<Rightarrow> sockets \<Rightarrow> sockets" where
  "note_sent k bs v = v\<lparr>so_sent := (so_sent v)(k := so_sent v k @ bs)\<rparr>"

definition note_got :: "nat \<Rightarrow> bytes \<Rightarrow> sockets \<Rightarrow> sockets" where
  "note_got k bs v = v\<lparr>so_got := (so_got v)(k := so_got v k @ bs)\<rparr>"

definition note_open :: "nat \<Rightarrow> sockets \<Rightarrow> sockets" where
  "note_open k v = v\<lparr>so_open := insert k (so_open v), so_sent := (so_sent v)(k := []), so_got := (so_got v)(k := [])\<rparr>"

definition note_closed :: "nat \<Rightarrow> sockets \<Rightarrow> sockets" where
  "note_closed k v = v\<lparr>so_open := so_open v - {k}\<rparr>"

lemmas note_defs = note_sent_def note_got_def note_open_def note_closed_def

lemma note_simps:
  "note_sent k [] v = v" "note_got k [] v = v"
  "note_sent k b (note_sent k a v) = note_sent k (a @ b) v" "note_got k b (note_got k a v) = note_got k (a @ b) v"
  "note_got k b (note_sent k a v) = note_sent k a (note_got k b v)"
  by (simp_all add: note_defs)

locale stream_socket =
  fixes W :: "'n winsock" and view :: "'n \<Rightarrow> sockets"
  assumes socket_new: "wk_socket W n = (Some k, n') \<Longrightarrow> k \<notin> so_open (view n) \<and> view n' = note_open k (view n)"
    and socket_none: "wk_socket W n = (None, n') \<Longrightarrow> view n' = view n"
    and connect_view: "view (snd (wk_connect W k a p n)) = view n"
    and nodelay_view: "view (wk_nodelay W k n) = view n"
    and send_view: "wk_send W k bs n = (i, n') \<Longrightarrow> i \<le> int (length bs) \<and> view n' = note_sent k (take (nat i) bs) (view n)"
    and recv_some: "wk_recv W k cap n = (Some bs, n') \<Longrightarrow> length bs \<le> cap \<and> view n' = note_got k bs (view n)"
    and recv_none: "wk_recv W k cap n = (None, n') \<Longrightarrow> view n' = view n"
    and close_view: "view (wk_close W k n) = note_closed k (view n)"

text \<open>
  A client is ready on a socket when it holds it and its buffer is within bounds: less than a frame, and one piece of
  \<^verbatim>\<open>recv\<close>. What a step sends and takes in is related to the history of the socket by \<open>talk\<close>: \<open>ins\<close> are the bytes that left
  the buffer, and what is left over stays there.
\<close>

definition ready :: "nat \<Rightarrow> client \<times> 'n \<Rightarrow> bool" where
  "ready k s \<longleftrightarrow> cl_socket (fst s) = Some k \<and> length (cl_buf (fst s)) \<le> 1029 + 8192"

definition talk :: "('n \<Rightarrow> sockets) \<Rightarrow> nat \<Rightarrow> bytes \<Rightarrow> bytes \<Rightarrow> client \<times> 'n \<Rightarrow> client \<times> 'n \<Rightarrow> bool" where
  "talk view k out ins s s' \<longleftrightarrow> ready k s' \<and>
     (\<exists>bs. view (snd s') = note_sent k out (note_got k bs (view (snd s))) \<and>
        cl_buf (fst s) @ bs = ins @ cl_buf (fst s'))"

lemma talk_refl: "ready k s \<Longrightarrow> talk view k [] [] s s"
  by (auto simp: talk_def note_simps intro!: exI[of _ "[]"])

lemma talk_trans:
  assumes "talk view k o1 i1 s s1" "talk view k o2 i2 s1 s2"
  shows "talk view k (o1 @ o2) (i1 @ i2) s s2"
proof -
  from assms obtain b1 b2 where b:
    "view (snd s1) = note_sent k o1 (note_got k b1 (view (snd s)))" "cl_buf (fst s) @ b1 = i1 @ cl_buf (fst s1)"
    "view (snd s2) = note_sent k o2 (note_got k b2 (view (snd s1)))" "cl_buf (fst s1) @ b2 = i2 @ cl_buf (fst s2)"
    by (auto simp: talk_def)
  then have "view (snd s2) = note_sent k (o1 @ o2) (note_got k (b1 @ b2) (view (snd s)))" by (simp only: note_simps)
  moreover have "cl_buf (fst s) @ b1 @ b2 = (i1 @ i2) @ cl_buf (fst s2)"
    using b(2,4) by (metis append_assoc)
  ultimately show ?thesis using assms(2) unfolding talk_def by blast
qed

text \<open>What \<^verbatim>\<open>peek_frame\<close> finds at the head of a buffer.\<close>

lemma peek_buffer:
  assumes "length b < 2 ^ 31"
  shows "peek_frame b (to_int32 (int (length b))) = FrameOk v n \<Longrightarrow>
      b = frame_bytes (fv_msg_id v) (fv_body v) @ drop (nat n) b \<and> length (fv_body v) \<le> 1024"
    "peek_frame b (to_int32 (int (length b))) = Incomplete \<Longrightarrow> length b < 1030"
proof -
  have i: "to_int32 (int (length b)) = int (length b)" using assms by (intro to_int32_id) simp_all
  have l: "length b < 2 ^ 32" using assms by simp
  note p = parse_stream_peek[OF l]
  show "b = frame_bytes (fv_msg_id v) (fv_body v) @ drop (nat n) b \<and> length (fv_body v) \<le> 1024"
    if f: "peek_frame b (to_int32 (int (length b))) = FrameOk v n"
  proof -
    note bnd = peek_frame_ok_bounds[OF l f[unfolded i]]
    have len: "length (fv_body v) \<le> 1024" "nat n \<le> length b" using bnd unfolding kHeaderSize_def by linarith+
    obtain fs r e where q: "parse_stream (drop (nat n) b) = (fs, r, e)" by (cases "parse_stream (drop (nat n) b)") auto
    have "parse_stream b = ((fv_msg_id v, fv_body v) # fs, r, e)" using p f i q by simp
    then have "b = frame_bytes (fv_msg_id v) (fv_body v) @ concat (map (\<lambda>(i, body). frame_bytes i body) fs) @ r"
      using parse_stream_rest[of b] by simp
    with parse_stream_rest[OF q] len(1) show ?thesis by simp
  qed
  show "length b < 1030" if "peek_frame b (to_int32 (int (length b))) = Incomplete"
    using that by (auto simp: i peek_frame_eq[OF l] Let_def kHeaderSize_def split: if_splits)
qed


text \<open>
  What a step does: from a client that is ready it returns, the socket has sent \<open>out\<close> and taken in \<open>ins\<close>, and if the run goes on
  with a value, that value and these bytes satisfy \<open>P\<close>.
\<close>

definition does :: "('n \<Rightarrow> sockets) \<Rightarrow> nat \<Rightarrow> (client \<times> 'n, 'a) step \<Rightarrow> ('a \<Rightarrow> bytes \<Rightarrow> bytes \<Rightarrow> bool) \<Rightarrow> bool" where
  "does view k m P \<longleftrightarrow> (\<forall>s. ready k s \<longrightarrow> (\<exists>r s' out ins. m s = Some (r, s') \<and> talk view k out ins s s' \<and>
     (\<forall>x. r = Inr x \<longrightarrow> P x out ins)))"

lemma doesI:
  assumes "\<And>s. ready k s \<Longrightarrow> \<exists>r s' out ins. m s = Some (r, s') \<and> talk view k out ins s s' \<and> (\<forall>x. r = Inr x \<longrightarrow> P x out ins)"
  shows "does view k m P"
  using assms by (simp add: does_def)

lemma does_give: "does view k (give x) (\<lambda>y out ins. y = x \<and> out = [] \<and> ins = [])"
  by (rule doesI) (use talk_refl in \<open>fastforce simp: give_def\<close>)

lemma does_stop: "does view k (stop e) P"
  by (rule doesI) (use talk_refl in \<open>fastforce simp: stop_def\<close>)

lemma does_weaken: "does view k m P \<Longrightarrow> (\<And>x out ins. P x out ins \<Longrightarrow> Q x out ins) \<Longrightarrow> does view k m Q"
  unfolding does_def by blast

lemma does_and_then:
  assumes "does view k m P" "\<And>x out ins. P x out ins \<Longrightarrow> does view k (f x) (\<lambda>y o' i'. Q y (out @ o') (ins @ i'))"
  shows "does view k (and_then m f) Q"
proof (rule doesI)
  fix s :: "client \<times> 'a" assume "ready k s"
  with assms(1) obtain r s' out ins where m: "m s = Some (r, s')" "talk view k out ins s s'" "\<forall>x. r = Inr x \<longrightarrow> P x out ins"
    unfolding does_def by blast
  show "\<exists>r s' out ins. and_then m f s = Some (r, s') \<and> talk view k out ins s s' \<and> (\<forall>x. r = Inr x \<longrightarrow> Q x out ins)"
  proof (cases r)
    case (Inl e)
    with m show ?thesis by (auto simp: and_then_def)
  next
    case (Inr x)
    with m(3) have "does view k (f x) (\<lambda>y o' i'. Q y (out @ o') (ins @ i'))" by (simp add: assms(2))
    moreover have "ready k s'" using m(2) by (simp add: talk_def)
    ultimately obtain r2 s2 o2 i2 where f: "f x s' = Some (r2, s2)" "talk view k o2 i2 s' s2"
      "\<forall>y. r2 = Inr y \<longrightarrow> Q y (out @ o2) (ins @ i2)" unfolding does_def by blast
    with m(1) Inr talk_trans[OF m(2) f(2)] show ?thesis by (auto simp: and_then_def)
  qed
qed

text \<open>Reading the body of a message.\<close>

lemma body_reader:
  assumes "length b \<le> 1024"
  shows "reader_wf (mk_reader b (bw_size b))" "unread (mk_reader b (bw_size b)) = b"
proof -
  have "unat (bw_size b) = length b" using assms by (simp add: bw_size_def unat_of_nat take_bit_nat_eq_self_iff)
  then show "reader_wf (mk_reader b (bw_size b))" "unread (mk_reader b (bw_size b)) = b"
    by (simp_all add: reader_wf_mk unread_mk)
qed

lemma body_is_string:
  assumes "length b \<le> 1024" "rd_str (mk_reader b (bw_size b)) = (t, r)" "consumed_all r"
  shows "b = enc_str t"
proof -
  note rd = body_reader[OF assms(1)]
  from assms str.consumed_all_dec[OF rd(1)] obtain x where x: "str_fits x" "b = enc_str x" by (auto simp: rd(2))
  with str.dec_value[OF rd(1) rd_ok_mk x(1)] assms(2) rd(2) show ?thesis by simp
qed

lemma body_is_count_and_flag:
  assumes "length b \<le> 1024" "rd_u64 (mk_reader b (bw_size b)) = (v, r1)" "rd_u8 r1 = (f, r2)" "consumed_all r2"
  shows "b = enc_u64 v @ enc_u8 f"
proof -
  note rd = body_reader[OF assms(1)]
  have wf: "reader_wf r1" using u64.dec_wf[OF rd(1)] assms(2) by simp
  from assms(3,4) u8.consumed_all_dec[OF wf] obtain x where x: "rd_ok r1" "any x" "unread r1 = enc_u8 x" by auto
  then have "unread r1 = enc_u8 f" using u8.dec_value[OF wf x] assms(3) by simp
  with u64.dec_sound[OF rd(1)] assms(2) x(1) show ?thesis by (simp add: rd(2))
qed

lemma and_then_simps [simp]:
  "m s = Some (Inl e, s') \<Longrightarrow> and_then m f s = Some (Inl e, s')" "m s = Some (Inr x, s') \<Longrightarrow> and_then m f s = f x s'"
  by (simp_all add: and_then_def)

context stream_socket
begin

text \<open>The blocking receive always returns: with the first frame of the stream, or without one and nothing taken in.\<close>

lemma recv_message_returns:
  assumes "ready k s"
  shows "\<exists>m s'. recv_message W s = Some (m, s') \<and>
    (case m of None \<Rightarrow> talk view k [] [] s s' | Some (i, b) \<Rightarrow> length b \<le> 1024 \<and> talk view k [] (frame_bytes i b) s s')"
  using assms
proof (induction "1030 - length (cl_buf (fst s))" arbitrary: s rule: less_induct)
  case less
  let ?buf = "cl_buf (fst s)"
  have small: "length ?buf < 2 ^ 31" and k: "cl_socket (fst s) = Some k" using less.prems by (simp_all add: ready_def)
  note eq = recv_message.simps[of W s]
  show ?case
  proof (cases "peek_frame ?buf (to_int32 (int (length ?buf)))")
    case (FrameOk v n)
    from peek_buffer(1)[OF small FrameOk]
    have "?buf = frame_bytes (fv_msg_id v) (fv_body v) @ drop (nat n) ?buf" "length (fv_body v) \<le> 1024" by blast+
    with FrameOk less.prems show ?thesis
      by (subst eq) (auto simp: talk_def ready_def note_simps intro!: exI[of _ "[]"])
  next
    case TooLarge
    then show ?thesis by (subst eq) (simp add: talk_refl[OF less.prems])
  next
    case Incomplete
    from peek_buffer(2)[OF small this] have short: "length ?buf < 1030" .
    obtain r n where r: "wk_recv W k 8192 (snd s) = (r, n)" by fastforce
    show ?thesis
    proof (cases "r = None \<or> r = Some []")
      case True
      then have "view n = view (snd s)" using recv_none[of k] recv_some[of k] r by (auto simp: note_simps)
      with True Incomplete k r less.prems show ?thesis
        by (subst eq) (auto simp: talk_def ready_def note_simps intro!: exI[of _ "[]"])
    next
      case False
      then obtain bs where bs: "r = Some bs" "bs \<noteq> []" by (cases r) auto
      from recv_some[OF r[unfolded bs(1)]] have v: "length bs \<le> 8192" "view n = note_got k bs (view (snd s))" by blast+
      let ?s = "((fst s)\<lparr>cl_buf := ?buf @ bs\<rparr>, n)"
      have rd: "ready k ?s" using less.prems v(1) short by (simp add: ready_def)
      have step: "recv_message W s = recv_message W ?s" by (subst eq) (simp add: Incomplete k r bs)
      have "1030 - length (cl_buf (fst ?s)) < 1030 - length ?buf" using short bs(2) by (cases bs) auto
      from less.hyps[OF this rd] obtain m s' where IH: "recv_message W ?s = Some (m, s')"
        "case m of None \<Rightarrow> talk view k [] [] ?s s' | Some (i, b) \<Rightarrow> length b \<le> 1024 \<and> talk view k [] (frame_bytes i b) ?s s'" by blast
      have lift: "talk view k [] ins s s'" if "talk view k [] ins ?s s'" for ins
      proof -
        from that obtain b2 where "ready k s'" "view (snd s') = note_sent k [] (note_got k b2 (note_got k bs (view (snd s))))"
          "(?buf @ bs) @ b2 = ins @ cl_buf (fst s')" by (auto simp: talk_def v(2))
        then show ?thesis unfolding talk_def by (intro conjI exI[of _ "bs @ b2"]) (simp_all add: note_simps)
      qed
      show ?thesis using IH step lift by (auto split: option.splits)
    qed
  qed
qed

text \<open>The loop around \<^verbatim>\<open>send\<close> ends, and has sent everything if it says so.\<close>

lemma send_rest_sends:
  "send_rest W k p n = (ok, n') \<Longrightarrow> \<exists>out. view n' = note_sent k out (view n) \<and> (ok \<longrightarrow> out = p)"
proof (induction "length p" arbitrary: p n rule: less_induct)
  case less
  show ?case
  proof (cases "p = []")
    case True
    with less.prems show ?thesis by (auto simp: send_rest.simps note_simps intro!: exI[of _ "[]"])
  next
    case False
    obtain i n1 where i: "wk_send W k p n = (i, n1)" by fastforce
    from send_view[OF this] have v: "i \<le> int (length p)" "view n1 = note_sent k (take (nat i) p) (view n)" by blast+
    show ?thesis
    proof (cases "i \<le> 0")
      case True
      with False i v less.prems show ?thesis by (subst (asm) send_rest.simps) (auto simp: note_simps intro!: exI[of _ "[]"])
    next
      case pos: False
      then have "send_rest W k (drop (nat i) p) n1 = (ok, n')" "length (drop (nat i) p) < length p"
        using less.prems False i by (subst (asm) send_rest.simps, simp_all)
      from less.hyps[OF this(2,1)] obtain out where "view n' = note_sent k out (view n1)" "ok \<longrightarrow> out = drop (nat i) p" by blast
      with v show ?thesis by (intro exI[of _ "take (nat i) p @ out"]) (simp add: note_simps)
    qed
  qed
qed

lemma does_ask: "does view k (ask W mid w) (\<lambda>_ out ins. out = frame_bytes mid w \<and> ins = [])"
proof (rule doesI)
  fix s :: "client \<times> 'n" assume s: "ready k s"
  obtain ok n' where n': "send_rest W k (frame_bytes mid w) (snd s) = (ok, n')" by fastforce
  from send_rest_sends[OF this] obtain out where
    out: "view n' = note_sent k out (view (snd s))" "ok \<longrightarrow> out = frame_bytes mid w" by blast
  have "talk view k out [] s (fst s, n')"
    using s out(1) by (auto simp: talk_def ready_def note_simps intro!: exI[of _ "[]"])
  moreover have "ask W mid w s = Some (if ok then Inr () else Inl Not_sent, fst s, n')"
    using s n' by (simp add: ask_def send_message_def ready_def frame_bytes_def case_prod_beta)
  ultimately show "\<exists>r s' out ins. ask W mid w s = Some (r, s') \<and> talk view k out ins s s' \<and>
      (\<forall>x. r = Inr x \<longrightarrow> out = frame_bytes mid w \<and> ins = [])" using out(2) by fastforce
qed

lemma does_expect: "does view k (expect W i want) (\<lambda>b out ins. out = [] \<and> ins = frame_bytes want b \<and> length b \<le> 1024)"
proof (rule doesI)
  fix s :: "client \<times> 'n" assume "ready k s"
  from recv_message_returns[OF this] obtain m s' where m: "recv_message W s = Some (m, s')"
    "case m of None \<Rightarrow> talk view k [] [] s s' | Some (i, b) \<Rightarrow> length b \<le> 1024 \<and> talk view k [] (frame_bytes i b) s s'" by blast
  show "\<exists>r s' out ins. expect W i want s = Some (r, s') \<and> talk view k out ins s s' \<and>
      (\<forall>x. r = Inr x \<longrightarrow> out = [] \<and> ins = frame_bytes want x \<and> length x \<le> 1024)"
  proof (cases m)
    case None
    with m show ?thesis by (fastforce simp: expect_def)
  next
    case (Some p)
    obtain mid b where "p = (mid, b)" by fastforce
    with m Some show ?thesis
      by (intro exI[of _ "if mid \<noteq> want then Inl (Wrong_answer i mid) else Inr b"] exI[of _ s'] exI[of _ "[]"]
          exI[of _ "frame_bytes mid b"]) (simp add: expect_def)
  qed
qed

lemma cl_connect_ok:
  obtains (no) s' where "cl_connect W host port (client_new, n) = (False, s')" "cl_socket (fst s') = None"
      "so_open (view (snd s')) = so_open (view n)"
  | (yes) k s' where "cl_connect W host port (client_new, n) = (True, s')" "ready k s'" "cl_buf (fst s') = []"
      "k \<notin> so_open (view n)" "view (snd s') = note_open k (view n)"
proof -
  obtain r n1 where r: "wk_socket W n = (r, n1)" by fastforce
  show ?thesis
  proof (cases r)
    case None
    with r socket_none[of n n1] show ?thesis
      by (intro no[of "(client_new, n1)"]) (simp_all add: cl_connect_def client_new_def)
  next
    case (Some k)
    from socket_new[OF r[unfolded Some]] have v: "k \<notin> so_open (view n)" "view n1 = note_open k (view n)" by blast+
    let ?addr = "case wk_pton W host of None \<Rightarrow> 0 | Some a \<Rightarrow> a"
    obtain ok n2 where c: "wk_connect W k ?addr port n1 = (ok, n2)" by fastforce
    then have v2: "view n2 = note_open k (view n)" using connect_view[of k ?addr port n1] v by simp
    show ?thesis
    proof (cases ok)
      case True
      with r Some c v v2 show ?thesis
        by (intro yes[of "(client_new\<lparr>cl_socket := Some k\<rparr>, wk_nodelay W k n2)" k])
          (simp_all add: cl_connect_def Let_def client_new_def ready_def nodelay_view)
    next
      case False
      with r Some c v v2 show ?thesis
        by (intro no[of "(client_new, wk_close W k n2)"])
          (simp_all add: cl_connect_def Let_def client_new_def cl_close_def close_view note_defs)
    qed
  qed
qed

text \<open>After the destructor, the sockets that are open are those from before the client; what it said stays on record.\<close>

lemma closed_again:
  assumes "ready k s" "k \<notin> so_open v" "view (snd s) = note_sent k out (note_got k bs (note_open k v))"
  shows "so_open (view (snd (cl_close W s))) = so_open v" "so_sent (view (snd (cl_close W s))) k = out"
    "so_got (view (snd (cl_close W s))) k = bs"
  using assms by (auto simp: cl_close_def ready_def close_view note_defs case_prod_beta)

lemma open_session_ok:
  obtains (no) e s' where "open_session W host port i (client_new, n) = Some (Inl e, s')"
      "so_open (view (snd (cl_close W s'))) = so_open (view n)"
  | (yes) k s' bs where "open_session W host port i (client_new, n) = Some (Inr (), s')" "ready k s'" "k \<notin> so_open (view n)"
      "length (cl_key (fst s')) = 36" "view (snd s') = note_got k bs (note_open k (view n))"
      "bs = frame_bytes kSessionAck (enc_str (cl_key (fst s'))) @ cl_buf (fst s')"
proof (cases rule: cl_connect_ok[of host port n])
  case (no s1)
  then show ?thesis by (intro that(1)[of "No_session i" s1]) (simp_all add: open_session_def cl_close_def case_prod_beta)
next
  case (yes k s1)
  from recv_message_returns[OF yes(2)] obtain m s2 where m: "recv_message W s1 = Some (m, s2)"
    "case m of None \<Rightarrow> talk view k [] [] s1 s2 | Some (j, b) \<Rightarrow> length b \<le> 1024 \<and> talk view k [] (frame_bytes j b) s1 s2" by blast
  have t: "\<exists>ins. talk view k [] ins s1 s2" using m(2) by (auto split: option.splits)
  then obtain ins bs where v: "ready k s2" "view (snd s2) = note_got k bs (note_open k (view n))" "bs = ins @ cl_buf (fst s2)"
    by (auto simp: talk_def note_simps yes)
  have shut: "so_open (view (snd (cl_close W (c, snd s2)))) = so_open (view n)" if "cl_socket c = Some k" for c
    using that yes(4) by (simp add: cl_close_def close_view v(2) note_defs)
  obtain c2 n2 where s2: "s2 = (c2, n2)" by fastforce
  have sock: "cl_socket c2 = Some k" using v(1) s2 by (simp add: ready_def)
  show ?thesis
  proof (cases "\<exists>b key r. m = Some (kSessionAck, b) \<and> rd_str (mk_reader b (bw_size b)) = (key, r) \<and> consumed_all r \<and> length key = 36")
    case True
    then obtain b key r where b: "m = Some (kSessionAck, b)" "rd_str (mk_reader b (bw_size b)) = (key, r)" "consumed_all r"
      "length key = 36" by blast
    with m(2) have ins: "length b \<le> 1024" "talk view k [] (frame_bytes kSessionAck b) s1 s2" by auto
    from body_is_string[OF ins(1) b(2,3)] have e: "b = enc_str key" .
    from ins(2) obtain bs where "view (snd s2) = note_got k bs (note_open k (view n))" "bs = frame_bytes kSessionAck b @ cl_buf (fst s2)"
      by (auto simp: talk_def note_simps yes)
    with b e m(1) yes(1,4) v(1) s2 show ?thesis
      by (intro that(2)[of "(c2\<lparr>cl_key := key\<rparr>, n2)" k bs])
        (simp_all add: open_session_def read_session_key_def ready_def)
  next
    case False
    define c where "c = (case m of Some (j, b) \<Rightarrow> if j = kSessionAck then c2\<lparr>cl_key := fst (rd_str (mk_reader b (bw_size b)))\<rparr> else c2
      | None \<Rightarrow> c2)"
    have "read_session_key W s1 = Some (False, c, n2)"
      using m(1) s2 False by (auto simp: read_session_key_def c_def split: option.splits prod.splits)
    moreover have "cl_socket c = Some k" using sock by (auto simp: c_def split: option.splits prod.splits)
    ultimately show ?thesis
      using yes(1) shut[of c] s2 by (intro that(1)[of "No_session i" "(c, n2)"]) (simp_all add: open_session_def)
  qed
qed

text \<open>
  A run of one client returns whatever the server does, and leaves no socket open. If it goes through to its verdict, the
  socket it used has got its session key first, and what the body of the run says about its bytes holds.
\<close>

lemma run_client_ok:
  assumes "\<And>k. does view k m P"
  shows "\<exists>r n'. run_client W (and_then (open_session W host port i) (\<lambda>_. m)) n = Some (r, n') \<and> so_open (view n') = so_open (view n) \<and>
    (\<forall>x. r = Inr x \<longrightarrow> (\<exists>k key out ins rest. k \<notin> so_open (view n) \<and> length key = 36 \<and> so_sent (view n') k = out \<and>
       so_got (view n') k = frame_bytes kSessionAck (enc_str key) @ ins @ rest \<and> P x out ins))"
proof (cases rule: open_session_ok[of host port i n])
  case (no e s')
  then show ?thesis by (simp add: run_client_def and_then_def)
next
  case (yes k s1 bs)
  from assms[of k] yes(2) obtain r s2 out ins where m: "m s1 = Some (r, s2)" "talk view k out ins s1 s2" "\<forall>x. r = Inr x \<longrightarrow> P x out ins"
    unfolding does_def by blast
  from m(2) obtain b2 where t: "ready k s2" "view (snd s2) = note_sent k out (note_got k b2 (note_got k bs (note_open k (view n))))"
    "cl_buf (fst s1) @ b2 = ins @ cl_buf (fst s2)" by (auto simp: talk_def yes(5))
  have v: "view (snd s2) = note_sent k out (note_got k (bs @ b2) (note_open k (view n)))" using t(2) by (simp add: note_simps)
  have "bs @ b2 = frame_bytes kSessionAck (enc_str (cl_key (fst s1))) @ ins @ cl_buf (fst s2)" using yes(6) t(3) by simp
  with closed_again[OF t(1) yes(3) v] m(1,3) yes(1,3,4) show ?thesis
    by (intro exI[of _ r] exI[of _ "snd (cl_close W s2)"]) (force simp: run_client_def and_then_def)
qed

end

end
