(* ===== verification/Bench_Wire.thy ===== *)
theory Bench_Wire
  imports Bench_Client
begin

text \<open>
  A network between the benchmark client and a server: sockets whose bytes arrive in order, in pieces of any length. The
  server is a record \<open>peer\<close> of what it sends when a connection is made and when a frame has arrived; \<open>wi_cut\<close> says how many
  bytes each call of \<^verbatim>\<open>send\<close> and \<^verbatim>\<open>recv\<close> moves. It provides what \<open>stream_socket\<close> asks for, and it is exact: what the server
  answers is what the client reads.
\<close>

type_synonym message = "nat \<times> u16 \<times> bytes"

record 'p peer =
  pe_greet :: "nat \<Rightarrow> 'p \<Rightarrow> message list \<times> 'p"
  pe_serve :: "nat \<Rightarrow> u16 \<times> bytes \<Rightarrow> 'p \<Rightarrow> message list \<times> 'p"

record 'p wire =
  wi_peer :: 'p
  wi_next :: nat
  wi_socks :: sockets
  wi_up :: "nat \<Rightarrow> bytes"
  wi_down :: "nat \<Rightarrow> bytes"
  wi_cut :: "nat list"

definition piece :: "nat \<Rightarrow> 'p wire \<Rightarrow> nat \<times> 'p wire" where
  "piece most n = (case wi_cut n of [] \<Rightarrow> (most, n) | c # cs \<Rightarrow> (min most (max 1 c), n\<lparr>wi_cut := cs\<rparr>))"

definition send_down :: "message list \<Rightarrow> 'p wire \<Rightarrow> 'p wire" where
  "send_down ms n = n\<lparr>wi_down := fold (\<lambda>(k, i, b) d. d(k := d k @ frame_bytes i b)) ms (wi_down n)\<rparr>"

fun serve_frames :: "'p peer \<Rightarrow> nat \<Rightarrow> (u16 \<times> bytes) list \<Rightarrow> 'p wire \<Rightarrow> 'p wire" where
  "serve_frames P k [] n = n"
| "serve_frames P k (f # fs) n =
     (case pe_serve P k f (wi_peer n) of (ms, p) \<Rightarrow> serve_frames P k fs (send_down ms (n\<lparr>wi_peer := p\<rparr>)))"

text \<open>Bytes arrive at the server.\<close>

definition arrive :: "'p peer \<Rightarrow> nat \<Rightarrow> bytes \<Rightarrow> 'p wire \<Rightarrow> 'p wire" where
  "arrive P k bs n = (case parse_stream (wi_up n k @ bs) of
     (fs, rest, e) \<Rightarrow> serve_frames P k fs (n\<lparr>wi_up := (wi_up n)(k := rest), wi_socks := note_sent k bs (wi_socks n)\<rparr>))"

definition wire_api :: "'p peer \<Rightarrow> 'p wire winsock" where
  "wire_api P = \<lparr>
     wk_pton = (\<lambda>host. if host = lit ''127.0.0.1'' then Some 0x7F000001 else None),
     wk_socket = (\<lambda>n. let k = wi_next n in
        if k \<in> so_open (wi_socks n) then (None, n)
        else (Some k, n\<lparr>wi_next := k + 1, wi_socks := note_open k (wi_socks n), wi_up := (wi_up n)(k := []),
                        wi_down := (wi_down n)(k := [])\<rparr>)),
     wk_connect = (\<lambda>k addr port n. case pe_greet P k (wi_peer n) of (ms, p) \<Rightarrow> (True, send_down ms (n\<lparr>wi_peer := p\<rparr>))),
     wk_nodelay = (\<lambda>k n. n),
     wk_send = (\<lambda>k bs n. case piece (length bs) n of (c, n) \<Rightarrow> (int c, arrive P k (take c bs) n)),
     wk_recv = (\<lambda>k cap n.
        if wi_down n k = [] then (None, n)
        else case piece (min cap (length (wi_down n k))) n of
          (c, n) \<Rightarrow> (Some (take c (wi_down n k)),
                     n\<lparr>wi_down := (wi_down n)(k := drop c (wi_down n k)), wi_socks := note_got k (take c (wi_down n k)) (wi_socks n)\<rparr>)),
     wk_close = (\<lambda>k n. n\<lparr>wi_socks := note_closed k (wi_socks n)\<rparr>)\<rparr>"

definition wire_new :: "'p \<Rightarrow> nat list \<Rightarrow> 'p wire" where
  "wire_new p cuts = \<lparr>wi_peer = p, wi_next = 0, wi_socks = \<lparr>so_open = {}, so_sent = (\<lambda>_. []), so_got = (\<lambda>_. [])\<rparr>,
     wi_up = (\<lambda>_. []), wi_down = (\<lambda>_. []), wi_cut = cuts\<rparr>"

section \<open>The network keeps the laws of the sockets\<close>

lemma piece_cases:
  assumes "piece most n = (c, n')"
  shows "c \<le> most" "most > 0 \<Longrightarrow> c > 0" "\<exists>cs. n' = n\<lparr>wi_cut := cs\<rparr>"
proof -
  show "c \<le> most" "most > 0 \<Longrightarrow> c > 0" using assms by (auto simp: piece_def split: list.splits)
  show "\<exists>cs. n' = n\<lparr>wi_cut := cs\<rparr>"
    by (rule exI[of _ "wi_cut n'"]) (use assms in \<open>auto simp: piece_def split: list.splits\<close>)
qed

lemma send_down_fields [simp]:
  "wi_peer (send_down ms n) = wi_peer n" "wi_next (send_down ms n) = wi_next n" "wi_socks (send_down ms n) = wi_socks n"
  "wi_up (send_down ms n) = wi_up n" "wi_cut (send_down ms n) = wi_cut n"
  by (simp_all add: send_down_def)

lemma serve_frames_fields [simp]:
  "wi_next (serve_frames P k fs n) = wi_next n" "wi_socks (serve_frames P k fs n) = wi_socks n"
  "wi_up (serve_frames P k fs n) = wi_up n" "wi_cut (serve_frames P k fs n) = wi_cut n"
  by (induction fs arbitrary: n) (simp_all add: case_prod_beta)

lemma arrive_socks [simp]: "wi_socks (arrive P k bs n) = note_sent k bs (wi_socks n)"
  by (simp add: arrive_def case_prod_beta)

text \<open>A call of \<^verbatim>\<open>send\<close> or \<^verbatim>\<open>recv\<close>, whatever the network does.\<close>

lemma wire_send:
  assumes "wk_send (wire_api P) k bs n = (i, n')"
  obtains c cs where "i = int c" "c \<le> length bs" "bs \<noteq> [] \<longrightarrow> c > 0" "n' = arrive P k (take c bs) (n\<lparr>wi_cut := cs\<rparr>)"
proof -
  obtain c n1 where p: "piece (length bs) n = (c, n1)" by fastforce
  from piece_cases(3)[OF p] obtain cs where "n1 = n\<lparr>wi_cut := cs\<rparr>" ..
  with piece_cases(1,2)[OF p] assms p show ?thesis by (intro that[of c cs]) (auto simp: wire_api_def)
qed

lemma wire_recv:
  assumes "wk_recv (wire_api P) k cap n = (r, n')"
  obtains (none) "wi_down n k = []" "r = None" "n' = n"
  | (some) c cs where "wi_down n k \<noteq> []" "r = Some (take c (wi_down n k))" "c \<le> cap" "cap > 0 \<longrightarrow> c > 0" "c \<le> length (wi_down n k)"
      "n' = n\<lparr>wi_cut := cs, wi_down := (wi_down n)(k := drop c (wi_down n k)),
              wi_socks := note_got k (take c (wi_down n k)) (wi_socks n)\<rparr>"
proof (cases "wi_down n k = []")
  case True
  then have "r = None" "n' = n" using assms by (simp_all add: wire_api_def)
  with True show ?thesis by (rule none)
next
  case False
  obtain c n1 where p: "piece (min cap (length (wi_down n k))) n = (c, n1)" by fastforce
  from piece_cases(3)[OF p] obtain cs where n1: "n1 = n\<lparr>wi_cut := cs\<rparr>" ..
  have "r = Some (take c (wi_down n k)) \<and> n' = n1\<lparr>wi_down := (wi_down n1)(k := drop c (wi_down n k)),
      wi_socks := note_got k (take c (wi_down n k)) (wi_socks n1)\<rparr>"
    using assms p n1 False by (simp add: wire_api_def)
  moreover have "c \<le> cap" "cap > 0 \<longrightarrow> c > 0" "c \<le> length (wi_down n k)" using piece_cases(1,2)[OF p] False by auto
  ultimately show ?thesis using False n1 by (intro some[of c cs]) simp_all
qed

interpretation wire: stream_socket "wire_api P" wi_socks
proof (unfold_locales, goal_cases)
  case (5 k bs n i n')
  then show ?case by (auto elim!: wire_send)
next
  case (6 k cap n bs n')
  then show ?case by (auto elim!: wire_recv)
next
  case (7 k cap n n')
  then show ?case by (auto elim!: wire_recv)
qed (auto simp: wire_api_def Let_def split: prod.splits if_splits)

section \<open>The network is exact\<close>

text \<open>
  \<open>due\<close>: the client is ready on socket \<open>k\<close>, the server is in state \<open>p\<close> and has no part of a frame, and \<open>pend\<close> is what the
  client has still to read, wherever on the way it is.
\<close>

definition due :: "nat \<Rightarrow> 'p \<Rightarrow> bytes \<Rightarrow> client \<times> 'p wire \<Rightarrow> bool" where
  "due k p pend s \<longleftrightarrow> ready k s \<and> wi_peer (snd s) = p \<and> wi_up (snd s) k = [] \<and> cl_buf (fst s) @ wi_down (snd s) k = pend"

abbreviation frames_of :: "message list \<Rightarrow> bytes" where
  "frames_of ms \<equiv> concat (map (\<lambda>(k, i, b). frame_bytes i b) ms)"

lemma send_down_to:
  "\<forall>m\<in>set ms. fst m = k \<Longrightarrow> wi_down (send_down ms n) k = wi_down n k @ frames_of ms"
proof -
  have "\<forall>m\<in>set ms. fst m = k \<Longrightarrow> fold (\<lambda>(k, i, b) d. d(k := d k @ frame_bytes i b)) ms d k = d k @ frames_of ms" for d
    by (induction ms arbitrary: d) auto
  then show "\<forall>m\<in>set ms. fst m = k \<Longrightarrow> ?thesis" by (simp add: send_down_def)
qed

text \<open>A part of a frame is no frame.\<close>

lemma part_of_frame:
  assumes "u @ v = frame_bytes i w" "v \<noteq> []" "length w \<le> 1024"
  shows "parse_stream u = ([], u, NeedMore)"
proof (rule parse_stream_cases(1))
  have len: "length u < 6 + length w"
    using arg_cong[OF assms(1), of length] assms(2) by (cases v) (auto simp: length_frame_bytes kHeaderSize_def)
  show "length u < 6 \<or> unat (load_be32 u) \<le> 1024 \<and> length u < 6 + unat (load_be32 u)"
  proof (cases "length u < 6")
    case False
    then have "load_be32 (u @ v) = load_be32 u" by (intro load_be_append(1)) simp
    with frame_header(1)[OF assms(3), of i "[]"] frame_header(2)[OF assms(3)] len assms(1,3) show ?thesis by simp
  qed simp
qed

lemma one_frame: "length w \<le> 1024 \<Longrightarrow> parse_stream (frame_bytes i w) = ([(i, w)], [], NeedMore)"
  using parse_stream_cons[of w i "[]"] by (simp add: parse_stream_cases(1))

text \<open>However a frame is cut, the server gets it once, when its last byte has come.\<close>

lemma send_rest_wire:
  assumes "length w \<le> 1024" "u @ p = frame_bytes mid w" "p \<noteq> []" "wi_up n k = u"
  shows "\<exists>cs v f. send_rest (wire_api P) k p n = (True, serve_frames P k [(mid, w)]
      (n\<lparr>wi_cut := cs, wi_up := f, wi_socks := v\<rparr>)) \<and> f k = []"
  using assms
proof (induction "length p" arbitrary: p u n rule: less_induct)
  case less
  obtain i n' where snd: "wk_send (wire_api P) k p n = (i, n')" by fastforce
  then obtain c cs where c: "i = int c" "c \<le> length p" "c > 0" and n': "n' = arrive P k (take c p) (n\<lparr>wi_cut := cs\<rparr>)"
    using less.prems(3) by (auto elim!: wire_send)
  have step: "send_rest (wire_api P) k p n = send_rest (wire_api P) k (drop c p) n'"
    using less.prems(3) snd c by (subst send_rest.simps) simp
  have u: "wi_up (n\<lparr>wi_cut := cs\<rparr>) k = u" using less.prems(4) by simp
  show ?case
  proof (cases "c = length p")
    case True
    then have "n' = serve_frames P k [(mid, w)] (n\<lparr>wi_cut := cs, wi_up := (wi_up n)(k := []), wi_socks := note_sent k p (wi_socks n)\<rparr>)"
      unfolding n' arrive_def u using less.prems(1,2) by (simp add: one_frame)
    then show ?thesis unfolding step using True
      by (intro exI[of _ cs] exI[of _ "note_sent k p (wi_socks n)"] exI[of _ "(wi_up n)(k := [])"]) (simp add: send_rest.simps)
  next
    case False
    then have split: "(u @ take c p) @ drop c p = frame_bytes mid w" "drop c p \<noteq> []" using less.prems(2) c by simp_all
    have n'': "n' = n\<lparr>wi_cut := cs, wi_up := (wi_up n)(k := u @ take c p), wi_socks := note_sent k (take c p) (wi_socks n)\<rparr>"
      unfolding n' arrive_def u using part_of_frame[OF split less.prems(1)] by simp
    have "length (drop c p) < length p" using c by simp
    from less.hyps[OF this less.prems(1) split, of n'] obtain cs2 v f where
      "send_rest (wire_api P) k (drop c p) n' = (True, serve_frames P k [(mid, w)] (n'\<lparr>wi_cut := cs2, wi_up := f, wi_socks := v\<rparr>))"
      "f k = []" unfolding n'' by auto
    then show ?thesis unfolding step n'' by auto
  qed
qed

lemma ask_wire:
  assumes "due k p pend s" "length w \<le> 1024" "pe_serve P k (mid, w) p = (ms, p')" "\<forall>m\<in>set ms. fst m = k"
  shows "\<exists>s'. ask (wire_api P) mid w s = Some (Inr (), s') \<and> due k p' (pend @ frames_of ms) s'"
proof -
  have ne: "frame_bytes mid w \<noteq> []" using length_frame_bytes[of mid w] by (auto simp: kHeaderSize_def)
  from send_rest_wire[OF assms(2) _ ne, of "[]" mid "snd s" k P] assms(1) obtain cs v f where
    r: "send_rest (wire_api P) k (frame_bytes mid w) (snd s) = (True, serve_frames P k [(mid, w)]
      ((snd s)\<lparr>wi_cut := cs, wi_up := f, wi_socks := v\<rparr>))" "f k = []" by (auto simp: due_def)
  let ?n = "(snd s)\<lparr>wi_cut := cs, wi_up := f, wi_socks := v\<rparr>"
  have "serve_frames P k [(mid, w)] ?n = send_down ms (?n\<lparr>wi_peer := p'\<rparr>)" using assms(1,3) by (simp add: due_def)
  with r(1) assms(1) have "ask (wire_api P) mid w s = Some (Inr (), fst s, send_down ms (?n\<lparr>wi_peer := p'\<rparr>))"
    by (simp add: ask_def send_message_def due_def ready_def frame_bytes_def case_prod_beta)
  moreover have "due k p' (pend @ frames_of ms) (fst s, send_down ms (?n\<lparr>wi_peer := p'\<rparr>))"
    using assms(1) r(2) by (auto simp: due_def ready_def send_down_to[OF assms(4)])
  ultimately show ?thesis by blast
qed

text \<open>However the answer is cut, the client reads the first frame of what it is due.\<close>

lemma recv_message_wire:
  assumes "due k p (frame_bytes i b @ rest) s" "length b \<le> 1024"
  shows "\<exists>s'. recv_message (wire_api P) s = Some (Some (i, b), s') \<and> due k p rest s'"
  using assms
proof (induction "length (wi_down (snd s) k)" arbitrary: s rule: less_induct)
  case less
  let ?buf = "cl_buf (fst s)" and ?down = "wi_down (snd s) k"
  have k: "cl_socket (fst s) = Some k" "length ?buf \<le> 1029 + 8192" using less.prems(1) by (simp_all add: due_def ready_def)
  then have i: "to_int32 (int (length ?buf)) = int (length ?buf)" by (intro to_int32_id) simp_all
  have l: "length ?buf < 2 ^ 32" using k by simp
  have pend: "?buf @ ?down = frame_bytes i b @ rest" using less.prems(1) by (simp add: due_def)
  note eq = recv_message.simps[of "wire_api P" s]
  show ?case
  proof (cases "length (frame_bytes i b) \<le> length ?buf")
    case True
    then obtain r where r: "?buf = frame_bytes i b @ r" "r @ ?down = rest"
      using pend by (metis append_eq_append_conv_if append_take_drop_id same_append_eq append.assoc)
    have "peek_frame ?buf (int (length ?buf)) = FrameOk \<lparr>fv_msg_id = i, fv_body = b, fv_size = bw_size b\<rparr> (int (length (frame_bytes i b)))"
      using peek_frame_reads_written_frame[OF less.prems(2), of i r] r(1) l by simp
    with i r less.prems(1) show ?thesis by (subst eq) (simp add: due_def ready_def)
  next
    case False
    then obtain v where w: "?buf @ v = frame_bytes i b" "?down = v @ rest"
      using pend by (auto simp: append_eq_append_conv2)
    then have "v \<noteq> []" using False by (metis append_Nil2 order_refl)
    note v = w(1) this w(2)
    have "peek_frame ?buf (int (length ?buf)) = Incomplete"
      using part_of_frame[OF v(1,2) less.prems(2)] parse_stream_peek[OF l]
      by (auto simp: prepend_def split: frame_result.splits prod.splits)
    moreover obtain r n' where rc: "wk_recv (wire_api P) k 8192 (snd s) = (r, n')" by fastforce
    moreover have "?down \<noteq> []" using v by simp
    ultimately obtain c cs where c: "r = Some (take c ?down)" "c \<le> 8192" "c > 0" "c \<le> length ?down" and
      n': "n' = (snd s)\<lparr>wi_cut := cs, wi_down := (wi_down (snd s))(k := drop c ?down),
         wi_socks := note_got k (take c ?down) (wi_socks (snd s))\<rparr>" and
      inc: "peek_frame ?buf (int (length ?buf)) = Incomplete"
      by (auto elim!: wire_recv)
    let ?s = "((fst s)\<lparr>cl_buf := ?buf @ take c ?down\<rparr>, n')"
    have step: "recv_message (wire_api P) s = recv_message (wire_api P) ?s"
      using c v by (subst eq) (simp add: i inc k(1) rc)
    have short: "length ?buf < 1030"
      using peek_buffer(2)[of ?buf] inc i k(2) by simp
    have "length (wi_down (snd ?s) k) < length ?down" using c by (simp add: n')
    moreover have "due k p (frame_bytes i b @ rest) ?s" using less.prems(1) c short by (simp add: due_def ready_def n')
    ultimately show ?thesis unfolding step using less.hyps less.prems(2) by blast
  qed
qed

lemma expect_wire:
  assumes "due k p (frame_bytes want b @ rest) s" "length b \<le> 1024"
  shows "\<exists>s'. expect (wire_api P) i want s = Some (Inr b, s') \<and> due k p rest s'"
  using recv_message_wire[OF assms, of P] by (auto simp: expect_def)

text \<open>A connection is made: the server greets the client, and the greeting is what it is due.\<close>

lemma connect_wire:
  assumes "k = wi_next n" "k \<notin> so_open (wi_socks n)" "pe_greet P k (wi_peer n) = (ms, p)" "\<forall>m\<in>set ms. fst m = k"
  shows "\<exists>s. cl_connect (wire_api P) host port (client_new, n) = (True, s) \<and> due k p (frames_of ms) s \<and>
    wi_next (snd s) = k + 1"
  using assms
  by (simp add: cl_connect_def wire_api_def Let_def due_def ready_def client_new_def send_down_to)

lemma session_wire:
  assumes "k = wi_next n" "k \<notin> so_open (wi_socks n)" "pe_greet P k (wi_peer n) = (ms, p)" "\<forall>m\<in>set ms. fst m = k"
    and "frames_of ms = frame_bytes kSessionAck (enc_str key) @ rest" "length key = 36"
  shows "\<exists>s. open_session (wire_api P) host port i (client_new, n) = Some (Inr (), s) \<and> due k p rest s \<and> cl_key (fst s) = key"
proof -
  from connect_wire[OF assms(1-4)] obtain s where s: "cl_connect (wire_api P) host port (client_new, n) = (True, s)"
    "due k p (frames_of ms) s" by blast
  have fits: "str_fits key" "length (enc_str key) \<le> 1024" using assms(6) by (simp_all add: str_fits_def width_simps)
  from recv_message_wire[OF s(2)[unfolded assms(5)] fits(2), of P] obtain s' where
    m: "recv_message (wire_api P) s = Some (Some (kSessionAck, enc_str key), s')" "due k p rest s'" by blast
  note rd = body_reader[OF fits(2)]
  have "fst (rd_str (mk_reader (enc_str key) (bw_size (enc_str key)))) = key"
    using str.dec_value[OF rd(1) rd_ok_mk fits(1)] rd(2) by simp
  moreover have "consumed_all (snd (rd_str (mk_reader (enc_str key) (bw_size (enc_str key)))))"
    using str.consumed_all_dec[OF rd(1)] rd(2) fits(1) by auto
  ultimately have "read_session_key (wire_api P) s = Some (True, (fst s')\<lparr>cl_key := key\<rparr>, snd s')"
    using m(1) assms(6) by (cases s') (simp add: read_session_key_def case_prod_beta)
  with s(1) m(2) show ?thesis
    by (intro exI[of _ "((fst s')\<lparr>cl_key := key\<rparr>, snd s')"]) (simp add: open_session_def due_def ready_def)
qed

end
