(* ===== verification/Bench_Chat.thy ===== *)
theory Bench_Chat
  imports Bench_Wire
begin

text \<open>
  The runs of the benchmark client that open many connections (\<^verbatim>\<open>bench/bot_client.cpp\<close>): \<^verbatim>\<open>run_churn\<close>, which opens and closes them
  one after the other, and \<^verbatim>\<open>run_chat_verify\<close>, whose three members are open at the same time. Both return whatever the
  server does, and leave no socket open.
\<close>

section \<open>Connections that come and go\<close>

context stream_socket
begin

lemma churn_round_ok:
  "\<exists>t' n'. churn_round W host port i (t, n) = Some (t', n') \<and> so_open (view n') = so_open (view n) \<and>
     to_sent t' + to_errors t' = to_sent t + to_errors t + 1"
proof (cases rule: cl_connect_ok[of host port n])
  case (no s1)
  then show ?thesis by (simp add: churn_round_def cl_close_def case_prod_beta)
next
  case (yes k s1)
  have shut: "so_open (view (snd (cl_close W (c, n')))) = so_open (view n)"
    if "cl_socket c = Some k" "view n' = note_got k bs (note_open k (view n))" for c n' bs
    using that yes(4) by (simp add: cl_close_def close_view note_defs)
  show ?thesis
  proof (cases "i mod 2 = 0")
    case False
    have "so_open (view (snd (cl_close W (fst s1, snd s1)))) = so_open (view n)"
      using yes(2,5) by (intro shut[where bs = "[]"]) (simp_all add: ready_def note_simps)
    with False yes(1) show ?thesis by (simp add: churn_round_def Let_def)
  next
    case True
    from recv_message_returns[OF yes(2)] obtain m s2 where m: "recv_message W s1 = Some (m, s2)"
      "case m of None \<Rightarrow> talk view k [] [] s1 s2 | Some (j, b) \<Rightarrow> length b \<le> 1024 \<and> talk view k [] (frame_bytes j b) s1 s2" by blast
    then have "\<exists>ins. talk view k [] ins s1 s2" by (auto split: option.splits)
    then obtain bs where v: "ready k s2" "view (snd s2) = note_got k bs (note_open k (view n))"
      by (auto simp: talk_def note_simps yes(5))
    have "\<exists>ok c. read_session_key W s1 = Some (ok, c, snd s2) \<and> cl_socket c = Some k"
    proof (cases m)
      case None
      then have "read_session_key W s1 = Some (False, fst s2, snd s2)" "cl_socket (fst s2) = Some k"
        using m(1) v(1) by (simp_all add: read_session_key_def ready_def)
      then show ?thesis by blast
    next
      case (Some p)
      obtain mid b where p: "p = (mid, b)" by fastforce
      define c where "c = (if mid = kSessionAck then (fst s2)\<lparr>cl_key := fst (rd_str (mk_reader b (bw_size b)))\<rparr> else fst s2)"
      have "\<exists>ok. read_session_key W s1 = Some (ok, c, snd s2)"
        using m(1) Some p
        by (intro exI[of _ "mid = kSessionAck \<and> consumed_all (snd (rd_str (mk_reader b (bw_size b)))) \<and>
          length (fst (rd_str (mk_reader b (bw_size b)))) = 36"]; cases s2) (simp add: read_session_key_def c_def case_prod_beta)
      moreover have "cl_socket c = Some k" using v(1) by (simp add: c_def ready_def)
      ultimately show ?thesis by blast
    qed
    then obtain ok c where r: "read_session_key W s1 = Some (ok, c, snd s2)" "cl_socket c = Some k" by blast
    from shut[OF r(2) v(2)] True yes(1) r(1) show ?thesis by (auto simp: churn_round_def Let_def)
  qed
qed

lemma churn_worker_ok:
  "\<exists>t' n'. churn_worker W host port is (t, n) = Some (t', n') \<and> so_open (view n') = so_open (view n) \<and>
     to_sent t' + to_errors t' = to_sent t + to_errors t + word_of_nat (length is)"
proof (induction "is" arbitrary: t n)
  case (Cons i "is")
  obtain t1 n1 where r: "churn_round W host port i (t, n) = Some (t1, n1)" "so_open (view n1) = so_open (view n)"
    "to_sent t1 + to_errors t1 = to_sent t + to_errors t + 1" using churn_round_ok by blast
  with Cons.IH[of t1 n1] show ?case by (auto simp: ac_simps)
qed simp

lemma churn_threads_ok:
  "\<exists>t' n'. churn_threads W host port rounds k (t, n) = Some (t', n') \<and> so_open (view n') = so_open (view n) \<and>
     to_sent t' + to_errors t' = to_sent t + to_errors t + word_of_nat (k * nat rounds)"
proof (induction k arbitrary: t n)
  case (Suc k)
  obtain t1 n1 where r: "churn_worker W host port [0..<nat rounds] (t, n) = Some (t1, n1)" "so_open (view n1) = so_open (view n)"
    "to_sent t1 + to_errors t1 = to_sent t + to_errors t + word_of_nat (nat rounds)"
    using churn_worker_ok[of host port "[0..<nat rounds]" t n] by auto
  with Suc.IH[of t1 n1] show ?case by (auto simp: algebra_simps)
qed simp

end

section \<open>Several clients at once\<close>

text \<open>
  A client whose socket \<open>k\<close> has sent \<open>out\<close> and whose steps have taken in \<open>ins\<close>; and the clients of a run, the first of which have
  their sessions while the rest is untouched. \<open>base\<close> are the sockets that were open before.
\<close>

definition follows :: "('n \<Rightarrow> sockets) \<Rightarrow> nat \<times> bytes \<times> bytes \<Rightarrow> client \<Rightarrow> 'n \<Rightarrow> bool" where
  "follows view h c n \<longleftrightarrow> (case h of (k, out, ins) \<Rightarrow>
     ready k (c, n) \<and> so_sent (view n) k = out \<and> so_got (view n) k = ins @ cl_buf c)"

definition members :: "('n \<Rightarrow> sockets) \<Rightarrow> nat set \<Rightarrow> (nat \<times> bytes \<times> bytes) list \<Rightarrow> client list \<Rightarrow> 'n \<Rightarrow> bool" where
  "members view base hs cs n \<longleftrightarrow> distinct (map fst hs) \<and> fst ` set hs \<inter> base = {} \<and>
     so_open (view n) = base \<union> fst ` set hs \<and> length hs \<le> length cs \<and>
     (\<forall>i<length hs. follows view (hs ! i) (cs ! i) n) \<and> (\<forall>i<length cs. length hs \<le> i \<longrightarrow> cs ! i = client_new)"

definition held_sockets :: "client list \<Rightarrow> nat set" where
  "held_sockets cs = {k. \<exists>c\<in>set cs. cl_socket c = Some k}"

lemma members_held:
  assumes "members view base hs cs n"
  shows "held_sockets cs = fst ` set hs"
proof -
  have "cl_socket (cs ! i) = (if i < length hs then Some (fst (hs ! i)) else None)" if "i < length cs" for i
    using assms that by (cases "hs ! i") (auto simp: members_def follows_def ready_def client_new_def)
  then have sock: "\<And>i. i < length cs \<Longrightarrow> cl_socket (cs ! i) = (if i < length hs then Some (fst (hs ! i)) else None)" .
  have len: "length hs \<le> length cs" using assms by (simp add: members_def)
  show ?thesis
  proof (intro set_eqI iffI)
    fix k assume "k \<in> held_sockets cs"
    then obtain i where "i < length cs" "cl_socket (cs ! i) = Some k" by (auto simp: held_sockets_def in_set_conv_nth)
    then have "i < length hs" "fst (hs ! i) = k" using sock[of i] by (auto split: if_splits)
    then show "k \<in> fst ` set hs" by (metis imageI nth_mem)
  next
    fix k assume "k \<in> fst ` set hs"
    then obtain i where i: "i < length hs" "k = fst (hs ! i)" by (auto simp: in_set_conv_nth)
    then have "cs ! i \<in> set cs" "cl_socket (cs ! i) = Some k" using sock[of i] len by simp_all
    then show "k \<in> held_sockets cs" by (auto simp: held_sockets_def)
  qed
qed

lemma body_is_two_strings:
  assumes "length b \<le> 1024" "rd_str (mk_reader b (bw_size b)) = (s, r1)" "rd_str r1 = (t, r2)" "consumed_all r2"
  shows "b = enc_str s @ enc_str t"
proof -
  note rd = body_reader[OF assms(1)]
  have wf: "reader_wf r1" using str.dec_wf[OF rd(1)] assms(2) by simp
  from assms(3,4) str.consumed_all_dec[OF wf] obtain x where x: "rd_ok r1" "str_fits x" "unread r1 = enc_str x" by auto
  then have "unread r1 = enc_str t" using str.dec_value[OF wf x] assms(3) by simp
  with str.dec_sound[OF rd(1)] assms(2) x(1) show ?thesis by (simp add: rd(2))
qed

context stream_socket
begin

lemma close_each:
  "so_open (view (fold (\<lambda>c n. snd (cl_close W (c, n))) cs n)) = so_open (view n) - held_sockets cs \<and>
   so_sent (view (fold (\<lambda>c n. snd (cl_close W (c, n))) cs n)) = so_sent (view n) \<and>
   so_got (view (fold (\<lambda>c n. snd (cl_close W (c, n))) cs n)) = so_got (view n)"
  by (induction cs arbitrary: n) (auto simp: held_sockets_def cl_close_def close_view note_defs split: option.splits)

lemma on_client_does:
  assumes inv: "members view base hs cs n" and i: "i < length hs" "hs ! i = (k, out, ins)" and m: "does view k m P"
  shows "\<exists>r cs' n' o1 i1. on_client i m (cs, n) = Some (r, cs', n') \<and> members view base (hs[i := (k, out @ o1, ins @ i1)]) cs' n' \<and>
    length cs' = length cs \<and> (\<forall>x. r = Inr x \<longrightarrow> P x o1 i1)"
proof -
  have f: "ready k (cs ! i, n)" "so_sent (view n) k = out" "so_got (view n) k = ins @ cl_buf (cs ! i)" and len: "i < length cs"
    using inv i by (fastforce simp: members_def follows_def)+
  from m f(1) obtain r c' n' o1 i1 where r: "m (cs ! i, n) = Some (r, c', n')" "talk view k o1 i1 (cs ! i, n) (c', n')"
    "\<forall>x. r = Inr x \<longrightarrow> P x o1 i1" unfolding does_def by (metis surj_pair)
  from r(2) obtain bs where t: "ready k (c', n')" "view n' = note_sent k o1 (note_got k bs (view n))" "cl_buf (cs ! i) @ bs = i1 @ cl_buf c'"
    by (auto simp: talk_def)
  have "fst (hs ! j) \<noteq> k" if "j < length hs" "j \<noteq> i" for j
    using inv i that nth_eq_iff_index_eq[of "map fst hs" j i] by (simp add: members_def)
  then have others: "follows view (hs ! j) (cs ! j) n'" if "j < length hs" "j \<noteq> i" for j
    using inv that by (cases "hs ! j") (fastforce simp: members_def follows_def t(2) note_defs ready_def)
  have own: "follows view (k, out @ o1, ins @ i1) c' n'" using t f(2,3) by (simp add: follows_def note_defs)
  have ks: "map fst (hs[i := (k, out @ o1, ins @ i1)]) = map fst hs"
    using i by (simp add: map_update) (metis fst_conv list_update_id map_update)
  then have "fst ` set (hs[i := (k, out @ o1, ins @ i1)]) = fst ` set hs" by (metis image_set)
  with inv ks own others t(2) i len have "members view base (hs[i := (k, out @ o1, ins @ i1)]) (cs[i := c']) n'"
    unfolding members_def by (simp add: nth_list_update note_defs)
  with r show ?thesis by (intro exI[of _ r] exI[of _ "cs[i := c']"] exI[of _ n'] exI[of _ o1] exI[of _ i1]) (simp add: on_client_def)
qed

lemma does_hear:
  "does view k (hear W sender text i) (\<lambda>bad out ins. out = [] \<and>
     (bad = [] \<longrightarrow> ins = frame_bytes kChatPush (enc_str sender @ enc_str text)))"
proof (rule doesI)
  fix s :: "client \<times> 'n" assume "ready k s"
  from recv_message_returns[OF this] obtain m s' where m: "recv_message W s = Some (m, s')"
    "case m of None \<Rightarrow> talk view k [] [] s s' | Some (j, b) \<Rightarrow> length b \<le> 1024 \<and> talk view k [] (frame_bytes j b) s s'" by blast
  show "\<exists>r s' out ins. hear W sender text i s = Some (r, s') \<and> talk view k out ins s s' \<and>
      (\<forall>bad. r = Inr bad \<longrightarrow> out = [] \<and> (bad = [] \<longrightarrow> ins = frame_bytes kChatPush (enc_str sender @ enc_str text)))"
  proof (cases m)
    case None
    with m show ?thesis by (fastforce simp: hear_def)
  next
    case (Some p)
    obtain mid b where p: "p = (mid, b)" by fastforce
    obtain who r1 where 1: "rd_str (mk_reader b (bw_size b)) = (who, r1)" by fastforce
    obtain got r2 where 2: "rd_str r1 = (got, r2)" by fastforce
    define bad where "bad = (if mid \<noteq> kChatPush then [No_push i mid] else
        (if consumed_all r2 then [] else [Bad_body i]) @ (if got \<noteq> text then [Wrong_chat i] else []) @
        (if who \<noteq> sender then [Wrong_sender i] else []))"
    have h: "hear W sender text i s = Some (Inr bad, s')" using m(1) Some p 1 2 by (simp add: hear_def bad_def)
    have "frame_bytes mid b = frame_bytes kChatPush (enc_str sender @ enc_str text)" if "bad = []"
      using that body_is_two_strings[OF _ 1 2] m(2) Some p by (simp add: bad_def split: if_splits)
    with h m(2) Some p show ?thesis
      by (intro exI[of _ "Inr bad"] exI[of _ s'] exI[of _ "[]"] exI[of _ "frame_bytes mid b"]) simp
  qed
qed

text \<open>Opening one client after the other; where one fails, closing all of them still leaves what was open before.\<close>

lemma open_next:
  assumes inv: "members view base hs cs n" and j: "length hs = j" "j < length cs"
  shows "\<exists>r cs' n'. on_client j (open_session W host port j) (cs, n) = Some (r, cs', n') \<and> length cs' = length cs \<and>
    so_open (view n') - held_sockets cs' = base \<and>
    (\<forall>x. r = Inr x \<longrightarrow> (\<exists>k. length (cl_key (cs' ! j)) = 36 \<and>
       members view base (hs @ [(k, [], frame_bytes kSessionAck (enc_str (cl_key (cs' ! j))))]) cs' n'))"
proof -
  have new: "cs ! j = client_new" using inv j by (simp add: members_def)
  have open_n: "so_open (view n) = base \<union> held_sockets cs" "base \<inter> held_sockets cs = {}"
    using inv members_held[OF inv] by (auto simp: members_def)
  have held: "held_sockets (cs[j := c]) = held_sockets cs \<union> set_option (cl_socket c)" for c
  proof -
    have "set cs = set (take j cs) \<union> {cs ! j} \<union> set (drop (Suc j) cs)"
      using arg_cong[OF id_take_nth_drop[OF j(2)], of set] by simp
    moreover have "set (cs[j := c]) = set (take j cs) \<union> {c} \<union> set (drop (Suc j) cs)" using j(2) by (simp add: upd_conv_take_nth_drop)
    moreover have "cl_socket (cs ! j) = None" by (simp add: new client_new_def)
    ultimately show ?thesis by (auto simp: held_sockets_def)
  qed
  show ?thesis
  proof (cases rule: open_session_ok[of host port j n])
    case (no e s')
    have "so_open (view (snd s')) - set_option (cl_socket (fst s')) = so_open (view n)"
      using no(2) by (auto simp: cl_close_def case_prod_beta close_view note_defs split: option.splits)
    then have "so_open (view (snd s')) - held_sockets (cs[j := fst s']) = base" using open_n unfolding held by blast
    with no(1) new show ?thesis
      by (intro exI[of _ "Inl e"] exI[of _ "cs[j := fst s']"] exI[of _ "snd s'"]) (simp add: on_client_def case_prod_beta)
  next
    case (yes k s' bs)
    let ?cs = "cs[j := fst s']" and ?h = "(k, [], frame_bytes kSessionAck (enc_str (cl_key (fst s'))))"
    have sock: "cl_socket (fst s') = Some k" using yes(2) by (simp add: ready_def)
    have own: "follows view ?h (fst s') (snd s')" using yes(2,5,6) by (simp add: follows_def note_defs)
    have "fst (hs ! i) \<noteq> k" if "i < length hs" for i
      using yes(3) open_n(1) members_held[OF inv] that by (metis UnCI imageI nth_mem)
    then have others: "follows view (hs ! i) (cs ! i) (snd s')" if "i < length hs" for i
      using inv that by (cases "hs ! i") (fastforce simp: members_def follows_def yes(5) note_defs ready_def)
    have "members view base (hs @ [?h]) ?cs (snd s')"
      using inv j yes(3) own others unfolding members_def
      by (auto simp: nth_append nth_list_update yes(5) note_defs less_Suc_eq)
    moreover have "so_open (view (snd s')) - held_sockets ?cs = base"
      using open_n yes(3) sock unfolding held by (auto simp: yes(5) note_defs)
    ultimately show ?thesis using yes(1,4) new j(2)
      by (intro exI[of _ "Inr ()"] exI[of _ ?cs] exI[of _ "snd s'"]) (auto simp: on_client_def case_prod_beta)
  qed
qed

lemma open_all_ok:
  assumes "members view base hs cs n" "length hs = j" "length cs = j + d"
  shows "\<exists>r cs' n'. open_all W host port [j..<j + d] ks (cs, n) = Some (r, cs', n') \<and> so_open (view n') - held_sockets cs' = base \<and>
    (\<forall>x. r = Inr x \<longrightarrow> (\<exists>hs' keys. x = ks @ keys \<and> length keys = d \<and> length hs' = d \<and> length cs' = j + d \<and> members view base (hs @ hs') cs' n' \<and>
       (\<forall>i<d. length (keys ! i) = 36 \<and> snd (hs' ! i) = ([], frame_bytes kSessionAck (enc_str (keys ! i))))))"
  using assms
proof (induction d arbitrary: hs cs n j ks)
  case 0
  have "so_open (view n) - held_sockets cs = base" using 0(1) members_held[OF 0(1)] by (auto simp: members_def)
  with 0 show ?case by (auto simp: give_def)
next
  case (Suc d)
  from open_next[OF Suc.prems(1,2), of host port] Suc.prems(3) obtain r cs1 n1 where
    o: "on_client j (open_session W host port j) (cs, n) = Some (r, cs1, n1)" "length cs1 = length cs"
      "so_open (view n1) - held_sockets cs1 = base"
    and yes: "\<forall>x. r = Inr x \<longrightarrow> (\<exists>k. length (cl_key (cs1 ! j)) = 36 \<and>
       members view base (hs @ [(k, [], frame_bytes kSessionAck (enc_str (cl_key (cs1 ! j))))]) cs1 n1)" by auto
  have up: "[j..<j + Suc d] = j # [Suc j..<Suc j + d]" by (simp add: upt_rec)
  show ?case
  proof (cases r)
    case (Inl e)
    then have "open_all W host port [j..<j + Suc d] ks (cs, n) = Some (Inl e, cs1, n1)"
      unfolding up open_all.simps using o(1) by (simp add: and_then_def)
    with o(3) show ?thesis by blast
  next
    case (Inr u)
    let ?key = "cl_key (cs1 ! j)"
    from yes Inr obtain k where k: "length ?key = 36" "members view base (hs @ [(k, [], frame_bytes kSessionAck (enc_str ?key))]) cs1 n1" by blast
    have key: "on_client j session_key (cs1, n1) = Some (Inr ?key, cs1, n1)" by (simp add: on_client_def session_key_def)
    from Suc.IH[OF k(2), of "Suc j" "ks @ [?key]"] Suc.prems o(2) obtain r' cs' n' where
      IH: "open_all W host port [Suc j..<Suc j + d] (ks @ [?key]) (cs1, n1) = Some (r', cs', n')" "so_open (view n') - held_sockets cs' = base"
      and IH2: "\<forall>x. r' = Inr x \<longrightarrow> (\<exists>hs' keys. x = (ks @ [?key]) @ keys \<and> length keys = d \<and> length hs' = d \<and> length cs' = Suc j + d \<and>
         members view base ((hs @ [(k, [], frame_bytes kSessionAck (enc_str ?key))]) @ hs') cs' n' \<and>
         (\<forall>i<d. length (keys ! i) = 36 \<and> snd (hs' ! i) = ([], frame_bytes kSessionAck (enc_str (keys ! i)))))" by auto
    have run: "open_all W host port [j..<j + Suc d] ks (cs, n) = Some (r', cs', n')"
      unfolding up open_all.simps using o(1) Inr key IH(1) by (simp add: and_then_def)
    have "\<exists>hs' keys. x = ks @ keys \<and> length keys = Suc d \<and> length hs' = Suc d \<and> length cs' = j + Suc d \<and> members view base (hs @ hs') cs' n' \<and>
       (\<forall>i<Suc d. length (keys ! i) = 36 \<and> snd (hs' ! i) = ([], frame_bytes kSessionAck (enc_str (keys ! i))))" if x: "r' = Inr x" for x
    proof -
      from IH2 x obtain hs' keys where h: "x = (ks @ [?key]) @ keys" "length keys = d" "length hs' = d" "length cs' = Suc j + d"
        "members view base ((hs @ [(k, [], frame_bytes kSessionAck (enc_str ?key))]) @ hs') cs' n'"
        "\<forall>i<d. length (keys ! i) = 36 \<and> snd (hs' ! i) = ([], frame_bytes kSessionAck (enc_str (keys ! i)))" by blast
      then show ?thesis using k(1)
        by (intro exI[of _ "(k, [], frame_bytes kSessionAck (enc_str ?key)) # hs'"] exI[of _ "?key # keys"]) (simp add: nth_Cons split: nat.split)
    qed
    with run IH(2) show ?thesis by blast
  qed
qed

lemma hear_all_ok:
  assumes "members view base hs cs n" "\<forall>i\<in>set is. i < length hs" "distinct is"
  shows "\<exists>bad' cs' n' hs'. hear_all W sender text is bad (cs, n) = Some (Inr (bad @ bad'), cs', n') \<and> members view base hs' cs' n' \<and>
    length hs' = length hs \<and> (\<forall>i<length hs. i \<notin> set is \<longrightarrow> hs' ! i = hs ! i) \<and>
    (bad' = [] \<longrightarrow> (\<forall>i\<in>set is. case hs ! i of (k, out, ins) \<Rightarrow>
       hs' ! i = (k, out, ins @ frame_bytes kChatPush (enc_str sender @ enc_str text))))"
  using assms
proof (induction "is" arbitrary: hs cs n bad)
  case Nil
  then show ?case by (intro exI[of _ "[]"] exI[of _ cs] exI[of _ n] exI[of _ hs]) (simp add: give_def)
next
  case (Cons i "is")
  obtain k out ins where h: "hs ! i = (k, out, ins)" by (cases "hs ! i") auto
  have i: "i < length hs" using Cons.prems by simp
  obtain r cs1 n1 o1 i1 where c: "on_client i (hear W sender text i) (cs, n) = Some (r, cs1, n1)"
      "members view base (hs[i := (k, out @ o1, ins @ i1)]) cs1 n1"
    and r: "\<forall>x. r = Inr x \<longrightarrow> o1 = [] \<and> (x = [] \<longrightarrow> i1 = frame_bytes kChatPush (enc_str sender @ enc_str text))"
    using on_client_does[OF Cons.prems(1) i h does_hear[of k sender "text" i]] by blast
  have "\<exists>x. r = Inr x"
    using c(1) by (auto simp: on_client_def hear_def split: option.splits prod.splits if_splits)
  then obtain ds where ds: "r = Inr ds" by blast
  let ?hs = "hs[i := (k, out @ o1, ins @ i1)]"
  from Cons.IH[OF c(2), of "bad @ ds"] Cons.prems obtain bad' cs' n' hs' where
    IH: "hear_all W sender text is (bad @ ds) (cs1, n1) = Some (Inr ((bad @ ds) @ bad'), cs', n')" "members view base hs' cs' n'"
      "length hs' = length ?hs" "\<forall>j<length ?hs. j \<notin> set is \<longrightarrow> hs' ! j = ?hs ! j"
      "bad' = [] \<longrightarrow> (\<forall>j\<in>set is. case ?hs ! j of (k, out, ins) \<Rightarrow>
         hs' ! j = (k, out, ins @ frame_bytes kChatPush (enc_str sender @ enc_str text)))" by auto
  have run: "hear_all W sender text (i # is) bad (cs, n) = Some (Inr (bad @ (ds @ bad')), cs', n')"
    using c(1) ds IH(1) by (simp add: and_then_def)
  have "hs' ! i = (k, out, ins @ frame_bytes kChatPush (enc_str sender @ enc_str text))" if "ds = []"
    using IH(4) i Cons.prems(3) r ds that by simp
  moreover have "?hs ! j = hs ! j" if "j \<in> set is" for j
    using that Cons.prems(3) by (metis distinct.simps(2) nth_list_update_neq)
  ultimately show ?case
    using run IH i h Cons.prems(3) by (intro exI[of _ "ds @ bad'"] exI[of _ cs'] exI[of _ n'] exI[of _ hs']) auto
qed

lemma members_start: "members view (so_open (view n)) [] (replicate m client_new) n"
  by (simp add: members_def)

lemma members_closed: "members view base hs cs n \<Longrightarrow> so_open (view n) - held_sockets (rev cs) = base"
  using members_held[of view base hs cs n] by (auto simp: members_def held_sockets_def)

text \<open>
  The run as a whole: it returns with all sockets closed, and without a complaint only if the first of the three members has
  sent one chat message and each of them got its session key and then this message under the key of the first.
\<close>

lemma chat_run:
  "\<exists>r n'. run_chat_verify W host port n = Some (r, n') \<and> so_open (view n') = so_open (view n) \<and>
     (r = Inr [] \<longrightarrow> (\<exists>ks keys rests. distinct ks \<and> length ks = 3 \<and> set ks \<inter> so_open (view n) = {} \<and> (\<forall>i<3. length (keys i) = 36 \<and>
        so_sent (view n') (ks ! i) = (if i = 0 then frame_bytes kChatReq (enc_str chat_text) else []) \<and>
        so_got (view n') (ks ! i) = frame_bytes kSessionAck (enc_str (keys i)) @
          frame_bytes kChatPush (enc_str (keys 0) @ enc_str chat_text) @ rests i)))"
proof -
  let ?shut = "\<lambda>cs n. fold (\<lambda>c n. snd (cl_close W (c, n))) (rev cs) n"
  have three: "[0..<kMembers] = [0..<0 + 3]" "replicate kMembers client_new = replicate 3 client_new" by (simp_all add: kMembers_def)
  from open_all_ok[OF members_start, of 0 3 3 host port "[]" n] obtain r cs n1 where
    o: "open_all W host port [0..<0 + 3] [] (replicate 3 client_new, n) = Some (r, cs, n1)" "so_open (view n1) - held_sockets cs = so_open (view n)"
    and yes: "\<forall>x. r = Inr x \<longrightarrow> (\<exists>hs keys. x = [] @ keys \<and> length keys = 3 \<and> length hs = 3 \<and> length cs = 0 + 3 \<and>
       members view (so_open (view n)) ([] @ hs) cs n1 \<and>
       (\<forall>i<3. length (keys ! i) = 36 \<and> snd (hs ! i) = ([], frame_bytes kSessionAck (enc_str (keys ! i)))))" by auto
  have held_rev: "held_sockets (rev cs) = held_sockets cs" for cs by (simp add: held_sockets_def)
  show ?thesis
  proof (cases r)
    case (Inl e)
    then have "run_chat_verify W host port n = Some (Inl e, ?shut cs n1)"
      using o(1) by (simp add: run_chat_verify_def three and_then_def del: upt_Suc)
    with o(2) close_each[of "rev cs" n1] show ?thesis by (simp add: held_rev)
  next
    case (Inr x)
    with yes obtain hs keys where h: "x = keys" "length keys = 3" "length hs = 3" "length cs = 3"
      "members view (so_open (view n)) hs cs n1"
      and hk: "\<forall>i<3. length (keys ! i) = 36 \<and> snd (hs ! i) = ([], frame_bytes kSessionAck (enc_str (keys ! i)))" by auto
    obtain k0 where k0: "hs ! 0 = (k0, [], frame_bytes kSessionAck (enc_str (keys ! 0)))" using hk by (metis prod.collapse zero_less_numeral)
    have "0 < length hs" using h(3) by simp
    from on_client_does[OF h(5) this k0 does_ask[of k0 kChatReq "bw_str chat_text []"]] obtain a cs2 n2 o1 i1 where
      s: "on_client 0 (ask W kChatReq (bw_str chat_text [])) (cs, n1) = Some (a, cs2, n2)"
        "members view (so_open (view n)) (hs[0 := (k0, [] @ o1, frame_bytes kSessionAck (enc_str (keys ! 0)) @ i1)]) cs2 n2"
      and a: "\<forall>x. a = Inr x \<longrightarrow> o1 = frame_bytes kChatReq (bw_str chat_text []) \<and> i1 = []" by blast
    show ?thesis
    proof (cases a)
      case (Inl e)
      then have "run_chat_verify W host port n = Some (Inl e, ?shut cs2 n2)"
        using o(1) s(1) \<open>r = Inr x\<close> h(1) by (simp add: run_chat_verify_def three and_then_def del: upt_Suc)
      with members_closed[OF s(2)] close_each[of "rev cs2" n2] show ?thesis by simp
    next
      case (Inr u)
      let ?hs = "hs[0 := (k0, [] @ o1, frame_bytes kSessionAck (enc_str (keys ! 0)) @ i1)]"
      from hear_all_ok[OF s(2), of "[0..<0 + 3]" "keys ! 0" chat_text "[]"] h(3) obtain bad cs3 n3 hs3 where
        q: "hear_all W (keys ! 0) chat_text [0..<0 + 3] [] (cs2, n2) = Some (Inr ([] @ bad), cs3, n3)"
          "members view (so_open (view n)) hs3 cs3 n3" "length hs3 = length ?hs"
        and heard: "bad = [] \<longrightarrow> (\<forall>i\<in>{0..<3}. case ?hs ! i of (k, out, ins) \<Rightarrow>
           hs3 ! i = (k, out, ins @ frame_bytes kChatPush (enc_str (keys ! 0) @ enc_str chat_text)))" by auto
      have run: "run_chat_verify W host port n = Some (Inr bad, ?shut cs3 n3)"
        using o(1) s(1) q(1) Inr \<open>r = Inr x\<close> h(1) by (simp add: run_chat_verify_def three and_then_def del: upt_Suc)
      note shut = close_each[of "rev cs3" n3]
      have "\<exists>ks keys rests. distinct ks \<and> length ks = 3 \<and> set ks \<inter> so_open (view n) = {} \<and> (\<forall>i<3. length (keys i) = 36 \<and>
          so_sent (view (?shut cs3 n3)) (ks ! i) = (if i = 0 then frame_bytes kChatReq (enc_str chat_text) else []) \<and>
          so_got (view (?shut cs3 n3)) (ks ! i) = frame_bytes kSessionAck (enc_str (keys i)) @
            frame_bytes kChatPush (enc_str (keys 0) @ enc_str chat_text) @ rests i)" if b: "bad = []"
      proof (rule exI[of _ "map fst hs3"], rule exI[of _ "\<lambda>i. keys ! i"], rule exI[of _ "\<lambda>i. cl_buf (cs3 ! i)"], intro conjI allI impI)
        have len: "length hs3 = 3" using q(3) h(3) by simp
        have oi: "o1 = frame_bytes kChatReq (enc_str chat_text)" "i1 = []" using a Inr by (simp_all add: codec_simps)
        show "distinct (map fst hs3)" "length (map fst hs3) = 3" "set (map fst hs3) \<inter> so_open (view n) = {}"
          using q(2) len by (simp_all add: members_def)
        fix i :: nat assume i: "i < 3"
        show "length (keys ! i) = 36" using hk i by blast
        have "?hs ! i = (fst (hs ! i), if i = 0 then frame_bytes kChatReq (enc_str chat_text) else [],
            frame_bytes kSessionAck (enc_str (keys ! i)))"
          using i h(3) hk k0 oi by (auto simp: nth_list_update prod_eq_iff)
        moreover have "i \<in> {0..<3}" using i by simp
        note bspec[OF mp[OF heard b] this]
        ultimately have e: "hs3 ! i = (fst (hs ! i), if i = 0 then frame_bytes kChatReq (enc_str chat_text) else [],
            frame_bytes kSessionAck (enc_str (keys ! i)) @ frame_bytes kChatPush (enc_str (keys ! 0) @ enc_str chat_text))" by (simp only: prod.case)
        have "follows view (hs3 ! i) (cs3 ! i) n3" using q(2) i len by (simp add: members_def)
        with e shut i len show "so_sent (view (?shut cs3 n3)) (map fst hs3 ! i) = (if i = 0 then frame_bytes kChatReq (enc_str chat_text) else [])"
          "so_got (view (?shut cs3 n3)) (map fst hs3 ! i) = frame_bytes kSessionAck (enc_str (keys ! i)) @
            frame_bytes kChatPush (enc_str (keys ! 0) @ enc_str chat_text) @ cl_buf (cs3 ! i)" by (simp_all add: follows_def)
      qed
      with run shut members_closed[OF q(2)] show ?thesis by (intro exI[of _ "Inr bad"] exI[of _ "?shut cs3 n3"]) simp
    qed
  qed
qed

end

section \<open>Properties\<close>

text \<open>
  C1: \<^verbatim>\<open>run_chat_verify\<close> returns whatever the server sends, with the sockets of all members closed; and it returns 0 only if the first
  member has sent one chat message, and each member has got its own session key and then, next on its stream, this message
  under the key of the first.
\<close>

theorem chat_run_passes_only_if_all_hear:
  assumes "stream_socket W view"
  shows "\<exists>r n'. run_chat_verify W host port n = Some (r, n') \<and> so_open (view n') = so_open (view n) \<and>
     (exit_code r = 0 \<longrightarrow> (\<exists>ks keys rests. distinct ks \<and> length ks = 3 \<and> set ks \<inter> so_open (view n) = {} \<and> (\<forall>i<3. length (keys i) = 36 \<and>
        so_sent (view n') (ks ! i) = (if i = 0 then frame_bytes kChatReq (enc_str chat_text) else []) \<and>
        so_got (view n') (ks ! i) = frame_bytes kSessionAck (enc_str (keys i)) @
          frame_bytes kChatPush (enc_str (keys 0) @ enc_str chat_text) @ rests i)))"
proof -
  have "exit_code r = 0 \<longrightarrow> r = Inr []" for r by (simp add: exit_code_def split: sum.splits list.splits)
  with stream_socket.chat_run[OF assms, of host port n] show ?thesis by blast
qed

text \<open>
  C2: \<^verbatim>\<open>run_churn\<close> returns with no socket left open, every round is counted once, as done or as failed, and the exit code is 0
  exactly if the counter of failures is.
\<close>

theorem churn_counts_every_round:
  assumes "stream_socket W view"
  shows "\<exists>r t n'. run_churn W host port connections rounds n = Some (r, t, n') \<and> so_open (view n') = so_open (view n) \<and>
     to_sent t + to_errors t = word_of_nat (nat connections * nat rounds) \<and> (r = 0 \<longleftrightarrow> to_errors t = 0)"
proof -
  obtain t n' where "churn_threads W host port rounds (nat connections) (totals_new, n) = Some (t, n')"
    "so_open (view n') = so_open (view n)" "to_sent t + to_errors t = word_of_nat (nat connections * nat rounds)"
    using stream_socket.churn_threads_ok[OF assms, of host port rounds "nat connections" totals_new n] by (auto simp: totals_new_def)
  then show ?thesis by (simp add: run_churn_def)
qed

text \<open>A server that sends a session key to all who come and says no more.\<close>

definition greeter :: "unit peer" where
  "greeter = \<lparr>pe_greet = (\<lambda>k u. ([(k, kSessionAck, enc_str (make_session_key 3 4))], u)), pe_serve = (\<lambda>k f u. ([], u))\<rparr>"

theorem chat_run_passes_only_if_all_hear_witness:
  "\<exists>r n'. run_chat_verify (wire_api greeter) [] 9000 (wire_new () [4, 1, 40, 7]) = Some (r, n') \<and> so_open (wi_socks n') = {}"
  using chat_run_passes_only_if_all_hear[OF wire.stream_socket_axioms, of greeter "[]" 9000 "wire_new () [4, 1, 40, 7]"]
  by (auto simp: wire_new_def)

theorem churn_counts_every_round_witness:
  "\<exists>r t n'. run_churn (wire_api greeter) [] 9000 2 3 (wire_new () [4, 1, 40, 7]) = Some (r, t, n') \<and> to_sent t + to_errors t = 6"
  using churn_counts_every_round[OF wire.stream_socket_axioms, of greeter "[]" 9000 2 3 "wire_new () [4, 1, 40, 7]"] by auto

end
