(* ===== verification/Bench_Verify.thy ===== *)
theory Bench_Verify
  imports Bench_Client Handlers
begin

text \<open>
  What the verdicts of the verification runs mean (\<^verbatim>\<open>bench/bot_client.cpp\<close>): when \<^verbatim>\<open>run_idem\<close> or \<^verbatim>\<open>run_verify\<close> returns 0, the bytes
  that went over the socket were those of a server that kept its promise; and they return, with every socket closed,
  whatever the server sends.
\<close>

section \<open>What the check of the rows accepts\<close>

lemma rd_rows_sound:
  assumes "reader_wf r" "rd_ok (snd (rd_rows n r))"
  shows "rd_ok r \<and> reader_wf (snd (rd_rows n r)) \<and> length (fst (rd_rows n r)) = n \<and>
    unread r = concat (map enc_row (fst (rd_rows n r))) @ unread (snd (rd_rows n r))"
  using assms
proof (induction n arbitrary: r)
  case (Suc n)
  let ?r1 = "snd (rd_u64 r)" let ?r2 = "snd (rd_str ?r1)" let ?r3 = "snd (rd_u64 ?r2)"
  have w: "reader_wf ?r1" "reader_wf ?r2" "reader_wf ?r3" using Suc.prems(1) by (simp_all add: u64.dec_wf str.dec_wf)
  have "rd_ok (snd (rd_rows n ?r3))" using Suc.prems(2) by (simp add: case_prod_beta)
  note IH = Suc.IH[OF w(3) this]
  then have "rd_ok ?r3" by simp
  note s3 = u64.dec_sound[OF w(2) this]
  then have "rd_ok ?r2" by simp
  note s2 = str.dec_sound[OF w(1) this]
  then have "rd_ok ?r1" by simp
  note s1 = u64.dec_sound[OF Suc.prems(1) this]
  show ?case using IH s1 s2 s3 by (simp add: case_prod_beta enc_row_def)
qed simp

definition row_complaints :: "nat \<Rightarrow> log_row \<Rightarrow> complaint list" where
  "row_complaints i row =
     (if lr_payload row \<noteq> row_text (int kCount - 1 - int i) then [Wrong_text i] else []) @
     (if lr_log_id row = 0 \<or> lr_created_at_ms row = 0 then [Empty_fields i] else [])"

lemma check_rows_eq:
  "check_rows is r = (concat (map2 row_complaints is (fst (rd_rows (length is) r))), snd (rd_rows (length is) r))"
  by (induction "is" arbitrary: r) (simp_all add: case_prod_beta row_complaints_def)

text \<open>The answer of the server to a request for the history, as the handlers build it.\<close>

definition history_answer :: "log_row list \<Rightarrow> bytes" where
  "history_answer rows = response_body (response_init\<lparr>rs_kind := History, rs_rows := rows\<rparr>)"

lemma check_history_sound:
  assumes "length body \<le> 1024" "check_history body = []"
  shows "\<exists>rows. body = history_answer rows \<and> map lr_payload rows = map row_text [4, 3, 2, 1, 0] \<and>
    (\<forall>row\<in>set rows. lr_log_id row \<noteq> 0 \<and> lr_created_at_ms row \<noteq> 0)"
proof -
  note rd = body_reader[OF assms(1)]
  obtain h r where h: "rd_u16 (mk_reader body (bw_size body)) = (h, r)" by fastforce
  define rows where "rows = fst (rd_rows (unat h) r)"
  define r' where "r' = snd (rd_rows (unat h) r)"
  have cs: "unat h = kCount" "concat (map2 row_complaints [0..<unat h] rows) = []" "consumed_all r'"
    using assms(2) by (simp_all add: check_history_def h check_rows_eq rows_def r'_def case_prod_beta split: if_splits)
  have wf: "reader_wf r" using u16.dec_wf[OF rd(1)] h by simp
  have "rd_ok r'" using cs(3) by (simp add: consumed_all_def)
  note s = rd_rows_sound[OF wf this[unfolded r'_def], folded rows_def r'_def]
  have len: "length rows = 5" using s cs(1) by (simp add: kCount_def)
  have "unread r' = []" using s cs(3) by (simp add: consumed_all_iff)
  then have "unread r = concat (map enc_row rows)" using s by simp
  moreover have "body = enc_u16 h @ unread r" using u16.dec_sound[OF rd(1)] s h rd(2) by simp
  moreover have "h = word_of_nat 5" using arg_cong[OF cs(1), of "\<lambda>n. word_of_nat n :: u16"] by (simp add: kCount_def)
  ultimately have b: "body = history_answer rows" by (simp add: history_answer_def history_body len response_init_def)
  obtain a b c d e where rows: "rows = [a, b, c, d, e]" using len by (auto simp: numeral_eq_Suc length_Suc_conv)
  have "[0..<unat h] = [0, 1, 2, 3, 4]" using cs(1) by (simp add: kCount_def upt_rec)
  with cs(2) b show ?thesis by (intro exI[of _ rows]) (auto simp: rows row_complaints_def kCount_def split: if_splits)
qed

lemma order_complaints_none:
  assumes "order_complaints ids = []"
  shows "sorted_wrt (<) ids"
proof -
  have "ids ! i < ids ! Suc i" if "Suc i < length ids" for i
    using assms that by (fastforce simp: order_complaints_def not_le split: if_splits dest: bspec[of _ _ "Suc i"])
  then show ?thesis by (simp add: sorted_wrt_iff_nth_Suc_transp transp_def)
qed

section \<open>What is said on the way\<close>

text \<open>One attempt of \<^verbatim>\<open>run_idem\<close> and both; the saved rows of \<^verbatim>\<open>run_verify\<close> and the whole run.\<close>

definition counter_talk :: "bytes \<Rightarrow> u64 \<times> bool \<Rightarrow> bytes \<Rightarrow> bytes \<Rightarrow> bool" where
  "counter_talk key x out ins \<longleftrightarrow> out = frame_bytes kCounterReq (enc_str key) \<and>
     (\<exists>flag. snd x = (flag \<noteq> 0) \<and> ins = frame_bytes kCounterAck (enc_u64 (fst x) @ enc_u8 flag))"

definition two_attempts :: "bytes \<Rightarrow> complaint list \<Rightarrow> bytes \<Rightarrow> bytes \<Rightarrow> bool" where
  "two_attempts key cs out ins \<longleftrightarrow> (\<exists>x y o1 i1 o2 i2. counter_talk key x o1 i1 \<and> counter_talk key y o2 i2 \<and>
     out = o1 @ o2 \<and> ins = i1 @ i2 \<and> (cs = [] \<longrightarrow> \<not> snd x \<and> snd y \<and> fst x = fst y))"

definition saved :: "nat list \<Rightarrow> u64 list \<Rightarrow> bytes \<Rightarrow> bytes \<Rightarrow> bool" where
  "saved is log_ids out ins \<longleftrightarrow>
     out = concat (map (\<lambda>i. frame_bytes kSaveReq (enc_str (row_text (int i)))) is) \<and>
     (\<exists>bodies. length bodies = length is \<and> ins = concat (map (frame_bytes kSaveAck) bodies) \<and>
        log_ids = map (\<lambda>b. fst (rd_u64 (mk_reader b (bw_size b)))) bodies)"

definition saved_and_read :: "complaint list \<Rightarrow> bytes \<Rightarrow> bytes \<Rightarrow> bool" where
  "saved_and_read cs out ins \<longleftrightarrow> (\<exists>log_ids body o1 i1. saved [0..<kCount] log_ids o1 i1 \<and>
     out = o1 @ frame_bytes kHistoryReq (enc_u16 (word_of_nat kCount)) \<and> ins = i1 @ frame_bytes kHistoryAck body \<and>
     length body \<le> 1024 \<and> cs = order_complaints log_ids @ check_history body)"

section \<open>The runs\<close>

context stream_socket
begin

lemma does_read_counter:
  assumes "length body \<le> 1024"
  shows "does view k (case rd_u64 (mk_reader body (bw_size body)) of (hits, r) \<Rightarrow> case rd_u8 r of (flag, r) \<Rightarrow>
      if consumed_all r then give (hits, flag \<noteq> 0) else stop (Bad_body i))
    (\<lambda>(hits, applied) out ins. out = [] \<and> ins = [] \<and> (\<exists>flag. applied = (flag \<noteq> 0) \<and> body = enc_u64 hits @ enc_u8 flag))"
proof -
  obtain hits r1 where r1: "rd_u64 (mk_reader body (bw_size body)) = (hits, r1)" by fastforce
  obtain flag r2 where r2: "rd_u8 r1 = (flag, r2)" by fastforce
  show ?thesis
  proof (cases "consumed_all r2")
    case True
    from body_is_count_and_flag[OF assms r1 r2 True] True r1 r2 show ?thesis
      by (simp, intro does_weaken[OF does_give]) auto
  qed (simp add: r1 r2 does_stop)
qed

lemma does_idem_attempt: "does view k (idem_attempt W key i) (counter_talk key)"
  unfolding idem_attempt_def enc_str_def[symmetric]
  apply (rule does_and_then[OF does_ask])
  apply (rule does_and_then[OF does_expect])
  apply (rule does_weaken[OF does_read_counter])
   apply (auto simp: counter_talk_def)
  done

lemma idem_run:
  "\<exists>r n'. run_idem W host port hi lo n = Some (r, n') \<and> so_open (view n') = so_open (view n) \<and>
    (\<forall>cs. r = Inr cs \<longrightarrow> (\<exists>k key out ins rest. k \<notin> so_open (view n) \<and> length key = 36 \<and> so_sent (view n') k = out \<and>
       so_got (view n') k = frame_bytes kSessionAck (enc_str key) @ ins @ rest \<and> two_attempts (make_session_key hi lo) cs out ins))"
  unfolding run_idem_def Let_def
  apply (rule run_client_ok)
  apply (rule does_and_then[OF does_idem_attempt])
  apply clarify
  apply (rule does_and_then[OF does_idem_attempt])
  apply clarify
  apply (rule does_weaken[OF does_give])
  apply (fastforce simp: two_attempts_def split: if_splits)
  done

lemma does_save_rows: "does view k (save_rows W is ids) (\<lambda>ids' out ins. \<exists>new. ids' = ids @ new \<and> saved is new out ins)"
proof (induction "is" arbitrary: ids)
  case Nil
  show ?case by (simp, rule does_weaken[OF does_give]) (simp add: saved_def)
next
  case (Cons i "is")
  show ?case unfolding save_rows.simps enc_str_def[symmetric]
    apply (rule does_and_then[OF does_ask])
    apply (rule does_and_then[OF does_expect])
    apply (rule does_weaken[OF Cons.IH])
    apply (clarsimp simp: saved_def)
    subgoal for body bodies
      by (rule exI[of _ "body # bodies"]) simp
    done
qed

lemma verify_run:
  "\<exists>r n'. run_verify W host port n = Some (r, n') \<and> so_open (view n') = so_open (view n) \<and>
    (\<forall>cs. r = Inr cs \<longrightarrow> (\<exists>k key out ins rest. k \<notin> so_open (view n) \<and> length key = 36 \<and> so_sent (view n') k = out \<and>
       so_got (view n') k = frame_bytes kSessionAck (enc_str key) @ ins @ rest \<and> saved_and_read cs out ins))"
  unfolding run_verify_def
  apply (rule run_client_ok)
  apply (rule does_and_then[OF does_save_rows])
  apply clarify
  apply (rule does_and_then[OF does_ask])
  apply (rule does_and_then[OF does_expect])
  apply (rule does_weaken[OF does_give])
  apply (fastforce simp: saved_and_read_def enc_u16_def)
  done

end

end
