(* ===== verification/Bench_Session.thy ===== *)
theory Bench_Session
  imports Bench_Wire Bench_Verify Service
begin

text \<open>
  The verification runs against the server: the benchmark client at one end of a network that cuts the streams as it likes,
  the message handlers of the game service at the other, and behind them a database. Each request the handlers submit is
  answered before the next frame is served.
\<close>

section \<open>The game service behind the network\<close>

text \<open>What the database answers, by the session key of the request.\<close>

record 'd tables =
  tb_save :: "bytes \<Rightarrow> bytes \<Rightarrow> 'd \<Rightarrow> u64 \<times> 'd"
  tb_rows :: "bytes \<Rightarrow> nat \<Rightarrow> 'd \<Rightarrow> log_row list"
  tb_count :: "bytes \<Rightarrow> bytes \<Rightarrow> 'd \<Rightarrow> (u64 \<times> bool) \<times> 'd"

definition tables_answer :: "'d tables \<Rightarrow> request \<Rightarrow> 'd \<Rightarrow> response \<times> 'd" where
  "tables_answer T rq d =
     (let res = response_init\<lparr>rs_kind := rq_kind rq, rs_conn_id := rq_conn_id rq\<rparr> in
      case rq_kind rq of
        Save \<Rightarrow> (case tb_save T (rq_session_key rq) (rq_payload rq) d of (i, d) \<Rightarrow> (res\<lparr>rs_log_id := i\<rparr>, d))
      | History \<Rightarrow> (res\<lparr>rs_rows := tb_rows T (rq_session_key rq) (unat (rq_limit rq)) d\<rparr>, d)
      | Counter \<Rightarrow> (case tb_count T (rq_session_key rq) (rq_request_key rq) d of
          ((hits, applied), d) \<Rightarrow> (res\<lparr>rs_hit_count := hits, rs_already_applied := applied\<rparr>, d)))"

type_synonym 'd game = "('d \<times> request list) app_context"

definition queue_api :: "('d \<times> request list) db_api" where
  "queue_api = \<lparr>db_enabled = (\<lambda>_. True), db_submit = (\<lambda>rq (d, q). (True, (d, q @ [rq])))\<rparr>"

fun message_of :: "effect \<Rightarrow> message list" where
  "message_of (Send c i b n) = [(unat c, i, b)]"
| "message_of _ = []"

fun answer_requests :: "readings \<Rightarrow> 'd tables \<Rightarrow> request list \<Rightarrow> 'd game \<Rightarrow> 'd game \<times> effect list" where
  "answer_requests rd T [] ctx = (ctx, [])"
| "answer_requests rd T (rq # rqs) ctx =
     (case tables_answer T rq (fst (ctx_db ctx)) of (res, d) \<Rightarrow>
      case process_db_response rd res (ctx\<lparr>ctx_db := (d, rqs)\<rparr>) of (ctx, fx) \<Rightarrow>
      case answer_requests rd T rqs ctx of (ctx, gx) \<Rightarrow> (ctx, fx @ gx))"

definition game_peer :: "readings \<Rightarrow> 'd tables \<Rightarrow> 'd game peer" where
  "game_peer rd T = \<lparr>
     pe_greet = (\<lambda>k ctx. case process_event (Some queue_api) rd (connected_event (now_us rd) (word_of_nat k)) ctx of
        (ctx, fx) \<Rightarrow> (concat (map message_of fx), ctx)),
     pe_serve = (\<lambda>k f ctx.
        case process_event (Some queue_api) rd (message_event (now_us rd) (word_of_nat k)
               \<lparr>fv_msg_id = fst f, fv_body = snd f, fv_size = bw_size (snd f)\<rparr>) ctx of
        (ctx, fx) \<Rightarrow> case answer_requests rd T (snd (ctx_db ctx)) ctx of
        (ctx, gx) \<Rightarrow> (concat (map message_of (fx @ gx)), ctx))\<rparr>"

text \<open>The game has a session for socket \<open>k\<close>, the database is in state \<open>d\<close> and nothing waits for it.\<close>

definition holds_session :: "nat \<Rightarrow> bytes \<Rightarrow> 'd \<Rightarrow> 'd game \<Rightarrow> bool" where
  "holds_session k key d ctx \<longleftrightarrow> k < 2 ^ 64 \<and> st_wf (ctx_sessions ctx) \<and> ctx_db ctx = (d, []) \<and>
     (\<exists>s. st_find (word_of_nat k) (ctx_sessions ctx) = Some s \<and> ss_session_key s = key)"

lemma game_greets:
  assumes "k < 2 ^ 64" "st_wf (ctx_sessions ctx)" "ctx_db ctx = (d, [])" "st_find (word_of_nat k) (ctx_sessions ctx) = None"
    and key: "key = make_session_key (rnd_hi rd) (rnd_lo rd)"
  shows "\<exists>ctx'. pe_greet (game_peer rd T) k ctx = ([(k, kSessionAck, enc_str key)], ctx') \<and> holds_session k key d ctx'"
proof -
  have k: "unat (word_of_nat k :: u64) = k" using assms(1) by (simp add: unat_of_nat take_bit_nat_eq_self_iff)
  let ?w = "word_of_nat k :: u64"
  obtain s t where st: "st_add (Some ?w) rd (ctx_sessions ctx) = (Some s, t)" "ss_conn s = ?w" "ss_session_key s = key"
    using assms(4) by (auto simp: st_add_def st_find_def Let_def key)
  have "st_wf t" "st_find ?w t = Some s"
    using st_wf_add[OF assms(2), of "Some ?w" rd] st_find_add[of ?w ?w rd "ctx_sessions ctx"] st(1) by simp_all
  with st assms(1,3) k show ?thesis
    by (auto simp: game_peer_def process_event_def connected_event_def on_connected_def send_body_def holds_session_def
        codec_simps)
qed

text \<open>A request that reaches the database is answered with what the tables say, on the same socket.\<close>

lemma game_answers:
  assumes "holds_session k key d ctx" and "length body \<le> 640"
    and handled: "\<And>ev s c. ev_ok ev \<Longrightarrow> ev_body ev = body \<Longrightarrow> ev_msg_id ev = mid \<Longrightarrow> ss_conn_id s = word_of_nat k \<Longrightarrow>
      ss_conn s = word_of_nat k \<Longrightarrow> ss_session_key s = key \<Longrightarrow> ctx_db c = (d, []) \<Longrightarrow> ev_kind ev = Message \<Longrightarrow> \<not> ev_oversized ev \<Longrightarrow>
      st_find (ev_conn_id ev) (ctx_sessions c) = Some s \<Longrightarrow>
      \<exists>rq c'. on_message (Some queue_api) rd ev c = (c', []) \<and> ctx_db c' = (d, [rq]) \<and> rq_conn_id rq = word_of_nat k \<and>
        tables_answer T rq d = (res\<lparr>rs_conn_id := word_of_nat k\<rparr>, d') \<and>
        ctx_sessions c' = st_put (s\<lparr>ss_message_count := ss_message_count s + 1\<rparr>) (ctx_sessions c)"
    and "rs_status res = Ok"
  shows "\<exists>ctx'. pe_serve (game_peer rd T) k (mid, body) ctx =
      ([(k, response_msg_id (rs_kind res), response_body res)], ctx') \<and> holds_session k key d' ctx'"
proof -
  from assms(1) obtain s where s: "st_find (word_of_nat k) (ctx_sessions ctx) = Some s" "ss_session_key s = key"
    and wf: "st_wf (ctx_sessions ctx)" "ctx_db ctx = (d, [])" "k < 2 ^ 64" by (auto simp: holds_session_def)
  have k: "unat (word_of_nat k :: u64) = k" using wf(3) by (simp add: unat_of_nat take_bit_nat_eq_self_iff)
  have sz: "unat (bw_size body) = length body" using assms(2) by (simp add: bw_size_def unat_of_nat take_bit_nat_eq_self_iff)
  have "unat (ucast (bw_size body) :: u16) = length body"
    using assms(2) sz by (simp add: unsigned_ucast_eq take_bit_nat_eq_self_iff)
  note sz = sz this
  let ?ev = "message_event (now_us rd) (word_of_nat k) \<lparr>fv_msg_id = mid, fv_body = body, fv_size = bw_size body\<rparr>"
  have fit: "\<not> kMaxEventBody < bw_size body" using assms(2) by (simp add: kMaxEventBody_def word_less_nat_alt sz)
  have ev: "ev_ok ?ev" "ev_body ?ev = body" "ev_msg_id ?ev = mid" "ev_kind ?ev = Message" "\<not> ev_oversized ?ev"
    "st_find (ev_conn_id ?ev) (ctx_sessions ctx) = Some s"
    using fit assms(2) s(1)
    by (simp_all add: message_event_def ev_ok_def Let_def sz)
  note ids = st_find_ids[OF wf(1) s(1)]
  from handled[OF ev(1,2,3) _ _ s(2) wf(2) ev(4,5,6)] ids obtain rq c' where
    m: "on_message (Some queue_api) rd ?ev ctx = (c', [])" "ctx_db c' = (d, [rq])"
      "tables_answer T rq d = (res\<lparr>rs_conn_id := word_of_nat k\<rparr>, d')"
      "ctx_sessions c' = st_put (s\<lparr>ss_message_count := ss_message_count s + 1\<rparr>) (ctx_sessions ctx)" by blast
  let ?s = "s\<lparr>ss_message_count := ss_message_count s + 1\<rparr>"
  have t: "st_wf (ctx_sessions c')" "st_find (word_of_nat k) (ctx_sessions c') = Some ?s"
    using m(4) ids st_wf_put[OF wf(1) s(1)] by (simp_all add: st_find_put)
  define c2 where "c2 = fst (process_db_response rd (res\<lparr>rs_conn_id := word_of_nat k\<rparr>) (c'\<lparr>ctx_db := (d', [])\<rparr>))"
  have rb: "response_body (res\<lparr>rs_conn_id := word_of_nat k\<rparr>) = response_body res"
    by (cases "rs_kind res") (simp_all add: response_body_def)
  have p: "process_db_response rd (res\<lparr>rs_conn_id := word_of_nat k\<rparr>) (c'\<lparr>ctx_db := (d', [])\<rparr>) =
      (c2, send_body (word_of_nat k) (response_msg_id (rs_kind res)) (response_body res))"
    using t(2) ids assms(4) by (simp add: c2_def process_db_response_def Let_def rb)
  have "ctx_sessions c2 = ctx_sessions c'" "ctx_db c2 = (d', [])"
    using t(2) assms(4) by (simp_all add: c2_def process_db_response_def Let_def)
  with t wf(3) s(2) have "holds_session k key d' c2" by (simp add: holds_session_def)
  moreover have "process_event (Some queue_api) rd ?ev ctx = (c', [])" using ev(4) m(1) by (simp add: process_event_def)
  ultimately show ?thesis using m(2,3) p k
    by (intro exI[of _ c2]) (simp add: game_peer_def send_body_def)
qed

lemma counter_served:
  assumes "holds_session k key d ctx" "length rkey = 36" "tb_count T key rkey d = ((hits, applied), d')"
  shows "\<exists>ctx'. pe_serve (game_peer rd T) k (kCounterReq, enc_str rkey) ctx =
      ([(k, kCounterAck, enc_u64 hits @ enc_u8 (if applied then 1 else 0))], ctx') \<and> holds_session k key d' ctx'"
proof -
  let ?res = "response_init\<lparr>rs_kind := Counter, rs_hit_count := hits, rs_already_applied := applied\<rparr>"
  have fits: "str_fits rkey" using assms(2) by (simp add: str_fits_def)
  have "\<exists>ctx'. pe_serve (game_peer rd T) k (kCounterReq, enc_str rkey) ctx =
      ([(k, response_msg_id (rs_kind ?res), response_body ?res)], ctx') \<and> holds_session k key d' ctx'"
  proof (rule game_answers[OF assms(1)], goal_cases)
    case (2 ev s c)
    note rd = rd_body[OF 2(1) fits 2(2)]
    show ?case
      using 2 rd assms(2,3)
      by (simp add: on_message_def handle_counter_def case_prod_beta submit_db_def queue_api_def msg_ids Let_def
          tables_answer_def request_init_def response_init_def)
  qed (simp_all add: width_simps assms(2) response_init_def)
  then show ?thesis by (simp add: response_body_def response_init_def codec_simps)
qed

lemma save_served:
  assumes "holds_session k key d ctx" "length text \<le> 512" "tb_save T key text d = (i, d')"
  shows "\<exists>ctx'. pe_serve (game_peer rd T) k (kSaveReq, enc_str text) ctx = ([(k, kSaveAck, enc_u64 i)], ctx') \<and>
    holds_session k key d' ctx'"
proof -
  let ?res = "response_init\<lparr>rs_kind := Save, rs_log_id := i\<rparr>"
  have fits: "str_fits text" using assms(2) by (simp add: str_fits_def)
  have "\<exists>ctx'. pe_serve (game_peer rd T) k (kSaveReq, enc_str text) ctx =
      ([(k, response_msg_id (rs_kind ?res), response_body ?res)], ctx') \<and> holds_session k key d' ctx'"
  proof (rule game_answers[OF assms(1)], goal_cases)
    case (2 ev s c)
    note rd = rd_body[OF 2(1) fits 2(2)]
    show ?case
      using 2 rd assms(2,3)
      by (simp add: on_message_def handle_save_def case_prod_beta submit_db_def queue_api_def msg_ids Let_def
          tables_answer_def request_init_def response_init_def kMaxPayloadBytes_def)
  next
    case 1
    then show ?case using assms(2) by (simp add: width_simps)
  qed (simp_all add: response_init_def)
  then show ?thesis by (simp add: response_body_def response_init_def codec_simps)
qed

lemma history_served:
  assumes "holds_session k key d ctx" "\<not> most < kMinHistoryLimit" "\<not> kMaxHistoryLimit < most"
  shows "\<exists>ctx'. pe_serve (game_peer rd T) k (kHistoryReq, enc_u16 most) ctx =
      ([(k, kHistoryAck, history_answer (tb_rows T key (unat most) d))], ctx') \<and> holds_session k key d ctx'"
proof -
  let ?res = "response_init\<lparr>rs_kind := History, rs_rows := tb_rows T key (unat most) d\<rparr>"
  have "\<exists>ctx'. pe_serve (game_peer rd T) k (kHistoryReq, enc_u16 most) ctx =
      ([(k, response_msg_id (rs_kind ?res), response_body ?res)], ctx') \<and> holds_session k key d ctx'"
  proof (rule game_answers[OF assms(1)], goal_cases)
    case (2 ev s c)
    note w = ev_reader[OF 2(1)]
    have v: "fst (rd_u16 (mk_reader (ev_body ev) (ucast (ev_size ev)))) = most"
      using u16.dec_value[OF w(1) rd_ok_mk, of most] w(2) 2(2) by (simp add: any_def)
    have a: "consumed_all (snd (rd_u16 (mk_reader (ev_body ev) (ucast (ev_size ev)))))"
      using u16.consumed_all_dec[OF w(1)] w(2) 2(2) by (auto simp: any_def)
    show ?case
      using 2 v a assms(2,3)
      by (simp add: on_message_def handle_history_def case_prod_beta submit_db_def queue_api_def msg_ids Let_def
          tables_answer_def request_init_def response_init_def)
  qed (simp_all add: response_init_def width_simps)
  then show ?thesis by (simp add: history_answer_def response_init_def)
qed

section \<open>The runs pass\<close>

lemma enter_session:
  "\<exists>s ctx. open_session (wire_api (game_peer rd T)) host port i (client_new, wire_new (ctx_init (d, [])) cuts) =
      Some (Inr (), s) \<and> due 0 ctx [] s \<and> holds_session 0 (make_session_key (rnd_hi rd) (rnd_lo rd)) d ctx"
proof -
  let ?key = "make_session_key (rnd_hi rd) (rnd_lo rd)" let ?n = "wire_new (ctx_init (d, [])) cuts"
  have "st_find (word_of_nat 0) (ctx_sessions (ctx_init (d, []))) = None" "ctx_db (ctx_init (d, [])) = (d, [])"
    "st_wf (ctx_sessions (ctx_init (d, [])))" by (simp_all add: ctx_init_def st_find_def)
  then obtain ctx where g: "pe_greet (game_peer rd T) 0 (wi_peer ?n) = ([(0, kSessionAck, enc_str ?key)], ctx)"
    "holds_session 0 ?key d ctx" using game_greets[of 0 "ctx_init (d, [])" d ?key rd T] by (auto simp: wire_new_def)
  have "\<exists>s. open_session (wire_api (game_peer rd T)) host port i (client_new, ?n) = Some (Inr (), s) \<and> due 0 ctx [] s \<and>
      cl_key (fst s) = ?key"
    by (rule session_wire[OF _ _ g(1)]) (simp_all add: wire_new_def)
  with g(2) show ?thesis by blast
qed

lemma run_client_passes: "m (client_new, n) = Some (Inr x, s) \<Longrightarrow> \<exists>n'. run_client W m n = Some (Inr x, n')"
  by (simp add: run_client_def)

text \<open>One request and its answer.\<close>

lemma dialogue:
  assumes "due k ctx [] s" "pe_serve P k (mid, w) ctx = ([(k, want, b)], ctx')" "length w \<le> 1024" "length b \<le> 1024"
  shows "\<exists>s1 s2. ask (wire_api P) mid w s = Some (Inr (), s1) \<and> expect (wire_api P) i want s1 = Some (Inr b, s2) \<and> due k ctx' [] s2"
proof -
  from ask_wire[OF assms(1,3,2)] obtain s1 where s1: "ask (wire_api P) mid w s = Some (Inr (), s1)"
    "due k ctx' (frame_bytes want b @ []) s1" by auto
  from expect_wire[OF s1(2) assms(4)] s1(1) show ?thesis by blast
qed

lemma counter_body:
  "\<exists>r1 r2. rd_u64 (mk_reader (enc_u64 v @ enc_u8 f) (bw_size (enc_u64 v @ enc_u8 f))) = (v, r1) \<and> rd_u8 r1 = (f, r2) \<and> consumed_all r2"
proof -
  let ?b = "enc_u64 v @ enc_u8 f" let ?r = "mk_reader ?b (bw_size ?b)"
  have "length ?b \<le> 1024" by (simp add: width_simps)
  note rd = body_reader[OF this]
  have 1: "fst (rd_u64 ?r) = v" "rd_ok (snd (rd_u64 ?r))" "unread (snd (rd_u64 ?r)) = enc_u8 f"
    using u64.dec_enc[OF rd(1) rd_ok_mk, of v "enc_u8 f"] rd(2) by (simp_all add: any_def)
  have wf: "reader_wf (snd (rd_u64 ?r))" by (rule u64.dec_wf[OF rd(1)])
  have "fst (rd_u8 (snd (rd_u64 ?r))) = f" using u8.dec_value[OF wf 1(2), of f] 1(3) by (simp add: any_def)
  moreover have "consumed_all (snd (rd_u8 (snd (rd_u64 ?r))))" using u8.consumed_all_dec[OF wf] 1 by (auto simp: any_def)
  ultimately show ?thesis using 1(1) by (metis prod.collapse)
qed

lemma attempt_passes:
  assumes "due 0 ctx [] s" "holds_session 0 key d ctx" "length rkey = 36" "tb_count T key rkey d = ((hits, applied), d')"
  shows "\<exists>s' ctx'. idem_attempt (wire_api (game_peer rd T)) rkey i s = Some (Inr (hits, applied), s') \<and> due 0 ctx' [] s' \<and>
    holds_session 0 key d' ctx'"
proof -
  let ?b = "enc_u64 hits @ enc_u8 (if applied then 1 else 0)"
  from counter_served[OF assms(2-4), of rd] obtain ctx' where c:
    "pe_serve (game_peer rd T) 0 (kCounterReq, enc_str rkey) ctx = ([(0, kCounterAck, ?b)], ctx')" "holds_session 0 key d' ctx'" by blast
  from dialogue[OF assms(1) c(1), of i] assms(3) obtain s1 s2 where
    "ask (wire_api (game_peer rd T)) kCounterReq (enc_str rkey) s = Some (Inr (), s1)"
    "expect (wire_api (game_peer rd T)) i kCounterAck s1 = Some (Inr ?b, s2)" "due 0 ctx' [] s2" by (auto simp: width_simps)
  moreover obtain r1 r2 where "rd_u64 (mk_reader ?b (bw_size ?b)) = (hits, r1)" "rd_u8 r1 = (if applied then 1 else 0, r2)"
    "consumed_all r2" using counter_body by blast
  ultimately show ?thesis using c(2)
    by (intro exI[of _ s2] exI[of _ ctx']) (simp add: idem_attempt_def enc_str_def[symmetric] give_def)
qed

lemma server_passes_idem:
  assumes "key = make_session_key (rnd_hi rd) (rnd_lo rd)" "rkey = make_session_key hi lo"
    and "tb_count T key rkey d = ((hits, False), d1)" "tb_count T key rkey d1 = ((hits, True), d2)"
  shows "\<exists>n'. run_idem (wire_api (game_peer rd T)) host port hi lo (wire_new (ctx_init (d, [])) cuts) = Some (Inr [], n')"
proof -
  let ?W = "wire_api (game_peer rd T)" let ?n = "wire_new (ctx_init (d, [])) cuts"
  obtain s ctx where s: "open_session ?W host port 0 (client_new, ?n) = Some (Inr (), s)" "due 0 ctx [] s"
    "holds_session 0 key d ctx" using enter_session[where rd = rd and T = T and host = host and port = port and i = 0
      and d = d and cuts = cuts] unfolding assms(1) by blast
  have len: "length rkey = 36" by (simp add: assms(2))
  from attempt_passes[OF s(2,3) len assms(3), of rd 0] obtain s1 c1 where
    a: "idem_attempt ?W rkey 0 s = Some (Inr (hits, False), s1)" "due 0 c1 [] s1" "holds_session 0 key d1 c1" by blast
  from attempt_passes[OF a(2,3) len assms(4), of rd 1] obtain s2 where
    b: "idem_attempt ?W rkey 1 s1 = Some (Inr (hits, True), s2)" by blast
  show ?thesis unfolding run_idem_def Let_def assms(2)[symmetric]
    by (rule run_client_passes[where s = s2]) (use b in \<open>simp add: s(1) a(1) give_def\<close>)
qed

text \<open>The rows the run saves, one after the other.\<close>

fun tb_saves :: "'d tables \<Rightarrow> bytes \<Rightarrow> nat list \<Rightarrow> 'd \<Rightarrow> u64 list \<times> 'd" where
  "tb_saves T key [] d = ([], d)"
| "tb_saves T key (i # is) d =
     (case tb_save T key (row_text (int i)) d of (log_id, d) \<Rightarrow>
      case tb_saves T key is d of (ids, d) \<Rightarrow> (log_id # ids, d))"

lemma row_text_short: "length (row_text (int i)) \<le> 512" if "i < 10"
  using that by (simp add: row_text_def dec_int_def dec.simps)

lemma save_rows_pass:
  assumes "due 0 ctx [] s" "holds_session 0 key d ctx" "\<forall>i\<in>set is. i < 10" "tb_saves T key is d = (new, d')"
  shows "\<exists>s' ctx'. save_rows (wire_api (game_peer rd T)) is ids s = Some (Inr (ids @ new), s') \<and> due 0 ctx' [] s' \<and>
    holds_session 0 key d' ctx'"
  using assms
proof (induction "is" arbitrary: ctx s d ids new)
  case Nil
  then show ?case by (auto simp: give_def)
next
  case (Cons i "is")
  obtain log_id d1 where sv: "tb_save T key (row_text (int i)) d = (log_id, d1)" by fastforce
  obtain new' where new: "tb_saves T key is d1 = (new', d')" "new = log_id # new'"
    using Cons.prems(4) sv by (auto split: prod.splits)
  have short: "length (row_text (int i)) \<le> 512" using Cons.prems(3) row_text_short by simp
  from save_served[OF Cons.prems(2) short sv, of rd] obtain c1 where c:
    "pe_serve (game_peer rd T) 0 (kSaveReq, enc_str (row_text (int i))) ctx = ([(0, kSaveAck, enc_u64 log_id)], c1)"
    "holds_session 0 key d1 c1" by blast
  from dialogue[OF Cons.prems(1) c(1), of i] short obtain s1 s2 where
    t: "ask (wire_api (game_peer rd T)) kSaveReq (enc_str (row_text (int i))) s = Some (Inr (), s1)"
    "expect (wire_api (game_peer rd T)) i kSaveAck s1 = Some (Inr (enc_u64 log_id), s2)" "due 0 c1 [] s2"
    by (auto simp: width_simps)
  have len: "length (enc_u64 log_id) \<le> 1024" by (simp add: width_simps)
  have "fst (rd_u64 (mk_reader (enc_u64 log_id) (bw_size (enc_u64 log_id)))) = log_id"
    using u64.dec_value[OF body_reader(1)[OF len] rd_ok_mk, of log_id] body_reader(2)[OF len] by (simp add: any_def)
  then have "save_rows (wire_api (game_peer rd T)) (i # is) ids s = save_rows (wire_api (game_peer rd T)) is (ids @ [log_id]) s2"
    using t(1,2) by (simp add: enc_str_def[symmetric])
  moreover from Cons.IH[OF t(3) c(2) _ new(1), of "ids @ [log_id]"] Cons.prems(3) obtain s' ctx' where
    "save_rows (wire_api (game_peer rd T)) is (ids @ [log_id]) s2 = Some (Inr ((ids @ [log_id]) @ new'), s')"
    "due 0 ctx' [] s'" "holds_session 0 key d' ctx'" by auto
  ultimately show ?case using new(2) by auto
qed

lemma order_complaints_sorted: "sorted_wrt (<) ids \<Longrightarrow> order_complaints ids = []"
  using sorted_wrt_nth_less[of "(<)" ids "i - 1" i for i] by (force simp: order_complaints_def not_le[symmetric])

lemma check_history_complete:
  assumes "map lr_payload rows = map row_text [4, 3, 2, 1, 0]" "\<forall>row\<in>set rows. lr_log_id row \<noteq> 0 \<and> lr_created_at_ms row \<noteq> 0"
  shows "length (history_answer rows) \<le> 1024" "check_history (history_answer rows) = []"
proof -
  let ?b = "history_answer rows" let ?r = "mk_reader ?b (bw_size ?b)"
  have five: "length rows = 5" using arg_cong[OF assms(1), of length] by simp
  then obtain a b c d e where rows: "rows = [a, b, c, d, e]" by (auto simp: numeral_eq_Suc length_Suc_conv)
  have fits: "\<forall>row\<in>set rows. str_fits (lr_payload row)" and short: "\<forall>row\<in>set rows. length (lr_payload row) \<le> 5"
    using assms(1) by (auto simp: rows str_fits_def row_text_def dec_int_def dec.simps)
  have body: "?b = enc_u16 5 @ concat (map enc_row rows)"
    using five by (simp add: history_answer_def history_body response_init_def)
  have "length (concat (map enc_row rows)) \<le> length rows * 23"
    using short by (simp add: rows enc_row_def width_simps)
  then show len: "length ?b \<le> 1024" using five by (simp add: body width_simps)
  note rd = body_reader[OF len]
  have h: "fst (rd_u16 ?r) = 5" "rd_ok (snd (rd_u16 ?r))" "unread (snd (rd_u16 ?r)) = concat (map enc_row rows)"
    using u16.dec_enc[OF rd(1) rd_ok_mk, of 5 "concat (map enc_row rows)"] rd(2) body by (simp_all add: any_def)
  have wf: "reader_wf (snd (rd_u16 ?r))" by (rule u16.dec_wf[OF rd(1)])
  from rd_rows_concat[OF wf h(2) fits, of "[]"] h(3) five have q: "fst (rd_rows 5 (snd (rd_u16 ?r))) = rows"
    "consumed_all (snd (rd_rows 5 (snd (rd_u16 ?r))))" by (simp_all add: consumed_all_iff)
  have "concat (map2 row_complaints [0..<5] rows) = []"
    using assms by (simp add: rows row_complaints_def kCount_def upt_rec)
  with q show "check_history ?b = []"
    by (simp add: check_history_def case_prod_beta h(1) check_rows_eq kCount_def)
qed

lemma server_passes_verify:
  assumes "key = make_session_key (rnd_hi rd) (rnd_lo rd)" "tb_saves T key [0..<kCount] d = (ids, d')" "sorted_wrt (<) ids"
    and "map lr_payload (tb_rows T key kCount d') = map row_text [4, 3, 2, 1, 0]"
    and "\<forall>row\<in>set (tb_rows T key kCount d'). lr_log_id row \<noteq> 0 \<and> lr_created_at_ms row \<noteq> 0"
  shows "\<exists>n'. run_verify (wire_api (game_peer rd T)) host port (wire_new (ctx_init (d, [])) cuts) = Some (Inr [], n')"
proof -
  let ?W = "wire_api (game_peer rd T)" let ?n = "wire_new (ctx_init (d, [])) cuts"
  obtain s ctx where s: "open_session ?W host port 0 (client_new, ?n) = Some (Inr (), s)" "due 0 ctx [] s"
    "holds_session 0 key d ctx"
    using enter_session[where rd = rd and T = T and host = host and port = port and i = 0
      and d = d and cuts = cuts] unfolding assms(1) by blast
  have "\<forall>i\<in>set [0..<kCount]. i < 10" by (simp add: kCount_def)
  from save_rows_pass[OF s(2,3) this assms(2), of rd "[]"] obtain s1 c1 where
    a: "save_rows ?W [0..<kCount] [] s = Some (Inr ids, s1)" "due 0 c1 [] s1" "holds_session 0 key d' c1" by auto
  note rows = check_history_complete[OF assms(4,5)]
  have "unat (word_of_nat kCount :: u16) = kCount" "\<not> (word_of_nat kCount :: u16) < kMinHistoryLimit"
    "\<not> kMaxHistoryLimit < (word_of_nat kCount :: u16)"
    by (simp_all add: kCount_def kMinHistoryLimit_def kMaxHistoryLimit_def)
  then obtain c2 where c: "pe_serve (game_peer rd T) 0 (kHistoryReq, enc_u16 (word_of_nat kCount)) c1 =
      ([(0, kHistoryAck, history_answer (tb_rows T key kCount d'))], c2)"
    using history_served[OF a(3), of "word_of_nat kCount" rd T] by auto
  from dialogue[OF a(2) c _ rows(1), of kCount] obtain s2 s3 where
    t: "ask ?W kHistoryReq (enc_u16 (word_of_nat kCount)) s1 = Some (Inr (), s2)"
    "expect ?W kCount kHistoryAck s2 = Some (Inr (history_answer (tb_rows T key kCount d')), s3)"
    by (auto simp: width_simps)
  show ?thesis unfolding run_verify_def
    by (rule run_client_passes[where s = s3])
      (simp add: s(1) a(1) t enc_u16_def[symmetric] give_def order_complaints_sorted assms(3) rows(2))
qed

section \<open>Properties\<close>

lemma two_attempts_pass:
  assumes "two_attempts key [] out ins"
  shows "\<exists>hits flag. flag \<noteq> 0 \<and> out = concat (replicate 2 (frame_bytes kCounterReq (enc_str key))) \<and>
    ins = frame_bytes kCounterAck (enc_u64 hits @ enc_u8 0) @ frame_bytes kCounterAck (enc_u64 hits @ enc_u8 flag)"
  using assms by (auto simp: two_attempts_def counter_talk_def numeral_2_eq_2)

lemma saved_and_read_pass:
  assumes "saved_and_read [] out ins"
  shows "\<exists>acks log_ids rows.
    out = concat (map (\<lambda>i. frame_bytes kSaveReq (enc_str (row_text (int i)))) [0..<5]) @ frame_bytes kHistoryReq (enc_u16 5) \<and>
    ins = concat (map (frame_bytes kSaveAck) acks) @ frame_bytes kHistoryAck (history_answer rows) \<and> length acks = 5 \<and>
    log_ids = map (\<lambda>b. fst (rd_u64 (mk_reader b (bw_size b)))) acks \<and> sorted_wrt (<) log_ids \<and>
    map lr_payload rows = map row_text [4, 3, 2, 1, 0] \<and> (\<forall>row\<in>set rows. lr_log_id row \<noteq> 0 \<and> lr_created_at_ms row \<noteq> 0)"
proof -
  from assms obtain log_ids body o1 i1 where s: "saved [0..<kCount] log_ids o1 i1"
    "out = o1 @ frame_bytes kHistoryReq (enc_u16 (word_of_nat kCount))" "ins = i1 @ frame_bytes kHistoryAck body"
    "length body \<le> 1024" "order_complaints log_ids = []" "check_history body = []"
    unfolding saved_and_read_def append_is_Nil_conv eq_commute[of "[]"] by (elim exE conjE) (rule that)
  from check_history_sound[OF s(4,6)] obtain rows where rows: "body = history_answer rows"
    "map lr_payload rows = map row_text [4, 3, 2, 1, 0]" "\<forall>row\<in>set rows. lr_log_id row \<noteq> 0 \<and> lr_created_at_ms row \<noteq> 0"
    by (elim exE conjE) (rule that)
  from s(1) obtain acks where acks: "length acks = 5" "i1 = concat (map (frame_bytes kSaveAck) acks)"
    "log_ids = map (\<lambda>b. fst (rd_u64 (mk_reader b (bw_size b)))) acks"
    "o1 = concat (map (\<lambda>i. frame_bytes kSaveReq (enc_str (row_text (int i)))) [0..<5])"
    unfolding saved_def kCount_def by (elim exE conjE) (rule that, simp_all only: length_upt diff_zero)
  show ?thesis
    by (rule exI[of _ acks], rule exI[of _ log_ids], rule exI[of _ rows], intro conjI)
      (use s acks rows order_complaints_none[OF s(5)] in \<open>simp_all only: kCount_def of_nat_numeral\<close>)
qed

lemma exit_code_0: "exit_code r = 0 \<longleftrightarrow> r = Inr []"
  by (auto simp: exit_code_def split: sum.splits list.splits)

text \<open>
  C26: \<^verbatim>\<open>run_idem\<close> returns whatever the server sends, with its socket closed; and it returns 0 only if the server applied the
  request once. Then two counter requests with the same key have gone out whole, the first answer says the request is new, the
  second that it had been applied, and both give the same count; nothing else came in between.
\<close>

theorem idem_run_passes_only_if_applied_once:
  assumes "stream_socket W view"
  shows "\<exists>r n'. run_idem W host port hi lo n = Some (r, n') \<and> so_open (view n') = so_open (view n) \<and>
    (exit_code r = 0 \<longrightarrow> (\<exists>k key hits flag rest. k \<notin> so_open (view n) \<and> length key = 36 \<and> flag \<noteq> 0 \<and>
       so_sent (view n') k = concat (replicate 2 (frame_bytes kCounterReq (enc_str (make_session_key hi lo)))) \<and>
       so_got (view n') k = frame_bytes kSessionAck (enc_str key) @ frame_bytes kCounterAck (enc_u64 hits @ enc_u8 0) @
         frame_bytes kCounterAck (enc_u64 hits @ enc_u8 flag) @ rest))"
proof -
  obtain r n' where r: "run_idem W host port hi lo n = Some (r, n')" "so_open (view n') = so_open (view n)"
    and said: "\<forall>cs. r = Inr cs \<longrightarrow> (\<exists>k key out ins rest. k \<notin> so_open (view n) \<and> length key = 36 \<and> so_sent (view n') k = out \<and>
       so_got (view n') k = frame_bytes kSessionAck (enc_str key) @ ins @ rest \<and> two_attempts (make_session_key hi lo) cs out ins)"
    using stream_socket.idem_run[OF assms, of host port hi lo n] by (elim exE conjE) (rule that)
  show ?thesis
  proof (rule exI[of _ r], rule exI[of _ n'], intro conjI impI r)
    assume "exit_code r = 0"
    then have "r = Inr []" by (simp add: exit_code_0)
    with said obtain k key out ins rest where k: "k \<notin> so_open (view n)" "length key = 36" "so_sent (view n') k = out"
      "so_got (view n') k = frame_bytes kSessionAck (enc_str key) @ ins @ rest" "two_attempts (make_session_key hi lo) [] out ins"
      by (elim allE impE exE conjE) (assumption, rule that)
    from two_attempts_pass[OF k(5)] obtain hits flag where t: "flag \<noteq> 0"
      "out = concat (replicate 2 (frame_bytes kCounterReq (enc_str (make_session_key hi lo))))"
      "ins = frame_bytes kCounterAck (enc_u64 hits @ enc_u8 0) @ frame_bytes kCounterAck (enc_u64 hits @ enc_u8 flag)"
      by (elim exE conjE) (rule that)
    show "\<exists>k key hits flag rest. k \<notin> so_open (view n) \<and> length key = 36 \<and> flag \<noteq> 0 \<and>
       so_sent (view n') k = concat (replicate 2 (frame_bytes kCounterReq (enc_str (make_session_key hi lo)))) \<and>
       so_got (view n') k = frame_bytes kSessionAck (enc_str key) @ frame_bytes kCounterAck (enc_u64 hits @ enc_u8 0) @
         frame_bytes kCounterAck (enc_u64 hits @ enc_u8 flag) @ rest"
      by (rule exI[of _ k], rule exI[of _ key], rule exI[of _ hits], rule exI[of _ flag], rule exI[of _ rest])
        (simp only: k t append_assoc simp_thms)
  qed
qed

text \<open>
  C39: \<^verbatim>\<open>run_verify\<close> returns whatever the server sends, with its socket closed; and it returns 0 only if five rows were saved
  under ascending numbers and the answer to the request for the history is the one the handlers build for exactly these
  rows, the latest first, each with a number and a time, in one frame.
\<close>

theorem verify_run_passes_only_if_rows_come_back:
  assumes "stream_socket W view"
  shows "\<exists>r n'. run_verify W host port n = Some (r, n') \<and> so_open (view n') = so_open (view n) \<and>
    (exit_code r = 0 \<longrightarrow> (\<exists>k key acks log_ids rows rest. k \<notin> so_open (view n) \<and> length key = 36 \<and>
       so_sent (view n') k = concat (map (\<lambda>i. frame_bytes kSaveReq (enc_str (row_text (int i)))) [0..<5]) @
         frame_bytes kHistoryReq (enc_u16 5) \<and>
       so_got (view n') k = frame_bytes kSessionAck (enc_str key) @ concat (map (frame_bytes kSaveAck) acks) @
         frame_bytes kHistoryAck (history_answer rows) @ rest \<and>
       length acks = 5 \<and> log_ids = map (\<lambda>b. fst (rd_u64 (mk_reader b (bw_size b)))) acks \<and> sorted_wrt (<) log_ids \<and>
       map lr_payload rows = map row_text [4, 3, 2, 1, 0] \<and> (\<forall>row\<in>set rows. lr_log_id row \<noteq> 0 \<and> lr_created_at_ms row \<noteq> 0)))"
proof -
  obtain r n' where r: "run_verify W host port n = Some (r, n')" "so_open (view n') = so_open (view n)"
    and said: "\<forall>cs. r = Inr cs \<longrightarrow> (\<exists>k key out ins rest. k \<notin> so_open (view n) \<and> length key = 36 \<and> so_sent (view n') k = out \<and>
       so_got (view n') k = frame_bytes kSessionAck (enc_str key) @ ins @ rest \<and> saved_and_read cs out ins)"
    using stream_socket.verify_run[OF assms, of host port n] by (elim exE conjE) (rule that)
  show ?thesis
  proof (rule exI[of _ r], rule exI[of _ n'], intro conjI impI r)
    assume "exit_code r = 0"
    then have "r = Inr []" by (simp add: exit_code_0)
    with said obtain k key out ins rest where k: "k \<notin> so_open (view n)" "length key = 36" "so_sent (view n') k = out"
      "so_got (view n') k = frame_bytes kSessionAck (enc_str key) @ ins @ rest" "saved_and_read [] out ins"
      by (elim allE impE exE conjE) (assumption, rule that)
    from saved_and_read_pass[OF k(5)] obtain acks log_ids rows where t:
      "out = concat (map (\<lambda>i. frame_bytes kSaveReq (enc_str (row_text (int i)))) [0..<5]) @ frame_bytes kHistoryReq (enc_u16 5)"
      "ins = concat (map (frame_bytes kSaveAck) acks) @ frame_bytes kHistoryAck (history_answer rows)" "length acks = 5"
      "log_ids = map (\<lambda>b. fst (rd_u64 (mk_reader b (bw_size b)))) acks" "sorted_wrt (<) log_ids"
      "map lr_payload rows = map row_text [4, 3, 2, 1, 0]" "\<forall>row\<in>set rows. lr_log_id row \<noteq> 0 \<and> lr_created_at_ms row \<noteq> 0"
      by (elim exE conjE) (rule that)
    show "\<exists>k key acks log_ids rows rest. k \<notin> so_open (view n) \<and> length key = 36 \<and>
       so_sent (view n') k = concat (map (\<lambda>i. frame_bytes kSaveReq (enc_str (row_text (int i)))) [0..<5]) @
         frame_bytes kHistoryReq (enc_u16 5) \<and>
       so_got (view n') k = frame_bytes kSessionAck (enc_str key) @ concat (map (frame_bytes kSaveAck) acks) @
         frame_bytes kHistoryAck (history_answer rows) @ rest \<and>
       length acks = 5 \<and> log_ids = map (\<lambda>b. fst (rd_u64 (mk_reader b (bw_size b)))) acks \<and> sorted_wrt (<) log_ids \<and>
       map lr_payload rows = map row_text [4, 3, 2, 1, 0] \<and> (\<forall>row\<in>set rows. lr_log_id row \<noteq> 0 \<and> lr_created_at_ms row \<noteq> 0)"
      by (rule exI[of _ k], rule exI[of _ key], rule exI[of _ acks], rule exI[of _ log_ids], rule exI[of _ rows], rule exI[of _ rest])
        (use k t in \<open>simp only: append_assoc simp_thms\<close>)
  qed
qed


text \<open>A database for one session: the rows, the latest first, and the number of requests counted.\<close>

definition demo_tables :: "(log_row list \<times> bool) tables" where
  "demo_tables = \<lparr>
     tb_save = (\<lambda>key text (rows, c). (word_of_nat (length rows + 1),
       (\<lparr>lr_log_id = word_of_nat (length rows + 1), lr_payload = text, lr_created_at_ms = 7\<rparr> # rows, c))),
     tb_rows = (\<lambda>key most (rows, c). take most rows),
     tb_count = (\<lambda>key rkey (rows, c). ((1, c), (rows, True)))\<rparr>"

abbreviation demo_wire :: "(log_row list \<times> bool) game wire" where
  "demo_wire \<equiv> wire_new (ctx_init (([], False), [])) [4, 1, 40, 7]"

lemmas demo_tables_sel = demo_tables_def tables.select_convs

lemma demo_saves: "tb_saves demo_tables key [0..<kCount] ([], False) =
    ([1, 2, 3, 4, 5], (map (\<lambda>i. \<lparr>lr_log_id = word_of_nat (i + 1), lr_payload = row_text (int i), lr_created_at_ms = 7\<rparr>) [4, 3, 2, 1, 0], False))"
  by (simp add: kCount_def upt_rec demo_tables_def)

lemma demo_counts:
  "tb_count demo_tables key rkey ([], False) = ((1, False), ([], True))"
  "tb_count demo_tables key rkey ([], True) = ((1, True), ([], True))"
  by (simp_all add: demo_tables_def)

lemma demo_rows:
  fixes rows :: "log_row list"
  defines "rows \<equiv> map (\<lambda>i. \<lparr>lr_log_id = word_of_nat (i + 1), lr_payload = row_text (int i), lr_created_at_ms = 7\<rparr>) [4, 3, 2, 1, 0]"
  shows "map lr_payload (tb_rows demo_tables key kCount (rows, False)) = map row_text [4, 3, 2, 1, 0]"
    "\<forall>row\<in>set (tb_rows demo_tables key kCount (rows, False)). lr_log_id row \<noteq> 0 \<and> lr_created_at_ms row \<noteq> 0"
    "sorted_wrt (<) [1, 2, 3, 4, 5 :: u64]"
  by (simp_all add: rows_def demo_tables_def kCount_def)


lemma demo_passes:
  "\<exists>n'. run_idem (wire_api (game_peer demo_readings demo_tables)) [] 9000 3 4 demo_wire = Some (Inr [], n')"
  "\<exists>n'. run_verify (wire_api (game_peer demo_readings demo_tables)) [] 9000 demo_wire = Some (Inr [], n')"
  by (rule server_passes_idem[OF refl refl demo_counts], rule server_passes_verify[OF refl demo_saves demo_rows(3,1,2)])

theorem idem_run_passes_only_if_applied_once_witness:
  "\<exists>n' k key hits flag rest. run_idem (wire_api (game_peer demo_readings demo_tables)) [] 9000 3 4 demo_wire = Some (Inr [], n') \<and>
     flag \<noteq> 0 \<and> so_got (wi_socks n') k = frame_bytes kSessionAck (enc_str key) @
       frame_bytes kCounterAck (enc_u64 hits @ enc_u8 0) @ frame_bytes kCounterAck (enc_u64 hits @ enc_u8 flag) @ rest"
proof -
  obtain n1 where n1: "run_idem (wire_api (game_peer demo_readings demo_tables)) [] 9000 3 4 demo_wire = Some (Inr [], n1)"
    using demo_passes(1) by blast
  with idem_run_passes_only_if_applied_once[OF wire.stream_socket_axioms, of "game_peer demo_readings demo_tables" "[]" 9000 3 4 demo_wire]
  have "\<exists>k key hits flag rest. flag \<noteq> 0 \<and> so_got (wi_socks n1) k = frame_bytes kSessionAck (enc_str key) @
       frame_bytes kCounterAck (enc_u64 hits @ enc_u8 0) @ frame_bytes kCounterAck (enc_u64 hits @ enc_u8 flag) @ rest"
    unfolding n1 option.inject prod.inject exit_code_0 by blast
  with n1 show ?thesis by blast
qed

theorem verify_run_passes_only_if_rows_come_back_witness:
  "\<exists>n' k key acks rows rest. run_verify (wire_api (game_peer demo_readings demo_tables)) [] 9000 demo_wire = Some (Inr [], n') \<and>
     length acks = 5 \<and> map lr_payload rows = map row_text [4, 3, 2, 1, 0] \<and>
     so_got (wi_socks n') k = frame_bytes kSessionAck (enc_str key) @ concat (map (frame_bytes kSaveAck) acks) @
       frame_bytes kHistoryAck (history_answer rows) @ rest"
proof -
  obtain n1 where n1: "run_verify (wire_api (game_peer demo_readings demo_tables)) [] 9000 demo_wire = Some (Inr [], n1)"
    using demo_passes(2) by blast
  with verify_run_passes_only_if_rows_come_back[OF wire.stream_socket_axioms, of "game_peer demo_readings demo_tables" "[]" 9000 demo_wire]
  have "\<exists>k key acks rows rest. length acks = 5 \<and> map lr_payload rows = map row_text [4, 3, 2, 1, 0] \<and>
     so_got (wi_socks n1) k = frame_bytes kSessionAck (enc_str key) @ concat (map (frame_bytes kSaveAck) acks) @
       frame_bytes kHistoryAck (history_answer rows) @ rest"
    unfolding n1 option.inject prod.inject exit_code_0 by blast
  with n1 show ?thesis by blast
qed

end
