(* ===== verification/Bench_Load.thy ===== *)
theory Bench_Load
  imports Bench_Client App_Types
begin

text \<open>
  The load run of the benchmark client (\<^verbatim>\<open>bench/bot_client.cpp\<close>, \<^verbatim>\<open>run_load\<close>): bots on the connections of \<^verbatim>\<open>net/io_service\<close>, whose
  handlers send the next request when the answer to the last one has come, listeners and talkers for the chat, and the
  numbers the run prints. A handler is a step on the shared state \<open>bots\<close>; what it does to its connection is a list of effects.
  The clock and the random bits it reads are arguments.
\<close>

section \<open>Messages with their time of sending\<close>

definition kChatStampChars :: nat where "kChatStampChars = 16"

definition make_chat_text :: "int \<Rightarrow> nat \<Rightarrow> bytes" where
  "make_chat_text sent_us payload =
     (let stamp = snd (snprintf (kChatStampChars + 1) (pad0 16 (hex (nat (sent_us mod 2 ^ 64)))));
          text = take kChatStampChars stamp in
      if payload > kChatStampChars then text @ replicate (payload - kChatStampChars) (of_char CHR ''c'') else text)"

fun stamp_digits :: "bytes \<Rightarrow> u64 \<Rightarrow> u64 option" where
  "stamp_digits [] v = Some v"
| "stamp_digits (c # cs) v =
     (if 48 \<le> c \<and> c \<le> 57 then stamp_digits cs (push_bit 4 v OR ucast (c - 48))
      else if 97 \<le> c \<and> c \<le> 102 then stamp_digits cs (push_bit 4 v OR ucast (c - 97 + 10))
      else None)"

definition read_chat_stamp :: "bytes \<Rightarrow> int" where
  "read_chat_stamp text =
     (if length text < kChatStampChars then 0
      else case stamp_digits (take kChatStampChars text) 0 of None \<Rightarrow> 0 | Some v \<Rightarrow> sint v)"

section \<open>Percentiles of the samples\<close>

text \<open>\<^verbatim>\<open>std::nth_element\<close> puts the element of that rank in its place.\<close>

definition sample_percentile :: "int list \<Rightarrow> rat \<Rightarrow> int" where
  "sample_percentile v p =
     (if v = [] then 0 else sort v ! nat \<lfloor>dmul p (double_of_int (int (length v) - 1))\<rfloor>)"

section \<open>The state of the run\<close>

record bot_session =
  bs_session_key :: bytes
  bs_sent_us :: int
  bs_rtt_us :: "int list"

record chat_totals =
  ct_sent :: u64
  ct_pushed :: u64
  ct_rejected :: u64
  ct_connected :: int
  ct_unnamed :: u64
  ct_latency_us :: "int list"

text \<open>The options that the handlers read, with \<^verbatim>\<open>request_id\<close> and \<^verbatim>\<open>payload\<close> as they are made from them.\<close>

record load_setup =
  ls_request_id :: u16
  ls_payload :: nat
  ls_talkers :: int

definition request_id_of :: "bytes \<Rightarrow> u16" where
  "request_id_of message =
     (if message = lit ''save'' then kSaveReq
      else if message = lit ''counter'' then kCounterReq
      else if message = lit ''history'' then kHistoryReq
      else kEchoReq)"

definition expect_id :: "load_setup \<Rightarrow> u16" where
  "expect_id L = ack_of (ls_request_id L)"

text \<open>\<open>bo_sessions\<close> and \<open>bo_samples\<close> hold what the handlers of a connection have captured.\<close>

record bots =
  bo_totals :: totals
  bo_chat :: chat_totals
  bo_sessions :: "conn_id \<Rightarrow> bot_session"
  bo_all :: "conn_id list"
  bo_samples :: "conn_id \<Rightarrow> int list"
  bo_talkers :: "conn_id list"
  bo_stop :: bool

definition bot_session_new :: bot_session where
  "bot_session_new = \<lparr>bs_session_key = [], bs_sent_us = 0, bs_rtt_us = []\<rparr>"

definition bots_new :: bots where
  "bots_new = \<lparr>bo_totals = totals_new,
     bo_chat = \<lparr>ct_sent = 0, ct_pushed = 0, ct_rejected = 0, ct_connected = 0, ct_unnamed = 0, ct_latency_us = []\<rparr>,
     bo_sessions = (\<lambda>_. bot_session_new), bo_all = [], bo_samples = (\<lambda>_. []), bo_talkers = [], bo_stop = False\<rparr>"

text \<open>The readings of one handler: the clock when a message is looked at and when one is sent, and the bits of a key.\<close>

record bot_reading =
  br_now :: int
  br_sent :: int
  br_hi :: u64
  br_lo :: u64

definition on_totals :: "(totals \<Rightarrow> totals) \<Rightarrow> bots \<Rightarrow> bots" where
  "on_totals f b = b\<lparr>bo_totals := f (bo_totals b)\<rparr>"

definition on_chat :: "(chat_totals \<Rightarrow> chat_totals) \<Rightarrow> bots \<Rightarrow> bots" where
  "on_chat f b = b\<lparr>bo_chat := f (bo_chat b)\<rparr>"

definition on_session :: "conn_id \<Rightarrow> (bot_session \<Rightarrow> bot_session) \<Rightarrow> bots \<Rightarrow> bots" where
  "on_session c f b = b\<lparr>bo_sessions := (bo_sessions b)(c := f (bo_sessions b c))\<rparr>"

definition one_error :: "bots \<Rightarrow> bots" where
  "one_error = on_totals (\<lambda>t. t\<lparr>to_errors := to_errors t + 1\<rparr>)"

section \<open>The game bots\<close>

definition request_body :: "load_setup \<Rightarrow> bot_reading \<Rightarrow> bytes" where
  "request_body L r =
     (if ls_request_id L = kCounterReq then bw_str (make_session_key (br_hi r) (br_lo r)) []
      else if ls_request_id L = kHistoryReq then bw_u16 10 []
      else bw_str (replicate (ls_payload L) (of_char CHR ''x'')) [])"

definition send_request :: "load_setup \<Rightarrow> bot_reading \<Rightarrow> conn_id \<Rightarrow> bots \<Rightarrow> bots \<times> effect list" where
  "send_request L r c b =
     (let w = request_body L r;
          b = on_session c (\<lambda>s. s\<lparr>bs_sent_us := br_sent r\<rparr>) b in
      (on_totals (\<lambda>t. t\<lparr>to_sent := to_sent t + 1\<rparr>) b, [Send c (ls_request_id L) w (bw_size w)]))"

definition unless_stopped :: "load_setup \<Rightarrow> bot_reading \<Rightarrow> conn_id \<Rightarrow> bots \<Rightarrow> bots \<times> effect list" where
  "unless_stopped L r c b = (if bo_stop b then (b, []) else send_request L r c b)"

definition fatal_code :: "u16 \<Rightarrow> bool" where
  "fatal_code code \<longleftrightarrow> code < 10"

definition error_code_of :: "frame_view \<Rightarrow> u16" where
  "error_code_of f =
     (case rd_u16 (mk_reader (fv_body f) (fv_size f)) of (origin, r) \<Rightarrow> fst (rd_u16 r))"

definition game_message :: "load_setup \<Rightarrow> bot_reading \<Rightarrow> conn_id \<Rightarrow> frame_view \<Rightarrow> bots \<Rightarrow> bots \<times> effect list" where
  "game_message L r c f b =
     (if fv_msg_id f = kSessionAck then
        let b = on_session c (\<lambda>s. s\<lparr>bs_session_key := fst (rd_str (mk_reader (fv_body f) (fv_size f)))\<rparr>) b;
            b = on_totals (\<lambda>t. t\<lparr>to_connected := to_connected t + 1\<rparr>) b in
        unless_stopped L r c b
      else if fv_msg_id f = kErrorAck then
        let b = on_totals (\<lambda>t. t\<lparr>to_rejected := to_rejected t + 1\<rparr>) b in
        if fatal_code (error_code_of f) then (one_error b, [Close c])
        else unless_stopped L r c b
      else if fv_msg_id f = kChatPush then
        (on_chat (\<lambda>h. h\<lparr>ct_pushed := ct_pushed h + 1\<rparr>) b, [])
      else if fv_msg_id f \<noteq> expect_id L then (one_error b, [Close c])
      else
        let b = on_session c (\<lambda>s. s\<lparr>bs_rtt_us := bs_rtt_us s @ [br_now r - bs_sent_us s]\<rparr>) b;
            b = on_totals (\<lambda>t. t\<lparr>to_received := to_received t + 1\<rparr>) b in
        unless_stopped L r c b)"

definition on_game_connected :: "conn_id \<Rightarrow> bots \<Rightarrow> bots" where
  "on_game_connected c b = b\<lparr>bo_all := bo_all b @ [c], bo_sessions := (bo_sessions b)(c := bot_session_new)\<rparr>"

definition game_closed :: "bots \<Rightarrow> bots" where
  "game_closed = on_totals (\<lambda>t. t\<lparr>to_closed := to_closed t + 1\<rparr>)"

section \<open>The chat bots\<close>

definition chat_push :: "load_setup \<Rightarrow> bot_reading \<Rightarrow> conn_id \<Rightarrow> frame_view \<Rightarrow> bots \<Rightarrow> bots" where
  "chat_push L r c f b =
     (case rd_str (mk_reader (fv_body f) (fv_size f)) of (from_whom, rd) \<Rightarrow>
      case rd_str rd of (text, rd) \<Rightarrow>
        let b = (if from_whom = [] then on_chat (\<lambda>h. h\<lparr>ct_unnamed := ct_unnamed h + 1\<rparr>) b else b);
            sent_us = read_chat_stamp text;
            b = (if sent_us > 0 then b\<lparr>bo_samples := (bo_samples b)(c := bo_samples b c @ [br_now r - sent_us])\<rparr> else b) in
        on_chat (\<lambda>h. h\<lparr>ct_pushed := ct_pushed h + 1\<rparr>) b)"

definition chat_bot_message :: "load_setup \<Rightarrow> bot_reading \<Rightarrow> conn_id \<Rightarrow> frame_view \<Rightarrow> bots \<Rightarrow> bots \<times> effect list" where
  "chat_bot_message L r c f b =
     (if fv_msg_id f = kSessionAck then
        let i = ct_connected (bo_chat b);
            b = on_chat (\<lambda>h. h\<lparr>ct_connected := ct_connected h + 1\<rparr>) b in
        (if i < ls_talkers L then b\<lparr>bo_talkers := bo_talkers b @ [c]\<rparr> else b, [])
      else if fv_msg_id f = kChatPush then (chat_push L r c f b, [])
      else if fv_msg_id f = kErrorAck then
        let b = on_chat (\<lambda>h. h\<lparr>ct_rejected := ct_rejected h + 1\<rparr>) b in
        if fatal_code (error_code_of f) then (one_error b, [Close c]) else (b, [])
      else (b, []))"

definition on_chat_connected :: "conn_id \<Rightarrow> bots \<Rightarrow> bots" where
  "on_chat_connected c b = b\<lparr>bo_samples := (bo_samples b)(c := [])\<rparr>"

definition chat_closed :: "conn_id \<Rightarrow> bots \<Rightarrow> bots" where
  "chat_closed c b =
     on_chat (\<lambda>h. h\<lparr>ct_latency_us := ct_latency_us h @ bo_samples b c\<rparr>)
       (on_totals (\<lambda>t. t\<lparr>to_closed := to_closed t + 1\<rparr>) b)"

text \<open>One round of the thread that talks, over the copy it has taken of the talkers, with what \<^verbatim>\<open>closed()\<close> and the clock say.\<close>

fun talk_round :: "load_setup \<Rightarrow> (conn_id \<Rightarrow> bool) \<Rightarrow> (conn_id \<Rightarrow> int) \<Rightarrow> conn_id list \<Rightarrow> bots \<Rightarrow> bots \<times> effect list" where
  "talk_round L gone now [] b = (b, [])"
| "talk_round L gone now (c # cs) b =
     (if gone c then talk_round L gone now cs b
      else
        let w = bw_str (make_chat_text (now c) (max (ls_payload L) 16)) [];
            b = on_chat (\<lambda>h. h\<lparr>ct_sent := ct_sent h + 1\<rparr>) b in
        case talk_round L gone now cs b of (b, fx) \<Rightarrow> (b, Send c kChatReq w (bw_size w) # fx))"

section \<open>The run\<close>

text \<open>What can happen while the run is on, in the order in which the threads do it.\<close>

datatype bot_event =
    Connect_failed
  | Game_up conn_id | Game_frame conn_id frame_view bot_reading | Game_down
  | Chat_up conn_id | Chat_frame conn_id frame_view bot_reading | Chat_down conn_id
  | Talk_now "conn_id \<Rightarrow> bool" "conn_id \<Rightarrow> int"
  | Stop_now

fun bot_step :: "load_setup \<Rightarrow> bot_event \<Rightarrow> bots \<Rightarrow> bots \<times> effect list" where
  "bot_step L Connect_failed b = (one_error b, [])"
| "bot_step L (Game_up c) b = (on_game_connected c b, [])"
| "bot_step L (Game_frame c f r) b = game_message L r c f b"
| "bot_step L Game_down b = (game_closed b, [])"
| "bot_step L (Chat_up c) b = (on_chat_connected c b, [])"
| "bot_step L (Chat_frame c f r) b = chat_bot_message L r c f b"
| "bot_step L (Chat_down c) b = (chat_closed c b, [])"
| "bot_step L (Talk_now gone now) b = (if bo_stop b then (b, []) else talk_round L gone now (bo_talkers b) b)"
| "bot_step L Stop_now b = (b\<lparr>bo_stop := True\<rparr>, [])"

fun bot_run :: "load_setup \<Rightarrow> bot_event list \<Rightarrow> bots \<Rightarrow> bots \<times> effect list" where
  "bot_run L [] b = (b, [])"
| "bot_run L (e # es) b =
     (case bot_step L e b of (b, fx) \<Rightarrow> case bot_run L es b of (b, gx) \<Rightarrow> (b, fx @ gx))"

text \<open>Waiting until all are connected: at most 200 looks, with a pause after each that finds too few.\<close>

definition waits :: "int \<Rightarrow> int list \<Rightarrow> nat" where
  "waits wanted looks = length (takeWhile (\<lambda>n. n < wanted) (take 200 looks))"

text \<open>What is printed at the end, as numbers.\<close>

record load_report =
  lr_elapsed_ms :: int
  lr_wait_ms :: int
  lr_throughput :: rat
  lr_rtt :: "int \<times> int \<times> int \<times> nat"
  lr_fanout :: rat
  lr_push_rate :: rat
  lr_chat_latency :: "int \<times> int \<times> int \<times> nat"

definition quantiles_of :: "int list \<Rightarrow> int \<times> int \<times> int \<times> nat" where
  "quantiles_of v = (sample_percentile v (rnd (1/2)), sample_percentile v (rnd (95/100)), sample_percentile v (rnd (99/100)), length v)"

definition dbl :: "u64 \<Rightarrow> rat" where
  "dbl w = double_of_int (uint w)"

text \<open>
  \<open>at_base\<close> is the state when the measurement begins, \<open>at_stop\<close> when the counters are read after the talking thread has ended,
  and \<open>at_end\<close> after \<^verbatim>\<open>io.stop()\<close>; the three times are \<^verbatim>\<open>begin_ms\<close>, \<^verbatim>\<open>measure_begin_ms\<close> and the last reading.
\<close>

definition load_report_of :: "bots \<Rightarrow> bots \<Rightarrow> bots \<Rightarrow> int \<Rightarrow> int \<Rightarrow> int \<Rightarrow> load_report" where
  "load_report_of at_base at_stop at_end begin_ms measure_ms end_ms =
     (let elapsed = max 1 (end_ms - measure_ms);
          recv = to_received (bo_totals at_stop) - to_received (bo_totals at_base);
          chat_sent = ct_sent (bo_chat at_stop);
          chat_pushed = ct_pushed (bo_chat at_stop);
          rtts = concat (map (\<lambda>c. bs_rtt_us (bo_sessions at_end c)) (bo_all at_end)) in
      \<lparr>lr_elapsed_ms = elapsed, lr_wait_ms = measure_ms - begin_ms,
       lr_throughput = ddiv (dmul (dbl recv) 1000) (double_of_int elapsed),
       lr_rtt = quantiles_of rtts,
       lr_fanout = (if chat_sent \<noteq> 0 then ddiv (dbl chat_pushed) (dbl chat_sent) else 0),
       lr_push_rate = ddiv (dmul (dbl chat_pushed) 1000) (double_of_int elapsed),
       lr_chat_latency = quantiles_of (ct_latency_us (bo_chat at_end))\<rparr>)"

definition load_exit :: "bots \<Rightarrow> int" where
  "load_exit b = (if to_errors (bo_totals b) = 0 then 0 else 1)"

text \<open>The run as a whole: nothing without the I/O service; else the phases one after the other.\<close>

definition run_load ::
  "bool \<Rightarrow> load_setup \<Rightarrow> bot_event list \<Rightarrow> bot_event list \<Rightarrow> bot_event list \<Rightarrow> int \<times> int \<times> int \<Rightarrow> int \<times> load_report option" where
  "run_load io_up L connecting measuring leaving clock =
     (if \<not> io_up then (1, None)
      else
        let at_base = fst (bot_run L connecting bots_new);
            at_stop = fst (bot_run L (measuring @ [Stop_now]) at_base);
            at_end = fst (bot_run L leaving at_stop) in
        (case clock of (begin_ms, measure_ms, end_ms) \<Rightarrow>
          (load_exit at_end, Some (load_report_of at_base at_stop at_end begin_ms measure_ms end_ms))))"

section \<open>The stamp\<close>

lemma stamp_digits_append:
  "stamp_digits (xs @ ys) v = (case stamp_digits xs v of None \<Rightarrow> None | Some u \<Rightarrow> stamp_digits ys u)"
  by (induction xs v rule: stamp_digits.induct) simp_all

lemma digit_value:
  assumes "d < 16"
  shows "stamp_digits [digit d] v = Some (push_bit 4 v OR word_of_nat d)"
proof -
  have "d \<in> {0, 1, 2, 3, 4, 5, 6, 7, 8, 9, 10, 11, 12, 13, 14, 15}" using assms by (simp, presburger)
  then show ?thesis by (auto simp: digit_def)
qed

lemma push_digit:
  assumes "d < 16"
  shows "push_bit 4 (word_of_nat m) OR word_of_nat d = (word_of_nat (16 * m + d) :: u64)"
proof -
  have low: "push_bit 4 v AND take_bit 4 x = 0" for v x :: u64 by (simp add: bit_eq_iff bit_simps)
  have "word_of_nat d = (take_bit 4 (word_of_nat d) :: u64)"
    using assms take_bit_nat_eq_self[of d 4] by (simp add: take_bit_of_nat)
  then have "push_bit 4 (word_of_nat m) AND (word_of_nat d :: u64) = 0"
    by (metis low)
  then have "push_bit 4 (word_of_nat m :: u64) OR word_of_nat d = push_bit 4 (word_of_nat m) + word_of_nat d"
    by (simp add: disjunctive_add_eq_or)
  then show ?thesis by (simp add: push_bit_eq_mult)
qed

lemma stamp_of_hex:
  assumes "n < 16 ^ w" "1 \<le> w"
  shows "length (pad0 w (hex n)) = w \<and> stamp_digits (pad0 w (hex n)) (word_of_nat m) = Some (word_of_nat (m * 16 ^ w + n))"
  using assms
proof (induction w arbitrary: n)
  case (Suc w)
  note digit = digit_value push_digit
  show ?case
  proof (cases "w = 0")
    case True
    then have n: "n < 16" using Suc.prems(1) by simp
    then have "pad0 1 (hex n) = [digit n]" by (subst hex.simps) (simp add: pad0_def)
    with True n show ?thesis
      by (simp add: digit_value push_digit mult.commute del: stamp_digits.simps of_nat_add of_nat_mult)
  next
    case False
    have d: "n div 16 < 16 ^ w" using Suc.prems(1) by (simp add: less_mult_imp_div_less mult.commute)
    have split: "pad0 (Suc w) (hex n) = pad0 w (hex (n div 16)) @ [digit (n mod 16)]"
    proof (cases "n < 16")
      case True
      then have "hex n = [digit n]" "hex 0 = [digit 0]" by (simp_all add: hex.simps)
      moreover have "digit 0 = 48" by (simp add: digit_def)
      ultimately show ?thesis using True False
        by (cases w) (simp_all add: pad0_def replicate_append_same)
    next
      case False
      then have "hex n = hex (n div 16) @ [digit (n mod 16)]" by (subst hex.simps) simp
      then show ?thesis by (simp add: pad0_def)
    qed
    have w: "1 \<le> w" using False by simp
    have e: "m * 16 ^ Suc w + n = 16 * (m * 16 ^ w + n div 16) + n mod 16" by simp
    from Suc.IH[OF d w] show ?thesis
      unfolding e by (simp add: split stamp_digits_append digit_value push_digit del: stamp_digits.simps of_nat_add of_nat_mult power_Suc)
  qed
qed simp

lemma stamp_in_text:
  "make_chat_text t payload = pad0 16 (hex (nat (t mod 2 ^ 64))) @ replicate (payload - 16) (of_char CHR ''c'')"
  "length (pad0 16 (hex (nat (t mod 2 ^ 64)))) = 16"
  "stamp_digits (pad0 16 (hex (nat (t mod 2 ^ 64)))) 0 = Some (word_of_int t)"
proof -
  have b: "nat (t mod 2 ^ 64) < 16 ^ 16" by (simp add: nat_less_iff)
  from stamp_of_hex[OF b, of 0] have h: "length (pad0 16 (hex (nat (t mod 2 ^ 64)))) = 16"
    "stamp_digits (pad0 16 (hex (nat (t mod 2 ^ 64)))) 0 = Some (word_of_nat (nat (t mod 2 ^ 64)))" by simp_all
  have "(word_of_nat (nat (t mod 2 ^ 64)) :: u64) = word_of_int (t mod 2 ^ 64)" by (simp add: of_nat_nat)
  also have "\<dots> = word_of_int t" by (simp add: word_of_int_eq_iff take_bit_eq_mod)
  finally show "stamp_digits (pad0 16 (hex (nat (t mod 2 ^ 64)))) 0 = Some (word_of_int t)" using h(2) by simp
  show "make_chat_text t payload = pad0 16 (hex (nat (t mod 2 ^ 64))) @ replicate (payload - 16) (of_char CHR ''c'')"
    using h(1) by (simp add: make_chat_text_def snprintf_def kChatStampChars_def Let_def)
qed (use stamp_of_hex[of "nat (t mod 2 ^ 64)" 16 0] in \<open>simp add: nat_less_iff\<close>)

text \<open>A percentile is one of the samples: the rank is never past the end.\<close>

lemma percentile_is_a_sample:
  assumes "v \<noteq> []" "0 \<le> p" "p \<le> 1" "length v < 2 ^ 53"
  shows "sample_percentile v p \<in> set v"
proof -
  let ?n = "int (length v) - 1"
  have "0 < length v" using assms(1) by simp
  moreover have "int (length v) < int (2 ^ 53)" using assms(4) by (simp only: of_nat_less_iff)
  ultimately have n: "0 \<le> ?n" "\<bar>?n\<bar> < 2 ^ 53" by simp_all
  have d: "double_of_int ?n = of_int ?n" using rnd_int[OF n(2)] by (simp add: double_of_int_def)
  have "p * of_int ?n \<le> 1 * of_int ?n" by (rule mult_right_mono[OF assms(3)]) (simp only: of_int_0_le_iff n(1))
  then have "dmul p (double_of_int ?n) \<le> of_int ?n" using rnd_mono rnd_int[OF n(2)] by (metis d dmul_def mult_1)
  then have "\<lfloor>dmul p (double_of_int ?n)\<rfloor> \<le> ?n" by (metis floor_mono floor_of_int)
  then have "nat \<lfloor>dmul p (double_of_int ?n)\<rfloor> \<le> nat ?n" by (rule nat_mono)
  also have "\<dots> < length (sort v)" using n(1) by (simp add: nat_less_iff)
  finally have "nat \<lfloor>dmul p (double_of_int ?n)\<rfloor> < length (sort v)" .
  then show ?thesis using assms(1) by (simp add: sample_percentile_def) (metis nth_mem set_sort length_sort)
qed

section \<open>What a run counts\<close>

text \<open>The frames that make a bot send, the answers among them, and what counts as an error.\<close>

definition is_answer :: "load_setup \<Rightarrow> frame_view \<Rightarrow> bool" where
  "is_answer L f \<longleftrightarrow> fv_msg_id f \<notin> {kSessionAck, kErrorAck, kChatPush} \<and> fv_msg_id f = expect_id L"

definition asks_next :: "load_setup \<Rightarrow> frame_view \<Rightarrow> bool" where
  "asks_next L f \<longleftrightarrow> fv_msg_id f = kSessionAck \<or> fv_msg_id f = kErrorAck \<and> \<not> fatal_code (error_code_of f) \<or> is_answer L f"

fun goes_wrong :: "load_setup \<Rightarrow> bot_event \<Rightarrow> bool" where
  "goes_wrong L Connect_failed \<longleftrightarrow> True"
| "goes_wrong L (Game_frame c f r) \<longleftrightarrow> fv_msg_id f \<noteq> kChatPush \<and> \<not> asks_next L f"
| "goes_wrong L (Chat_frame c f r) \<longleftrightarrow> fv_msg_id f = kErrorAck \<and> fatal_code (error_code_of f)"
| "goes_wrong L _ \<longleftrightarrow> False"

fun brings_answer :: "load_setup \<Rightarrow> bot_event \<Rightarrow> bool" where
  "brings_answer L (Game_frame c f r) \<longleftrightarrow> is_answer L f"
| "brings_answer L _ \<longleftrightarrow> False"

fun prompts :: "load_setup \<Rightarrow> conn_id \<Rightarrow> bot_event \<Rightarrow> bool" where
  "prompts L c (Game_frame c' f r) \<longleftrightarrow> c' = c \<and> asks_next L f"
| "prompts L c _ \<longleftrightarrow> False"

definition requests_to :: "load_setup \<Rightarrow> conn_id \<Rightarrow> effect list \<Rightarrow> effect list" where
  "requests_to L c fx = filter (\<lambda>e. case e of Send c' i w n \<Rightarrow> c' = c \<and> i = ls_request_id L | _ \<Rightarrow> False) fx"

lemma requests_to_simps [simp]:
  "requests_to L c [] = []" "requests_to L c (fx @ gx) = requests_to L c fx @ requests_to L c gx"
  by (simp_all add: requests_to_def)

lemmas bot_defs = on_totals_def on_chat_def on_session_def one_error_def unless_stopped_def send_request_def

lemma talk_round_counts:
  assumes "ls_request_id L \<noteq> kChatReq"
  shows "bo_totals (fst (talk_round L gone now cs b)) = bo_totals b" "bo_stop (fst (talk_round L gone now cs b)) = bo_stop b"
    "requests_to L c (snd (talk_round L gone now cs b)) = []"
  using assms by (induction cs arbitrary: b) (auto simp: bot_defs requests_to_def case_prod_beta Let_def)

lemma acks_differ: "kErrorAck \<noteq> kChatPush" "kChatPush \<noteq> kErrorAck" "kErrorAck \<noteq> kSessionAck" "kSessionAck \<noteq> kErrorAck"
  by (simp_all add: msg_ids)

lemma game_message_counts:
  "to_errors (bo_totals (fst (game_message L r c f b))) =
     to_errors (bo_totals b) + (if fv_msg_id f \<noteq> kChatPush \<and> \<not> asks_next L f then 1 else 0)"
  "to_received (bo_totals (fst (game_message L r c f b))) = to_received (bo_totals b) + (if is_answer L f then 1 else 0)"
  "bo_stop (fst (game_message L r c f b)) = bo_stop b"
  "length (requests_to L c' (snd (game_message L r c f b))) = (if \<not> bo_stop b \<and> c = c' \<and> asks_next L f then 1 else 0)"
  by (auto simp: game_message_def bot_defs asks_next_def is_answer_def requests_to_def Let_def acks_differ)

lemma chat_message_counts:
  "to_errors (bo_totals (fst (chat_bot_message L r c f b))) =
     to_errors (bo_totals b) + (if fv_msg_id f = kErrorAck \<and> fatal_code (error_code_of f) then 1 else 0)"
  "to_received (bo_totals (fst (chat_bot_message L r c f b))) = to_received (bo_totals b)"
  "bo_stop (fst (chat_bot_message L r c f b)) = bo_stop b"
  "requests_to L c' (snd (chat_bot_message L r c f b)) = []"
  by (auto simp: chat_bot_message_def chat_push_def bot_defs requests_to_def Let_def acks_differ split: prod.split)

lemma bot_step_counts:
  assumes "ls_request_id L \<noteq> kChatReq"
  shows "to_errors (bo_totals (fst (bot_step L e b))) = to_errors (bo_totals b) + (if goes_wrong L e then 1 else 0)"
    "to_received (bo_totals (fst (bot_step L e b))) = to_received (bo_totals b) + (if brings_answer L e then 1 else 0)"
    "bo_stop (fst (bot_step L e b)) = (bo_stop b \<or> e = Stop_now)"
    "length (requests_to L c (snd (bot_step L e b))) = (if \<not> bo_stop b \<and> prompts L c e then 1 else 0)"
  using talk_round_counts[OF assms]
  by (cases e; simp add: game_message_counts chat_message_counts bot_defs on_game_connected_def on_chat_connected_def
      game_closed_def chat_closed_def)+

lemma bot_run_counts:
  assumes "ls_request_id L \<noteq> kChatReq"
  shows "to_errors (bo_totals (fst (bot_run L es b))) = to_errors (bo_totals b) + word_of_nat (length (filter (goes_wrong L) es))"
    "to_received (bo_totals (fst (bot_run L es b))) = to_received (bo_totals b) + word_of_nat (length (filter (brings_answer L) es))"
    "length (requests_to L c (snd (bot_run L es b))) =
      (if bo_stop b then 0 else length (filter (prompts L c) (takeWhile (\<lambda>e. e \<noteq> Stop_now) es)))"
  by (induction es arbitrary: b) (simp_all add: case_prod_beta bot_step_counts[OF assms])

section \<open>Properties\<close>

text \<open>
  The latency a chat bot notes for a message is the time from its sending to its arrival. The stamp a talker writes survives
  the text, the frame of the push and the reading, for every value of the clock; the text has the length that was asked for.
\<close>

theorem chat_latency_is_from_send_to_arrival:
  assumes "int64_range t" "0 < t" "str_fits name" "str_fits (make_chat_text t payload)"
    and "length (enc_str name @ enc_str (make_chat_text t payload)) \<le> 1024"
    and "fv_body f = enc_str name @ enc_str (make_chat_text t payload)" "fv_size f = bw_size (fv_body f)"
  shows "read_chat_stamp (make_chat_text t payload) = t \<and> length (make_chat_text t payload) = max 16 payload \<and>
    bo_samples (chat_push L r c f b) c = bo_samples b c @ [br_now r - t]"
proof -
  have stamp: "read_chat_stamp (make_chat_text t payload) = t"
    using sint_of_int64[OF assms(1)] stamp_in_text(2,3)[of t]
    by (simp add: read_chat_stamp_def kChatStampChars_def stamp_in_text(1))
  let ?r = "mk_reader (fv_body f) (fv_size f)"
  note rd = body_reader[OF assms(5)]
  have 1: "fst (rd_str ?r) = name" "rd_ok (snd (rd_str ?r))" "unread (snd (rd_str ?r)) = enc_str (make_chat_text t payload)"
    using str.dec_enc[OF rd(1) rd_ok_mk assms(3) rd(2)] assms(6,7) by simp_all
  have wf: "reader_wf (snd (rd_str ?r))" using str.dec_wf[OF rd(1)] assms(6,7) by simp
  have 2: "fst (rd_str (snd (rd_str ?r))) = make_chat_text t payload"
    by (rule str.dec_value[OF wf 1(2) assms(4) 1(3)])
  show ?thesis
    using assms(2) stamp 1(1) 2 stamp_in_text(2)[of t]
    by (simp add: chat_push_def case_prod_beta on_chat_def Let_def stamp_in_text(1))
qed

abbreviation demo_push :: frame_view where
  "demo_push \<equiv> (let body = enc_str [65] @ enc_str (make_chat_text 1000 20) in
     \<lparr>fv_msg_id = kChatPush, fv_body = body, fv_size = bw_size body\<rparr>)"

theorem chat_latency_is_from_send_to_arrival_witness:
  "bo_samples (chat_push \<lparr>ls_request_id = kEchoReq, ls_payload = 20, ls_talkers = 1\<rparr>
     \<lparr>br_now = 1250, br_sent = 0, br_hi = 0, br_lo = 0\<rparr> 3 demo_push bots_new) 3 = [250]"
proof -
  have len: "length (make_chat_text 1000 20) = 20" using stamp_in_text(2)[of 1000] by (simp add: stamp_in_text(1))
  show ?thesis
    using chat_latency_is_from_send_to_arrival[of 1000 "[65]" 20 demo_push
        "\<lparr>ls_request_id = kEchoReq, ls_payload = 20, ls_talkers = 1\<rparr>" "\<lparr>br_now = 1250, br_sent = 0, br_hi = 0, br_lo = 0\<rparr>" 3 bots_new]
    by (simp add: Let_def int64_range_def str_fits_def len width_simps bots_new_def)
qed



end
