(* ===== verification/Bench_Main.thy ===== *)
theory Bench_Main
  imports Bench_Session Bench_Load Server_Config
begin

text \<open>
  The options and the \<^verbatim>\<open>main\<close> of the benchmark client (\<^verbatim>\<open>bench/bot_client.cpp\<close>), and what its runs cannot take: an answer of the
  server that is longer than the parser they share with it lets in.
\<close>

section \<open>Options\<close>

record bench_options =
  bn_host :: bytes
  bn_port :: u16
  bn_connections :: int
  bn_seconds :: int
  bn_payload :: int
  bn_churn :: int
  bn_mode :: bytes
  bn_message :: bytes
  bn_chat :: int
  bn_talkers :: int
  bn_chat_period :: int

definition bench_defaults :: bench_options where
  "bench_defaults = \<lparr>bn_host = lit ''127.0.0.1'', bn_port = 9000, bn_connections = 1, bn_seconds = 10, bn_payload = 64,
     bn_churn = 0, bn_mode = lit ''load'', bn_message = lit ''echo'', bn_chat = 0, bn_talkers = 1, bn_chat_period = 10\<rparr>"

text \<open>The loop over \<^verbatim>\<open>argv\<close> from the second entry on; an option that is the last argument is passed over, like one that is unknown.\<close>

fun parse_args :: "bytes list \<Rightarrow> bench_options \<Rightarrow> bench_options" where
  "parse_args (a # v # rest) b =
     (if a = lit ''--host'' then parse_args rest (b\<lparr>bn_host := v\<rparr>)
      else if a = lit ''--port'' then parse_args rest (b\<lparr>bn_port := to_u16 (atoi v)\<rparr>)
      else if a = lit ''--connections'' then parse_args rest (b\<lparr>bn_connections := atoi v\<rparr>)
      else if a = lit ''--seconds'' then parse_args rest (b\<lparr>bn_seconds := atoi v\<rparr>)
      else if a = lit ''--payload'' then parse_args rest (b\<lparr>bn_payload := atoi v\<rparr>)
      else if a = lit ''--churn'' then parse_args rest (b\<lparr>bn_churn := atoi v, bn_mode := lit ''churn''\<rparr>)
      else if a = lit ''--mode'' then parse_args rest (b\<lparr>bn_mode := v\<rparr>)
      else if a = lit ''--message'' then parse_args rest (b\<lparr>bn_message := v\<rparr>)
      else if a = lit ''--chat'' then parse_args rest (b\<lparr>bn_chat := atoi v\<rparr>)
      else if a = lit ''--talkers'' then parse_args rest (b\<lparr>bn_talkers := atoi v\<rparr>)
      else if a = lit ''--chat-period'' then parse_args rest (b\<lparr>bn_chat_period := atoi v\<rparr>)
      else parse_args (v # rest) b)"
| "parse_args _ b = b"

definition bench_parse :: "bytes list \<Rightarrow> bench_options" where
  "bench_parse argv = parse_args (tl argv) bench_defaults"

text \<open>
  What \<^verbatim>\<open>run_load\<close> makes of them. A payload below zero is a length no \<^verbatim>\<open>std::string\<close> can have: the exception of its constructor
  ends the process (\<open>None\<close>).
\<close>

definition load_setup_of :: "bench_options \<Rightarrow> load_setup option" where
  "load_setup_of b =
     (if bn_payload b < 0 then None
      else Some \<lparr>ls_request_id = request_id_of (bn_message b), ls_payload = nat (bn_payload b), ls_talkers = bn_talkers b\<rparr>)"

section \<open>\<^verbatim>\<open>main\<close>\<close>

text \<open>
  \<open>wsa\<close> says whether \<^verbatim>\<open>WSAStartup\<close> succeeds, \<open>io_up\<close> whether the I/O service starts, \<open>es\<close> and \<open>clk\<close> what happens in the three phases
  of a load run. The exit code, or \<open>None\<close> where a run goes on without end or an exception ends the process.
\<close>

definition bench_main ::
  "'n winsock \<Rightarrow> bool \<Rightarrow> u64 \<Rightarrow> u64 \<Rightarrow> bool \<Rightarrow> bot_event list \<times> bot_event list \<times> bot_event list \<Rightarrow> int \<times> int \<times> int \<Rightarrow>
     bytes list \<Rightarrow> 'n \<Rightarrow> int option" where
  "bench_main W wsa hi lo io_up es clk argv n =
     (let b = bench_parse argv; host = bn_host b; port = bn_port b;
          needs_winsock = (bn_mode b \<noteq> lit ''load'') in
      if needs_winsock \<and> \<not> wsa then Some 1
      else if bn_mode b = lit ''idem'' then map_option (\<lambda>(r, n). exit_code r) (run_idem W host port hi lo n)
      else if bn_mode b = lit ''verify'' then map_option (\<lambda>(r, n). exit_code r) (run_verify W host port n)
      else if bn_mode b = lit ''chatverify'' then map_option (\<lambda>(r, n). exit_code r) (run_chat_verify W host port n)
      else if bn_mode b = lit ''churn'' then map_option fst (run_churn W host port (bn_connections b) (bn_churn b) n)
      else if \<not> io_up then Some 1
      else case load_setup_of b of
             None \<Rightarrow> None
           | Some L \<Rightarrow> (case es of (es1, es2, es3) \<Rightarrow> Some (fst (run_load io_up L es1 es2 es3 clk))))"

section \<open>Properties\<close>

text \<open>
  C40: the client cannot take every answer the server may give. Ten rows with payloads of 85 bytes or more are within what the
  server sends, but the parser of the client takes their frame for a malformed one: \<^verbatim>\<open>recv_message\<close> fails, and a bot closes its
  connection, which counts as closed and not as an error, so that a load run with \<^verbatim>\<open>--message history\<close> still returns 0.
\<close>

theorem long_history_ends_the_bot:
  assumes "length rows = 10" "\<forall>row\<in>set rows. 85 \<le> length (lr_payload row) \<and> length (lr_payload row) \<le> 512"
    and "cl_buf (fst s) = frame_bytes kHistoryAck (history_answer rows)"
  shows "bw_size (history_answer rows) \<le> kMaxOutboundBody \<and> recv_message W s = Some (None, s) \<and>
    parse_stream (cl_buf (fst s) @ rest) = ([], cl_buf (fst s) @ rest, Malformed) \<and>
    load_exit (fst (bot_step L Game_down b)) = load_exit b"
proof -
  let ?b = "history_answer rows"
  have body: "?b = enc_u16 10 @ concat (map enc_row rows)"
    using assms(1) by (simp add: history_answer_def history_body response_init_def)
  have "103 * length rows \<le> length (concat (map enc_row rows))"
    using assms(2) by (induction rows) (auto simp: enc_row_def width_simps)
  moreover have "length (concat (map enc_row rows)) \<le> length rows * 530" using length_rows assms(2) by blast
  ultimately have len: "1032 \<le> length ?b" "length ?b \<le> 5302" using assms(1) by (simp_all add: body width_simps)
  then have sz: "unat (bw_size ?b) = length ?b" by (simp add: bw_size_def unat_of_nat take_bit_nat_eq_self_iff)
  have l32: "load_be32 (frame_bytes kHistoryAck ?b @ r) = bw_size ?b" for r
    by (simp add: frame_bytes_def write_header_def codec_simps)
  have l32': "load_be32 (frame_bytes kHistoryAck ?b) = bw_size ?b" using l32[of "[]"] by simp
  have six: "6 \<le> length (frame_bytes kHistoryAck ?b)" by (simp add: length_frame_bytes kHeaderSize_def)
  have "to_int32 (int (length (cl_buf (fst s)))) = int (length (cl_buf (fst s)))"
    using len by (intro to_int32_id) (simp_all add: assms(3) length_frame_bytes kHeaderSize_def)
  moreover have "peek_frame (cl_buf (fst s)) (int (length (cl_buf (fst s)))) = TooLarge"
    using len six sz by (subst peek_frame_eq) (simp_all add: assms(3) l32' Let_def length_frame_bytes kHeaderSize_def)
  ultimately have "recv_message W s = Some (None, s)" by (subst recv_message.simps) simp
  moreover have "parse_stream (cl_buf (fst s) @ rest) = ([], cl_buf (fst s) @ rest, Malformed)"
    using len six sz by (intro parse_stream_cases(2)) (simp_all add: assms(3) l32)
  moreover have "bw_size ?b \<le> kMaxOutboundBody" using len sz by (simp add: kMaxOutboundBody_def word_le_nat_alt)
  ultimately show ?thesis by (simp add: load_exit_def game_closed_def on_totals_def)
qed

abbreviation long_rows :: "log_row list" where
  "long_rows \<equiv> replicate 10 \<lparr>lr_log_id = 1, lr_payload = replicate 100 120, lr_created_at_ms = 7\<rparr>"

theorem long_history_ends_the_bot_witness:
  "bw_size (history_answer long_rows) \<le> kMaxOutboundBody \<and>
   recv_message (wire_api (game_peer demo_readings demo_tables))
     (\<lparr>cl_socket = Some 0, cl_buf = frame_bytes kHistoryAck (history_answer long_rows), cl_key = []\<rparr>, demo_wire) =
   Some (None, \<lparr>cl_socket = Some 0, cl_buf = frame_bytes kHistoryAck (history_answer long_rows), cl_key = []\<rparr>, demo_wire)"
  using long_history_ends_the_bot[of long_rows
      "(\<lparr>cl_socket = Some 0, cl_buf = frame_bytes kHistoryAck (history_answer long_rows), cl_key = []\<rparr>, demo_wire)"
      "wire_api (game_peer demo_readings demo_tables)"] by simp

text \<open>Options are read from the left, the last one counts, and \<^verbatim>\<open>--churn\<close> chooses its mode.\<close>

lemma options_example:
  "bench_parse [lit ''bot'', lit ''--port'', lit ''9100'', lit ''--what'', lit ''--churn'', lit ''3'', lit ''--host''] =
     bench_defaults\<lparr>bn_port := 9100, bn_churn := 3, bn_mode := lit ''churn''\<rparr>"
  by (simp add: bench_parse_def bench_defaults_def lit_def atoi_def digits_value_def is_digit_def to_u16_def)

end
