(* ===== verification/Spec2Isabelle.thy ===== *)
theory Spec2Isabelle
  imports Server_Main Logic_Thread Logic_Owner Connector Clock Worker_Wait Bench_Chat Bench_Main
begin

text \<open>
  A model of the echo server under \<^verbatim>\<open>src/src\<close>, a C++ program for Windows that serves many TCP connections through a
  completion port, and of the client under \<^verbatim>\<open>src/bench\<close> that verifies and loads it.

  \<^bold>\<open>The program.\<close> Worker threads take completions from the port (\<^verbatim>\<open>net/io_service\<close>), cut the received bytes into frames
  (\<^verbatim>\<open>net/connection\<close>, \<^verbatim>\<open>proto/frame\<close>) and put every frame as an event into the queue of a service (\<^verbatim>\<open>app/service_router\<close>,
  \<^verbatim>\<open>app/service\<close>). Every service owns lanes; a lane is a queue, a state and a thread (\<^verbatim>\<open>core/logic_thread\<close>) that takes turns
  over the queue. The game service (\<^verbatim>\<open>app/game_service\<close>, \<^verbatim>\<open>app/handlers\<close>) answers, or hands a request to the database
  workers (\<^verbatim>\<open>db/db_worker_pool\<close>, \<^verbatim>\<open>db/request_dispatcher\<close>, \<^verbatim>\<open>db/mysql_connection\<close>), whose responses come back to the queue of
  the lane. The chat service (\<^verbatim>\<open>app/broadcast_service\<close>) sends a message to all members.

  \<^bold>\<open>The theories\<close>, from the bottom up; each names its source files at its head, and its definitions have the names of the
  functions they translate, with a prefix for the class.

  \<^item> Bytes: \<open>Byte_Order\<close>, \<open>Byte_Codec\<close> (\<^verbatim>\<open>ByteReader\<close>, \<^verbatim>\<open>ByteWriter\<close>), \<open>Frame\<close> (\<^verbatim>\<open>peek_frame\<close>, \<^verbatim>\<open>write_header\<close>, message ids).
  \<^item> Containers and values: \<open>Receive_Buffer\<close>, \<open>Swap_Queue\<close>, \<open>Uuid\<close>, \<open>Ieee_Double\<close> and \<open>Rate_Limiter\<close>, \<open>Latency\<close>.
  \<^item> Network: \<open>Connection\<close> (one socket with its buffers and its requests to the kernel), \<open>Connection_Run\<close> (its handlers
    among the other threads), \<open>Delivery\<close> (what a run of them hands to the server), \<open>Io_Service\<close> (the table of the connections,
    dispatch, sweep, shutdown), \<open>Socket_Ledger\<close>, \<open>Acceptor\<close> and \<open>Connector\<close> (the sockets from their making to their owner).
  \<^item> Services: \<open>App_Types\<close>, \<open>Session_Table\<close>, \<open>Handlers\<close>, \<open>Service\<close> (the skeleton shared by both services), \<open>Game_Service\<close>,
    \<open>Broadcast_Service\<close>, \<open>Service_Router\<close>, \<open>Logic_Thread\<close>, the loop that runs the turns, and \<open>Logic_Owner\<close>, whose thread it is.
  \<^item> Database: \<open>Request_Dispatcher\<close>, \<open>Mysql_Connection\<close>, \<open>Worker_Pool\<close>, and \<open>Worker_Wait\<close>, how its workers wait.
  \<^item> Around them: \<open>Text_Format\<close> (\<^verbatim>\<open>snprintf\<close>, numbers as text), \<open>Logger\<close>, \<open>Ini_Reader\<close>, \<open>Admin_Server\<close>, \<open>Metrics\<close> (the page of
    the counters), and the entry point \<^verbatim>\<open>main.cpp\<close>: \<open>Server\<close>, the callbacks by which it joins the connections with the router,
    \<open>Server_Config\<close>, the settings it reads, and \<open>Server_Main\<close>, the order in which it starts and stops the parts. \<open>Clock\<close> says how
    the readings of the clocks are made.
  \<^item> The client \<^verbatim>\<open>bot_client.cpp\<close>: \<open>Bench_Client\<close>, its blocking client and the verification runs, with the locale
    \<open>stream_socket\<close> of what they rely on; \<open>Bench_Wire\<close>, a network that meets it; \<open>Bench_Verify\<close> and \<open>Bench_Session\<close>, what the
    runs say about a server, and the runs against the handlers of the game service; \<open>Bench_Chat\<close>, the runs with many connections;
    \<open>Bench_Load\<close>, the bots of the load run; \<open>Bench_Main\<close>, the options and the choice of the mode.

  \<^bold>\<open>How the state corresponds to the code.\<close> A class is a record of its fields, a method a function on it; machine integers
  are words of their width, or \<open>int\<close> where the code stays in range, with the conversions written out (\<open>to_int32\<close>,
  \<open>narrow_int\<close>). A pointer to bytes is the list of the bytes from there on. What a method does to other objects is either
  a state it returns (\<open>io_env\<close> for the counters and the application behind a connection, the state of the pool) or a list of
  effects (\<open>effect\<close>: a frame sent, a connection closed, paused or resumed, a message to another service), in the order of the
  calls. Fields that are not in the code, such as the bytes a connection has accepted or the items a thread has taken, are
  named as such where the record is declared; they are written and never read.

  \<^bold>\<open>Threads.\<close> A method that holds the mutex of its object for its whole body is one step. Where threads meet, a theory has a
  step relation, and its properties hold in every reachable state: \<open>Connection_Run\<close> cuts the handlers before the check that
  posts the next receive; \<open>Io_Service\<close> interleaves workers, senders, the acceptor and the two halves of the sweep;
  \<open>Service\<close> interleaves posts and turns, \<open>Worker_Pool\<close> submitters and workers; \<open>Logic_Thread\<close> and \<open>Worker_Wait\<close> cut at every access
  to a shared variable, the mutex and the condition variable; \<open>Socket_Ledger\<close>, \<open>Acceptor\<close> and \<open>Connector\<close> interleave the
  requests in the kernel with stopping; \<open>Logger\<close> the callers of the log with the writer; \<open>Server_Main\<close> runs the main thread
  among all others. Accesses are taken to be sequentially consistent; the code
  orders the accesses that matter by mutexes and by release and acquire.

  \<^bold>\<open>Parameters.\<close> The kernel and the C library are arguments: \<open>h_os\<close> says which requests to the
  kernel are accepted, the clock and the random bits are readings passed in, the MySQL client library is the record of functions
  \<open>mysql_api\<close> on an arbitrary server state, the blocking sockets of the client are the record
  \<open>winsock\<close>, \<^verbatim>\<open>std::hash\<close> is an arbitrary function. A database call of the game service is
  the function \<open>db_ref\<close>, instantiated by the pool. Every property holds for all of them unless it states a
  hypothesis, and a witness applies it to concrete ones.

  \<^bold>\<open>Loops.\<close> Loops over data are structural recursion. Loops that poll the clock (\<^verbatim>\<open>drain\<close>, \<^verbatim>\<open>flush_pending\<close>) run over the list of
  the readings they make and give \<open>None\<close> while they go on; it is proved that they end once the deadline has passed. The
  inner loop of a database worker has fuel, and \<open>dynamic_loop_returns\<close> shows that one turn more than there are requests
  is enough. The loop of a lane is a step relation with a measure.

  \<^bold>\<open>What is proved.\<close> No byte of an accepted frame is lost or reordered on the wire while the connection is open; frames are
  delivered the same however the network cuts the stream; a connection is freed only when the kernel holds no request of
  it, and every closed one gets there; every message of a session is answered once or handed to the database once, with the
  session key that belongs to it; the database answers the requests of a key in order and exactly once; a counter request
  leaves no transaction open; queues keep their bounds and a lane with work has been woken, and a wake-up is not lost;
  the codec, the histogram, the limiter and the receive buffer do what their callers rely on; a socket has one owner at a time
  and a connect request is reused only when it is finished; the log loses only what it counts; the page shows every counter
  under its name; a setting counts only in its own section; and \<^verbatim>\<open>main\<close> stops whatever it started, in the order that
  lets the rest drain. The runs of the client end whatever the server sends and pass only if the server kept its promises, and
  against the handlers of the game service they do pass. Where the code does not
  keep such a promise, a property shows the run in which it fails.

  \<^bold>\<open>Not modelled.\<close> The wording of the log lines of \<^verbatim>\<open>main\<close> and of the lines the client prints; the tests and the scripts,
  which are not part of the programs.
\<close>

end
